(* ===== verification/Prelude.thy ===== *)
theory Prelude
  imports Main "HOL-Library.Word" "HOL-Library.AList"
begin

text \<open>
  The vocabulary that the component theories share: the machine integer types
  of the Go sources, the outcome of an operation that may panic, and the
  generic facts on lists, finite sums and words that the component proofs use.

  A Go \<^verbatim>\<open>uint32\<close> is a \<^typ>\<open>32 word\<close>, a byte an \<^typ>\<open>8 word\<close>, and a 32-byte
  hash, read as a big-endian number, a \<^typ>\<open>256 word\<close>, so that Go's array
  equality and \<^verbatim>\<open>bytes.Compare\<close> are equality and order of the word. Go maps
  whose iteration order is observable are association lists with distinct
  keys, the list order standing for the iteration order; the other maps are
  functions into \<^verbatim>\<open>option\<close>.
\<close>

section \<open>Types\<close>

type_synonym byte = "8 word"
type_synonym bytes = "byte list"
type_synonym u32 = "32 word"
type_synonym u64 = "64 word"

type_synonym ValidatorID = u32
type_synonym Weight = u32
type_synonym Epoch = u32
type_synonym Event_seq = u32
type_synonym Frame = u32
type_synonym Lamport = u32
type_synonym hash_event = "256 word"

named_theorems wf_simps \<open>unfolding rules of the well-formedness predicates\<close>
named_theorems len_simps \<open>lengths and sizes of the model's containers\<close>

section \<open>Go slices\<close>

text \<open>Reading a slice out of range panics: the value is then \<^const>\<open>None\<close>.\<close>

definition slice_get :: "'a list \<Rightarrow> nat \<Rightarrow> 'a option" where
  "slice_get xs i = (if i < length xs then Some (xs ! i) else None)"

lemma slice_get_Some [simp]: "i < length xs \<Longrightarrow> slice_get xs i = Some (xs ! i)"
  by (simp add: slice_get_def)

lemma slice_get_None [simp]: "\<not> i < length xs \<Longrightarrow> slice_get xs i = None"
  by (simp add: slice_get_def)

lemma slice_get_eq_SomeD: "slice_get xs i = Some x \<Longrightarrow> i < length xs \<and> x = xs ! i"
  by (auto simp: slice_get_def split: if_splits)

text \<open>A loop whose body may panic.\<close>

fun fold_option :: "('s \<Rightarrow> 'a \<Rightarrow> 's option) \<Rightarrow> 'a list \<Rightarrow> 's \<Rightarrow> 's option" where
  "fold_option f [] s = Some s"
| "fold_option f (x # xs) s =
    (case f s x of None \<Rightarrow> None | Some s1 \<Rightarrow> fold_option f xs s1)"

lemma fold_option_append:
  "fold_option f (xs @ ys) s = Option.bind (fold_option f xs s) (fold_option f ys)"
  by (induction xs arbitrary: s) (auto split: option.splits)

section \<open>Lists\<close>

lemma map_of_zip_upt_nth:
  assumes "distinct ks" and "i < length ks"
  shows "map_of (zip ks [0..<length ks]) (ks ! i) = Some i"
  using assms by (simp add: map_of_zip_nth)

lemma map_of_zip_upt_SomeD:
  assumes "map_of (zip ks [0..<length ks]) k = Some i"
  shows "i < length ks \<and> ks ! i = k"
proof -
  have "(k, i) \<in> set (zip ks [0..<length ks])"
    using assms by (rule map_of_SomeD)
  then show ?thesis by (auto simp: set_zip)
qed

lemma sum_list_nth_atLeast:
  fixes xs :: "nat list"
  shows "sum_list xs = (\<Sum>i<length xs. xs ! i)"
  by (simp add: sum_list_sum_nth atLeast0LessThan)

lemma list_update_append_replicate:
  assumes "length xs = i"
  shows "(xs @ replicate (Suc n) z)[i := v] = (xs @ [v]) @ replicate n z"
  using assms by (simp add: list_update_append)

section \<open>Words\<close>

lemma unat_less_pow: "unat (a :: 'a::len word) < 2 ^ LENGTH('a)"
  by (rule unsigned_less)

lemma word_add_overflow_iff:
  fixes a b :: "'a::len word"
  shows "a + b < a \<longleftrightarrow> 2 ^ LENGTH('a) \<le> unat a + unat b"
proof (cases "unat a + unat b < 2 ^ LENGTH('a)")
  case True
  then have "unat (a + b) = unat a + unat b"
    by (simp add: unat_word_ariths)
  with True show ?thesis
    by (simp add: word_less_nat_alt)
next
  case False
  have "unat (a + b) = (unat a + unat b) mod 2 ^ LENGTH('a)"
    by (simp add: unat_word_ariths)
  also have "\<dots> = unat a + unat b - 2 ^ LENGTH('a)"
  proof -
    have "unat a + unat b - 2 ^ LENGTH('a) < 2 ^ LENGTH('a)"
      using unat_less_pow [of a] unat_less_pow [of b] by linarith
    then show ?thesis
      using False by (simp add: le_mod_geq)
  qed
  finally show ?thesis
    unfolding word_less_nat_alt using False unat_less_pow [of b] by linarith
qed

lemma unat_add_no_overflow:
  fixes a b :: "'a::len word"
  assumes "unat a + unat b < 2 ^ LENGTH('a)"
  shows "unat (a + b) = unat a + unat b"
  using assms by (simp add: unat_word_ariths)

lemma unat_Suc_no_overflow:
  fixes a :: "'a::len word"
  assumes "unat a + 1 < 2 ^ LENGTH('a)"
  shows "unat (a + 1) = unat a + 1"
  using assms unat_add_no_overflow [of a 1] by (cases "LENGTH('a)") auto

lemma word_of_nat_unat: "of_nat (unat a) = (a :: 'a::len word)"
  by simp

lemma word_eq_add_1_iff:
  fixes a b :: "'a::len word"
  assumes "0 < unat a"
  shows "a = b + 1 \<longleftrightarrow> unat a = Suc (unat b)"
proof
  assume "a = b + 1"
  moreover from this have "b + 1 \<noteq> 0" using assms by (auto simp: unat_gt_0)
  ultimately show "unat a = Suc (unat b)" by (metis add.commute unatSuc)
next
  assume "unat a = Suc (unat b)"
  then show "a = b + 1" by (metis Suc_eq_plus1 of_nat_1 of_nat_add word_of_nat_unat)
qed

section \<open>Unbounded numbers as bytes\<close>

text \<open>\<^verbatim>\<open>big.Int.Bytes\<close>: big-endian, without leading zeros.\<close>

fun big_Bytes :: "nat \<Rightarrow> bytes" where
  "big_Bytes n = (if n = 0 then [] else big_Bytes (n div 256) @ [of_nat (n mod 256)])"

declare big_Bytes.simps [simp del]

lemma length_big_Bytes: "length (big_Bytes n) \<le> L \<longleftrightarrow> n < 256 ^ L"
proof (induction n arbitrary: L rule: big_Bytes.induct)
  case (1 n)
  show ?case
  proof (cases "n = 0")
    case False
    then show ?thesis
      using 1 by (cases L) (simp_all add: big_Bytes.simps [of n] div_less_iff_less_mult mult.commute)
  qed (simp add: big_Bytes.simps)
qed

end
