(* ===== verification/Bytes.thy ===== *)
theory Bytes
  imports Prelude "HOL-Library.List_Lexorder"
begin

text \<open>
  Byte representations: \<^verbatim>\<open>common/bigendian\<close>, \<^verbatim>\<open>common/littleendian\<close>, the index
  types of \<^verbatim>\<open>inter/idx\<close> and the event identifiers of \<^verbatim>\<open>hash/event_hash.go\<close>. The
  lemmas are the round trips and that the big-endian form keeps the order, so
  that the byte order of an event identifier sorts by epoch, then by Lamport
  time.
\<close>

unbundle bit_operations_syntax

section \<open>Byte strings of words\<close>

text \<open>
  Go's \<^verbatim>\<open>binary.LittleEndian\<close>: \<^verbatim>\<open>PutUint\<close> writes the bytes from the least
  significant one, \<^verbatim>\<open>Uint\<close> reads the first bytes of a slice and panics on a
  shorter one. \<^verbatim>\<open>binary.BigEndian\<close> is the reverse order.
\<close>

primrec put_le :: "nat \<Rightarrow> 'a::len word \<Rightarrow> bytes" where
  "put_le 0 w = []"
| "put_le (Suc n) w = ucast w # put_le n (drop_bit 8 w)"

primrec get_le :: "bytes \<Rightarrow> 'a::len word" where
  "get_le [] = 0"
| "get_le (b # bs) = ucast b OR push_bit 8 (get_le bs)"

definition put_be :: "nat \<Rightarrow> 'a::len word \<Rightarrow> bytes" where
  "put_be n w = rev (put_le n w)"

definition get_be :: "bytes \<Rightarrow> 'a::len word" where
  "get_be bs = get_le (rev bs)"

lemma length_put_le [len_simps, simp]: "length (put_le n w) = n"
  by (induction n arbitrary: w) auto

lemma length_put_be [len_simps, simp]: "length (put_be n w) = n"
  by (simp add: put_be_def)

lemma nth_put_le: "i < n \<Longrightarrow> put_le n w ! i = ucast (drop_bit (8 * i) w)"
proof (induction n arbitrary: w i)
  case (Suc n)
  show ?case
  proof (cases i)
    case (Suc j)
    have "drop_bit (8 * j) (drop_bit 8 w) = drop_bit (8 * Suc j) w"
      by (simp add: drop_bit_drop_bit add.commute)
    with Suc Suc.IH [of j] Suc.prems show ?thesis by simp
  qed simp
qed simp

lemma bit_get_le:
  "bit (get_le bs :: 'a::len word) k \<longleftrightarrow>
    k < LENGTH('a) \<and> k div 8 < length bs \<and> bit (bs ! (k div 8)) (k mod 8)"
proof (induction bs arbitrary: k)
  case (Cons b bs)
  show ?case
  proof (cases "k < 8")
    case True
    then show ?thesis
      by (auto simp: bit_simps not_le dest: bit_imp_le_length)
  next
    case False
    then obtain j where k: "k = j + 8" by (metis add.commute le_Suc_ex not_less)
    have div: "k div 8 = Suc (j div 8)" "k mod 8 = j mod 8" by (simp_all add: k div_add1_eq)
    have "\<not> bit b k" using False bit_imp_le_length [of b k] by auto
    then show ?thesis
      using Cons.IH [of j] bit_imp_le_length [of "get_le bs :: 'a word" j]
      by (auto simp: div bit_simps) (auto simp: k)
  qed
qed simp

lemma get_le_put_le: "get_le (put_le n w) = take_bit (8 * n) w"
proof (rule bit_word_eqI)
  fix k
  assume "k < LENGTH('a)"
  have "k div 8 < n \<longleftrightarrow> k < 8 * n" by linarith
  then show "bit (get_le (put_le n w) :: 'a word) k \<longleftrightarrow> bit (take_bit (8 * n) w) k"
    using \<open>k < LENGTH('a)\<close> by (auto simp: bit_get_le nth_put_le bit_simps)
qed

lemma put_le_get_le:
  assumes "length bs = n" and "8 * n \<le> LENGTH('a::len)"
  shows "put_le n (get_le bs :: 'a word) = bs"
proof (rule nth_equalityI)
  fix i
  assume "i < length (put_le n (get_le bs :: 'a word))"
  then have i: "i < n" by simp
  show "put_le n (get_le bs :: 'a word) ! i = bs ! i"
  proof (rule bit_word_eqI)
    fix k assume "k < LENGTH(8)"
    then have k: "k < 8" by simp
    then have "(8 * i + k) div 8 = i" "(8 * i + k) mod 8 = k" "8 * i + k < 8 * n" using i by auto
    then show "bit (put_le n (get_le bs :: 'a word) ! i) k \<longleftrightarrow> bit (bs ! i) k"
      using i k assms by (simp add: nth_put_le bit_simps bit_get_le add.commute)
  qed
qed (use assms in simp)

lemma get_be_put_be: "get_be (put_be n w) = take_bit (8 * n) w"
  by (simp add: get_be_def put_be_def get_le_put_le)

lemma put_be_get_be:
  "length bs = n \<Longrightarrow> 8 * n \<le> LENGTH('a::len) \<Longrightarrow> put_be n (get_be bs :: 'a word) = bs"
  by (simp add: get_be_def put_be_def put_le_get_le)

lemma put_be_inj:
  fixes v w :: "'a::len word"
  assumes "LENGTH('a) \<le> 8 * n" and "put_be n v = put_be n w"
  shows "v = w"
proof -
  have "take_bit (8 * n) v = v" "take_bit (8 * n) w = w"
    using assms(1) by (auto simp: take_bit_word_eq_self)
  then show ?thesis using arg_cong [OF assms(2), of "get_be :: bytes \<Rightarrow> 'a word"]
    by (simp add: get_be_put_be)
qed

section \<open>Order\<close>

lemma put_be_Suc: "put_be (Suc n) w = ucast (drop_bit (8 * n) w) # put_be n w"
proof -
  have "put_le (Suc n) w = put_le n w @ [ucast (drop_bit (8 * n) w)]"
    by (rule nth_equalityI) (auto simp: nth_put_le nth_append less_Suc_eq simp del: put_le.simps)
  then show ?thesis by (simp add: put_be_def)
qed

lemma lex_compare:
  fixes a b c d m :: nat
  assumes "b < m" and "d < m"
  shows "a * m + b < c * m + d \<longleftrightarrow> a < c \<or> a = c \<and> b < d"
proof -
  have "a * m + b < c * m + d" if "a < c"
  proof -
    have "Suc a * m \<le> c * m" using that by (intro mult_le_mono1) simp
    then show ?thesis using assms(1) by simp
  qed
  moreover have "\<not> a * m + b < c * m + d" if "c < a"
  proof -
    have "Suc c * m \<le> a * m" using that by (intro mult_le_mono1) simp
    then show ?thesis using assms(2) by simp
  qed
  ultimately show ?thesis by (cases a c rule: linorder_cases) auto
qed

lemma unat_take_bit_Suc:
  fixes w :: "'a::len word"
  shows "unat w mod 2 ^ (8 * Suc n) =
    unat (ucast (drop_bit (8 * n) w) :: byte) * 2 ^ (8 * n) + unat w mod 2 ^ (8 * n)"
proof -
  have "unat (ucast (drop_bit (8 * n) w) :: byte) = (unat w div 2 ^ (8 * n)) mod 2 ^ 8"
    unfolding unsigned_ucast_eq unat_drop_bit_eq by (simp add: take_bit_eq_mod drop_bit_eq_div)
  moreover have "(2::nat) ^ (8 * Suc n) = 2 ^ (8 * n) * 2 ^ 8"
    by (simp add: power_add)
  ultimately show ?thesis
    using mod_mult2_eq [of "unat w" "2 ^ (8 * n)" "2 ^ 8"] by simp
qed

lemma put_be_less_iff:
  "put_be n v < put_be n w \<longleftrightarrow> unat v mod 2 ^ (8 * n) < unat w mod 2 ^ (8 * n)"
proof (induction n)
  case (Suc n)
  show ?case
    unfolding put_be_Suc unat_take_bit_Suc [of v] unat_take_bit_Suc [of w]
    by (subst lex_compare) (auto simp: Suc word_less_nat_alt simp flip: word_unat_eq_iff)
qed (simp add: put_be_def)

lemma put_be_less:
  fixes v w :: "'a::len word"
  assumes "LENGTH('a) \<le> 8 * n"
  shows "put_be n v < put_be n w \<longleftrightarrow> v < w"
proof -
  have "unat x mod 2 ^ (8 * n) = unat x" for x :: "'a word"
  proof (rule mod_less)
    show "unat x < 2 ^ (8 * n)"
      using unat_less_pow [of x] power_increasing [OF assms, of "2::nat"] by linarith
  qed
  then show ?thesis by (simp add: put_be_less_iff word_less_nat_alt)
qed

section \<open>Package bigendian\<close>

definition bigendian_Uint64ToBytes :: "u64 \<Rightarrow> bytes" where
  "bigendian_Uint64ToBytes n = put_be 8 n"

definition bigendian_BytesToUint64 :: "bytes \<Rightarrow> u64 option" where
  "bigendian_BytesToUint64 b = (if length b < 8 then None else Some (get_be (take 8 b)))"

definition bigendian_Uint32ToBytes :: "u32 \<Rightarrow> bytes" where
  "bigendian_Uint32ToBytes n = put_be 4 n"

definition bigendian_BytesToUint32 :: "bytes \<Rightarrow> u32 option" where
  "bigendian_BytesToUint32 b = (if length b < 4 then None else Some (get_be (take 4 b)))"

definition bigendian_Uint16ToBytes :: "16 word \<Rightarrow> bytes" where
  "bigendian_Uint16ToBytes n = put_be 2 n"

definition bigendian_BytesToUint16 :: "bytes \<Rightarrow> 16 word option" where
  "bigendian_BytesToUint16 b = (if length b < 2 then None else Some (get_be (take 2 b)))"

section \<open>Package littleendian\<close>

definition littleendian_Uint64ToBytes :: "u64 \<Rightarrow> bytes" where
  "littleendian_Uint64ToBytes n = put_le 8 n"

definition littleendian_BytesToUint64 :: "bytes \<Rightarrow> u64 option" where
  "littleendian_BytesToUint64 b = (if length b < 8 then None else Some (get_le (take 8 b)))"

definition littleendian_Uint32ToBytes :: "u32 \<Rightarrow> bytes" where
  "littleendian_Uint32ToBytes n = put_le 4 n"

definition littleendian_BytesToUint32 :: "bytes \<Rightarrow> u32 option" where
  "littleendian_BytesToUint32 b = (if length b < 4 then None else Some (get_le (take 4 b)))"

definition littleendian_Uint16ToBytes :: "16 word \<Rightarrow> bytes" where
  "littleendian_Uint16ToBytes n = put_le 2 n"

definition littleendian_BytesToUint16 :: "bytes \<Rightarrow> 16 word option" where
  "littleendian_BytesToUint16 b = (if length b < 2 then None else Some (get_le (take 2 b)))"

section \<open>Package idx\<close>

definition Epoch_Bytes :: "Epoch \<Rightarrow> bytes" where
  "Epoch_Bytes e = bigendian_Uint32ToBytes e"

definition Event_Bytes :: "Event_seq \<Rightarrow> bytes" where
  "Event_Bytes e = bigendian_Uint32ToBytes e"

definition Block_Bytes :: "u64 \<Rightarrow> bytes" where
  "Block_Bytes b = bigendian_Uint64ToBytes b"

definition Lamport_Bytes :: "Lamport \<Rightarrow> bytes" where
  "Lamport_Bytes l = bigendian_Uint32ToBytes l"

definition Pack_Bytes :: "u32 \<Rightarrow> bytes" where
  "Pack_Bytes p = bigendian_Uint32ToBytes p"

definition ValidatorID_Bytes :: "ValidatorID \<Rightarrow> bytes" where
  "ValidatorID_Bytes s = bigendian_Uint32ToBytes s"

definition Frame_Bytes :: "Frame \<Rightarrow> bytes" where
  "Frame_Bytes f = bigendian_Uint32ToBytes f"

definition Validator_Bytes :: "u32 \<Rightarrow> bytes" where
  "Validator_Bytes v = bigendian_Uint32ToBytes v"

definition BytesToEpoch :: "bytes \<Rightarrow> Epoch option" where
  "BytesToEpoch b = bigendian_BytesToUint32 b"

definition BytesToEvent_seq :: "bytes \<Rightarrow> Event_seq option" where
  "BytesToEvent_seq b = bigendian_BytesToUint32 b"

definition BytesToBlock :: "bytes \<Rightarrow> u64 option" where
  "BytesToBlock b = bigendian_BytesToUint64 b"

definition BytesToLamport :: "bytes \<Rightarrow> Lamport option" where
  "BytesToLamport b = bigendian_BytesToUint32 b"

definition BytesToFrame :: "bytes \<Rightarrow> Frame option" where
  "BytesToFrame b = bigendian_BytesToUint32 b"

definition BytesToPack :: "bytes \<Rightarrow> u32 option" where
  "BytesToPack b = bigendian_BytesToUint32 b"

definition BytesToValidatorID :: "bytes \<Rightarrow> ValidatorID option" where
  "BytesToValidatorID b = bigendian_BytesToUint32 b"

definition BytesToValidator :: "bytes \<Rightarrow> u32 option" where
  "BytesToValidator b = bigendian_BytesToUint32 b"

definition MaxLamport :: "Lamport \<Rightarrow> Lamport \<Rightarrow> Lamport" where
  "MaxLamport x y = (if x > y then x else y)"

section \<open>Package hash\<close>

text \<open>The zero array, and the bytes of an identifier.\<close>

definition ZeroEvent :: hash_event where
  "ZeroEvent = 0"

definition hash_Bytes :: "hash_event \<Rightarrow> bytes" where
  "hash_Bytes h = put_be 32 h"

text \<open>\<^verbatim>\<open>Hash.SetBytes\<close>: crop from the left, or keep the high bytes of the old value.\<close>

definition SetBytes :: "hash_event \<Rightarrow> bytes \<Rightarrow> hash_event" where
  "SetBytes h b =
    (let b1 = (if length b > 32 then drop (length b - 32) b else b)
     in get_be (take (32 - length b1) (hash_Bytes h) @ b1))"

definition hash_FromBytes :: "bytes \<Rightarrow> hash_event" where
  "hash_FromBytes b = SetBytes 0 b"

definition BytesToEvent :: "bytes \<Rightarrow> hash_event" where
  "BytesToEvent b = hash_FromBytes b"

definition hash_Lamport :: "hash_event \<Rightarrow> Lamport option" where
  "hash_Lamport h = BytesToLamport (take 4 (drop 4 (hash_Bytes h)))"

definition hash_Epoch :: "hash_event \<Rightarrow> Epoch option" where
  "hash_Epoch h = BytesToEpoch (take 4 (hash_Bytes h))"

definition hash_IsZero :: "hash_event \<Rightarrow> bool" where
  "hash_IsZero h = (h = ZeroEvent)"

text \<open>\<^verbatim>\<open>OrderedEvents\<close>: the order of the byte arrays, and sorting by it.\<close>

definition OrderedEvents_Less :: "hash_event \<Rightarrow> hash_event \<Rightarrow> bool" where
  "OrderedEvents_Less a b = (hash_Bytes a < hash_Bytes b)"

definition ByEpochAndLamport :: "hash_event list \<Rightarrow> hash_event list" where
  "ByEpochAndLamport hh = sort_key hash_Bytes hh"

text \<open>\<^verbatim>\<open>EventsStack\<close>: the top of the stack is the end of the slice.\<close>

definition Stack_Push :: "hash_event list \<Rightarrow> hash_event \<Rightarrow> hash_event list" where
  "Stack_Push s v = s @ [v]"

definition Stack_PushAll :: "hash_event list \<Rightarrow> hash_event list \<Rightarrow> hash_event list" where
  "Stack_PushAll s vv = s @ vv"

definition Stack_Pop :: "hash_event list \<Rightarrow> (hash_event \<times> hash_event list) option" where
  "Stack_Pop s = (if length s = 0 then None else Some (s ! (length s - 1), take (length s - 1) s))"

text \<open>\<^verbatim>\<open>EventsSet\<close> as the set of its keys, \<^verbatim>\<open>Events.Set\<close> the keys of a slice.\<close>

definition Events_Set :: "hash_event list \<Rightarrow> hash_event set" where
  "Events_Set hh = set hh"

section \<open>Round trips\<close>

lemma bigendian_32 [simp]: "bigendian_BytesToUint32 (bigendian_Uint32ToBytes n) = Some n"
  by (simp add: bigendian_BytesToUint32_def bigendian_Uint32ToBytes_def get_be_put_be
      take_bit_word_eq_self)

lemma bigendian_32_append [simp]: "bigendian_BytesToUint32 (bigendian_Uint32ToBytes n @ bs) = Some n"
  by (simp add: bigendian_BytesToUint32_def bigendian_Uint32ToBytes_def get_be_put_be
      take_bit_word_eq_self)

lemma length_bigendian_32 [len_simps, simp]: "length (bigendian_Uint32ToBytes n) = 4"
  by (simp add: bigendian_Uint32ToBytes_def)

lemma length_hash_Bytes [len_simps, simp]: "length (hash_Bytes h) = 32"
  by (simp add: hash_Bytes_def)

lemma length_idx_Bytes [len_simps, simp]:
  "length (Epoch_Bytes e) = 4" "length (Lamport_Bytes l) = 4" "length (Frame_Bytes f) = 4"
  "length (ValidatorID_Bytes v) = 4" "length (Validator_Bytes i) = 4" "length (Event_Bytes q) = 4"
  by (simp_all add: Epoch_Bytes_def Lamport_Bytes_def Frame_Bytes_def ValidatorID_Bytes_def
      Validator_Bytes_def Event_Bytes_def)

lemma hash_Bytes_get_be: "length bs = 32 \<Longrightarrow> hash_Bytes (get_be bs) = bs"
  by (simp add: hash_Bytes_def put_be_get_be)

lemma hash_Bytes_inj: "hash_Bytes a = hash_Bytes b \<longleftrightarrow> a = b"
  using put_be_inj [of 32 a b] by (auto simp: hash_Bytes_def)

lemma BytesToEvent_Bytes [simp]: "BytesToEvent (hash_Bytes h) = h"
  by (simp add: BytesToEvent_def hash_FromBytes_def SetBytes_def hash_Bytes_def get_be_put_be
      take_bit_word_eq_self)

lemma OrderedEvents_Less_iff: "OrderedEvents_Less a b \<longleftrightarrow> a < b"
  by (simp add: OrderedEvents_Less_def hash_Bytes_def put_be_less)

lemma Stack_Pop_PushAll:
  "Stack_Pop s = (case rev s of [] \<Rightarrow> None | x # xs \<Rightarrow> Some (x, rev xs))"
  by (cases s rule: rev_cases) (simp_all add: Stack_Pop_def)

lemma Stack_Pop_snoc [simp]: "Stack_Pop (s @ [x]) = Some (x, s)"
  by (simp add: Stack_Pop_def)

lemma Stack_Pop_Nil [simp]: "Stack_Pop [] = None"
  by (simp add: Stack_Pop_def)

end
