(* ===== verification/Dag.thy ===== *)
theory Dag
  imports Bytes "HOL-Library.Product_Lexorder"
begin

text \<open>
  Events (\<^verbatim>\<open>inter/dag\<close>): the fields of \<^verbatim>\<open>BaseEvent\<close>, self-parents, and the
  identifier that \<^verbatim>\<open>SetID\<close> composes of the epoch, the Lamport time and a
  24-byte hash. The lemmas show that the identifier gives back its epoch and
  Lamport time and that identifiers are ordered by them.
\<close>

record BaseEvent =
  ev_epoch :: Epoch
  ev_seq :: Event_seq
  ev_frame :: Frame
  ev_creator :: ValidatorID
  ev_parents :: "hash_event list"
  ev_lamport :: Lamport
  ev_id :: hash_event

record Metric =
  Num :: u32
  Size :: u64

definition SelfParent :: "BaseEvent \<Rightarrow> hash_event option" where
  "SelfParent e = (if ev_seq e \<le> 1 \<or> length (ev_parents e) = 0 then None else Some (ev_parents e ! 0))"

definition IsSelfParent :: "BaseEvent \<Rightarrow> hash_event \<Rightarrow> bool" where
  "IsSelfParent e h = (case SelfParent e of None \<Rightarrow> False | Some p \<Rightarrow> p = h)"

definition Event_Size :: "BaseEvent \<Rightarrow> nat" where
  "Event_Size e = 4 + 4 + 4 + 4 + length (ev_parents e) * 32 + 4 + 32"

text \<open>
  The identifier as a byte array: \<^verbatim>\<open>copy\<close> into \<^verbatim>\<open>id[0:4]\<close>, \<^verbatim>\<open>id[4:8]\<close> and \<^verbatim>\<open>id[8:]\<close>;
  the argument is a 24-byte array.
\<close>

definition event_id :: "Epoch \<Rightarrow> Lamport \<Rightarrow> bytes \<Rightarrow> hash_event" where
  "event_id ep lam rID = get_be (Epoch_Bytes ep @ Lamport_Bytes lam @ rID)"

definition SetID :: "BaseEvent \<Rightarrow> bytes \<Rightarrow> BaseEvent" where
  "SetID e rID = e\<lparr>ev_id := event_id (ev_epoch e) (ev_lamport e) rID\<rparr>"

definition MutableBaseEvent_Build :: "BaseEvent \<Rightarrow> bytes \<Rightarrow> BaseEvent" where
  "MutableBaseEvent_Build me rID = me\<lparr>ev_id := event_id (ev_epoch me) (ev_lamport me) rID\<rparr>"

definition Events_Metric :: "BaseEvent list \<Rightarrow> Metric" where
  "Events_Metric ee =
    \<lparr>Num = of_nat (length ee), Size = fold (\<lambda>e s. s + of_nat (Event_Size e)) ee 0\<rparr>"

definition Events_IDs :: "BaseEvent list \<Rightarrow> hash_event list" where
  "Events_IDs ee = map ev_id ee"

section \<open>Identifiers\<close>

lemma hash_Bytes_event_id:
  "length rID = 24 \<Longrightarrow> hash_Bytes (event_id ep lam rID) = Epoch_Bytes ep @ Lamport_Bytes lam @ rID"
  unfolding event_id_def by (rule hash_Bytes_get_be) simp

lemma append_less_iff:
  fixes xs ys :: "'a::linorder list"
  assumes "length xs = length ys"
  shows "xs @ us < ys @ vs \<longleftrightarrow> xs < ys \<or> xs = ys \<and> us < vs"
  using assms by (induction xs ys rule: list_induct2) auto

lemma Bytes_less [simp]:
  "Epoch_Bytes a < Epoch_Bytes b \<longleftrightarrow> a < b" "Lamport_Bytes l < Lamport_Bytes m \<longleftrightarrow> l < m"
  "Epoch_Bytes a = Epoch_Bytes b \<longleftrightarrow> a = b" "Lamport_Bytes l = Lamport_Bytes m \<longleftrightarrow> l = m"
  by (auto simp: Epoch_Bytes_def Lamport_Bytes_def bigendian_Uint32ToBytes_def put_be_less
      dest: put_be_inj [rotated])

text \<open>
  C35: the identifier that \<^verbatim>\<open>SetID\<close> gives an event carries its epoch and its
  Lamport time, and the byte order by which \<^verbatim>\<open>ByEpochAndLamport\<close> sorts
  identifiers compares the epochs first, the Lamport times second and the
  24-byte hashes third.
\<close>

theorem SetID_roundtrip_and_order:
  assumes "length r = 24" and "length r' = 24"
  shows "hash_Epoch (ev_id (SetID e r)) = Some (ev_epoch e) \<and>
    hash_Lamport (ev_id (SetID e r)) = Some (ev_lamport e) \<and>
    (OrderedEvents_Less (ev_id (SetID e r)) (ev_id (SetID e' r')) \<longleftrightarrow>
      (ev_epoch e, ev_lamport e, r) < (ev_epoch e', ev_lamport e', r')) \<and>
    (ev_id (SetID e r) = ev_id (SetID e' r') \<longleftrightarrow>
      (ev_epoch e, ev_lamport e, r) = (ev_epoch e', ev_lamport e', r'))"
proof (intro conjI)
  show "hash_Epoch (ev_id (SetID e r)) = Some (ev_epoch e)"
    using assms(1) by (simp add: SetID_def hash_Epoch_def hash_Bytes_event_id BytesToEpoch_def)
      (simp add: Epoch_Bytes_def)
  show "hash_Lamport (ev_id (SetID e r)) = Some (ev_lamport e)"
    using assms(1) by (simp add: SetID_def hash_Lamport_def hash_Bytes_event_id BytesToLamport_def)
      (simp add: Lamport_Bytes_def)
  show "OrderedEvents_Less (ev_id (SetID e r)) (ev_id (SetID e' r')) \<longleftrightarrow>
      (ev_epoch e, ev_lamport e, r) < (ev_epoch e', ev_lamport e', r')"
    using assms
    by (auto simp: OrderedEvents_Less_def SetID_def hash_Bytes_event_id append_less_iff less_prod_def')
  have "ev_id (SetID e r) = ev_id (SetID e' r') \<longleftrightarrow>
      hash_Bytes (ev_id (SetID e r)) = hash_Bytes (ev_id (SetID e' r'))"
    by (simp add: hash_Bytes_inj)
  also have "\<dots> \<longleftrightarrow> (ev_epoch e, ev_lamport e, r) = (ev_epoch e', ev_lamport e', r')"
    using assms by (simp add: SetID_def hash_Bytes_event_id)
  finally show "ev_id (SetID e r) = ev_id (SetID e' r') \<longleftrightarrow>
      (ev_epoch e, ev_lamport e, r) = (ev_epoch e', ev_lamport e', r')" .
qed

definition sample_event :: "Epoch \<Rightarrow> Lamport \<Rightarrow> BaseEvent" where
  "sample_event ep lam = \<lparr>ev_epoch = ep, ev_seq = 1, ev_frame = 1, ev_creator = 1, ev_parents = [],
    ev_lamport = lam, ev_id = 0\<rparr>"

theorem SetID_roundtrip_and_order_witness:
  "OrderedEvents_Less (ev_id (SetID (sample_event 1 2) (replicate 24 9)))
    (ev_id (SetID (sample_event 1 3) (replicate 24 0)))"
  using SetID_roundtrip_and_order [of "replicate 24 9" "replicate 24 0" "sample_event 1 2"
      "sample_event 1 3"]
  by (simp add: sample_event_def)

end
