(* ===== verification/Quorum_System.thy ===== *)
theory Quorum_System
  imports Prelude
begin

text \<open>
  The contract of a weighted quorum system: what consensus relies on when it
  asks a validator group for its members, their weights and its quorum. The
  consequences proved here once (two quorums share more than a third of the
  weight; a quorum outweighs what is left of any other quorum) are used by
  fork exclusion and by the election; theory \<^verbatim>\<open>Pos\<close> shows that the validators
  of \<^verbatim>\<open>inter/pos\<close> satisfy the contract.
\<close>

locale weighted_quorum =
  fixes invar :: "'c \<Rightarrow> bool"
    and members :: "'c \<Rightarrow> 'v set"
    and weight :: "'c \<Rightarrow> 'v \<Rightarrow> nat"
    and quorum :: "'c \<Rightarrow> nat"
  assumes finite_members: "invar c \<Longrightarrow> finite (members c)"
    and quorum_bound: "invar c \<Longrightarrow> 2 * sum (weight c) (members c) < 3 * quorum c"
begin

lemma weight_split:
  assumes "invar c" and "A \<subseteq> members c" and "B \<subseteq> members c"
  shows "sum (weight c) A + sum (weight c) B \<le>
    sum (weight c) (members c) + sum (weight c) (A \<inter> B)"
proof -
  have fin: "finite A" "finite B"
    using assms finite_members finite_subset by blast+
  have "sum (weight c) (A \<union> B) \<le> sum (weight c) (members c)"
    using assms by (intro sum_mono2) (auto simp: finite_members)
  with sum.union_inter [OF fin, of "weight c"] show ?thesis by linarith
qed

lemma quorum_intersection:
  assumes "invar c" and "A \<subseteq> members c" and "B \<subseteq> members c"
    and "quorum c \<le> sum (weight c) A" and "quorum c \<le> sum (weight c) B"
  shows "sum (weight c) (members c) < 3 * sum (weight c) (A \<inter> B)"
  using weight_split [OF assms(1-3)] quorum_bound [OF assms(1)] assms(4,5) by linarith

lemma quorums_share_outside:
  assumes "invar c" and "A \<subseteq> members c" and "B \<subseteq> members c"
    and "quorum c \<le> sum (weight c) A" and "quorum c \<le> sum (weight c) B"
    and "F \<subseteq> members c" and "3 * sum (weight c) F \<le> sum (weight c) (members c)"
  obtains v where "v \<in> A" and "v \<in> B" and "v \<notin> F"
proof -
  have "\<not> A \<inter> B \<subseteq> F"
  proof
    assume sub: "A \<inter> B \<subseteq> F"
    have "sum (weight c) (A \<inter> B) \<le> sum (weight c) F"
      using sub finite_subset [OF assms(6) finite_members [OF assms(1)]]
      by (intro sum_mono2) auto
    with quorum_intersection [OF assms(1-5)] assms(7) show False by linarith
  qed
  then show ?thesis using that by blast
qed

lemma quorum_outweighs_rest:
  assumes "invar c" and "A \<subseteq> members c" and "B \<subseteq> members c"
    and "quorum c \<le> sum (weight c) A" and "quorum c \<le> sum (weight c) B"
  shows "sum (weight c) (B - A) < sum (weight c) (B \<inter> A)"
proof -
  have fin: "finite A" "finite B"
    using assms finite_members finite_subset by blast+
  have "sum (weight c) (B - A) + sum (weight c) A = sum (weight c) (A \<union> B)"
    using fin by (subst sum.union_disjoint [symmetric]) (auto intro: arg_cong2 [where f = sum])
  also have "\<dots> \<le> sum (weight c) (members c)"
    using assms by (intro sum_mono2) (auto simp: finite_members)
  finally have le: "sum (weight c) (B - A) + sum (weight c) A \<le> sum (weight c) (members c)" .
  have "sum (weight c) (B \<inter> A) + sum (weight c) (B - A) = sum (weight c) B"
    using fin by (subst sum.union_disjoint [symmetric]) (auto intro: arg_cong2 [where f = sum])
  with le quorum_bound [OF assms(1)] assms(4,5) show ?thesis by linarith
qed

lemma minority_below_quorum_half:
  assumes "invar c" and "A \<subseteq> members c" and "B \<subseteq> members c" and "A \<inter> B = {}"
    and "quorum c \<le> sum (weight c) A"
  shows "sum (weight c) B < quorum c"
proof -
  have "sum (weight c) A + sum (weight c) B \<le> sum (weight c) (members c)"
    using weight_split [OF assms(1-3)] assms(4) by simp
  with quorum_bound [OF assms(1)] assms(5) show ?thesis by linarith
qed

end

text \<open>
  The contract of a counter over a quorum system: it represents the set of the
  members counted so far, whatever the order and the repetitions.
\<close>

locale quorum_counter = weighted_quorum invar members weight quorum
  for invar :: "'c \<Rightarrow> bool" and members :: "'c \<Rightarrow> 'v set"
    and weight :: "'c \<Rightarrow> 'v \<Rightarrow> nat" and quorum :: "'c \<Rightarrow> nat" +
  fixes new_counter :: "'c \<Rightarrow> 'k"
    and count :: "'k \<Rightarrow> 'v \<Rightarrow> ('k \<times> bool) option"
    and has_quorum :: "'k \<Rightarrow> bool"
    and total :: "'k \<Rightarrow> nat"
    and represents :: "'c \<Rightarrow> 'k \<Rightarrow> 'v set \<Rightarrow> bool"
  assumes new_counter: "invar c \<Longrightarrow> represents c (new_counter c) {}"
    and count: "represents c k A \<Longrightarrow> v \<in> members c \<Longrightarrow>
      \<exists>k'. count k v = Some (k', v \<notin> A) \<and> represents c k' (insert v A)"
    and count_outside: "represents c k A \<Longrightarrow> v \<notin> members c \<Longrightarrow> count k v = None"
    and total: "represents c k A \<Longrightarrow> total k = sum (weight c) A"
    and has_quorum: "represents c k A \<Longrightarrow> has_quorum k \<longleftrightarrow> quorum c \<le> sum (weight c) A"
begin

lemma count_loop:
  assumes "represents c k A" and "set vs \<subseteq> members c"
  shows "\<exists>k'. fold_option (\<lambda>k v. map_option fst (count k v)) vs k = Some k' \<and>
    represents c k' (A \<union> set vs)"
  using assms
proof (induction vs arbitrary: k A)
  case (Cons v vs)
  from count [OF Cons.prems(1), of v] Cons.prems(2)
  obtain k1 where k1: "count k v = Some (k1, v \<notin> A)" "represents c k1 (insert v A)"
    by auto
  from Cons.IH [OF k1(2)] Cons.prems(2) obtain k' where
    "fold_option (\<lambda>k v. map_option fst (count k v)) vs k1 = Some k'"
    "represents c k' (insert v A \<union> set vs)" by auto
  with k1(1) show ?case by (auto simp: insert_commute)
qed auto

lemma count_loop_quorum:
  assumes "invar c" and "set vs \<subseteq> members c"
  shows "\<exists>k. fold_option (\<lambda>k v. map_option fst (count k v)) vs (new_counter c) = Some k \<and>
    total k = sum (weight c) (set vs) \<and>
    (has_quorum k \<longleftrightarrow> quorum c \<le> sum (weight c) (set vs))"
  using count_loop [OF new_counter [OF assms(1)] assms(2)] by (auto simp: total has_quorum)

end

end
