(* ===== verification/Pos.thy ===== *)
theory Pos
  imports Quorum_System "HOL-Library.Multiset"
begin

text \<open>
  The validator group of an epoch (\<^verbatim>\<open>inter/pos\<close>): builders, the caches that
  \<^verbatim>\<open>calcCaches\<close> derives from the sorted array, the quorum, and the weight
  counter that consensus uses to detect a quorum. Weights are 32-bit words; the
  two overflow panics of \<^verbatim>\<open>calcCaches\<close> are the left summand of its result.
  The iteration order of Go's maps is the order of an association list, and
  the theorems show that no result depends on it.
\<close>

section \<open>Sorting\<close>

datatype validator = Validator (vd_ID: ValidatorID) (vd_Weight: Weight)

text \<open>\<^verbatim>\<open>validators.Less\<close> of \<^verbatim>\<open>sort.go\<close>: heavier first, then by identifier.\<close>

definition Less :: "validator \<Rightarrow> validator \<Rightarrow> bool" where
  "Less a b =
    (if vd_Weight a \<noteq> vd_Weight b then vd_Weight a > vd_Weight b
     else vd_ID a < vd_ID b)"

instantiation validator :: linorder
begin

definition less_validator :: "validator \<Rightarrow> validator \<Rightarrow> bool" where
  "less_validator = Less"

definition less_eq_validator :: "validator \<Rightarrow> validator \<Rightarrow> bool" where
  "less_eq_validator a b = (Less a b \<or> a = b)"

instance
proof
  fix x y z :: validator
  show "x < y \<longleftrightarrow> x \<le> y \<and> \<not> y \<le> x"
    by (auto simp: less_validator_def less_eq_validator_def Less_def split: if_splits)
  show "x \<le> x"
    by (simp add: less_eq_validator_def)
  show "x \<le> y \<Longrightarrow> y \<le> z \<Longrightarrow> x \<le> z"
    by (auto simp: less_eq_validator_def Less_def split: if_splits)
  show "x \<le> y \<Longrightarrow> y \<le> x \<Longrightarrow> x = y"
    by (auto simp: less_eq_validator_def Less_def split: if_splits)
  show "x \<le> y \<or> y \<le> x"
    by (cases x; cases y) (auto simp: less_eq_validator_def Less_def)
qed

end

section \<open>Validators\<close>

text \<open>The map of a \<^verbatim>\<open>ValidatorsBuilder\<close>, in iteration order.\<close>

type_synonym ValidatorsBuilder = "(ValidatorID \<times> Weight) list"

record cache =
  indexes :: "ValidatorID \<rightharpoonup> nat"
  weights :: "Weight list"
  ids :: "ValidatorID list"
  totalWeight :: Weight

record Validators =
  vv_values :: ValidatorsBuilder
  vv_cache :: cache

datatype pos_panic = WeightOverflow | IndexOutOfRange

definition NewBuilder :: ValidatorsBuilder where
  "NewBuilder = []"

definition Builder_Set :: "ValidatorsBuilder \<Rightarrow> ValidatorID \<Rightarrow> Weight \<Rightarrow> ValidatorsBuilder" where
  "Builder_Set vv i weight = (if weight = 0 then AList.delete i vv else AList.update i weight vv)"

definition sortedArray :: "ValidatorsBuilder \<Rightarrow> validator list" where
  "sortedArray vals = sort (map (\<lambda>(i, s). Validator i s) vals)"

fun calcCaches_loop :: "nat \<Rightarrow> validator list \<Rightarrow> cache \<Rightarrow> pos_panic + cache" where
  "calcCaches_loop i [] c = Inr c"
| "calcCaches_loop i (v # vs) c =
    (let c1 = c\<lparr>indexes := (indexes c)(vd_ID v \<mapsto> i),
                weights := (weights c)[i := vd_Weight v],
                ids := (ids c)[i := vd_ID v]\<rparr>;
         totalWeightBefore = totalWeight c1;
         c2 = c1\<lparr>totalWeight := totalWeight c1 + vd_Weight v\<rparr>
     in if totalWeight c2 < totalWeightBefore then Inl WeightOverflow
        else calcCaches_loop (Suc i) vs c2)"

definition calcCaches :: "ValidatorsBuilder \<Rightarrow> pos_panic + cache" where
  "calcCaches vals =
    (case calcCaches_loop 0 (sortedArray vals)
        \<lparr>indexes = Map.empty, weights = replicate (length vals) 0,
         ids = replicate (length vals) 0, totalWeight = 0\<rparr> of
       Inl p \<Rightarrow> Inl p
     | Inr c \<Rightarrow> if totalWeight c > 4294967295 div 2 then Inl WeightOverflow else Inr c)"

definition newValidators :: "ValidatorsBuilder \<Rightarrow> pos_panic + Validators" where
  "newValidators vals =
    (let valuesCopy = fold (\<lambda>(i, s) b. Builder_Set b i s) vals NewBuilder
     in case calcCaches valuesCopy of
          Inl p \<Rightarrow> Inl p
        | Inr c \<Rightarrow> Inr \<lparr>vv_values = valuesCopy, vv_cache = c\<rparr>)"

definition Builder_Build :: "ValidatorsBuilder \<Rightarrow> pos_panic + Validators" where
  "Builder_Build vv = newValidators vv"

definition EqualWeightValidators :: "ValidatorID list \<Rightarrow> Weight \<Rightarrow> pos_panic + Validators" where
  "EqualWeightValidators is weight =
    Builder_Build (fold (\<lambda>i b. Builder_Set b i weight) is NewBuilder)"

fun ArrayToValidators_loop ::
  "nat \<Rightarrow> ValidatorID list \<Rightarrow> Weight list \<Rightarrow> ValidatorsBuilder \<Rightarrow> pos_panic + ValidatorsBuilder" where
  "ArrayToValidators_loop i [] ws b = Inr b"
| "ArrayToValidators_loop i (v # vs) ws b =
    (case slice_get ws i of
       None \<Rightarrow> Inl IndexOutOfRange
     | Some w \<Rightarrow> ArrayToValidators_loop (Suc i) vs ws (Builder_Set b v w))"

definition ArrayToValidators :: "ValidatorID list \<Rightarrow> Weight list \<Rightarrow> pos_panic + Validators" where
  "ArrayToValidators is ws =
    (case ArrayToValidators_loop 0 is ws NewBuilder of
       Inl p \<Rightarrow> Inl p
     | Inr b \<Rightarrow> Builder_Build b)"

definition Validators_Len :: "Validators \<Rightarrow> nat" where
  "Validators_Len vv = length (vv_values vv)"

definition Validators_Get :: "Validators \<Rightarrow> ValidatorID \<Rightarrow> Weight" where
  "Validators_Get vv i = (case map_of (vv_values vv) i of None \<Rightarrow> 0 | Some w \<Rightarrow> w)"

definition GetIdx :: "Validators \<Rightarrow> ValidatorID \<Rightarrow> nat" where
  "GetIdx vv i = (case indexes (vv_cache vv) i of None \<Rightarrow> 0 | Some n \<Rightarrow> n)"

definition GetID :: "Validators \<Rightarrow> nat \<Rightarrow> ValidatorID option" where
  "GetID vv i = slice_get (ids (vv_cache vv)) i"

definition GetWeightByIdx :: "Validators \<Rightarrow> nat \<Rightarrow> Weight option" where
  "GetWeightByIdx vv i = slice_get (weights (vv_cache vv)) i"

definition Exists :: "Validators \<Rightarrow> ValidatorID \<Rightarrow> bool" where
  "Exists vv i = (map_of (vv_values vv) i \<noteq> None)"

definition IDs :: "Validators \<Rightarrow> ValidatorID list" where
  "IDs vv = ids (vv_cache vv)"

definition SortedIDs :: "Validators \<Rightarrow> ValidatorID list" where
  "SortedIDs vv = ids (vv_cache vv)"

definition SortedWeights :: "Validators \<Rightarrow> Weight list" where
  "SortedWeights vv = weights (vv_cache vv)"

definition Idxs :: "Validators \<Rightarrow> ValidatorID \<rightharpoonup> nat" where
  "Idxs vv = indexes (vv_cache vv)"

definition Validators_Copy :: "Validators \<Rightarrow> pos_panic + Validators" where
  "Validators_Copy vv = newValidators (vv_values vv)"

definition Validators_Builder :: "Validators \<Rightarrow> pos_panic + ValidatorsBuilder" where
  "Validators_Builder vv = map_sum id vv_values (Validators_Copy vv)"

definition TotalWeight :: "Validators \<Rightarrow> Weight" where
  "TotalWeight vv = totalWeight (vv_cache vv)"

definition Quorum :: "Validators \<Rightarrow> Weight" where
  "Quorum vv = TotalWeight vv * 2 div 3 + 1"

text \<open>
  RLP serialization: the codec of the \<^verbatim>\<open>rlp\<close> package is the parameter; the
  group is written as its sorted array.
\<close>

definition Validators_EncodeRLP :: "(validator list \<Rightarrow> bytes) \<Rightarrow> Validators \<Rightarrow> bytes" where
  "Validators_EncodeRLP rlp_Encode vv = rlp_Encode (sortedArray (vv_values vv))"

definition Validators_DecodeRLP ::
  "(bytes \<Rightarrow> validator list option) \<Rightarrow> bytes \<Rightarrow> (pos_panic + Validators) option" where
  "Validators_DecodeRLP rlp_Decode s =
    (case rlp_Decode s of
       None \<Rightarrow> None
     | Some arr \<Rightarrow>
         Some (Builder_Build
           (fold (\<lambda>w b. Builder_Set b (vd_ID w) (vd_Weight w)) arr NewBuilder)))"

section \<open>Weight counter\<close>

record WeightCounter =
  wc_validators :: Validators
  already :: "bool list"
  wc_quorum :: Weight
  wc_sum :: Weight

definition newWeightCounter :: "Validators \<Rightarrow> WeightCounter" where
  "newWeightCounter vv =
    \<lparr>wc_validators = vv, already = replicate (Validators_Len vv) False,
     wc_quorum = Quorum vv, wc_sum = 0\<rparr>"

definition NewCounter :: "Validators \<Rightarrow> WeightCounter" where
  "NewCounter vv = newWeightCounter vv"

text \<open>
  \<^verbatim>\<open>CountByIdx\<close> returns the new counter and whether the validator was counted
  for the first time; both slice accesses may be out of range.
\<close>

definition CountByIdx :: "WeightCounter \<Rightarrow> nat \<Rightarrow> (WeightCounter \<times> bool) option" where
  "CountByIdx s validatorIdx =
    (case slice_get (already s) validatorIdx of
       None \<Rightarrow> None
     | Some True \<Rightarrow> Some (s, False)
     | Some False \<Rightarrow>
         (let s1 = s\<lparr>already := (already s)[validatorIdx := True]\<rparr>
          in case GetWeightByIdx (wc_validators s1) validatorIdx of
               None \<Rightarrow> None
             | Some w \<Rightarrow> Some (s1\<lparr>wc_sum := wc_sum s1 + w\<rparr>, True)))"

definition Count :: "WeightCounter \<Rightarrow> ValidatorID \<Rightarrow> (WeightCounter \<times> bool) option" where
  "Count s v = CountByIdx s (GetIdx (wc_validators s) v)"

definition HasQuorum :: "WeightCounter \<Rightarrow> bool" where
  "HasQuorum s = (wc_sum s \<ge> wc_quorum s)"

definition Sum :: "WeightCounter \<Rightarrow> Weight" where
  "Sum s = wc_sum s"

section \<open>Builder over unbounded weights\<close>

type_synonym ValidatorsBigBuilder = "(ValidatorID \<times> int) list"

definition NewBigBuilder :: ValidatorsBigBuilder where
  "NewBigBuilder = []"

text \<open>The weight is a \<^verbatim>\<open>*big.Int\<close>: \<^const>\<open>None\<close> is the nil pointer.\<close>

definition BigBuilder_Set ::
  "ValidatorsBigBuilder \<Rightarrow> ValidatorID \<Rightarrow> int option \<Rightarrow> ValidatorsBigBuilder" where
  "BigBuilder_Set vv i weight =
    (case weight of
       None \<Rightarrow> AList.delete i vv
     | Some w \<Rightarrow> if sgn w = 0 then AList.delete i vv else AList.update i w vv)"

definition BigBuilder_TotalWeight :: "ValidatorsBigBuilder \<Rightarrow> int" where
  "BigBuilder_TotalWeight vv = fold (\<lambda>(_, w) res. res + w) vv 0"

text \<open>
  \<^verbatim>\<open>big.Int\<close>: \<^verbatim>\<open>BitLen\<close> is the length of the absolute value in bits, \<^verbatim>\<open>Rsh\<close> the
  arithmetic shift (rounding towards minus infinity), \<^verbatim>\<open>Uint64\<close> the low 64 bits
  of the absolute value.
\<close>

function BitLen_nat :: "nat \<Rightarrow> nat" where
  "BitLen_nat n = (if n = 0 then 0 else Suc (BitLen_nat (n div 2)))"
  by auto
termination by (relation "measure id") auto

declare BitLen_nat.simps [simp del]

definition BitLen :: "int \<Rightarrow> nat" where
  "BitLen x = BitLen_nat (nat \<bar>x\<bar>)"

definition BigBuilder_Build :: "ValidatorsBigBuilder \<Rightarrow> pos_panic + Validators" where
  "BigBuilder_Build vv =
    (let totalBits = BitLen (BigBuilder_TotalWeight vv);
         shift = (if totalBits > 31 then totalBits - 31 else 0)
     in Builder_Build
          (fold (\<lambda>(v, w) b.
             let weight = drop_bit shift w;
                 weight64 = (word_of_int \<bar>weight\<bar> :: u64)
             in Builder_Set b v (ucast weight64)) vv NewBuilder))"

section \<open>Well-formed groups\<close>

text \<open>
  A builder's map has one entry per key and \<^verbatim>\<open>Set\<close> never stores a zero weight.
  A group is well formed when its caches are the ones \<^verbatim>\<open>calcCaches\<close> computes.
\<close>

definition wf_builder :: "ValidatorsBuilder \<Rightarrow> bool" where
  "wf_builder vals \<longleftrightarrow> distinct (map fst vals) \<and> (\<forall>w \<in> snd ` set vals. w \<noteq> 0)"

definition wf_validators :: "Validators \<Rightarrow> bool" where
  "wf_validators vv \<longleftrightarrow>
    wf_builder (vv_values vv) \<and> calcCaches (vv_values vv) = Inr (vv_cache vv)"

definition weight_total :: "ValidatorsBuilder \<Rightarrow> nat" where
  "weight_total vals = (\<Sum>(i, w) \<leftarrow> vals. unat w)"

lemma wf_builder_NewBuilder [simp]: "wf_builder NewBuilder"
  by (simp add: wf_builder_def NewBuilder_def)

lemma snd_set_update: "snd ` set (AList.update k v al) \<subseteq> insert v (snd ` set al)"
  by (induction al) (auto split: if_splits)

lemma wf_builder_Set [simp]:
  assumes "wf_builder vv"
  shows "wf_builder (Builder_Set vv i w)"
proof (cases "w = 0")
  case True
  with assms show ?thesis
    using distinct_delete [of vv i] by (auto simp: wf_builder_def Builder_Set_def AList.delete_eq)
next
  case False
  have "\<forall>x \<in> snd ` set (AList.update i w vv). x \<noteq> 0"
    using assms False snd_set_update [of i w vv] unfolding wf_builder_def by blast
  with False assms show ?thesis
    by (simp add: wf_builder_def Builder_Set_def distinct_update)
qed

lemma wf_builder_fold_Set [simp]:
  "wf_builder b \<Longrightarrow> wf_builder (fold (\<lambda>x b. Builder_Set b (f x) (g x)) xs b)"
  by (induction xs arbitrary: b) auto

lemma map_of_Builder_Set:
  assumes "wf_builder vv"
  shows "map_of (Builder_Set vv i w) = (map_of vv)(i := if w = 0 then None else Some w)"
  using assms by (auto simp: Builder_Set_def delete_conv' update_conv' fun_eq_iff)

lemma alist_update_fresh: "k \<notin> fst ` set al \<Longrightarrow> AList.update k v al = al @ [(k, v)]"
  by (induction al) auto

lemma alist_delete_fresh: "k \<notin> fst ` set al \<Longrightarrow> AList.delete k al = al"
  by (induction al) auto

text \<open>Copying a map entry by entry keeps its entries, in iteration order, without the zeros.\<close>

lemma fold_Set_append:
  assumes "distinct (map fst vals)" and "fst ` set vals \<inter> fst ` set b = {}"
  shows "fold (\<lambda>(i, s) b. Builder_Set b i s) vals b = b @ filter (\<lambda>(i, s). s \<noteq> 0) vals"
  using assms
proof (induction vals arbitrary: b)
  case (Cons x vals)
  obtain i s where x: "x = (i, s)" by (cases x)
  have "i \<notin> fst ` set b" using Cons.prems(2) x by auto
  then have set: "Builder_Set b i s = b @ (if s = 0 then [] else [(i, s)])"
    by (simp add: Builder_Set_def alist_update_fresh alist_delete_fresh)
  have disj: "fst ` set vals \<inter> fst ` set (Builder_Set b i s) = {}"
    using Cons.prems x by (auto simp: set)
  have "distinct (map fst vals)" using Cons.prems(1) by simp
  from Cons.IH [OF this disj] show ?case by (simp add: x set)
qed simp

lemma fold_Set_copy:
  assumes "distinct (map fst vals)"
  shows "fold (\<lambda>(i, s) b. Builder_Set b i s) vals NewBuilder = filter (\<lambda>(i, s). s \<noteq> 0) vals"
  using fold_Set_append [OF assms, of NewBuilder] by (simp add: NewBuilder_def)

lemma wf_builder_copy:
  assumes "wf_builder vals"
  shows "fold (\<lambda>(i, s) b. Builder_Set b i s) vals NewBuilder = vals"
proof -
  have "filter (\<lambda>(i, s). s \<noteq> 0) vals = vals"
    using assms by (auto simp: wf_builder_def intro!: filter_True)
  then show ?thesis using assms by (simp add: fold_Set_copy wf_builder_def)
qed

section \<open>The caches\<close>

lemma set_sortedArray: "set (sortedArray vals) = (\<lambda>(i, s). Validator i s) ` set vals"
  by (simp add: sortedArray_def)

lemma length_sortedArray [len_simps, simp]: "length (sortedArray vals) = length vals"
  by (simp add: sortedArray_def)

lemma mset_sortedArray: "mset (sortedArray vals) = mset (map (\<lambda>(i, s). Validator i s) vals)"
  by (simp add: sortedArray_def)

lemma distinct_IDs_sortedArray:
  assumes "distinct (map fst vals)"
  shows "distinct (map vd_ID (sortedArray vals))"
proof -
  have eq: "mset (map vd_ID (sortedArray vals)) = mset (map fst vals)"
    by (simp add: sortedArray_def case_prod_beta image_mset.compositionality comp_def)
  show ?thesis
    using assms mset_eq_imp_distinct_iff [OF eq] by simp
qed

lemma sum_weights_sortedArray:
  "(\<Sum>v \<leftarrow> sortedArray vals. unat (vd_Weight v)) = weight_total vals"
proof -
  have "mset (map (\<lambda>v. unat (vd_Weight v)) (sortedArray vals)) = mset (map (unat \<circ> snd) vals)"
    by (simp add: sortedArray_def case_prod_beta image_mset.compositionality comp_def)
  then have "sum_list (map (\<lambda>v. unat (vd_Weight v)) (sortedArray vals)) =
      sum_list (map (unat \<circ> snd) vals)"
    by (metis sum_mset_sum_list)
  then show ?thesis by (simp add: weight_total_def case_prod_unfold comp_def)
qed

lemma calcCaches_loop_eq:
  assumes "length ws = i" and "length is = i"
  shows "calcCaches_loop i vs
      \<lparr>indexes = m, weights = ws @ replicate (length vs) 0,
       ids = is @ replicate (length vs) 0, totalWeight = t\<rparr> =
    (if unat t + (\<Sum>v \<leftarrow> vs. unat (vd_Weight v)) < 2 ^ 32 then
       Inr \<lparr>indexes = m(map vd_ID vs [\<mapsto>] [i..<i + length vs]), weights = ws @ map vd_Weight vs,
            ids = is @ map vd_ID vs,
            totalWeight = of_nat (unat t + (\<Sum>v \<leftarrow> vs. unat (vd_Weight v)))\<rparr>
     else Inl WeightOverflow)"
  using assms
proof (induction vs arbitrary: i m ws "is" t)
  case Nil
  then show ?case using unat_less_pow [of t] by simp
next
  case (Cons v vs)
  show ?case
  proof (cases "unat t + unat (vd_Weight v) < 2 ^ 32")
    case True
    then have t: "unat (t + vd_Weight v) = unat t + unat (vd_Weight v)"
      by (intro unat_add_no_overflow) simp
    have nov: "\<not> t + vd_Weight v < t"
      using True by (simp add: word_add_overflow_iff)
    have step: "calcCaches_loop i (v # vs)
        \<lparr>indexes = m, weights = ws @ replicate (length (v # vs)) 0,
         ids = is @ replicate (length (v # vs)) 0, totalWeight = t\<rparr> =
      calcCaches_loop (Suc i) vs
        \<lparr>indexes = m(vd_ID v \<mapsto> i), weights = (ws @ [vd_Weight v]) @ replicate (length vs) 0,
         ids = (is @ [vd_ID v]) @ replicate (length vs) 0, totalWeight = t + vd_Weight v\<rparr>"
      using Cons.prems nov by (simp add: Let_def list_update_append)
    have upds: "m(map vd_ID (v # vs) [\<mapsto>] [i..<i + length (v # vs)]) =
        m(vd_ID v \<mapsto> i, map vd_ID vs [\<mapsto>] [Suc i..<Suc i + length vs])"
      by (simp add: upt_conv_Cons del: upt_Suc)
    show ?thesis
      unfolding step upds using Cons.prems by (subst Cons.IH) (simp_all add: t add.assoc)
  next
    case False
    then have "t + vd_Weight v < t" by (simp add: word_add_overflow_iff)
    with False show ?thesis by (simp add: Let_def)
  qed
qed

definition caches_of :: "ValidatorsBuilder \<Rightarrow> cache" where
  "caches_of vals =
    (let arr = sortedArray vals in
     \<lparr>indexes = map_of (zip (map vd_ID arr) [0..<length arr]), weights = map vd_Weight arr,
      ids = map vd_ID arr, totalWeight = of_nat (weight_total vals)\<rparr>)"

lemma map_upds_eq_map_of_zip:
  assumes "distinct ks" and "length ks = length vs"
  shows "Map.empty(ks [\<mapsto>] vs) = map_of (zip ks vs)"
proof -
  have "map_of (rev (zip ks vs)) = map_of (zip ks vs)"
    using assms by (subst map_of_inject_set) (auto simp: rev_map [symmetric])
  then show ?thesis by (simp add: map_upds_def)
qed

lemma calcCaches_eq:
  assumes "distinct (map fst vals)"
  shows "calcCaches vals =
    (if weight_total vals \<le> 2147483647 then Inr (caches_of vals) else Inl WeightOverflow)"
proof -
  let ?arr = "sortedArray vals"
  have upds: "Map.empty(map vd_ID ?arr [\<mapsto>] [0..<length ?arr]) =
      map_of (zip (map vd_ID ?arr) [0..<length ?arr])"
    using distinct_IDs_sortedArray [OF assms] by (intro map_upds_eq_map_of_zip) auto
  have loop: "calcCaches_loop 0 ?arr
      \<lparr>indexes = Map.empty, weights = replicate (length vals) 0,
       ids = replicate (length vals) 0, totalWeight = 0\<rparr> =
     (if weight_total vals < 2 ^ 32 then Inr (caches_of vals) else Inl WeightOverflow)"
    using calcCaches_loop_eq [of "[]" 0 "[]" ?arr Map.empty 0] upds
    by (simp add: sum_weights_sortedArray caches_of_def Let_def)
  have "totalWeight (caches_of vals) > 4294967295 div 2 \<longleftrightarrow> weight_total vals > 2147483647"
    if "weight_total vals < 2 ^ 32"
    using that by (simp add: caches_of_def Let_def word_less_nat_alt unat_of_nat unat_div)
  with loop show ?thesis
    by (auto simp: calcCaches_def)
qed

lemma weight_total_filter: "weight_total (filter (\<lambda>(i, s). s \<noteq> 0) vals) = weight_total vals"
  by (induction vals) (auto simp: weight_total_def)

lemma newValidators_eq:
  assumes "distinct (map fst vals)"
  shows "newValidators vals =
    (let vs = filter (\<lambda>(i, s). s \<noteq> 0) vals in
     if weight_total vals \<le> 2147483647 then Inr \<lparr>vv_values = vs, vv_cache = caches_of vs\<rparr>
     else Inl WeightOverflow)"
proof -
  have "distinct (map fst (filter (\<lambda>(i, s). s \<noteq> 0) vals))"
    using assms by (simp add: distinct_map_filter)
  from calcCaches_eq [OF this] show ?thesis
    using assms by (simp add: newValidators_def fold_Set_copy weight_total_filter Let_def)
qed

lemma wf_newValidators:
  assumes "distinct (map fst vals)" and "newValidators vals = Inr vv"
  shows "wf_validators vv"
proof -
  let ?vs = "filter (\<lambda>(i, s). s \<noteq> 0) vals"
  have vv: "vv = \<lparr>vv_values = ?vs, vv_cache = caches_of ?vs\<rparr>" and le: "weight_total vals \<le> 2147483647"
    using assms by (auto simp: newValidators_eq Let_def split: if_splits)
  have dist: "distinct (map fst ?vs)"
    using assms(1) by (simp add: distinct_map_filter)
  then show ?thesis
    using le by (auto simp: wf_validators_def wf_builder_def vv calcCaches_eq weight_total_filter)
qed

lemma wf_validators_cache:
  assumes "wf_validators vv"
  shows "vv_cache vv = caches_of (vv_values vv)" and "weight_total (vv_values vv) \<le> 2147483647"
    and "wf_builder (vv_values vv)" and "distinct (map fst (vv_values vv))"
proof -
  show wf: "wf_builder (vv_values vv)" using assms by (simp add: wf_validators_def)
  then show dist: "distinct (map fst (vv_values vv))" by (simp add: wf_builder_def)
  show "vv_cache vv = caches_of (vv_values vv)" and "weight_total (vv_values vv) \<le> 2147483647"
    using assms calcCaches_eq [OF dist] by (auto simp: wf_validators_def split: if_splits)
qed

section \<open>Lookups\<close>

lemma length_ids [len_simps]: "wf_validators vv \<Longrightarrow> length (ids (vv_cache vv)) = Validators_Len vv"
  by (simp add: wf_validators_cache(1) caches_of_def Let_def Validators_Len_def)

lemma length_weights [len_simps]:
  "wf_validators vv \<Longrightarrow> length (weights (vv_cache vv)) = Validators_Len vv"
  by (simp add: wf_validators_cache(1) caches_of_def Let_def Validators_Len_def)

lemma distinct_ids: "wf_validators vv \<Longrightarrow> distinct (ids (vv_cache vv))"
  using distinct_IDs_sortedArray [OF wf_validators_cache(4)]
  by (simp add: wf_validators_cache(1) caches_of_def Let_def)

lemma set_ids: "wf_validators vv \<Longrightarrow> set (ids (vv_cache vv)) = fst ` set (vv_values vv)"
  by (force simp: wf_validators_cache(1) caches_of_def Let_def set_sortedArray image_iff)

lemma Exists_iff: "wf_validators vv \<Longrightarrow> Exists vv i \<longleftrightarrow> i \<in> set (ids (vv_cache vv))"
  by (simp add: Exists_def set_ids map_of_eq_None_iff)

lemma indexes_eq:
  "wf_validators vv \<Longrightarrow>
    indexes (vv_cache vv) = map_of (zip (ids (vv_cache vv)) [0..<length (ids (vv_cache vv))])"
  by (simp add: wf_validators_cache(1) caches_of_def Let_def)

lemma GetIdx_nth:
  assumes "wf_validators vv" and "i < Validators_Len vv"
  shows "GetIdx vv (ids (vv_cache vv) ! i) = i"
  using assms map_of_zip_upt_nth [OF distinct_ids [OF assms(1)], of i]
  by (simp add: GetIdx_def indexes_eq length_ids)

lemma GetIdx_Exists:
  assumes "wf_validators vv" and "Exists vv v"
  shows "GetIdx vv v < Validators_Len vv" and "ids (vv_cache vv) ! GetIdx vv v = v"
proof -
  obtain i where i: "i < length (ids (vv_cache vv))" "ids (vv_cache vv) ! i = v"
    using assms by (auto simp: Exists_iff in_set_conv_nth)
  with GetIdx_nth [OF assms(1), of i] show "GetIdx vv v < Validators_Len vv"
    and "ids (vv_cache vv) ! GetIdx vv v = v"
    using assms(1) by (auto simp: length_ids)
qed

lemma GetIdx_inj:
  assumes "wf_validators vv" and "Exists vv v" and "Exists vv w" and "GetIdx vv v = GetIdx vv w"
  shows "v = w"
  using GetIdx_Exists(2) [OF assms(1,2)] GetIdx_Exists(2) [OF assms(1,3)] assms(4) by metis

lemma Exists_nth: "wf_validators vv \<Longrightarrow> i < Validators_Len vv \<Longrightarrow> Exists vv (ids (vv_cache vv) ! i)"
  by (simp add: Exists_iff length_ids)

lemma weights_nth:
  assumes "wf_validators vv" and "i < Validators_Len vv"
  shows "map_of (vv_values vv) (ids (vv_cache vv) ! i) = Some (weights (vv_cache vv) ! i)"
proof -
  let ?arr = "sortedArray (vv_values vv)"
  have "?arr ! i \<in> set ?arr" using assms by (simp add: Validators_Len_def)
  then have "(vd_ID (?arr ! i), vd_Weight (?arr ! i)) \<in> set (vv_values vv)"
    by (auto simp: set_sortedArray)
  with wf_validators_cache(4) [OF assms(1)]
  have "map_of (vv_values vv) (vd_ID (?arr ! i)) = Some (vd_Weight (?arr ! i))"
    by (rule map_of_is_SomeI)
  then show ?thesis
    using assms by (simp add: wf_validators_cache(1) caches_of_def Let_def Validators_Len_def)
qed

lemma weights_pos:
  assumes "wf_validators vv" and "i < Validators_Len vv"
  shows "weights (vv_cache vv) ! i \<noteq> 0"
proof -
  have "weights (vv_cache vv) ! i \<in> snd ` set (vv_values vv)"
    using map_of_SomeD [OF weights_nth [OF assms]] by force
  then show ?thesis
    using wf_validators_cache(3) [OF assms(1)] by (auto simp: wf_builder_def)
qed

section \<open>Total weight and quorum\<close>

text \<open>The weight of the validator with index \<^verbatim>\<open>i\<close>, and the indices of a group.\<close>

definition weight_at :: "Validators \<Rightarrow> nat \<Rightarrow> nat" where
  "weight_at vv i = unat (weights (vv_cache vv) ! i)"

abbreviation idxs_of :: "Validators \<Rightarrow> nat set" where
  "idxs_of vv \<equiv> {..<Validators_Len vv}"

lemma sum_weight_at:
  assumes "wf_validators vv"
  shows "sum (weight_at vv) (idxs_of vv) = weight_total (vv_values vv)"
proof -
  have "weight_total (vv_values vv) = sum_list (map unat (weights (vv_cache vv)))"
    using assms
    by (simp add: wf_validators_cache(1) caches_of_def Let_def sum_weights_sortedArray comp_def)
  also have "\<dots> = (\<Sum>i<length (weights (vv_cache vv)). unat (weights (vv_cache vv) ! i))"
    by (simp add: sum_list_nth_atLeast)
  finally show ?thesis
    using assms by (simp add: weight_at_def length_weights)
qed

lemma unat_TotalWeight:
  assumes "wf_validators vv"
  shows "unat (TotalWeight vv) = weight_total (vv_values vv)"
  using wf_validators_cache(1,2) [OF assms]
  by (simp add: TotalWeight_def caches_of_def Let_def unat_of_nat)

lemma sum_weight_le:
  assumes "wf_validators vv" and "A \<subseteq> idxs_of vv"
  shows "sum (weight_at vv) A \<le> 2147483647"
proof -
  have "sum (weight_at vv) A \<le> sum (weight_at vv) (idxs_of vv)"
    using assms(2) by (intro sum_mono2) auto
  then show ?thesis using sum_weight_at [OF assms(1)] wf_validators_cache(2) [OF assms(1)] by simp
qed

lemma unat_Quorum:
  assumes "wf_validators vv"
  shows "unat (Quorum vv) = weight_total (vv_values vv) * 2 div 3 + 1"
proof -
  have le: "weight_total (vv_values vv) \<le> 2147483647" using wf_validators_cache(2) [OF assms] .
  have m: "unat (TotalWeight vv * 2) = weight_total (vv_values vv) * 2"
    using le by (simp add: unat_word_ariths unat_TotalWeight [OF assms])
  have "unat (TotalWeight vv * 2 div 3) = weight_total (vv_values vv) * 2 div 3"
    by (simp add: unat_div m)
  then show ?thesis
    using le by (simp add: Quorum_def unat_word_ariths)
qed

interpretation pos: weighted_quorum wf_validators idxs_of weight_at "\<lambda>vv. unat (Quorum vv)"
proof
  fix vv assume wf: "wf_validators vv"
  show "finite (idxs_of vv)" by simp
  show "2 * sum (weight_at vv) (idxs_of vv) < 3 * unat (Quorum vv)"
    by (simp add: sum_weight_at [OF wf] unat_Quorum [OF wf])
qed

section \<open>The weight counter counts distinct validators\<close>

definition counter_rep :: "Validators \<Rightarrow> WeightCounter \<Rightarrow> nat set \<Rightarrow> bool" where
  "counter_rep vv s A \<longleftrightarrow>
    wf_validators vv \<and> A \<subseteq> idxs_of vv \<and> wc_validators s = vv \<and> wc_quorum s = Quorum vv \<and>
    length (already s) = Validators_Len vv \<and>
    (\<forall>i < Validators_Len vv. already s ! i \<longleftrightarrow> i \<in> A) \<and>
    unat (wc_sum s) = sum (weight_at vv) A"

lemma counter_rep_new: "wf_validators vv \<Longrightarrow> counter_rep vv (NewCounter vv) {}"
  by (simp add: counter_rep_def NewCounter_def newWeightCounter_def)

lemma counter_rep_count:
  assumes rep: "counter_rep vv s A" and i: "i \<in> idxs_of vv"
  shows "\<exists>s'. CountByIdx s i = Some (s', i \<notin> A) \<and> counter_rep vv s' (insert i A)"
proof (cases "i \<in> A")
  case True
  then have "already s ! i" "i < length (already s)"
    using rep i by (auto simp: counter_rep_def)
  then show ?thesis
    using True rep by (simp add: CountByIdx_def insert_absorb)
next
  case False
  have wf: "wf_validators vv" and sub: "insert i A \<subseteq> idxs_of vv"
    using rep i by (auto simp: counter_rep_def)
  have finA: "finite A" by (rule finite_subset [of _ "idxs_of vv"]) (use sub in auto)
  have "sum (weight_at vv) (insert i A) \<le> 2147483647"
    using sum_weight_le [OF wf sub] .
  then have nov: "unat (wc_sum s + weights (vv_cache vv) ! i) = sum (weight_at vv) (insert i A)"
    using rep False finA
    by (subst unat_add_no_overflow) (auto simp: counter_rep_def weight_at_def)
  have s: "wc_validators s = vv" "\<not> already s ! i" "i < length (already s)"
    "i < length (weights (vv_cache vv))"
    using rep i False wf by (auto simp: counter_rep_def length_weights)
  let ?s' = "s\<lparr>already := (already s)[i := True], wc_sum := wc_sum s + weights (vv_cache vv) ! i\<rparr>"
  have "CountByIdx s i = Some (?s', True)"
    using s by (simp add: CountByIdx_def GetWeightByIdx_def)
  moreover have "counter_rep vv ?s' (insert i A)"
  proof -
    have "(already s)[i := True] ! j \<longleftrightarrow> j \<in> insert i A" if "j < Validators_Len vv" for j
      using that rep s(3) by (cases "j = i") (auto simp: counter_rep_def)
    then show ?thesis
      using rep sub nov by (simp add: counter_rep_def)
  qed
  ultimately show ?thesis using False by simp
qed

lemma counter_rep_count_outside:
  "counter_rep vv s A \<Longrightarrow> i \<notin> idxs_of vv \<Longrightarrow> CountByIdx s i = None"
  by (simp add: CountByIdx_def counter_rep_def)

interpretation counter: quorum_counter wf_validators idxs_of weight_at "\<lambda>vv. unat (Quorum vv)"
  NewCounter CountByIdx HasQuorum "\<lambda>s. unat (Sum s)" counter_rep
proof
  fix vv s A and i :: nat
  show "wf_validators vv \<Longrightarrow> counter_rep vv (NewCounter vv) {}"
    by (rule counter_rep_new)
  show "counter_rep vv s A \<Longrightarrow> i \<in> idxs_of vv \<Longrightarrow>
      \<exists>s'. CountByIdx s i = Some (s', i \<notin> A) \<and> counter_rep vv s' (insert i A)"
    by (rule counter_rep_count)
  show "counter_rep vv s A \<Longrightarrow> i \<notin> idxs_of vv \<Longrightarrow> CountByIdx s i = None"
    by (rule counter_rep_count_outside)
  show "counter_rep vv s A \<Longrightarrow> unat (Sum s) = sum (weight_at vv) A"
    by (simp add: counter_rep_def Sum_def)
  show "counter_rep vv s A \<Longrightarrow> HasQuorum s \<longleftrightarrow> unat (Quorum vv) \<le> sum (weight_at vv) A"
    by (simp add: counter_rep_def HasQuorum_def word_le_nat_alt)
qed

section \<open>Properties\<close>

lemma sortedArray_unique:
  assumes "distinct (map fst a)" and "distinct (map fst b)" and "map_of a = map_of b"
  shows "sortedArray a = sortedArray b"
proof -
  have "set a = set b" using assms by (simp add: map_of_inject_set)
  then have "mset a = mset b"
    using assms(1,2) by (simp add: set_eq_iff_mset_eq_distinct distinct_map)
  then show ?thesis
    by (simp add: sortedArray_def properties_for_sort)
qed

lemma caches_of_unique:
  assumes "distinct (map fst a)" and "distinct (map fst b)" and "map_of a = map_of b"
  shows "caches_of a = caches_of b" and "weight_total a = weight_total b"
proof -
  show tot: "weight_total a = weight_total b"
    using sortedArray_unique [OF assms] sum_weights_sortedArray by metis
  show "caches_of a = caches_of b"
    by (simp add: caches_of_def Let_def sortedArray_unique [OF assms] tot)
qed

lemma map_of_filter_nonzero:
  assumes "distinct (map fst a)"
  shows "map_of (filter (\<lambda>(i, s). s \<noteq> (0::Weight)) a) i =
    (case map_of a i of None \<Rightarrow> None | Some w \<Rightarrow> if w = 0 then None else Some w)"
  using assms by (induction a) (auto simp: map_of_eq_None_iff split: option.splits)

text \<open>
  C32: building a group never depends on the iteration order of the builder's
  map. Two builders that hold the same entries, listed in any two orders, both
  panic or give groups with the same caches: the same sorted identifiers and
  weights, the same index of every validator, the same total weight.
\<close>

theorem newValidators_order_independent:
  assumes "distinct (map fst a)" and "distinct (map fst b)" and "map_of a = map_of b"
  shows "map_sum id vv_cache (newValidators a) = map_sum id vv_cache (newValidators b)"
proof -
  let ?f = "filter (\<lambda>(i, s). s \<noteq> (0::Weight))"
  have "map_of (?f a) = map_of (?f b)"
    using assms by (simp add: fun_eq_iff map_of_filter_nonzero)
  then have "caches_of (?f a) = caches_of (?f b)"
    using assms(1,2) by (intro caches_of_unique) (simp_all add: distinct_map_filter)
  then show ?thesis
    using assms caches_of_unique(2) [OF assms] by (simp add: newValidators_eq Let_def)
qed

theorem newValidators_order_independent_witness:
  "map_sum id vv_cache (newValidators [(7, 1), (3, 5)]) =
   map_sum id vv_cache (newValidators [(3, 5), (7, 1)])"
  by (rule newValidators_order_independent) (auto simp: fun_eq_iff)

text \<open>
  Building a group panics exactly when the sum of the weights, computed
  without wrap-around, exceeds half of the 32-bit range; the wrap-around test
  inside the loop misses no overflow.
\<close>

theorem newValidators_panics_iff:
  assumes "distinct (map fst vals)"
  shows "(newValidators vals = Inl WeightOverflow \<longleftrightarrow>
      2147483647 < (\<Sum>(i, w) \<leftarrow> vals. unat w)) \<and>
    ((\<exists>vv. newValidators vals = Inr vv) \<longleftrightarrow> (\<Sum>(i, w) \<leftarrow> vals. unat w) \<le> 2147483647)"
  using assms by (auto simp: newValidators_eq Let_def weight_total_def [symmetric])

theorem newValidators_panics_iff_witness:
  "newValidators [(1, 4294967295), (2, 4294967295)] = Inl WeightOverflow \<and>
   (\<exists>vv. newValidators [(1, 2147483646), (2, 1)] = Inr vv)"
  using newValidators_panics_iff [of "[(1, 4294967295), (2, 4294967295)]"]
    newValidators_panics_iff [of "[(1, 2147483646), (2, 1)]"]
  by simp

lemma sorted_wrt_nth_Less:
  assumes "distinct (map fst vals)" and "i < j" and "j < length vals"
  shows "Less (sortedArray vals ! i) (sortedArray vals ! j)"
proof -
  let ?arr = "sortedArray vals"
  have "sorted ?arr" by (simp add: sortedArray_def)
  then have "?arr ! i \<le> ?arr ! j" using assms(2,3) by (simp add: sorted_iff_nth_mono)
  moreover have "?arr ! i \<noteq> ?arr ! j"
    using distinct_IDs_sortedArray [OF assms(1)] assms(2,3)
    by (metis distinct_map length_sortedArray less_trans nat_neq_iff nth_eq_iff_index_eq)
  ultimately show ?thesis by (simp add: less_eq_validator_def)
qed

text \<open>
  The caches of a built group agree with each other and with the builder.
  Index and identifier are inverse to each other, the weight found by index is
  the positive weight that was set for the identifier, every validator of
  non-zero weight has an index, and the indices order the validators by weight
  descending, then by identifier ascending.
\<close>

theorem validators_lookup:
  assumes "distinct (map fst vals)" and "newValidators vals = Inr vv"
  shows "(\<forall>v. Exists vv v \<longleftrightarrow> (\<exists>w. w \<noteq> 0 \<and> map_of vals v = Some w)) \<and>
    (\<forall>v. Exists vv v \<longrightarrow> GetIdx vv v < Validators_Len vv \<and> GetID vv (GetIdx vv v) = Some v) \<and>
    (\<forall>i < Validators_Len vv. \<exists>v w. GetID vv i = Some v \<and> GetIdx vv v = i \<and>
        GetWeightByIdx vv i = Some w \<and> Validators_Get vv v = w \<and>
        map_of vals v = Some w \<and> w \<noteq> 0) \<and>
    (\<forall>i j. i < j \<and> j < Validators_Len vv \<longrightarrow>
        (\<exists>v w v' w'. GetID vv i = Some v \<and> GetWeightByIdx vv i = Some w \<and>
           GetID vv j = Some v' \<and> GetWeightByIdx vv j = Some w' \<and>
           (w' < w \<or> w = w' \<and> v < v')))"
proof (intro conjI allI impI)
  let ?vs = "filter (\<lambda>(i, s). s \<noteq> 0) vals"
  have wf: "wf_validators vv" using wf_newValidators [OF assms] .
  have vals: "vv_values vv = ?vs" and cache: "vv_cache vv = caches_of ?vs"
    using assms by (auto simp: newValidators_eq Let_def split: if_splits)
  have map: "map_of (vv_values vv) v =
      (case map_of vals v of None \<Rightarrow> None | Some w \<Rightarrow> if w = 0 then None else Some w)" for v
    using assms(1) by (simp add: vals map_of_filter_nonzero)
  show "Exists vv v \<longleftrightarrow> (\<exists>w. w \<noteq> 0 \<and> map_of vals v = Some w)" for v
    by (auto simp: Exists_def map split: option.splits)
  show "GetIdx vv v < Validators_Len vv" and "GetID vv (GetIdx vv v) = Some v" if "Exists vv v" for v
    using GetIdx_Exists [OF wf that] by (simp_all add: GetID_def length_ids [OF wf])
  show "\<exists>v w. GetID vv i = Some v \<and> GetIdx vv v = i \<and> GetWeightByIdx vv i = Some w \<and>
      Validators_Get vv v = w \<and> map_of vals v = Some w \<and> w \<noteq> 0"
    if "i < Validators_Len vv" for i
    using that GetIdx_nth [OF wf that] weights_nth [OF wf that] weights_pos [OF wf that]
    by (auto simp: GetID_def GetWeightByIdx_def Validators_Get_def length_ids [OF wf]
        length_weights [OF wf] map split: option.splits if_splits)
  show "\<exists>v w v' w'. GetID vv i = Some v \<and> GetWeightByIdx vv i = Some w \<and>
      GetID vv j = Some v' \<and> GetWeightByIdx vv j = Some w' \<and> (w' < w \<or> w = w' \<and> v < v')"
    if "i < j \<and> j < Validators_Len vv" for i j
  proof -
    have "Less (sortedArray ?vs ! i) (sortedArray ?vs ! j)"
      using that assms(1) by (intro sorted_wrt_nth_Less) (simp_all add: distinct_map_filter Validators_Len_def vals)
    then show ?thesis
      using that by (auto simp: GetID_def GetWeightByIdx_def cache caches_of_def Let_def vals
          Validators_Len_def Less_def split: if_splits)
  qed
qed

theorem validators_lookup_witness:
  "\<exists>vv. newValidators [(7, 1), (3, 5)] = Inr vv \<and> GetID vv (GetIdx vv 7) = Some 7"
proof -
  obtain vv where vv: "newValidators [(7, 1), (3, 5)] = Inr vv"
    by (simp add: newValidators_eq weight_total_def Let_def)
  have "distinct (map fst [(7::ValidatorID, 1::Weight), (3, 5)])" by simp
  from validators_lookup [OF this vv] vv show ?thesis
    by (intro exI [of _ vv] conjI) auto
qed

text \<open>
  C33: the quorum of a built group is \<open>\<lfloor>2W/3\<rfloor> + 1\<close> without wrap-around, more than
  two thirds of the total weight and reachable by the whole group, and a weight
  counter reaches it exactly when the distinct validators it was given weigh
  that much, in whatever order and however often they are counted.
\<close>

theorem counter_reaches_quorum:
  assumes "distinct (map fst vals)" and "newValidators vals = Inr vv"
    and "set is \<subseteq> {..<Validators_Len vv}"
  shows "\<exists>s. fold_option (\<lambda>s i. map_option fst (CountByIdx s i)) is (NewCounter vv) = Some s \<and>
    unat (Sum s) = (\<Sum>i\<in>set is. weight_at vv i) \<and>
    (HasQuorum s \<longleftrightarrow> unat (TotalWeight vv) * 2 < 3 * (\<Sum>i\<in>set is. weight_at vv i)) \<and>
    (set is = {..<Validators_Len vv} \<longrightarrow> (HasQuorum s \<longleftrightarrow> TotalWeight vv \<noteq> 0))"
proof -
  have wf: "wf_validators vv" using wf_newValidators [OF assms(1,2)] .
  have q: "unat (Quorum vv) \<le> x \<longleftrightarrow> unat (TotalWeight vv) * 2 < 3 * x" for x
    unfolding unat_Quorum [OF wf] unat_TotalWeight [OF wf] by linarith
  obtain s where s: "fold_option (\<lambda>s i. map_option fst (CountByIdx s i)) is (NewCounter vv) = Some s"
    "unat (Sum s) = (\<Sum>i\<in>set is. weight_at vv i)"
    "HasQuorum s \<longleftrightarrow> unat (Quorum vv) \<le> (\<Sum>i\<in>set is. weight_at vv i)"
    using counter.count_loop_quorum [OF wf, of "is"] assms(3) by auto
  have "TotalWeight vv \<noteq> 0 \<longleftrightarrow> unat (TotalWeight vv) \<noteq> 0"
    by (simp add: unat_eq_zero)
  then have "set is = {..<Validators_Len vv} \<longrightarrow> (HasQuorum s \<longleftrightarrow> TotalWeight vv \<noteq> 0)"
    using s(3) q [of "\<Sum>i\<in>set is. weight_at vv i"] sum_weight_at [OF wf] unat_TotalWeight [OF wf]
    by auto
  with s q show ?thesis by auto
qed

theorem counter_reaches_quorum_witness:
  "\<exists>vv s. newValidators [(7, 1), (3, 5)] = Inr vv \<and>
    fold_option (\<lambda>s i. map_option fst (CountByIdx s i)) [0, 0] (NewCounter vv) = Some s \<and> HasQuorum s"
proof -
  obtain vv where vv: "newValidators [(7, 1), (3, 5)] = Inr vv"
    and len: "Validators_Len vv = 2" and tot: "unat (TotalWeight vv) = 6"
    and w: "weight_at vv 0 = 5"
    by (simp add: newValidators_eq weight_total_def Validators_Len_def TotalWeight_def caches_of_def
        weight_at_def sortedArray_def less_validator_def less_eq_validator_def Less_def Let_def)
  have "distinct (map fst [(7::ValidatorID, 1::Weight), (3, 5)])" by simp
  from counter_reaches_quorum [OF this vv, of "[0, 0]"] vv len tot w show ?thesis by auto
qed

text \<open>
  C34: two validator sets that each reach the quorum of a built group share
  members of more than a third of the total weight, so a faulty set of at most
  a third of the weight cannot contain everything they share.
\<close>

theorem quorums_intersect_in_honest:
  assumes "distinct (map fst vals)" and "newValidators vals = Inr vv"
    and "A \<subseteq> {..<Validators_Len vv}" and "B \<subseteq> {..<Validators_Len vv}"
    and "unat (Quorum vv) \<le> sum (weight_at vv) A" and "unat (Quorum vv) \<le> sum (weight_at vv) B"
    and "F \<subseteq> {..<Validators_Len vv}" and "3 * sum (weight_at vv) F \<le> unat (TotalWeight vv)"
  shows "unat (TotalWeight vv) < 3 * sum (weight_at vv) (A \<inter> B) \<and> (\<exists>i. i \<in> A \<and> i \<in> B \<and> i \<notin> F)"
proof -
  have wf: "wf_validators vv" using wf_newValidators [OF assms(1,2)] .
  have tot: "unat (TotalWeight vv) = sum (weight_at vv) {..<Validators_Len vv}"
    by (simp add: unat_TotalWeight [OF wf] sum_weight_at [OF wf])
  show ?thesis
    using pos.quorum_intersection [OF wf assms(3-6)]
      pos.quorums_share_outside [OF wf assms(3-7) assms(8) [unfolded tot]]
    by (auto simp: tot)
qed

theorem quorums_intersect_in_honest_witness:
  "\<exists>vv. newValidators [(1, 1), (2, 1), (3, 1), (4, 1)] = Inr vv \<and>
    (\<exists>i. i \<in> {0, 1, 2::nat} \<and> i \<in> {1, 2, 3} \<and> i \<notin> {1})"
proof -
  obtain vv where vv: "newValidators [(1, 1), (2, 1), (3, 1), (4, 1)] = Inr vv"
    and len: "Validators_Len vv = 4" and tot: "unat (TotalWeight vv) = 4"
    and q: "unat (Quorum vv) = 3"
    and w: "weight_at vv 0 = 1" "weight_at vv 1 = 1" "weight_at vv 2 = 1" "weight_at vv 3 = 1"
    by (simp add: newValidators_eq weight_total_def Validators_Len_def TotalWeight_def caches_of_def
        weight_at_def sortedArray_def less_validator_def less_eq_validator_def Less_def Let_def
        Quorum_def)
  have "distinct (map fst [(1::ValidatorID, 1::Weight), (2, 1), (3, 1), (4, 1)])" by simp
  from quorums_intersect_in_honest [OF this vv, of "{0, 1, 2}" "{1, 2, 3}" "{1}"]
    vv len tot q w show ?thesis by auto
qed

section \<open>Downscaling of unbounded weights\<close>

lemma BitLen_nat_less: "n < 2 ^ BitLen_nat n"
proof (induction n rule: BitLen_nat.induct)
  case (1 n)
  show ?case
  proof (cases "n = 0")
    case False
    with 1 have "n div 2 < 2 ^ BitLen_nat (n div 2)" by simp
    then have "n < 2 * 2 ^ BitLen_nat (n div 2)" by linarith
    with False show ?thesis by (subst BitLen_nat.simps) simp
  qed (simp add: BitLen_nat.simps)
qed

lemma BigBuilder_TotalWeight_eq: "BigBuilder_TotalWeight vv = (\<Sum>(i, w) \<leftarrow> vv. w)"
proof -
  have "fold (\<lambda>(_, w) res. res + w) vv x = x + (\<Sum>(i, w) \<leftarrow> vv. w)" for x :: int
    by (induction vv arbitrary: x) auto
  then show ?thesis by (simp add: BigBuilder_TotalWeight_def)
qed

lemma sum_list_div_le:
  fixes ws :: "int list"
  assumes "\<forall>w \<in> set ws. 0 \<le> w" and "0 < d"
  shows "(\<Sum>w \<leftarrow> ws. nat (w div d)) \<le> nat (sum_list ws div d)"
  using assms(1)
proof (induction ws)
  case (Cons w ws)
  have nn: "0 \<le> sum_list ws" "0 \<le> w" using Cons.prems by (auto intro: sum_list_nonneg)
  have "w div d + sum_list ws div d \<le> (w + sum_list ws) div d"
    using assms(2) by (metis div_add1_eq le_add_same_cancel1 pos_imp_zdiv_nonneg_iff
        pos_mod_sign add_nonneg_nonneg)
  moreover have "0 \<le> w div d" "0 \<le> sum_list ws div d"
    using nn assms(2) by (simp_all add: pos_imp_zdiv_nonneg_iff)
  ultimately have "nat (w div d) + nat (sum_list ws div d) \<le> nat ((w + sum_list ws) div d)"
    by linarith
  with Cons show ?case by simp
qed simp

definition big_shift :: "ValidatorsBigBuilder \<Rightarrow> nat" where
  "big_shift vv =
    (let totalBits = BitLen (BigBuilder_TotalWeight vv) in if totalBits > 31 then totalBits - 31 else 0)"

lemma int_le_div_iff: "0 < d \<Longrightarrow> n \<le> (x::int) div d \<longleftrightarrow> n * d \<le> x"
proof
  assume d: "0 < d" and le: "n \<le> x div d"
  have "n * d \<le> x div d * d" using d le by simp
  also have "\<dots> \<le> x" using d by (metis div_mult_mod_eq le_add_same_cancel1 pos_mod_sign)
  finally show "n * d \<le> x" .
next
  assume d: "0 < d" and le: "n * d \<le> x"
  then show "n \<le> x div d" using zdiv_mono1 [OF le d] by simp
qed

lemma int_div_less_iff: "0 < d \<Longrightarrow> (x::int) div d < n \<longleftrightarrow> x < n * d"
  by (metis linorder_not_le int_le_div_iff)

lemma big_total_bound:
  assumes "\<forall>w \<in> snd ` set vv. 0 \<le> w"
  shows "BigBuilder_TotalWeight vv div 2 ^ big_shift vv < 2 ^ 31"
proof -
  let ?t = "BigBuilder_TotalWeight vv"
  have nn: "0 \<le> ?t" unfolding BigBuilder_TotalWeight_eq using assms
    by (intro sum_list_nonneg) auto
  have "nat ?t < 2 ^ BitLen ?t"
    using BitLen_nat_less [of "nat \<bar>?t\<bar>"] nn by (simp add: BitLen_def)
  then have lt: "?t < 2 ^ BitLen ?t"
    using nn by (simp add: nat_less_iff)
  show ?thesis
  proof (cases "BitLen ?t > 31")
    case True
    have "BitLen ?t = 31 + big_shift vv"
      using True by (simp add: big_shift_def)
    then have "(2::int) ^ BitLen ?t = 2 ^ 31 * 2 ^ big_shift vv"
      by (simp only: power_add)
    with lt show ?thesis
      by (simp add: int_div_less_iff)
  next
    case False
    then have "(2::int) ^ BitLen ?t \<le> 2 ^ 31" by (intro power_increasing) auto
    with lt False show ?thesis by (simp add: big_shift_def)
  qed
qed

definition big_scale :: "nat \<Rightarrow> int \<Rightarrow> Weight" where
  "big_scale shift w = ucast (word_of_int \<bar>drop_bit shift w\<bar> :: u64)"

lemma unat_big_scale:
  assumes "0 \<le> w" and "w div 2 ^ shift < 2 ^ 31"
  shows "unat (big_scale shift w) = nat (w div 2 ^ shift)"
proof -
  have nn: "0 \<le> w div 2 ^ shift" using assms(1) by (simp add: pos_imp_zdiv_nonneg_iff)
  have "uint (big_scale shift w) = w div 2 ^ shift"
    using nn assms(2)
    by (simp add: big_scale_def drop_bit_eq_div unsigned_ucast_eq take_bit_word_eq_self
        uint_word_of_int_eq take_bit_eq_mod)
  then show ?thesis by (metis unat_eq_nat_uint)
qed

lemma BigBuilder_Build_eq:
  assumes "distinct (map fst b)"
  shows "BigBuilder_Build b = newValidators
    (filter (\<lambda>(i, s). s \<noteq> 0) (map (\<lambda>(v, w). (v, big_scale (big_shift b) w)) b))"
proof -
  have "fold (\<lambda>(v, w) c. Builder_Set c v (big_scale k w)) b c =
      fold (\<lambda>(i, s) c. Builder_Set c i s) (map (\<lambda>(v, w). (v, big_scale k w)) b) c" for k c
    by (induction b arbitrary: c) auto
  moreover have "distinct (map fst (map (\<lambda>(v, w). (v, big_scale k w)) b))" for k
    using assms by (simp add: case_prod_unfold comp_def)
  ultimately show ?thesis
    unfolding BigBuilder_Build_def Let_def Builder_Build_def big_scale_def [symmetric]
      big_shift_def [unfolded Let_def, symmetric]
    by (simp add: fold_Set_copy)
qed

lemma big_scale_total:
  assumes "\<forall>w \<in> snd ` set b. 0 \<le> w"
  shows "weight_total (map (\<lambda>(v, w). (v, big_scale (big_shift b) w)) b) \<le> 2147483647"
    and "(v, w) \<in> set b \<Longrightarrow> unat (big_scale (big_shift b) w) = nat (w div 2 ^ big_shift b)"
proof -
  let ?k = "big_shift b"
  have le: "w div 2 ^ ?k < 2 ^ 31" if "(v, w) \<in> set b" for v w
  proof -
    have "w \<le> (\<Sum>(i, w) \<leftarrow> b. w)"
      using that assms by (intro member_le_sum_list) (force simp: image_iff)+
    then have "w div 2 ^ ?k \<le> BigBuilder_TotalWeight b div 2 ^ ?k"
      by (simp add: BigBuilder_TotalWeight_eq zdiv_mono1)
    with big_total_bound [OF assms] show ?thesis by linarith
  qed
  then show each: "unat (big_scale ?k w) = nat (w div 2 ^ ?k)" if "(v, w) \<in> set b" for v w
    using that assms by (intro unat_big_scale) (force simp: image_iff)+
  have "weight_total (map (\<lambda>(v, w). (v, big_scale ?k w)) b) =
      (\<Sum>w \<leftarrow> map snd b. nat (w div 2 ^ ?k))"
    unfolding weight_total_def
    by (auto simp: comp_def intro!: arg_cong [where f = sum_list] map_cong each)
  also have "\<dots> \<le> nat (sum_list (map snd b) div 2 ^ ?k)"
    using assms by (intro sum_list_div_le) auto
  also have "\<dots> \<le> 2147483647"
    using big_total_bound [OF assms]
    by (simp add: BigBuilder_TotalWeight_eq case_prod_unfold comp_def)
  finally show "weight_total (map (\<lambda>(v, w). (v, big_scale ?k w)) b) \<le> 2147483647" .
qed

text \<open>
  The builder over unbounded integers never panics. For non-negative
  weights of any size it divides every weight by one common power of two, chosen
  so that the sum fits, and keeps exactly the validators whose scaled weight is
  not zero.
\<close>

theorem BigBuilder_Build_ok:
  assumes "distinct (map fst b)" and "\<forall>w \<in> snd ` set b. 0 \<le> w"
  shows "\<exists>vv. BigBuilder_Build b = Inr vv \<and>
    (\<forall>v w. map_of b v = Some w \<longrightarrow>
      unat (Validators_Get vv v) = nat (w div 2 ^ (BitLen (BigBuilder_TotalWeight b) - 31)) \<and>
      (Exists vv v \<longleftrightarrow> 2 ^ (BitLen (BigBuilder_TotalWeight b) - 31) \<le> w)) \<and>
    (\<forall>v. map_of b v = None \<longrightarrow> \<not> Exists vv v)"
proof -
  let ?k = "big_shift b"
  let ?m = "map (\<lambda>(v, w). (v, big_scale ?k w)) b"
  let ?f = "filter (\<lambda>(i, s). s \<noteq> 0) ?m"
  have k: "BitLen (BigBuilder_TotalWeight b) - 31 = ?k" by (simp add: big_shift_def Let_def)
  have dist: "distinct (map fst ?m)" using assms(1) by (simp add: case_prod_unfold comp_def)
  have build: "BigBuilder_Build b = Inr \<lparr>vv_values = ?f, vv_cache = caches_of ?f\<rparr>"
    using big_scale_total(1) [OF assms(2)] dist
    by (simp add: BigBuilder_Build_eq [OF assms(1)] newValidators_eq distinct_map_filter Let_def
        weight_total_filter)
  have mm: "map_of ?m v = map_option (big_scale ?k) (map_of b v)" for v
    by (simp add: map_of_map comp_def)
  have scaled: "unat (big_scale ?k w) = nat (w div 2 ^ ?k)" and nz: "0 \<le> w"
    if "map_of b v = Some w" for v w
    using big_scale_total(2) [OF assms(2) map_of_SomeD [OF that]] assms(2) map_of_SomeD [OF that]
    by force+
  have zero: "big_scale ?k w \<noteq> 0 \<longleftrightarrow> 2 ^ ?k \<le> w" if "map_of b v = Some w" for v w
  proof -
    have "big_scale ?k w \<noteq> 0 \<longleftrightarrow> unat (big_scale ?k w) \<noteq> 0" by (simp add: unat_eq_zero)
    also have "\<dots> \<longleftrightarrow> 0 < w div 2 ^ ?k" by (simp add: scaled [OF that] not_le)
    also have "\<dots> \<longleftrightarrow> 2 ^ ?k \<le> w"
      using nz [OF that] by (auto simp: pos_imp_zdiv_pos_iff)
    finally show ?thesis .
  qed
  let ?vv = "\<lparr>vv_values = ?f, vv_cache = caches_of ?f\<rparr>"
  have lookup: "map_of ?f v = (case map_of b v of None \<Rightarrow> None
      | Some w \<Rightarrow> if big_scale ?k w = 0 then None else Some (big_scale ?k w))" for v
    by (simp add: map_of_filter_nonzero [OF dist] mm split: option.splits)
  have "Validators_Get ?vv v = big_scale ?k w" and "Exists ?vv v \<longleftrightarrow> big_scale ?k w \<noteq> 0"
    if "map_of b v = Some w" for v w
    using that lookup [of v] by (simp_all add: Validators_Get_def Exists_def)
  moreover have "\<not> Exists ?vv v" if "map_of b v = None" for v
    using that lookup [of v] by (simp add: Exists_def)
  ultimately show ?thesis
    unfolding k using build zero scaled by (intro exI [of _ ?vv]) simp
qed

theorem BigBuilder_Build_ok_witness:
  "\<exists>vv. BigBuilder_Build [(1, 2 ^ 40), (2, 1)] = Inr vv \<and> Exists vv 1 \<and> \<not> Exists vv 2"
proof -
  have "BitLen (2 ^ 40 + 1) - 31 = 10"
    by (simp add: BitLen_def BitLen_nat.simps)
  then have bl: "BitLen (BigBuilder_TotalWeight [(1, 2 ^ 40), (2, 1)]) - 31 = 10"
    by (simp add: BigBuilder_TotalWeight_def add.commute)
  show ?thesis
    using BigBuilder_Build_ok [of "[(1, 2 ^ 40), (2, 1)]"] unfolding bl by auto
qed

section \<open>A group of one\<close>

definition sample_validators :: Validators where
  "sample_validators = \<lparr>vv_values = [(1, 1)], vv_cache = caches_of [(1, 1)]\<rparr>"

lemma sample_validators: "newValidators [(1, 1)] = Inr sample_validators"
  by (simp add: newValidators_eq weight_total_def Let_def sample_validators_def)

lemma wf_sample_validators: "wf_validators sample_validators"
  by (rule wf_newValidators [OF _ sample_validators]) simp

lemma sample_validators_simps:
  "Validators_Len sample_validators = 1" "ids (vv_cache sample_validators) = [1]"
  "weights (vv_cache sample_validators) = [1]" "Quorum sample_validators = 1"
  "Exists sample_validators 1" "TotalWeight sample_validators = 1"
  by (simp_all add: sample_validators_def caches_of_def Validators_Len_def sortedArray_def Quorum_def
      TotalWeight_def weight_total_def Exists_def)

end
