(* ===== verification/Event_Check.thy ===== *)
theory Event_Check
  imports Dag Pos
begin

text \<open>
  The stateless event checkers (\<^verbatim>\<open>eventcheck\<close>): \<^verbatim>\<open>basiccheck\<close>, \<^verbatim>\<open>epochcheck\<close>,
  \<^verbatim>\<open>parentscheck\<close> and their composition. A check returns the first error it
  meets, \<^const>\<open>None\<close> when the event passes; the panic of \<^verbatim>\<open>parentscheck\<close> on a
  wrong argument is an error value of its own.
\<close>

datatype check_error =
  ErrNoParents | ErrNotInited | ErrHugeValue | ErrDoubleParents
| ErrNotRelevant | ErrAuth
| ErrWrongSeq | ErrWrongLamport | ErrWrongSelfParent
| PanicParentsArgument

definition MaxInt32 :: u32 where
  "MaxInt32 = 2147483647"

section \<open>basiccheck\<close>

definition checkLimits :: "BaseEvent \<Rightarrow> check_error option" where
  "checkLimits e =
    (if ev_seq e \<ge> MaxInt32 - 1 \<or> ev_epoch e \<ge> MaxInt32 - 1 \<or> ev_frame e \<ge> MaxInt32 - 1 \<or>
        ev_lamport e \<ge> MaxInt32 - 1
     then Some ErrHugeValue else None)"

definition checkInited :: "BaseEvent \<Rightarrow> check_error option" where
  "checkInited e =
    (if ev_seq e \<le> 0 \<or> ev_epoch e \<le> 0 \<or> ev_frame e \<le> 0 \<or> ev_lamport e \<le> 0 then Some ErrNotInited
     else if ev_seq e > 1 \<and> length (ev_parents e) = 0 then Some ErrNoParents
     else None)"

definition basiccheck_Validate :: "BaseEvent \<Rightarrow> check_error option" where
  "basiccheck_Validate e =
    (case checkLimits e of
       Some err \<Rightarrow> Some err
     | None \<Rightarrow>
         (case checkInited e of
            Some err \<Rightarrow> Some err
          | None \<Rightarrow>
              if card (Events_Set (ev_parents e)) \<noteq> length (ev_parents e)
              then Some ErrDoubleParents else None))"

section \<open>epochcheck\<close>

text \<open>The validators and the epoch are what the \<^verbatim>\<open>Reader\<close> returns.\<close>

definition epochcheck_Validate :: "Validators \<times> Epoch \<Rightarrow> BaseEvent \<Rightarrow> check_error option" where
  "epochcheck_Validate reader e =
    (if ev_epoch e \<noteq> snd reader then Some ErrNotRelevant
     else if \<not> Exists (fst reader) (ev_creator e) then Some ErrAuth
     else None)"

section \<open>parentscheck\<close>

fun parentscheck_selfParents :: "BaseEvent \<Rightarrow> nat \<Rightarrow> BaseEvent list \<Rightarrow> check_error option" where
  "parentscheck_selfParents e i [] = None"
| "parentscheck_selfParents e i (p # ps) =
    (if (ev_creator p = ev_creator e) \<noteq> IsSelfParent e (ev_parents e ! i)
     then Some ErrWrongSelfParent
     else parentscheck_selfParents e (Suc i) ps)"

definition parentscheck_Validate :: "BaseEvent \<Rightarrow> BaseEvent list \<Rightarrow> check_error option" where
  "parentscheck_Validate e parents =
    (if length (ev_parents e) \<noteq> length parents then Some PanicParentsArgument
     else
       let maxLamport = fold (\<lambda>p m. MaxLamport m (ev_lamport p)) parents 0 in
       if ev_lamport e \<noteq> maxLamport + 1 then Some ErrWrongLamport
       else
         case parentscheck_selfParents e 0 parents of
           Some err \<Rightarrow> Some err
         | None \<Rightarrow>
             if (ev_seq e = 1) \<noteq> (SelfParent e = None) then Some ErrWrongSeq
             else if SelfParent e \<noteq> None then
               let selfParent = parents ! 0 in
               if \<not> IsSelfParent e (ev_id selfParent) then Some ErrWrongSelfParent
               else if ev_seq e \<noteq> ev_seq selfParent + 1 then Some ErrWrongSeq
               else None
             else None)"

section \<open>All checks\<close>

definition Checkers_Validate ::
  "Validators \<times> Epoch \<Rightarrow> BaseEvent \<Rightarrow> BaseEvent list \<Rightarrow> check_error option" where
  "Checkers_Validate reader e parents =
    (case basiccheck_Validate e of
       Some err \<Rightarrow> Some err
     | None \<Rightarrow>
         (case epochcheck_Validate reader e of
            Some err \<Rightarrow> Some err
          | None \<Rightarrow> parentscheck_Validate e parents))"

section \<open>What the checks accept\<close>

text \<open>
  The condition on the creator's own parents: a first event has none, a later
  one has exactly one, in the first place, with the previous sequence number.
\<close>

definition self_chain_ok :: "BaseEvent \<Rightarrow> BaseEvent list \<Rightarrow> bool" where
  "self_chain_ok e ps =
    (if ev_seq e = 1 then \<forall>p \<in> set ps. ev_creator p \<noteq> ev_creator e
     else case ps of
            [] \<Rightarrow> False
          | sp # rest \<Rightarrow> ev_creator sp = ev_creator e \<and> unat (ev_seq e) = unat (ev_seq sp) + 1 \<and>
              (\<forall>p \<in> set rest. ev_creator p \<noteq> ev_creator e))"

definition event_ok :: "Validators \<times> Epoch \<Rightarrow> BaseEvent \<Rightarrow> BaseEvent list \<Rightarrow> bool" where
  "event_ok reader e ps \<longleftrightarrow>
    (\<forall>x \<in> {ev_seq e, ev_epoch e, ev_frame e, ev_lamport e}. 0 < unat x \<and> unat x < 2147483646) \<and>
    distinct (ev_parents e) \<and>
    ev_epoch e = snd reader \<and> Exists (fst reader) (ev_creator e) \<and>
    unat (ev_lamport e) = Suc (Max (insert 0 ((\<lambda>p. unat (ev_lamport p)) ` set ps))) \<and>
    self_chain_ok e ps"

lemma MaxLamport_max: "MaxLamport x y = max x y"
  by (auto simp: MaxLamport_def max_def)

lemma unat_max: "unat (max x y) = max (unat x) (unat y)"
  by (simp add: max_def word_le_nat_alt)

lemma fold_MaxLamport:
  "unat (fold (\<lambda>p m. MaxLamport m (ev_lamport p)) ps a) =
    Max (insert (unat a) ((\<lambda>p. unat (ev_lamport p)) ` set ps))"
proof (induction ps arbitrary: a)
  case (Cons p ps)
  have "insert (unat a) ((\<lambda>p. unat (ev_lamport p)) ` set (p # ps)) =
      {unat a, unat (ev_lamport p)} \<union> (\<lambda>p. unat (ev_lamport p)) ` set ps" by auto
  then show ?case
    using Cons [of "max a (ev_lamport p)"]
    by (cases "set ps = {}") (auto simp: MaxLamport_max unat_max max.assoc)
qed simp

lemma parentscheck_selfParents_None:
  "parentscheck_selfParents e i ps = None \<longleftrightarrow>
    (\<forall>j < length ps. (ev_creator (ps ! j) = ev_creator e) = IsSelfParent e (ev_parents e ! (i + j)))"
proof (induction ps arbitrary: i)
  case (Cons p ps)
  show ?case
    by (simp add: Cons All_less_Suc2)
qed simp

lemma basiccheck_None:
  "basiccheck_Validate e = None \<longleftrightarrow>
    (\<forall>x \<in> {ev_seq e, ev_epoch e, ev_frame e, ev_lamport e}. 0 < unat x \<and> unat x < 2147483646) \<and>
    \<not> (ev_seq e > 1 \<and> ev_parents e = []) \<and> distinct (ev_parents e)"
proof -
  have lim: "checkLimits e = None \<longleftrightarrow>
      (\<forall>x \<in> {ev_seq e, ev_epoch e, ev_frame e, ev_lamport e}. unat x < 2147483646)"
    by (auto simp: checkLimits_def MaxInt32_def word_le_nat_alt)
  have init: "checkInited e = None \<longleftrightarrow>
      (\<forall>x \<in> {ev_seq e, ev_epoch e, ev_frame e, ev_lamport e}. 0 < unat x) \<and>
      \<not> (ev_seq e > 1 \<and> ev_parents e = [])"
    by (auto simp: checkInited_def unat_gt_0)
  have dist: "card (Events_Set (ev_parents e)) = length (ev_parents e) \<longleftrightarrow> distinct (ev_parents e)"
    using distinct_card card_distinct by (auto simp: Events_Set_def)
  show ?thesis
    using lim init dist by (auto simp: basiccheck_Validate_def split: option.splits)
qed

lemma self_chain_iff:
  assumes ids: "map ev_id ps = ev_parents e" and dist: "distinct (ev_parents e)"
    and seq: "0 < unat (ev_seq e)"
    and ne: "\<not> (ev_seq e > 1 \<and> ev_parents e = [])"
  shows "parentscheck_selfParents e 0 ps = None \<and> ((ev_seq e = 1) = (SelfParent e = None)) \<and>
      (SelfParent e \<noteq> None \<longrightarrow> IsSelfParent e (ev_id (ps ! 0)) \<and> ev_seq e = ev_seq (ps ! 0) + 1) \<longleftrightarrow>
    self_chain_ok e ps"
proof (cases "ev_seq e = 1")
  case True
  then have "SelfParent e = None" by (simp add: SelfParent_def)
  moreover from this have "IsSelfParent e h \<longleftrightarrow> False" for h by (simp add: IsSelfParent_def)
  ultimately show ?thesis
    using True by (auto simp: parentscheck_selfParents_None self_chain_ok_def all_set_conv_all_nth)
next
  case False
  have "unat (ev_seq e) \<noteq> 1" using False by (metis unat_1 word_unat_eq_iff)
  then have gt: "ev_seq e > 1" using seq by (simp add: word_less_nat_alt)
  with ne obtain sp rest where ps: "ps = sp # rest" using ids by (cases ps) auto
  have sp: "SelfParent e = Some (ev_id sp)"
    using gt ids [symmetric] ps by (simp add: SelfParent_def not_le)
  have isp: "IsSelfParent e h \<longleftrightarrow> ev_id sp = h" for h by (simp add: IsSelfParent_def sp)
  have hd: "ev_parents e ! 0 = ev_id sp" and nth: "ev_parents e ! Suc j = ev_id (rest ! j)"
    if "j < length rest" for j
    using that ids ps by (metis nth_Cons_0 list.simps(9), metis Suc_less_eq length_Cons list.simps(9)
        nth_Cons_Suc nth_map)
  have neq: "ev_id sp \<noteq> ev_id (rest ! j)" if "j < length rest" for j
    using dist that unfolding ids [symmetric] ps by auto
  have "parentscheck_selfParents e 0 ps = None \<longleftrightarrow>
      ev_creator sp = ev_creator e \<and> (\<forall>p \<in> set rest. ev_creator p \<noteq> ev_creator e)"
    using nth neq ids [symmetric]
    by (auto simp: parentscheck_selfParents_None isp ps All_less_Suc2 all_set_conv_all_nth)
  moreover have "ev_seq e = ev_seq sp + 1 \<longleftrightarrow> unat (ev_seq e) = unat (ev_seq sp) + 1"
    using word_eq_add_1_iff [OF seq] by simp
  ultimately show ?thesis
    using False by (auto simp: self_chain_ok_def ps sp isp)
qed

lemma Checkers_accept_iff:
  assumes "map ev_id ps = ev_parents e"
  shows "Checkers_Validate reader e ps = None \<longleftrightarrow> event_ok reader e ps"
proof -
  have len: "length (ev_parents e) = length ps" using assms by (metis length_map)
  let ?m = "fold (\<lambda>p m. MaxLamport m (ev_lamport p)) ps 0"
  have m: "unat ?m = Max (insert 0 ((\<lambda>p. unat (ev_lamport p)) ` set ps))"
    by (simp add: fold_MaxLamport)
  have lam: "ev_lamport e = ?m + 1 \<longleftrightarrow> unat (ev_lamport e) = Suc (unat ?m)" if "0 < unat (ev_lamport e)"
    using that by (rule word_eq_add_1_iff)
  have parents: "parentscheck_Validate e ps = None \<longleftrightarrow>
      ev_lamport e = ?m + 1 \<and> parentscheck_selfParents e 0 ps = None \<and>
      ((ev_seq e = 1) = (SelfParent e = None)) \<and>
      (SelfParent e \<noteq> None \<longrightarrow> IsSelfParent e (ev_id (ps ! 0)) \<and> ev_seq e = ev_seq (ps ! 0) + 1)"
    using len by (auto simp: parentscheck_Validate_def Let_def split: option.splits if_splits)
  have epoch: "epochcheck_Validate reader e = None \<longleftrightarrow>
      ev_epoch e = snd reader \<and> Exists (fst reader) (ev_creator e)"
    by (simp add: epochcheck_Validate_def)
  have all: "Checkers_Validate reader e ps = None \<longleftrightarrow> basiccheck_Validate e = None \<and>
      epochcheck_Validate reader e = None \<and> parentscheck_Validate e ps = None"
    by (simp add: Checkers_Validate_def split: option.splits)
  have "event_ok reader e ps \<longrightarrow> \<not> (ev_seq e > 1 \<and> ev_parents e = [])"
    using len by (auto simp: event_ok_def self_chain_ok_def)
  then show ?thesis
    unfolding all basiccheck_None epoch parents
    using self_chain_iff [OF assms] lam m by (auto simp: event_ok_def)
qed

text \<open>
  C36: the event checks accept an event, given the events its parents name,
  exactly when every counter is positive and far from the 32-bit limit, the
  parents are distinct, the epoch is the current one, the creator is a
  validator, the Lamport time is one more than the largest of the parents, and
  the creator's own parents form its chain: none for a first event, otherwise
  the first parent alone, with the preceding sequence number.
\<close>

theorem Checkers_Validate_iff:
  assumes "map ev_id ps = ev_parents e"
  shows "Checkers_Validate reader e ps = None \<longleftrightarrow> event_ok reader e ps"
  using assms by (rule Checkers_accept_iff)

theorem Checkers_Validate_iff_witness:
  "\<exists>vv. newValidators [(1, 1)] = Inr vv \<and>
    Checkers_Validate (vv, 1) (sample_event 1 1) [] = None \<and> event_ok (vv, 1) (sample_event 1 1) []"
proof -
  obtain vv where vv: "newValidators [(1, 1)] = Inr vv" "Exists vv 1"
    by (simp add: newValidators_eq weight_total_def Let_def Exists_def)
  have "event_ok (vv, 1) (sample_event 1 1) []"
    using vv(2) by (simp add: event_ok_def sample_event_def self_chain_ok_def)
  with vv(1) Checkers_Validate_iff [of "[]" "sample_event 1 1" "(vv, 1)"] show ?thesis
    by (auto simp: sample_event_def)
qed

end
