(* ===== verification/Vectors.thy ===== *)
theory Vectors
  imports Dag
begin

text \<open>
  The byte-encoded vector clocks of \<^verbatim>\<open>vecfc/vector.go\<close> and their operations in
  \<^verbatim>\<open>vecfc/vector_ops.go\<close>. A vector is the byte slice of the code: four bytes per
  branch for \<^verbatim>\<open>LowestAfterSeq\<close>, eight for \<^verbatim>\<open>HighestBeforeSeq\<close>. The contract of a
  growing vector of positions is a locale that both implement; what the engine
  needs of \<^verbatim>\<open>CollectFrom\<close> and \<^verbatim>\<open>GatherFrom\<close> follows from it.
\<close>

section \<open>Definitions\<close>

type_synonym LowestAfterSeq = bytes
type_synonym HighestBeforeSeq = bytes

record BranchSeq =
  bs_Seq :: Event_seq
  bs_MinSeq :: Event_seq

definition put_at :: "bytes \<Rightarrow> nat \<Rightarrow> bytes \<Rightarrow> bytes" where
  "put_at b off xs = take off b @ xs @ drop (off + length xs) b"

definition NewLowestAfterSeq :: "nat \<Rightarrow> LowestAfterSeq" where
  "NewLowestAfterSeq n = replicate (n * 4) 0"

definition NewHighestBeforeSeq :: "nat \<Rightarrow> HighestBeforeSeq" where
  "NewHighestBeforeSeq n = replicate (n * 8) 0"

definition LA_Size :: "LowestAfterSeq \<Rightarrow> nat" where
  "LA_Size b = length b div 4"

definition LA_Get :: "LowestAfterSeq \<Rightarrow> nat \<Rightarrow> Event_seq" where
  "LA_Get b i = (if i \<ge> LA_Size b then 0 else get_le (take 4 (drop (i * 4) b)))"

function LA_grow :: "LowestAfterSeq \<Rightarrow> nat \<Rightarrow> LowestAfterSeq" where
  "LA_grow b i = (if i \<ge> LA_Size b then LA_grow (b @ [0, 0, 0, 0]) i else b)"
  by auto
termination
  by (relation "measure (\<lambda>(b, i). Suc i - LA_Size b)") (auto simp: LA_Size_def)

declare LA_grow.simps [simp del]

definition LA_Set :: "LowestAfterSeq \<Rightarrow> nat \<Rightarrow> Event_seq \<Rightarrow> LowestAfterSeq" where
  "LA_Set b i seq = put_at (LA_grow b i) (i * 4) (put_le 4 seq)"

definition HB_Size :: "HighestBeforeSeq \<Rightarrow> nat" where
  "HB_Size b = length b div 8"

definition HB_Get :: "HighestBeforeSeq \<Rightarrow> nat \<Rightarrow> BranchSeq" where
  "HB_Get b i =
    (if i \<ge> HB_Size b then \<lparr>bs_Seq = 0, bs_MinSeq = 0\<rparr>
     else \<lparr>bs_Seq = get_le (take 4 (drop (i * 8) b)), bs_MinSeq = get_le (take 4 (drop (i * 8 + 4) b))\<rparr>)"

function HB_grow :: "HighestBeforeSeq \<Rightarrow> nat \<Rightarrow> HighestBeforeSeq" where
  "HB_grow b i = (if i \<ge> HB_Size b then HB_grow (b @ [0, 0, 0, 0, 0, 0, 0, 0]) i else b)"
  by auto
termination
  by (relation "measure (\<lambda>(b, i). Suc i - HB_Size b)") (auto simp: HB_Size_def)

declare HB_grow.simps [simp del]

definition HB_Set :: "HighestBeforeSeq \<Rightarrow> nat \<Rightarrow> BranchSeq \<Rightarrow> HighestBeforeSeq" where
  "HB_Set b i seq =
    put_at (put_at (HB_grow b i) (i * 8) (put_le 4 (bs_Seq seq))) (i * 8 + 4) (put_le 4 (bs_MinSeq seq))"

definition forkDetectedSeq :: BranchSeq where
  "forkDetectedSeq = \<lparr>bs_Seq = 0, bs_MinSeq = 2147483647\<rparr>"

definition BranchSeq_IsForkDetected :: "BranchSeq \<Rightarrow> bool" where
  "BranchSeq_IsForkDetected seq = (seq = forkDetectedSeq)"

definition LA_InitWithEvent :: "LowestAfterSeq \<Rightarrow> nat \<Rightarrow> BaseEvent \<Rightarrow> LowestAfterSeq" where
  "LA_InitWithEvent b i e = LA_Set b i (ev_seq e)"

definition LA_Visit :: "LowestAfterSeq \<Rightarrow> nat \<Rightarrow> BaseEvent \<Rightarrow> LowestAfterSeq \<times> bool" where
  "LA_Visit b i e = (if LA_Get b i \<noteq> 0 then (b, False) else (LA_Set b i (ev_seq e), True))"

definition HB_InitWithEvent :: "HighestBeforeSeq \<Rightarrow> nat \<Rightarrow> BaseEvent \<Rightarrow> HighestBeforeSeq" where
  "HB_InitWithEvent b i e = HB_Set b i \<lparr>bs_Seq = ev_seq e, bs_MinSeq = ev_seq e\<rparr>"

definition HB_IsEmpty :: "HighestBeforeSeq \<Rightarrow> nat \<Rightarrow> bool" where
  "HB_IsEmpty b i = (\<not> BranchSeq_IsForkDetected (HB_Get b i) \<and> bs_Seq (HB_Get b i) = 0)"

definition HB_IsForkDetected :: "HighestBeforeSeq \<Rightarrow> nat \<Rightarrow> bool" where
  "HB_IsForkDetected b i = BranchSeq_IsForkDetected (HB_Get b i)"

definition HB_Seq :: "HighestBeforeSeq \<Rightarrow> nat \<Rightarrow> Event_seq" where
  "HB_Seq b i = bs_Seq (HB_Get b i)"

definition HB_MinSeq :: "HighestBeforeSeq \<Rightarrow> nat \<Rightarrow> Event_seq" where
  "HB_MinSeq b i = bs_MinSeq (HB_Get b i)"

definition HB_SetForkDetected :: "HighestBeforeSeq \<Rightarrow> nat \<Rightarrow> HighestBeforeSeq" where
  "HB_SetForkDetected b i = HB_Set b i forkDetectedSeq"

definition CollectFrom_step :: "HighestBeforeSeq \<Rightarrow> nat \<Rightarrow> HighestBeforeSeq \<Rightarrow> HighestBeforeSeq" where
  "CollectFrom_step other branchID self =
    (let hisSeq = HB_Get other branchID in
     if bs_Seq hisSeq = 0 \<and> \<not> BranchSeq_IsForkDetected hisSeq then self
     else let mySeq = HB_Get self branchID in
       if BranchSeq_IsForkDetected mySeq then self
       else if BranchSeq_IsForkDetected hisSeq then HB_SetForkDetected self branchID
       else
         let (self1, mySeq1) =
               (if bs_Seq mySeq = 0 \<or> bs_MinSeq mySeq > bs_MinSeq hisSeq
                then let m = mySeq\<lparr>bs_MinSeq := bs_MinSeq hisSeq\<rparr> in (HB_Set self branchID m, m)
                else (self, mySeq))
         in if bs_Seq mySeq1 < bs_Seq hisSeq
            then HB_Set self1 branchID (mySeq1\<lparr>bs_Seq := bs_Seq hisSeq\<rparr>)
            else self1)"

definition CollectFrom :: "HighestBeforeSeq \<Rightarrow> HighestBeforeSeq \<Rightarrow> nat \<Rightarrow> HighestBeforeSeq" where
  "CollectFrom self other num = fold (CollectFrom_step other) [0..<num] self"

fun GatherFrom_loop :: "HighestBeforeSeq \<Rightarrow> nat list \<Rightarrow> BranchSeq \<Rightarrow> BranchSeq" where
  "GatherFrom_loop other [] highestBranchSeq = highestBranchSeq"
| "GatherFrom_loop other (branchID # from) highestBranchSeq =
    (let branch = HB_Get other branchID in
     if BranchSeq_IsForkDetected branch then branch
     else if bs_Seq branch > bs_Seq highestBranchSeq then GatherFrom_loop other from branch
     else GatherFrom_loop other from highestBranchSeq)"

definition GatherFrom :: "HighestBeforeSeq \<Rightarrow> nat \<Rightarrow> HighestBeforeSeq \<Rightarrow> nat list \<Rightarrow> HighestBeforeSeq" where
  "GatherFrom self to other from =
    HB_Set self to (GatherFrom_loop other from \<lparr>bs_Seq = 0, bs_MinSeq = 0\<rparr>)"

section \<open>The contract of a growing vector\<close>

locale seq_vector =
  fixes wf :: "'b \<Rightarrow> bool"
    and new_vec :: "nat \<Rightarrow> 'b"
    and size_vec :: "'b \<Rightarrow> nat"
    and get :: "'b \<Rightarrow> nat \<Rightarrow> 'v"
    and set_vec :: "'b \<Rightarrow> nat \<Rightarrow> 'v \<Rightarrow> 'b"
    and zero :: 'v
  assumes wf_new: "wf (new_vec n)"
    and wf_set: "wf b \<Longrightarrow> wf (set_vec b i v)"
    and size_new: "size_vec (new_vec n) = n"
    and size_set: "wf b \<Longrightarrow> size_vec (set_vec b i v) = max (size_vec b) (Suc i)"
    and get_new: "get (new_vec n) i = zero"
    and get_set: "wf b \<Longrightarrow> get (set_vec b i v) j = (if j = i then v else get b j)"
    and get_outside: "size_vec b \<le> i \<Longrightarrow> get b i = zero"
begin

lemma fold_set:
  assumes "wf b"
  shows "wf (fold (\<lambda>i b. set_vec b i v) is b) \<and>
    get (fold (\<lambda>i b. set_vec b i v) is b) j = (if j \<in> set is then v else get b j)"
  using assms by (induction "is" arbitrary: b) (auto simp: wf_set get_set)

lemma get_set_commute:
  assumes "wf b" and "i \<noteq> j"
  shows "get (set_vec (set_vec b i v) j w) k = get (set_vec (set_vec b j w) i v) k"
  using assms by (simp add: get_set wf_set)

end

section \<open>Both encodings implement it\<close>

lemma length_put_at [len_simps]: "off + length xs \<le> length b \<Longrightarrow> length (put_at b off xs) = length b"
  by (simp add: put_at_def)

lemma drop_put_at_same:
  assumes "off + length xs \<le> length b" and "n = length xs"
  shows "take n (drop off (put_at b off xs)) = xs"
  using assms by (simp add: put_at_def)

lemma drop_put_at_other:
  assumes "off + length xs \<le> length b" and "p + n \<le> off \<or> off + length xs \<le> p"
  shows "take n (drop p (put_at b off xs)) = take n (drop p b)"
proof (rule nth_equalityI)
  show "length (take n (drop p (put_at b off xs))) = length (take n (drop p b))"
    using assms(1) by (simp add: length_put_at)
  fix i
  assume "i < length (take n (drop p (put_at b off xs)))"
  then have i: "i < n" "p + i < length b" using assms(1) by (auto simp: length_put_at)
  have "put_at b off xs ! (p + i) = b ! (p + i)"
    using assms i by (auto simp: put_at_def nth_append)
  then show "take n (drop p (put_at b off xs)) ! i = take n (drop p b) ! i"
    using i assms(1) by (simp add: length_put_at)
qed

lemma LA_grow_eq: "LA_grow b i = b @ replicate (4 * (Suc i - LA_Size b)) 0"
proof (induction b i rule: LA_grow.induct)
  case (1 b i)
  show ?case
  proof (cases "i \<ge> LA_Size b")
    case True
    have size: "LA_Size (b @ [0, 0, 0, 0]) = Suc (LA_Size b)" by (simp add: LA_Size_def)
    have n: "Suc i - LA_Size b = Suc (Suc i - LA_Size (b @ [0, 0, 0, 0]))" using True size by linarith
    show ?thesis
      using 1 [OF True] True unfolding n by (subst LA_grow.simps) (simp add: numeral_eq_Suc)
  qed (simp add: LA_grow.simps)
qed

lemma HB_grow_eq: "HB_grow b i = b @ replicate (8 * (Suc i - HB_Size b)) 0"
proof (induction b i rule: HB_grow.induct)
  case (1 b i)
  show ?case
  proof (cases "i \<ge> HB_Size b")
    case True
    have size: "HB_Size (b @ [0, 0, 0, 0, 0, 0, 0, 0]) = Suc (HB_Size b)" by (simp add: HB_Size_def)
    have n: "Suc i - HB_Size b = Suc (Suc i - HB_Size (b @ [0, 0, 0, 0, 0, 0, 0, 0]))"
      using True size by linarith
    show ?thesis
      using 1 [OF True] True unfolding n by (subst HB_grow.simps) (simp add: numeral_eq_Suc)
  qed (simp add: HB_grow.simps)
qed

lemma get_le_zeros: "\<forall>x \<in> set bs. x = 0 \<Longrightarrow> get_le bs = 0"
  by (induction bs) auto

definition wf_la :: "LowestAfterSeq \<Rightarrow> bool" where
  "wf_la b \<longleftrightarrow> 4 dvd length b"

definition wf_hb :: "HighestBeforeSeq \<Rightarrow> bool" where
  "wf_hb b \<longleftrightarrow> 8 dvd length b"

lemma LA_Get_append_zeros:
  assumes "wf_la b"
  shows "LA_Get (b @ replicate (4 * m) 0) j = LA_Get b j"
proof (cases "j < LA_Size b")
  case True
  then have "j * 4 + 4 \<le> length b" using assms by (auto simp: LA_Size_def wf_la_def)
  then show ?thesis using True by (simp add: LA_Get_def LA_Size_def)
next
  case False
  then have le: "length b \<le> j * 4" using assms by (auto simp: LA_Size_def wf_la_def)
  have "get_le (take 4 (drop (j * 4) (b @ replicate (4 * m) 0))) = (0 :: Event_seq)"
    using le by (intro get_le_zeros) (auto dest!: in_set_takeD in_set_dropD)
  with False show ?thesis by (simp add: LA_Get_def)
qed

lemma HB_Get_append_zeros:
  assumes "wf_hb b"
  shows "HB_Get (b @ replicate (8 * m) 0) j = HB_Get b j"
proof (cases "j < HB_Size b")
  case True
  then have "j * 8 + 8 \<le> length b" using assms by (auto simp: HB_Size_def wf_hb_def)
  then show ?thesis using True by (simp add: HB_Get_def HB_Size_def)
next
  case False
  then have le: "length b \<le> j * 8" using assms by (auto simp: HB_Size_def wf_hb_def)
  have "get_le (take 4 (drop (j * 8 + k) (b @ replicate (8 * m) 0))) = (0 :: Event_seq)" for k
    using le by (intro get_le_zeros) (auto dest!: in_set_takeD in_set_dropD)
  from this [of 0] this [of 4] False show ?thesis by (simp add: HB_Get_def)
qed

lemma get_put_32: "get_le (put_le 4 (w :: u32)) = w"
  by (simp add: get_le_put_le take_bit_word_eq_self)

lemma LA_Get_put_at:
  assumes "wf_la b" and "i < LA_Size b"
  shows "LA_Get (put_at b (i * 4) (put_le 4 v)) j = (if j = i then v else LA_Get b j)"
proof -
  have fits: "i * 4 + length (put_le 4 v) \<le> length b" using assms by (auto simp: LA_Size_def wf_la_def)
  then have size: "LA_Size (put_at b (i * 4) (put_le 4 v)) = LA_Size b"
    by (simp add: LA_Size_def length_put_at)
  show ?thesis
  proof (cases "j = i")
    case True
    then show ?thesis
      using assms(2) drop_put_at_same [OF fits, of 4] by (simp add: LA_Get_def size get_put_32)
  next
    case False
    then have "j * 4 + 4 \<le> i * 4 \<or> i * 4 + length (put_le 4 v) \<le> j * 4" by auto
    from drop_put_at_other [OF fits this] False show ?thesis by (simp add: LA_Get_def size)
  qed
qed

lemma HB_Get_put_at:
  assumes "wf_hb b" and "i < HB_Size b"
  shows "HB_Get (put_at (put_at b (i * 8) (put_le 4 v)) (i * 8 + 4) (put_le 4 w)) j =
    (if j = i then \<lparr>bs_Seq = v, bs_MinSeq = w\<rparr> else HB_Get b j)"
proof -
  let ?b1 = "put_at b (i * 8) (put_le 4 v)"
  let ?b2 = "put_at ?b1 (i * 8 + 4) (put_le 4 w)"
  have fits: "i * 8 + length (put_le 4 v) \<le> length b" and "i * 8 + 8 \<le> length b"
    using assms by (auto simp: HB_Size_def wf_hb_def)
  then have fits1: "i * 8 + 4 + length (put_le 4 w) \<le> length ?b1" by (simp add: length_put_at)
  have size: "HB_Size ?b2 = HB_Size b" using fits fits1 by (simp add: HB_Size_def length_put_at)
  show ?thesis
  proof (cases "j = i")
    case True
    have "take 4 (drop (i * 8) ?b2) = put_le 4 v"
      using drop_put_at_other [OF fits1, of "i * 8" 4] drop_put_at_same [OF fits, of 4] by simp
    with drop_put_at_same [OF fits1, of 4] True assms(2) show ?thesis
      by (simp add: HB_Get_def size get_put_32)
  next
    case False
    then have far: "j * 8 + 8 \<le> i * 8 \<or> i * 8 + 8 \<le> j * 8" by auto
    have "take 4 (drop (j * 8 + k) ?b2) = take 4 (drop (j * 8 + k) b)" if "k = 0 \<or> k = 4" for k
      using that far drop_put_at_other [OF fits1, of "j * 8 + k" 4]
        drop_put_at_other [OF fits, of "j * 8 + k" 4] by auto
    from this [of 0] this [of 4] False show ?thesis by (simp add: HB_Get_def size)
  qed
qed

interpretation la: seq_vector wf_la NewLowestAfterSeq LA_Size LA_Get LA_Set 0
proof
  fix b :: LowestAfterSeq and n i j :: nat and v :: Event_seq
  show "wf_la (NewLowestAfterSeq n)" by (simp add: wf_la_def NewLowestAfterSeq_def)
  show "LA_Size (NewLowestAfterSeq n) = n" by (simp add: LA_Size_def NewLowestAfterSeq_def)
  show "LA_Get (NewLowestAfterSeq n) i = 0"
    using LA_Get_append_zeros [of "[]" n i]
    by (simp add: NewLowestAfterSeq_def wf_la_def mult.commute LA_Get_def [of "[]"] LA_Size_def [of "[]"])
  show "LA_Size b \<le> i \<Longrightarrow> LA_Get b i = 0" by (simp add: LA_Get_def)
  assume wf: "wf_la b"
  let ?g = "LA_grow b i"
  have len: "length ?g = 4 * max (LA_Size b) (Suc i)"
    using wf by (auto simp: LA_grow_eq LA_Size_def wf_la_def max_def)
  then have g: "wf_la ?g" "i < LA_Size ?g" "LA_Size ?g = max (LA_Size b) (Suc i)"
    by (auto simp: wf_la_def LA_Size_def)
  have fits: "i * 4 + length (put_le 4 v) \<le> length ?g" unfolding len by (simp add: max_def)
  show "wf_la (LA_Set b i v)"
    using g(1) fits by (simp add: LA_Set_def wf_la_def length_put_at)
  show "LA_Size (LA_Set b i v) = max (LA_Size b) (Suc i)"
    using g(3) fits by (simp add: LA_Set_def LA_Size_def length_put_at)
  show "LA_Get (LA_Set b i v) j = (if j = i then v else LA_Get b j)"
    by (simp add: LA_Set_def LA_Get_put_at [OF g(1,2)]) (simp add: LA_grow_eq LA_Get_append_zeros [OF wf])
qed

interpretation hb: seq_vector wf_hb NewHighestBeforeSeq HB_Size HB_Get HB_Set "\<lparr>bs_Seq = 0, bs_MinSeq = 0\<rparr>"
proof
  fix b :: HighestBeforeSeq and n i j :: nat and v :: BranchSeq
  show "wf_hb (NewHighestBeforeSeq n)" by (simp add: wf_hb_def NewHighestBeforeSeq_def)
  show "HB_Size (NewHighestBeforeSeq n) = n" by (simp add: HB_Size_def NewHighestBeforeSeq_def)
  show "HB_Get (NewHighestBeforeSeq n) i = \<lparr>bs_Seq = 0, bs_MinSeq = 0\<rparr>"
    using HB_Get_append_zeros [of "[]" n i]
    by (simp add: NewHighestBeforeSeq_def wf_hb_def mult.commute HB_Get_def [of "[]"] HB_Size_def [of "[]"])
  show "HB_Size b \<le> i \<Longrightarrow> HB_Get b i = \<lparr>bs_Seq = 0, bs_MinSeq = 0\<rparr>" by (simp add: HB_Get_def)
  assume wf: "wf_hb b"
  let ?g = "HB_grow b i"
  have len: "length ?g = 8 * max (HB_Size b) (Suc i)"
    using wf by (auto simp: HB_grow_eq HB_Size_def wf_hb_def max_def)
  then have g: "wf_hb ?g" "i < HB_Size ?g" "HB_Size ?g = max (HB_Size b) (Suc i)"
    by (auto simp: wf_hb_def HB_Size_def)
  let ?b1 = "put_at ?g (i * 8) (put_le 4 (bs_Seq v))"
  have fits: "i * 8 + length (put_le 4 (bs_Seq v)) \<le> length ?g" unfolding len by (simp add: max_def)
  then have fits1: "i * 8 + 4 + length (put_le 4 (bs_MinSeq v)) \<le> length ?b1"
    using len by (simp add: length_put_at max_def)
  show "wf_hb (HB_Set b i v)"
    using g(1) fits fits1 by (simp add: HB_Set_def wf_hb_def length_put_at)
  show "HB_Size (HB_Set b i v) = max (HB_Size b) (Suc i)"
    using g(3) fits fits1 by (simp add: HB_Set_def HB_Size_def length_put_at)
  show "HB_Get (HB_Set b i v) j = (if j = i then v else HB_Get b j)"
    by (simp add: HB_Set_def HB_Get_put_at [OF g(1,2)]) (simp add: HB_grow_eq HB_Get_append_zeros [OF wf])
qed

lemmas vec_simps = la.wf_set la.get_set hb.wf_set hb.get_set la.wf_new hb.wf_new la.get_new hb.get_new

section \<open>Merging of vectors\<close>

text \<open>The join of two entries: what \<^verbatim>\<open>CollectFrom\<close> computes for one branch.\<close>

definition join_seq :: "BranchSeq \<Rightarrow> BranchSeq \<Rightarrow> BranchSeq" where
  "join_seq my his =
    (if my = forkDetectedSeq then my
     else if his = forkDetectedSeq then his
     else if bs_Seq his = 0 then my
     else if bs_Seq my = 0 then his
     else \<lparr>bs_Seq = max (bs_Seq my) (bs_Seq his), bs_MinSeq = min (bs_MinSeq my) (bs_MinSeq his)\<rparr>)"

lemma CollectFrom_step_get:
  assumes "wf_hb self"
  shows "wf_hb (CollectFrom_step other b self) \<and>
    HB_Get (CollectFrom_step other b self) j =
      (if j = b then join_seq (HB_Get self b) (HB_Get other b) else HB_Get self j)"
proof -
  let ?my = "HB_Get self b" and ?his = "HB_Get other b"
  have seq0: "bs_Seq forkDetectedSeq = 0" by (simp add: forkDetectedSeq_def)
  note defs = CollectFrom_step_def Let_def BranchSeq_IsForkDetected_def HB_SetForkDetected_def
  consider "bs_Seq ?his = 0" "?his \<noteq> forkDetectedSeq" | "?my = forkDetectedSeq"
    | "?my \<noteq> forkDetectedSeq" "?his = forkDetectedSeq"
    | "?my \<noteq> forkDetectedSeq" "?his \<noteq> forkDetectedSeq" "bs_Seq ?his \<noteq> 0" by blast
  then show ?thesis
  proof cases
    case 4
    let ?m = "?my\<lparr>bs_MinSeq := bs_MinSeq ?his\<rparr>"
    show ?thesis
    proof (cases "bs_Seq ?my = 0 \<or> bs_MinSeq ?my > bs_MinSeq ?his")
      case True
      show ?thesis
      proof (cases "bs_Seq ?my < bs_Seq ?his")
        case less: True
        have "CollectFrom_step other b self = HB_Set (HB_Set self b ?m) b (?m\<lparr>bs_Seq := bs_Seq ?his\<rparr>)"
          using 4 True less by (simp add: defs)
        then show ?thesis
          using 4 True less assms by (auto simp: vec_simps join_seq_def max_def min_def)
      next
        case False
        have "CollectFrom_step other b self = HB_Set self b ?m"
          using 4 True False by (simp add: defs)
        then show ?thesis
          using 4 True False assms word_neq_0_conv [of "bs_Seq ?his"]
          by (auto simp: vec_simps join_seq_def max_def min_def)
      qed
    next
      case False
      then show ?thesis
        using 4 assms by (auto simp: defs vec_simps join_seq_def max_def min_def)
    qed
  qed (use assms seq0 in \<open>auto simp: defs vec_simps join_seq_def\<close>)
qed

lemma CollectFrom_get:
  assumes "wf_hb self"
  shows "wf_hb (CollectFrom self other num) \<and>
    HB_Get (CollectFrom self other num) j =
      (if j < num then join_seq (HB_Get self j) (HB_Get other j) else HB_Get self j)"
proof (induction num arbitrary: j)
  case (Suc num)
  then show ?case
    using CollectFrom_step_get [of "CollectFrom self other num" other num] 
    by (simp add: CollectFrom_def less_Suc_eq)
qed (simp add: CollectFrom_def assms)

lemma GatherFrom_loop_fork:
  assumes "\<exists>b \<in> set from. HB_Get other b = forkDetectedSeq"
  shows "GatherFrom_loop other from h = forkDetectedSeq"
  using assms
  by (induction "from" arbitrary: h) (auto simp: Let_def BranchSeq_IsForkDetected_def)

lemma GatherFrom_loop_unmarked:
  assumes "\<forall>b \<in> set from. HB_Get other b \<noteq> forkDetectedSeq" and "h \<noteq> forkDetectedSeq"
  shows "GatherFrom_loop other from h \<noteq> forkDetectedSeq"
  using assms
  by (induction "from" arbitrary: h) (auto simp: Let_def BranchSeq_IsForkDetected_def)

lemma GatherFrom_loop_max:
  assumes "\<forall>b \<in> set from. HB_Get other b \<noteq> forkDetectedSeq"
  shows "bs_Seq (GatherFrom_loop other from h) = Max (insert (bs_Seq h) ((\<lambda>b. bs_Seq (HB_Get other b)) ` set from))"
  using assms
proof (induction "from" arbitrary: h)
  case (Cons b bs)
  let ?s = "\<lambda>b. bs_Seq (HB_Get other b)"
  have "insert (bs_Seq h) (?s ` set (b # bs)) = insert (bs_Seq h) (insert (?s b) (?s ` set bs))"
    by auto
  moreover have "Max (insert x (insert y (?s ` set bs))) = Max (insert (max x y) (?s ` set bs))" for x y
    by (cases "set bs = {}") (simp_all add: max.assoc)
  ultimately show ?case
    using Cons by (auto simp: Let_def BranchSeq_IsForkDetected_def max_def)
qed simp

end
