(* ===== verification/Graph_Walk.thy ===== *)
theory Graph_Walk
  imports Bytes "HOL-Library.Sublist"
begin

text \<open>
  The stack loop of the two graph traversals (\<^verbatim>\<open>vecengine/traversal.go\<close> and
  \<^verbatim>\<open>abft/traversal.go\<close>): pop an identifier, let the body act on it and push what
  the body returns, until the stack is empty. The loop need not end for an
  arbitrary body, so it is a \<^const>\<open>None\<close>-divergent function. The locale states
  what both bodies do: they mark a node and return its parents, or leave a
  marked node alone. From it follow termination and that exactly the unmarked
  nodes reachable from the start are marked, each once.
\<close>

partial_function (option) walk_stack ::
  "('s \<Rightarrow> hash_event \<Rightarrow> 'err + ('s \<times> hash_event list)) \<Rightarrow> hash_event list \<Rightarrow> 's \<Rightarrow> ('err + 's) option"
where
  "walk_stack body stack s =
    (case Stack_Pop stack of
       None \<Rightarrow> Some (Inr s)
     | Some (cur, rest) \<Rightarrow>
         (case body s cur of
            Inl err \<Rightarrow> Some (Inl err)
          | Inr (s1, pushed) \<Rightarrow> walk_stack body (Stack_PushAll rest pushed) s1))"

inductive reach :: "('n \<Rightarrow> 'n list) \<Rightarrow> 'n set \<Rightarrow> 'n \<Rightarrow> bool" for succs start where
  reach_start: "n \<in> start \<Longrightarrow> reach succs start n"
| reach_step: "reach succs start n \<Longrightarrow> m \<in> set (succs n) \<Longrightarrow> reach succs start m"

lemma reach_mono: "reach succs A n \<Longrightarrow> A \<subseteq> B \<Longrightarrow> reach succs B n"
  by (induction rule: reach.induct) (auto intro: reach.intros)

lemma reach_least:
  assumes "reach succs A n" and "A \<subseteq> C" and "\<And>n m. n \<in> C \<Longrightarrow> m \<in> set (succs n) \<Longrightarrow> m \<in> C"
  shows "n \<in> C"
  using assms by (induction rule: reach.induct) auto

lemma reach_trans: "reach succs {m} n \<Longrightarrow> reach succs A m \<Longrightarrow> reach succs A n"
  by (induction rule: reach.induct) (auto intro: reach.intros)

text \<open>
  The nodes that a walk over \<^term>\<open>stack\<close> marks, in marking order, when the nodes
  of \<^term>\<open>M\<close> were marked before: fresh, reachable, and closed under successors
  together with \<^term>\<open>M\<close>.
\<close>

definition marking ::
  "'n set \<Rightarrow> ('n \<Rightarrow> 'n list) \<Rightarrow> 'n set \<Rightarrow> 'n list \<Rightarrow> 'n list \<Rightarrow> bool" where
  "marking N succs M stack L \<longleftrightarrow>
    distinct L \<and> set L \<inter> M = {} \<and> set L \<subseteq> N \<and> set L \<subseteq> {n. reach succs (set stack) n} \<and>
    set stack \<subseteq> M \<union> set L \<and> (\<forall>n \<in> (M \<union> set L) \<inter> N. set (succs n) \<subseteq> M \<union> set L)"

lemma marking_skip:
  assumes "marking N succs M rest L" and "cur \<in> M"
  shows "marking N succs M (rest @ [cur]) L"
  using assms reach_mono [of succs "set rest" _ "set (rest @ [cur])"]
  unfolding marking_def by auto

lemma marking_push:
  assumes "marking N succs (insert cur M) (rest @ succs cur) L" and "cur \<notin> M" and "cur \<in> N"
  shows "marking N succs M (rest @ [cur]) (cur # L)"
proof -
  have "reach succs (set (rest @ [cur])) n" if "reach succs (set (rest @ succs cur)) n" for n
    using that
  proof (induction rule: reach.induct)
    case (reach_start n)
    then show ?case by (auto intro: reach.intros)
  qed (auto intro: reach.intros)
  moreover have "reach succs (set (rest @ [cur])) cur" by (auto intro: reach_start)
  ultimately show ?thesis using assms unfolding marking_def by auto
qed

lemma marking_reachable:
  assumes "marking N succs M stack L" and "set stack \<subseteq> N"
    and "\<And>n. n \<in> N \<Longrightarrow> set (succs n) \<subseteq> N"
  shows "set L = {n. reach succs (set stack) n \<and> n \<notin> M}"
proof -
  have "n \<in> (M \<union> set L) \<inter> N" if "reach succs (set stack) n" for n
    using that
  proof (rule reach_least)
    show "set stack \<subseteq> (M \<union> set L) \<inter> N" using assms by (auto simp: marking_def)
    show "m \<in> (M \<union> set L) \<inter> N" if "n \<in> (M \<union> set L) \<inter> N" "m \<in> set (succs n)" for n m
      using that assms unfolding marking_def by blast
  qed
  then show ?thesis using assms(1) by (auto simp: marking_def)
qed

locale marking_walk =
  fixes good :: "'c \<Rightarrow> bool"
    and nodes :: "'c \<Rightarrow> hash_event set"
    and succs :: "'c \<Rightarrow> hash_event \<Rightarrow> hash_event list"
    and body :: "'c \<Rightarrow> 's \<Rightarrow> hash_event \<Rightarrow> 'err + ('s \<times> hash_event list)"
    and valid :: "'c \<Rightarrow> 's \<Rightarrow> bool"
    and marked :: "'c \<Rightarrow> 's \<Rightarrow> hash_event set"
    and mark :: "'c \<Rightarrow> 's \<Rightarrow> hash_event \<Rightarrow> 's"
  assumes finite_nodes: "good c \<Longrightarrow> finite (nodes c)"
    and succs_nodes: "good c \<Longrightarrow> n \<in> nodes c \<Longrightarrow> set (succs c n) \<subseteq> nodes c"
    and body_marked: "good c \<Longrightarrow> valid c s \<Longrightarrow> n \<in> nodes c \<Longrightarrow> n \<in> marked c s \<Longrightarrow>
      body c s n = Inr (s, [])"
    and body_fresh: "good c \<Longrightarrow> valid c s \<Longrightarrow> n \<in> nodes c \<Longrightarrow> n \<notin> marked c s \<Longrightarrow>
      body c s n = Inr (mark c s n, succs c n)"
    and valid_mark: "good c \<Longrightarrow> valid c s \<Longrightarrow> n \<in> nodes c \<Longrightarrow> n \<notin> marked c s \<Longrightarrow> valid c (mark c s n)"
    and marked_mark: "good c \<Longrightarrow> valid c s \<Longrightarrow> n \<in> nodes c \<Longrightarrow> n \<notin> marked c s \<Longrightarrow>
      marked c (mark c s n) = insert n (marked c s)"
begin

text \<open>The order in which the loop marks: a list of fresh nodes.\<close>

lemma walk_marks:
  assumes "good c" and "valid c s" and "set stack \<subseteq> nodes c"
    and "\<And>n m. n \<in> marked c s \<Longrightarrow> n \<in> nodes c \<Longrightarrow> m \<in> set (succs c n) \<Longrightarrow>
      m \<in> marked c s \<or> m \<in> set stack"
  shows "\<exists>L. walk_stack (body c) stack s = Some (Inr (fold (\<lambda>n s. mark c s n) L s)) \<and>
    valid c (fold (\<lambda>n s. mark c s n) L s) \<and>
    marked c (fold (\<lambda>n s. mark c s n) L s) = marked c s \<union> set L \<and>
    marking (nodes c) (succs c) (marked c s) stack L"
  using assms(2-4)
proof (induction "(card (nodes c - marked c s), length stack)" arbitrary: stack s
    rule: wf_induct_rule [OF wf_lex_prod [OF wf_less_than wf_less_than]])
  case (1 stack s)
  show ?case
  proof (cases stack rule: rev_cases)
    case Nil
    then show ?thesis
      using 1(2,4) by (intro exI [of _ "[]"]) (auto simp: walk_stack.simps marking_def)
  next
    case (snoc rest cur)
    have cur: "cur \<in> nodes c" and rest: "set rest \<subseteq> nodes c" using 1(3) snoc by auto
    show ?thesis
    proof (cases "cur \<in> marked c s")
      case True
      have step: "walk_stack (body c) stack s = walk_stack (body c) rest s"
        using body_marked [OF assms(1) 1(2) cur True]
        by (subst walk_stack.simps) (simp add: snoc Stack_PushAll_def)
      have lt: "((card (nodes c - marked c s), length rest), (card (nodes c - marked c s), length stack))
          \<in> less_than <*lex*> less_than" by (simp add: snoc)
      have cl: "m \<in> marked c s \<or> m \<in> set rest"
        if "n \<in> marked c s" "n \<in> nodes c" "m \<in> set (succs c n)" for n m
        using 1(4) [OF that] True snoc by auto
      obtain L where
        "walk_stack (body c) rest s = Some (Inr (fold (\<lambda>n s. mark c s n) L s))"
        "valid c (fold (\<lambda>n s. mark c s n) L s)"
        "marked c (fold (\<lambda>n s. mark c s n) L s) = marked c s \<union> set L"
        "marking (nodes c) (succs c) (marked c s) rest L"
        using 1(1) [OF lt 1(2) rest] cl by blast
      then show ?thesis
        unfolding step using marking_skip [OF _ True] unfolding snoc by blast
    next
      case False
      let ?s1 = "mark c s cur" and ?stack1 = "rest @ succs c cur"
      have m1: "marked c ?s1 = insert cur (marked c s)"
        using marked_mark [OF assms(1) 1(2) cur False] .
      have step: "walk_stack (body c) stack s = walk_stack (body c) ?stack1 ?s1"
        using body_fresh [OF assms(1) 1(2) cur False]
        by (subst walk_stack.simps) (simp add: snoc Stack_PushAll_def)
      have "nodes c - marked c ?s1 \<subset> nodes c - marked c s"
        using m1 cur False by auto
      then have less: "card (nodes c - marked c ?s1) < card (nodes c - marked c s)"
        using finite_nodes [OF assms(1)] by (intro psubset_card_mono) auto
      have sub: "set ?stack1 \<subseteq> nodes c" using rest succs_nodes [OF assms(1) cur] by auto
      have lt: "((card (nodes c - marked c ?s1), length ?stack1),
          (card (nodes c - marked c s), length stack)) \<in> less_than <*lex*> less_than"
        using less by simp
      have cl: "m \<in> marked c ?s1 \<or> m \<in> set ?stack1"
        if "n \<in> marked c ?s1" "n \<in> nodes c" "m \<in> set (succs c n)" for n m
        using 1(4) [of n m] that m1 snoc by auto
      obtain L where
        L: "walk_stack (body c) ?stack1 ?s1 = Some (Inr (fold (\<lambda>n s. mark c s n) L ?s1))"
        "valid c (fold (\<lambda>n s. mark c s n) L ?s1)"
        "marked c (fold (\<lambda>n s. mark c s n) L ?s1) = insert cur (marked c s) \<union> set L"
        "marking (nodes c) (succs c) (insert cur (marked c s)) ?stack1 L"
        using 1(1) [OF lt valid_mark [OF assms(1) 1(2) cur False] sub] cl unfolding m1 by blast
      show ?thesis
        using L marking_push [OF L(4) False cur]
        by (intro exI [of _ "cur # L"]) (simp add: step flip: snoc)
    qed
  qed
qed

text \<open>
  From a state whose marked nodes are closed under successors, the loop ends and
  marks exactly the reachable nodes that were not marked, each once.
\<close>

lemma walk_reachable:
  assumes "good c" and "valid c s" and "set stack \<subseteq> nodes c"
    and "\<forall>n \<in> marked c s \<inter> nodes c. set (succs c n) \<subseteq> marked c s"
  obtains L where "walk_stack (body c) stack s = Some (Inr (fold (\<lambda>n s. mark c s n) L s))"
    and "valid c (fold (\<lambda>n s. mark c s n) L s)"
    and "marked c (fold (\<lambda>n s. mark c s n) L s) = marked c s \<union> set L"
    and "distinct L" and "set L = {n. reach (succs c) (set stack) n \<and> n \<notin> marked c s}"
    and "set L \<subseteq> nodes c"
proof -
  obtain L where L: "walk_stack (body c) stack s = Some (Inr (fold (\<lambda>n s. mark c s n) L s))"
    "valid c (fold (\<lambda>n s. mark c s n) L s)"
    "marked c (fold (\<lambda>n s. mark c s n) L s) = marked c s \<union> set L"
    "marking (nodes c) (succs c) (marked c s) stack L"
    using walk_marks [OF assms(1-3)] assms(4) by blast
  have "set L = {n. reach (succs c) (set stack) n \<and> n \<notin> marked c s}"
    using marking_reachable [OF L(4) assms(3) succs_nodes [OF assms(1)]] .
  with L show ?thesis using that by (simp add: marking_def)
qed

end

end
