(* ===== verification/Dag_Graph.thy ===== *)
theory Dag_Graph
  imports Event_Check
begin

text \<open>
  The abstract level of the vector clocks: which event observes which, what a
  fork is, and what it means that one event forkless-causes another, stated on
  the graph of events alone (the doc comment of \<^verbatim>\<open>ForklessCause\<close> in
  \<^verbatim>\<open>vecfc/forkless_cause.go\<close>). A graph is valid when every event passed the event
  checks with its parents in the graph. The main result is fork exclusion: when
  the validators with forks hold at most a third of the weight, two events that
  fork cannot both forkless-cause any events.
\<close>

type_synonym dag = "hash_event \<rightharpoonup> BaseEvent"

definition parents_of :: "dag \<Rightarrow> hash_event list \<Rightarrow> BaseEvent list" where
  "parents_of G ps = map (\<lambda>p. the (G p)) ps"

definition creator_of :: "dag \<Rightarrow> hash_event \<Rightarrow> ValidatorID" where
  "creator_of G a = ev_creator (the (G a))"

definition seq_of :: "dag \<Rightarrow> hash_event \<Rightarrow> nat" where
  "seq_of G a = unat (ev_seq (the (G a)))"

definition lamport_of :: "dag \<Rightarrow> hash_event \<Rightarrow> nat" where
  "lamport_of G a = unat (ev_lamport (the (G a)))"

definition valid_dag :: "Validators \<times> Epoch \<Rightarrow> dag \<Rightarrow> bool" where
  "valid_dag reader G \<longleftrightarrow>
    finite (dom G) \<and>
    (\<forall>a e. G a = Some e \<longrightarrow> ev_id e = a \<and> set (ev_parents e) \<subseteq> dom G \<and>
      Checkers_Validate reader e (parents_of G (ev_parents e)) = None)"

text \<open>An event observes its ancestors, itself included.\<close>

inductive observes :: "dag \<Rightarrow> hash_event \<Rightarrow> hash_event \<Rightarrow> bool" for G where
  observes_refl: "a \<in> dom G \<Longrightarrow> observes G a a"
| observes_parent: "G a = Some e \<Longrightarrow> p \<in> set (ev_parents e) \<Longrightarrow> observes G p b \<Longrightarrow> observes G a b"

inductive self_ancestor :: "dag \<Rightarrow> hash_event \<Rightarrow> hash_event \<Rightarrow> bool" for G where
  self_refl: "a \<in> dom G \<Longrightarrow> self_ancestor G a a"
| self_parent: "G a = Some e \<Longrightarrow> SelfParent e = Some p \<Longrightarrow> self_ancestor G p b \<Longrightarrow> self_ancestor G a b"

inductive_cases observesE: "observes G a b"

text \<open>
  An event sees a fork of a validator when it observes two different events of
  the validator with one sequence number.
\<close>

definition fork_seen :: "dag \<Rightarrow> hash_event \<Rightarrow> ValidatorID \<Rightarrow> bool" where
  "fork_seen G a v \<longleftrightarrow>
    (\<exists>x y. observes G a x \<and> observes G a y \<and> x \<noteq> y \<and> creator_of G x = v \<and> creator_of G y = v \<and>
      seq_of G x = seq_of G y)"

definition has_fork :: "dag \<Rightarrow> ValidatorID \<Rightarrow> bool" where
  "has_fork G v \<longleftrightarrow>
    (\<exists>x \<in> dom G. \<exists>y \<in> dom G. x \<noteq> y \<and> creator_of G x = v \<and> creator_of G y = v \<and> seq_of G x = seq_of G y)"

definition confirms :: "dag \<Rightarrow> hash_event \<Rightarrow> hash_event \<Rightarrow> ValidatorID \<Rightarrow> bool" where
  "confirms G a b v \<longleftrightarrow>
    \<not> fork_seen G a v \<and> (\<exists>x. creator_of G x = v \<and> observes G a x \<and> observes G x b)"

definition forkless_cause :: "Validators \<Rightarrow> dag \<Rightarrow> hash_event \<Rightarrow> hash_event \<Rightarrow> bool" where
  "forkless_cause vals G a b \<longleftrightarrow>
    \<not> fork_seen G a (creator_of G b) \<and>
    unat (Quorum vals) \<le>
      sum (weight_at vals) {i. i < Validators_Len vals \<and> confirms G a b (ids (vv_cache vals) ! i)}"

section \<open>Observation\<close>

lemma observes_dom: "observes G a b \<Longrightarrow> a \<in> dom G \<and> b \<in> dom G"
  by (induction rule: observes.induct) auto

lemma observes_trans: "observes G a b \<Longrightarrow> observes G b c \<Longrightarrow> observes G a c"
  by (induction rule: observes.induct) (auto intro: observes.intros)

lemma observes_iff:
  assumes "G a = Some e"
  shows "observes G a b \<longleftrightarrow> a = b \<or> (\<exists>p \<in> set (ev_parents e). observes G p b)"
  using assms by (auto elim: observesE intro: observes.intros)

lemma valid_dag_event:
  assumes "valid_dag reader G" and "G a = Some e"
  shows "ev_id e = a" and "set (ev_parents e) \<subseteq> dom G"
    and "event_ok reader e (parents_of G (ev_parents e))"
proof -
  show "ev_id e = a" and sub: "set (ev_parents e) \<subseteq> dom G"
    using assms by (auto simp: valid_dag_def)
  have "map ev_id (parents_of G (ev_parents e)) = ev_parents e"
    using sub assms(1) by (auto simp: parents_of_def valid_dag_def intro!: map_idI)
  from Checkers_accept_iff [OF this, of reader]
  show "event_ok reader e (parents_of G (ev_parents e))"
    using assms by (simp add: valid_dag_def)
qed

lemma valid_dag_lamport:
  assumes "valid_dag reader G" and "G a = Some e" and "p \<in> set (ev_parents e)"
  shows "lamport_of G p < lamport_of G a"
proof -
  have "unat (ev_lamport e) =
      Suc (Max (insert 0 ((\<lambda>p. unat (ev_lamport p)) ` set (parents_of G (ev_parents e)))))"
    using valid_dag_event(3) [OF assms(1,2)] by (simp add: event_ok_def)
  moreover have "lamport_of G p \<in> (\<lambda>p. unat (ev_lamport p)) ` set (parents_of G (ev_parents e))"
    using assms(3) by (auto simp: lamport_of_def parents_of_def)
  ultimately show ?thesis
    using assms(2) by (simp add: lamport_of_def less_Suc_eq_le)
qed

lemma observes_lamport:
  assumes "valid_dag reader G" and "observes G a b"
  shows "a = b \<or> lamport_of G b < lamport_of G a"
  using assms(2) valid_dag_lamport [OF assms(1)]
  by (induction rule: observes.induct) (auto intro: less_trans)

lemma observes_antisym:
  assumes "valid_dag reader G" and "observes G a b" and "observes G b a"
  shows "a = b"
  using observes_lamport [OF assms(1,2)] observes_lamport [OF assms(1,3)] by auto

lemma valid_dag_creator:
  assumes "valid_dag reader G" and "a \<in> dom G"
  shows "Exists (fst reader) (creator_of G a)"
  using assms valid_dag_event(3) [OF assms(1)] by (auto simp: creator_of_def event_ok_def)

lemma valid_dag_seq:
  assumes "valid_dag reader G" and "a \<in> dom G"
  shows "0 < seq_of G a" and "seq_of G a < 2147483646"
  using assms valid_dag_event(3) [OF assms(1)] by (auto simp: seq_of_def event_ok_def)

section \<open>Self-parent chains\<close>

lemma SelfParent_None_iff:
  assumes "valid_dag reader G" and "G a = Some e"
  shows "SelfParent e = None \<longleftrightarrow> seq_of G a = 1"
proof -
  have ok: "event_ok reader e (parents_of G (ev_parents e))" using valid_dag_event(3) [OF assms] .
  have one: "ev_seq e = 1 \<longleftrightarrow> unat (ev_seq e) = 1" by (metis unat_1 word_unat_eq_iff)
  have le: "ev_seq e \<le> 1 \<longleftrightarrow> unat (ev_seq e) = 1" using ok by (auto simp: event_ok_def word_le_nat_alt)
  show ?thesis
    using ok one by (auto simp: SelfParent_def le seq_of_def assms(2) event_ok_def self_chain_ok_def
        parents_of_def split: list.splits if_splits)
qed

lemma SelfParent_Some:
  assumes "valid_dag reader G" and "G a = Some e" and "SelfParent e = Some p"
  shows "p \<in> set (ev_parents e)" and "p \<in> dom G" and "creator_of G p = creator_of G a"
    and "seq_of G a = seq_of G p + 1"
proof -
  have ne: "ev_parents e \<noteq> []" and p: "p = ev_parents e ! 0" and gt: "\<not> ev_seq e \<le> 1"
    using assms(3) by (auto simp: SelfParent_def split: if_splits)
  show mem: "p \<in> set (ev_parents e)" using ne p by (cases "ev_parents e") auto
  then show "p \<in> dom G" using valid_dag_event(2) [OF assms(1,2)] by auto
  have "self_chain_ok e (parents_of G (ev_parents e))"
    using valid_dag_event(3) [OF assms(1,2)] by (simp add: event_ok_def)
  then show "creator_of G p = creator_of G a" and "seq_of G a = seq_of G p + 1"
    using ne gt assms(2)
    by (auto simp: self_chain_ok_def parents_of_def creator_of_def seq_of_def p
        split: list.splits if_splits)
qed

lemma parent_same_creator:
  assumes "valid_dag reader G" and "G a = Some e" and "p \<in> set (ev_parents e)"
    and "creator_of G p = creator_of G a"
  shows "SelfParent e = Some p"
proof -
  have ok: "event_ok reader e (parents_of G (ev_parents e))" using valid_dag_event(3) [OF assms(1,2)] .
  then have sc: "self_chain_ok e (parents_of G (ev_parents e))" and pos: "0 < unat (ev_seq e)"
    by (auto simp: event_ok_def)
  have "ev_seq e \<noteq> 1"
    using sc assms by (auto simp: self_chain_ok_def parents_of_def creator_of_def)
  then have ne1: "unat (ev_seq e) \<noteq> 1" by (metis unat_1 word_unat_eq_iff)
  have gt: "\<not> ev_seq e \<le> 1" using pos ne1 by (simp add: word_le_nat_alt)
  obtain q qs where qs: "ev_parents e = q # qs" using assms(3) by (cases "ev_parents e") auto
  have "p = q"
    using sc assms qs \<open>ev_seq e \<noteq> 1\<close>
    by (auto simp: self_chain_ok_def parents_of_def creator_of_def)
  then show ?thesis using qs gt by (simp add: SelfParent_def)
qed

lemma self_ancestor_observes:
  assumes "valid_dag reader G" and "self_ancestor G a b"
  shows "observes G a b \<and> creator_of G b = creator_of G a \<and> seq_of G b \<le> seq_of G a"
  using assms(2)
proof (induction rule: self_ancestor.induct)
  case (self_parent a e p b)
  note sp = SelfParent_Some [OF assms(1) self_parent.hyps(1,2)]
  show ?case
    using self_parent sp by (auto intro: observes_parent)
qed (auto intro: observes_refl)

lemma self_ancestor_at:
  assumes "valid_dag reader G" and "a \<in> dom G" and "0 < t" and "t \<le> seq_of G a"
  shows "\<exists>x. self_ancestor G a x \<and> seq_of G x = t"
  using assms(2,4)
proof (induction "seq_of G a" arbitrary: a)
  case 0
  then show ?case using assms(3) by simp
next
  case (Suc n)
  obtain e where e: "G a = Some e" using Suc.prems(1) by auto
  show ?case
  proof (cases "t = seq_of G a")
    case True
    then show ?thesis using Suc.prems by (auto intro: self_refl)
  next
    case False
    then have "seq_of G a \<noteq> 1" using Suc.prems(2) assms(3) by linarith
    with SelfParent_None_iff [OF assms(1) e] obtain p where p: "SelfParent e = Some p" by auto
    note sp = SelfParent_Some [OF assms(1) e p]
    obtain x where "self_ancestor G p x" "seq_of G x = t"
      using Suc.hyps(1) [of p] Suc.hyps(2) sp(2,4) False Suc.prems(2) by auto
    with e p show ?thesis by (auto intro: self_parent)
  qed
qed

text \<open>Without forks, the events of a validator form one chain.\<close>

lemma forkless_chain:
  assumes "valid_dag reader G" and "\<not> has_fork G (creator_of G x)"
    and "x \<in> dom G" and "y \<in> dom G" and "creator_of G y = creator_of G x"
    and "seq_of G x \<le> seq_of G y"
  shows "self_ancestor G y x"
proof -
  obtain z where z: "self_ancestor G y z" "seq_of G z = seq_of G x"
    using self_ancestor_at [OF assms(1,4) valid_dag_seq(1) [OF assms(1,3)] assms(6)] by auto
  have "z \<in> dom G" "creator_of G z = creator_of G x"
    using self_ancestor_observes [OF assms(1) z(1)] assms(5) observes_dom by auto
  then have "z = x"
    using assms(2,3) z(2) by (auto simp: has_fork_def)
  with z show ?thesis by simp
qed

text \<open>Two events of a validator that lie on different chains are a fork for any event that observes both.\<close>

lemma fork_seenI:
  assumes "valid_dag reader G" and "observes G a x" and "observes G a y"
    and "creator_of G x = creator_of G y"
    and "\<not> self_ancestor G x y" and "\<not> self_ancestor G y x"
  shows "fork_seen G a (creator_of G x)"
proof -
  have *: "fork_seen G a (creator_of G x)"
    if "observes G a x" "observes G a y" "creator_of G x = creator_of G y"
      "\<not> self_ancestor G y x" "seq_of G x \<le> seq_of G y" for x y
  proof -
    note h = that
    have dom: "x \<in> dom G" "y \<in> dom G" using h observes_dom by auto
    obtain z where z: "self_ancestor G y z" "seq_of G z = seq_of G x"
      using self_ancestor_at [OF assms(1) dom(2) valid_dag_seq(1) [OF assms(1) dom(1)] h(5)]
      by auto
    have "z \<noteq> x" using z(1) h(4) by auto
    moreover have "observes G a z" "creator_of G z = creator_of G x"
      using self_ancestor_observes [OF assms(1) z(1)] h observes_trans by auto
    ultimately show ?thesis
      using h(1) z(2) by (auto simp: fork_seen_def)
  qed
  show ?thesis
    using *[of x y] *[of y x] assms(2-6) by (cases "seq_of G x \<le> seq_of G y") auto
qed

lemma fork_seen_has_fork: "fork_seen G a v \<Longrightarrow> has_fork G v"
  using observes_dom by (fastforce simp: fork_seen_def has_fork_def)

lemma fork_seen_mono: "observes G a b \<Longrightarrow> fork_seen G b v \<Longrightarrow> fork_seen G a v"
  unfolding fork_seen_def by (blast intro: observes_trans)

section \<open>Fork exclusion\<close>

definition forking :: "Validators \<Rightarrow> dag \<Rightarrow> nat set" where
  "forking vals G = {i. i < Validators_Len vals \<and> has_fork G (ids (vv_cache vals) ! i)}"

lemma confirms_both:
  assumes "valid_dag reader G" and "\<not> has_fork G v"
    and "confirms G a1 b1 v" and "confirms G a2 b2 v"
  shows "observes G a1 b2 \<and> observes G a1 b1 \<or> observes G a2 b1 \<and> observes G a2 b2"
proof -
  obtain x1 x2 where x: "creator_of G x1 = v" "observes G a1 x1" "observes G x1 b1"
    "creator_of G x2 = v" "observes G a2 x2" "observes G x2 b2"
    using assms(3,4) by (auto simp: confirms_def)
  have dom: "x1 \<in> dom G" "x2 \<in> dom G" using x observes_dom by auto
  have "observes G x2 x1 \<or> observes G x1 x2"
    using forkless_chain [OF assms(1) _ dom] forkless_chain [OF assms(1) _ dom(2,1)] x(1,4) assms(2)
      self_ancestor_observes [OF assms(1)]
    by (metis nat_le_linear)
  then show ?thesis using x by (blast intro: observes_trans)
qed

lemma fork_exclusion:
  assumes valid: "valid_dag (vals, ep) G" and wf: "wf_validators vals"
    and byz: "3 * sum (weight_at vals) (forking vals G) \<le> sum (weight_at vals) (idxs_of vals)"
    and fc1: "forkless_cause vals G a1 b1" and fc2: "forkless_cause vals G a2 b2"
    and same: "creator_of G b1 = creator_of G b2"
  shows "self_ancestor G b1 b2 \<or> self_ancestor G b2 b1"
proof (rule ccontr)
  assume "\<not> ?thesis"
  then have no: "\<not> self_ancestor G b1 b2" "\<not> self_ancestor G b2 b1" by auto
  let ?A = "\<lambda>a b. {i. i < Validators_Len vals \<and> confirms G a b (ids (vv_cache vals) ! i)}"
  have sub: "?A a1 b1 \<subseteq> idxs_of vals" "?A a2 b2 \<subseteq> idxs_of vals" "forking vals G \<subseteq> idxs_of vals"
    by (auto simp: forking_def)
  have q: "unat (Quorum vals) \<le> sum (weight_at vals) (?A a1 b1)"
    "unat (Quorum vals) \<le> sum (weight_at vals) (?A a2 b2)"
    using fc1 fc2 by (auto simp: forkless_cause_def)
  obtain i where i: "i \<in> ?A a1 b1" "i \<in> ?A a2 b2" "i \<notin> forking vals G"
    by (rule pos.quorums_share_outside [OF wf sub(1,2) q sub(3) byz])
  let ?v = "ids (vv_cache vals) ! i"
  have "\<not> has_fork G ?v" using i by (auto simp: forking_def)
  from confirms_both [OF valid this] i
  have "observes G a1 b2 \<and> observes G a1 b1 \<or> observes G a2 b1 \<and> observes G a2 b2" by auto
  then have "fork_seen G a1 (creator_of G b1) \<or> fork_seen G a2 (creator_of G b2)"
    using fork_seenI [OF valid _ _ same no] fork_seenI [OF valid _ _ same [symmetric] no(2,1)] by auto
  then show False using fc1 fc2 by (auto simp: forkless_cause_def)
qed

section \<open>Growth of the graph\<close>

text \<open>New events change nothing about what an old event observes, sees or causes.\<close>

lemma observes_extend_iff:
  assumes "valid_dag reader G" and "G \<subseteq>\<^sub>m H" and "a \<in> dom G"
  shows "observes H a b \<longleftrightarrow> observes G a b"
proof
  assume "observes H a b"
  then show "observes G a b"
    using assms(3)
  proof (induction rule: observes.induct)
    case (observes_parent a e p b)
    then have "G a = Some e" using assms(2) by (auto simp: map_le_def dom_def)
    moreover from this have "p \<in> dom G"
      using valid_dag_event(2) [OF assms(1)] observes_parent.hyps(2) by auto
    ultimately show ?case
      using observes_parent by (auto intro: observes.observes_parent)
  qed (auto intro: observes_refl)
next
  assume "observes G a b"
  then show "observes H a b"
  proof (induction rule: observes.induct)
    case (observes_refl a)
    then show ?case using assms(2) by (metis domD domI map_le_def observes.observes_refl)
  next
    case (observes_parent a e p b)
    then show ?case using assms(2) by (metis domI map_le_def observes.observes_parent)
  qed
qed

lemma extend_eq:
  assumes "G \<subseteq>\<^sub>m H" and "x \<in> dom G"
  shows "H x = G x" and "creator_of H x = creator_of G x" and "seq_of H x = seq_of G x"
    and "lamport_of H x = lamport_of G x"
  using assms by (auto simp: map_le_def creator_of_def seq_of_def lamport_of_def)

lemma fork_seen_extend:
  assumes "valid_dag reader G" and "G \<subseteq>\<^sub>m H" and "a \<in> dom G"
  shows "fork_seen H a v \<longleftrightarrow> fork_seen G a v"
proof -
  have "observes G a x \<Longrightarrow> creator_of H x = creator_of G x \<and> seq_of H x = seq_of G x" for x
    using extend_eq [OF assms(2)] observes_dom by metis
  then show ?thesis
    unfolding fork_seen_def observes_extend_iff [OF assms] by metis
qed

lemma confirms_extend:
  assumes "valid_dag reader G" and "G \<subseteq>\<^sub>m H" and "a \<in> dom G"
  shows "confirms H a b v \<longleftrightarrow> confirms G a b v"
proof -
  have "creator_of H x = creator_of G x \<and> (observes H x b \<longleftrightarrow> observes G x b)"
    if "observes G a x" for x
    using that extend_eq(2) [OF assms(2)] observes_extend_iff [OF assms(1,2)] observes_dom by metis
  then show ?thesis
    unfolding confirms_def fork_seen_extend [OF assms] observes_extend_iff [OF assms] by metis
qed

lemma forkless_cause_extend:
  assumes "valid_dag reader G" and "G \<subseteq>\<^sub>m H" and "a \<in> dom G" and "b \<in> dom G"
  shows "forkless_cause vals H a b \<longleftrightarrow> forkless_cause vals G a b"
  by (simp add: forkless_cause_def fork_seen_extend [OF assms(1-3)] confirms_extend [OF assms(1-3)]
      extend_eq(2) [OF assms(2,4)])

end
