(* ===== verification/Vec_Engine.thy ===== *)
theory Vec_Engine
  imports Vectors Graph_Walk Dag_Graph
begin

text \<open>
  The vector clock engine (\<^verbatim>\<open>vecengine\<close>) with the vectors of \<^verbatim>\<open>vecfc\<close>: global
  branches, \<^verbatim>\<open>Add\<close>, \<^verbatim>\<open>Flush\<close>, \<^verbatim>\<open>DropNotFlushed\<close>, the merged vector and
  \<^verbatim>\<open>forklessCause\<close>. The tables are maps keyed by event identifiers, once as the
  reader sees them through the flushable wrapper and once as they were last
  flushed; the read caches of the vectors, which every write updates, are left
  out. \<^verbatim>\<open>crit\<close> ends the program, so it is an error, like a panic.
\<close>

section \<open>State\<close>

record BranchesInfo =
  BranchIDLastSeq :: "Event_seq list"
  BranchIDCreatorIdxs :: "nat list"
  BranchIDByCreators :: "nat list list"

record vec_db =
  EventBranch :: "hash_event \<rightharpoonup> nat"
  StoredBranchesInfo :: "BranchesInfo option"
  HighestBeforeTable :: "hash_event \<rightharpoonup> HighestBeforeSeq"
  LowestAfterTable :: "hash_event \<rightharpoonup> LowestAfterSeq"

record Engine =
  vi_validators :: Validators
  vi_bi :: "BranchesInfo option"
  vecDb :: vec_db
  flushedDb :: vec_db

datatype vec_error =
  CritBranchID | CritEventNotFound | CritNoVector
| PanicOutOfRange | PanicNilVector | PanicNilBranches | ErrInconsistentBranches

type_synonym EventSource = "hash_event \<Rightarrow> BaseEvent option"

definition empty_vec_db :: vec_db where
  "empty_vec_db = \<lparr>EventBranch = Map.empty, StoredBranchesInfo = None,
    HighestBeforeTable = Map.empty, LowestAfterTable = Map.empty\<rparr>"

section \<open>Branches\<close>

definition newInitialBranchesInfo :: "Validators \<Rightarrow> BranchesInfo" where
  "newInitialBranchesInfo validators =
    (let branchIDCreators = SortedIDs validators;
         branchIDCreatorIdxs = [0..<length branchIDCreators]
     in \<lparr>BranchIDLastSeq = replicate (length branchIDCreatorIdxs) 0,
         BranchIDCreatorIdxs = branchIDCreatorIdxs,
         BranchIDByCreators = map (\<lambda>i. [i]) [0..<Validators_Len validators]\<rparr>)"

definition InitBranchesInfo :: "Engine \<Rightarrow> Engine" where
  "InitBranchesInfo vi =
    (case vi_bi vi of
       Some _ \<Rightarrow> vi
     | None \<Rightarrow>
         (case StoredBranchesInfo (vecDb vi) of
            Some bi \<Rightarrow> vi\<lparr>vi_bi := Some bi\<rparr>
          | None \<Rightarrow> vi\<lparr>vi_bi := Some (newInitialBranchesInfo (vi_validators vi))\<rparr>))"

definition AtLeastOneFork :: "Validators \<Rightarrow> BranchesInfo \<Rightarrow> bool" where
  "AtLeastOneFork validators bi = (length (BranchIDCreatorIdxs bi) > Validators_Len validators)"

definition SetEventBranchID :: "vec_db \<Rightarrow> hash_event \<Rightarrow> nat \<Rightarrow> vec_db" where
  "SetEventBranchID db i branchID = db\<lparr>EventBranch := (EventBranch db)(i \<mapsto> branchID)\<rparr>"

definition GetEventBranchID :: "vec_db \<Rightarrow> hash_event \<Rightarrow> vec_error + nat" where
  "GetEventBranchID db i = (case EventBranch db i of None \<Rightarrow> Inl CritBranchID | Some b \<Rightarrow> Inr b)"

definition setBranchesInfo :: "vec_db \<Rightarrow> BranchesInfo \<Rightarrow> vec_db" where
  "setBranchesInfo db info = db\<lparr>StoredBranchesInfo := Some info\<rparr>"

definition GetHighestBefore :: "vec_db \<Rightarrow> hash_event \<Rightarrow> HighestBeforeSeq option" where
  "GetHighestBefore db i = HighestBeforeTable db i"

definition GetLowestAfter :: "vec_db \<Rightarrow> hash_event \<Rightarrow> LowestAfterSeq option" where
  "GetLowestAfter db i = LowestAfterTable db i"

definition SetHighestBefore :: "vec_db \<Rightarrow> hash_event \<Rightarrow> HighestBeforeSeq \<Rightarrow> vec_db" where
  "SetHighestBefore db i seq = db\<lparr>HighestBeforeTable := (HighestBeforeTable db)(i \<mapsto> seq)\<rparr>"

definition SetLowestAfter :: "vec_db \<Rightarrow> hash_event \<Rightarrow> LowestAfterSeq \<Rightarrow> vec_db" where
  "SetLowestAfter db i seq = db\<lparr>LowestAfterTable := (LowestAfterTable db)(i \<mapsto> seq)\<rparr>"

section \<open>Lifecycle\<close>

definition Engine_Reset :: "Validators \<Rightarrow> vec_db \<Rightarrow> Engine" where
  "Engine_Reset validators db =
    \<lparr>vi_validators = validators, vi_bi = None, vecDb = db, flushedDb = db\<rparr>"

definition Engine_Flush :: "Engine \<Rightarrow> Engine" where
  "Engine_Flush vi =
    (let db = (case vi_bi vi of None \<Rightarrow> vecDb vi | Some bi \<Rightarrow> setBranchesInfo (vecDb vi) bi)
     in vi\<lparr>vecDb := db, flushedDb := db\<rparr>)"

definition Engine_DropNotFlushed :: "Engine \<Rightarrow> Engine" where
  "Engine_DropNotFlushed vi = vi\<lparr>vi_bi := None, vecDb := flushedDb vi\<rparr>"

section \<open>Filling the vectors of an event\<close>

definition setForkDetected ::
  "BranchesInfo \<Rightarrow> HighestBeforeSeq \<Rightarrow> nat \<Rightarrow> HighestBeforeSeq option" where
  "setForkDetected bi before branchID =
    (case slice_get (BranchIDCreatorIdxs bi) branchID of
       None \<Rightarrow> None
     | Some creatorIdx \<Rightarrow>
         (case slice_get (BranchIDByCreators bi) creatorIdx of
            None \<Rightarrow> None
          | Some branches \<Rightarrow> Some (fold (\<lambda>b before. HB_SetForkDetected before b) branches before)))"

definition maxBranchesPerValidator :: nat where
  "maxBranchesPerValidator = 1024"

text \<open>The end of \<^verbatim>\<open>fillGlobalBranchID\<close>, reached when a new fork is observed globally.\<close>

definition newForkBranch :: "BranchesInfo \<Rightarrow> BaseEvent \<Rightarrow> nat \<Rightarrow> vec_error + (nat \<times> BranchesInfo)" where
  "newForkBranch bi e meIdx =
    (case slice_get (BranchIDByCreators bi) meIdx of
       None \<Rightarrow> Inl PanicOutOfRange
     | Some mine \<Rightarrow>
         if length mine \<ge> maxBranchesPerValidator then
           let lastBranch = mine ! (length mine - 1) in
           (case slice_get (BranchIDLastSeq bi) lastBranch of
              None \<Rightarrow> Inl PanicOutOfRange
            | Some lastSeq \<Rightarrow>
                Inr (lastBranch,
                     if ev_seq e > lastSeq
                     then bi\<lparr>BranchIDLastSeq := (BranchIDLastSeq bi)[lastBranch := ev_seq e]\<rparr>
                     else bi))
         else
           let bi1 = bi\<lparr>BranchIDLastSeq := BranchIDLastSeq bi @ [ev_seq e],
                        BranchIDCreatorIdxs := BranchIDCreatorIdxs bi @ [meIdx]\<rparr>;
               newBranchID = length (BranchIDLastSeq bi1) - 1
           in Inr (newBranchID,
                   bi1\<lparr>BranchIDByCreators := (BranchIDByCreators bi1)[meIdx := mine @ [newBranchID]]\<rparr>))"

text \<open>The boolean of the result says that an error is returned with the branch 0.\<close>

definition fillGlobalBranchID ::
  "Validators \<Rightarrow> vec_db \<Rightarrow> BranchesInfo \<Rightarrow> BaseEvent \<Rightarrow> nat \<Rightarrow> vec_error + (nat \<times> bool \<times> BranchesInfo)" where
  "fillGlobalBranchID validators db bi e meIdx =
    (if length (BranchIDCreatorIdxs bi) \<noteq> length (BranchIDLastSeq bi) then Inr (0, True, bi)
     else if length (BranchIDCreatorIdxs bi) < Validators_Len validators then Inr (0, True, bi)
     else
       let newFork = map_sum id (\<lambda>(b, bi1). (b, False, bi1)) (newForkBranch bi e meIdx) in
       case SelfParent e of
         None \<Rightarrow>
           (case slice_get (BranchIDLastSeq bi) meIdx of
              None \<Rightarrow> Inl PanicOutOfRange
            | Some lastSeq \<Rightarrow>
                if lastSeq = 0
                then Inr (meIdx, False, bi\<lparr>BranchIDLastSeq := (BranchIDLastSeq bi)[meIdx := ev_seq e]\<rparr>)
                else newFork)
       | Some selfParent \<Rightarrow>
           (case GetEventBranchID db selfParent of
              Inl err \<Rightarrow> Inl err
            | Inr selfParentBranchID \<Rightarrow>
                (case slice_get (BranchIDLastSeq bi) selfParentBranchID of
                   None \<Rightarrow> Inl PanicOutOfRange
                 | Some lastSeq \<Rightarrow>
                     if lastSeq + 1 = ev_seq e
                     then Inr (selfParentBranchID, False,
                       bi\<lparr>BranchIDLastSeq := (BranchIDLastSeq bi)[selfParentBranchID := ev_seq e]\<rparr>)
                     else newFork)))"

text \<open>
  Loading the parents: \<^verbatim>\<open>GetEventBranchID\<close> is critical for an unknown parent. The
  vector of a parent may be a nil pointer inside a non-nil interface, which the
  test \<^verbatim>\<open>parentsVecs[i] == nil\<close> does not see.
\<close>

fun loadParents :: "vec_db \<Rightarrow> hash_event list \<Rightarrow> vec_error + HighestBeforeSeq option list" where
  "loadParents db [] = Inr []"
| "loadParents db (p # ps) =
    (case GetEventBranchID db p of
       Inl err \<Rightarrow> Inl err
     | Inr _ \<Rightarrow>
         (case loadParents db ps of
            Inl err \<Rightarrow> Inl err
          | Inr vs \<Rightarrow> Inr (GetHighestBefore db p # vs)))"

definition collectParent :: "nat \<Rightarrow> HighestBeforeSeq \<Rightarrow> HighestBeforeSeq option \<Rightarrow> HighestBeforeSeq option" where
  "collectParent num before pVec =
    (case pVec of
       None \<Rightarrow> if num = 0 then Some before else None
     | Some v \<Rightarrow> Some (CollectFrom before v num))"

definition markParentsForks :: "BranchesInfo \<Rightarrow> HighestBeforeSeq \<Rightarrow> nat \<Rightarrow> HighestBeforeSeq option" where
  "markParentsForks bi before n =
    (case slice_get (BranchIDByCreators bi) n of
       None \<Rightarrow> None
     | Some branches \<Rightarrow>
         if length branches \<le> 1 then Some before
         else if list_ex (\<lambda>b. HB_IsForkDetected before b) branches then setForkDetected bi before n
         else Some before)"

definition forkPair :: "HighestBeforeSeq \<Rightarrow> nat \<Rightarrow> nat \<Rightarrow> bool" where
  "forkPair before a b =
    (a \<noteq> b \<and> \<not> (HB_IsEmpty before a \<or> HB_IsEmpty before b) \<and>
     HB_MinSeq before a \<le> HB_Seq before b \<and> HB_MinSeq before b \<le> HB_Seq before a)"

definition markNewForks :: "BranchesInfo \<Rightarrow> HighestBeforeSeq \<Rightarrow> nat \<Rightarrow> HighestBeforeSeq option" where
  "markNewForks bi before n =
    (if HB_IsForkDetected before n then Some before
     else case slice_get (BranchIDByCreators bi) n of
       None \<Rightarrow> None
     | Some branches \<Rightarrow>
         if list_ex (\<lambda>a. list_ex (\<lambda>b. forkPair before a b) branches) branches
         then setForkDetected bi before n
         else Some before)"

definition detectForks ::
  "Validators \<Rightarrow> BranchesInfo \<Rightarrow> HighestBeforeSeq \<Rightarrow> HighestBeforeSeq option" where
  "detectForks validators bi before =
    (if AtLeastOneFork validators bi then
       case fold_option (markParentsForks bi) [0..<Validators_Len validators] before of
         None \<Rightarrow> None
       | Some before1 \<Rightarrow> fold_option (markNewForks bi) [0..<Validators_Len validators] before1
     else Some before)"

definition onWalk :: "nat \<Rightarrow> BaseEvent \<Rightarrow> vec_db \<Rightarrow> hash_event \<Rightarrow> vec_error + (vec_db \<times> bool)" where
  "onWalk meBranchID e db walk =
    (case GetLowestAfter db walk of
       None \<Rightarrow> Inl PanicNilVector
     | Some wLowestAfterSeq \<Rightarrow>
         (case LA_Visit wLowestAfterSeq meBranchID e of
            (v, True) \<Rightarrow> Inr (SetLowestAfter db walk v, True)
          | (v, False) \<Rightarrow> Inr (db, False)))"

definition DfsSubgraph_body ::
  "EventSource \<Rightarrow> ('s \<Rightarrow> hash_event \<Rightarrow> vec_error + ('s \<times> bool)) \<Rightarrow> 's \<Rightarrow> hash_event \<Rightarrow>
    vec_error + ('s \<times> hash_event list)" where
  "DfsSubgraph_body getEvent walk s cur =
    (case walk s cur of
       Inl err \<Rightarrow> Inl err
     | Inr (s1, godeeper) \<Rightarrow>
         if \<not> godeeper then Inr (s1, [])
         else case getEvent cur of
                None \<Rightarrow> Inl CritEventNotFound
              | Some event \<Rightarrow> Inr (s1, ev_parents event))"

definition DfsSubgraph ::
  "EventSource \<Rightarrow> BaseEvent \<Rightarrow> ('s \<Rightarrow> hash_event \<Rightarrow> vec_error + ('s \<times> bool)) \<Rightarrow> 's \<Rightarrow>
    (vec_error + 's) option" where
  "DfsSubgraph getEvent head walk s =
    walk_stack (DfsSubgraph_body getEvent walk) (Stack_PushAll [] (ev_parents head)) s"

definition fillEventVectors :: "EventSource \<Rightarrow> Engine \<Rightarrow> BaseEvent \<Rightarrow> (vec_error + Engine) option" where
  "fillEventVectors getEvent vi e =
    (case vi_bi vi of
       None \<Rightarrow> Some (Inl PanicNilBranches)
     | Some bi \<Rightarrow>
         let meIdx = GetIdx (vi_validators vi) (ev_creator e);
             before0 = NewHighestBeforeSeq (length (BranchIDCreatorIdxs bi));
             after0 = NewLowestAfterSeq (length (BranchIDCreatorIdxs bi))
         in case fillGlobalBranchID (vi_validators vi) (vecDb vi) bi e meIdx of
              Inl err \<Rightarrow> Some (Inl err)
            | Inr (meBranchID, _, bi1) \<Rightarrow>
                (case loadParents (vecDb vi) (ev_parents e) of
                   Inl err \<Rightarrow> Some (Inl err)
                 | Inr parentsVecs \<Rightarrow>
                     let after1 = LA_InitWithEvent after0 meBranchID e;
                         before1 = HB_InitWithEvent before0 meBranchID e
                     in case fold_option (collectParent (length (BranchIDCreatorIdxs bi1))) parentsVecs before1 of
                          None \<Rightarrow> Some (Inl PanicNilVector)
                        | Some before2 \<Rightarrow>
                            (case detectForks (vi_validators vi) bi1 before2 of
                               None \<Rightarrow> Some (Inl PanicOutOfRange)
                             | Some before3 \<Rightarrow>
                                 (case DfsSubgraph getEvent e (onWalk meBranchID e) (vecDb vi) of
                                    None \<Rightarrow> None
                                  | Some (Inl err) \<Rightarrow> Some (Inl err)
                                  | Some (Inr db) \<Rightarrow>
                                      Some (Inr (vi\<lparr>vi_bi := Some bi1,
                                        vecDb := SetEventBranchID
                                          (SetLowestAfter (SetHighestBefore db (ev_id e) before3)
                                            (ev_id e) after1)
                                          (ev_id e) meBranchID\<rparr>))))))"

definition Engine_Add :: "EventSource \<Rightarrow> Engine \<Rightarrow> BaseEvent \<Rightarrow> (vec_error + Engine) option" where
  "Engine_Add getEvent vi e = fillEventVectors getEvent (InitBranchesInfo vi) e"

definition GetMergedHighestBefore :: "Engine \<Rightarrow> hash_event \<Rightarrow> Engine \<times> HighestBeforeSeq option" where
  "GetMergedHighestBefore vi i =
    (let vi1 = InitBranchesInfo vi in
     case vi_bi vi1 of
       None \<Rightarrow> (vi1, None)
     | Some bi \<Rightarrow>
         if AtLeastOneFork (vi_validators vi1) bi then
           (vi1, map_option
              (\<lambda>scattered. fold (\<lambda>(creatorIdx, branches) merged. GatherFrom merged creatorIdx scattered branches)
                 (zip [0..<length (BranchIDByCreators bi)] (BranchIDByCreators bi))
                 (NewHighestBeforeSeq (Validators_Len (vi_validators vi1))))
              (GetHighestBefore (vecDb vi1) i))
         else (vi1, GetHighestBefore (vecDb vi1) i))"

section \<open>Forkless cause\<close>

fun countObserving ::
  "HighestBeforeSeq \<Rightarrow> LowestAfterSeq \<Rightarrow> nat \<Rightarrow> nat list \<Rightarrow> WeightCounter \<Rightarrow> WeightCounter option" where
  "countObserving a b branchID [] yes = Some yes"
| "countObserving a b branchID (creatorIdx # rest) yes =
    (let bLowestAfter = LA_Get b branchID;
         aHighestBefore = HB_Get a branchID
     in if bLowestAfter \<le> bs_Seq aHighestBefore \<and> bLowestAfter \<noteq> 0 \<and>
           \<not> BranchSeq_IsForkDetected aHighestBefore
        then case CountByIdx yes creatorIdx of
               None \<Rightarrow> None
             | Some (yes1, _) \<Rightarrow> countObserving a b (Suc branchID) rest yes1
        else countObserving a b (Suc branchID) rest yes)"

definition forklessCause :: "Engine \<Rightarrow> hash_event \<Rightarrow> hash_event \<Rightarrow> vec_error + bool" where
  "forklessCause vi aID bID =
    (case GetHighestBefore (vecDb vi) aID of
       None \<Rightarrow> Inl CritNoVector
     | Some a \<Rightarrow>
         (case vi_bi vi of
            None \<Rightarrow> Inl PanicNilBranches
          | Some bi \<Rightarrow>
              (case (if AtLeastOneFork (vi_validators vi) bi
                     then case GetEventBranchID (vecDb vi) bID of
                            Inl err \<Rightarrow> Inl err
                          | Inr bBranchID \<Rightarrow> Inr (BranchSeq_IsForkDetected (HB_Get a bBranchID))
                     else Inr False) of
                 Inl err \<Rightarrow> Inl err
               | Inr True \<Rightarrow> Inr False
               | Inr False \<Rightarrow>
                   (case GetLowestAfter (vecDb vi) bID of
                      None \<Rightarrow> Inl CritNoVector
                    | Some b \<Rightarrow>
                        (case countObserving a b 0 (BranchIDCreatorIdxs bi) (NewCounter (vi_validators vi)) of
                           None \<Rightarrow> Inl PanicOutOfRange
                         | Some yes \<Rightarrow> Inr (HasQuorum yes))))))"

end
