(* ===== verification/Vec_Branches.thy ===== *)
theory Vec_Branches
  imports Vec_Engine
begin

text \<open>
  The global branches of the vector engine. Invariant: every branch is a chain
  of self-parents of one validator with consecutive sequence numbers, its last
  sequence number is the one recorded, and the two indexes of branches agree.
  \<^verbatim>\<open>fillGlobalBranchID\<close> keeps it as long as the creator is below the cap on
  branches.
\<close>

section \<open>Adding an event to the graph\<close>

definition add_event :: "dag \<Rightarrow> BaseEvent \<Rightarrow> dag" where
  "add_event G e = G(ev_id e \<mapsto> e)"

definition addable :: "Validators \<times> Epoch \<Rightarrow> dag \<Rightarrow> BaseEvent \<Rightarrow> bool" where
  "addable reader G e \<longleftrightarrow>
    ev_id e \<notin> dom G \<and> set (ev_parents e) \<subseteq> dom G \<and>
    Checkers_Validate reader e (parents_of G (ev_parents e)) = None"

lemma add_event_le: "ev_id e \<notin> dom G \<Longrightarrow> G \<subseteq>\<^sub>m add_event G e"
  by (auto simp: add_event_def map_le_def)

lemma add_event_new [simp]: "add_event G e (ev_id e) = Some e"
  by (simp add: add_event_def)

lemma dom_add_event [simp]: "dom (add_event G e) = insert (ev_id e) (dom G)"
  by (simp add: add_event_def)

lemma parents_of_add_event:
  assumes "ev_id e \<notin> dom G" and "set ps \<subseteq> dom G"
  shows "parents_of (add_event G e) ps = parents_of G ps"
  using assms by (auto simp: parents_of_def add_event_def)

lemma valid_dag_add_event:
  assumes "valid_dag reader G" and "addable reader G e"
  shows "valid_dag reader (add_event G e)"
  unfolding valid_dag_def
proof (intro conjI allI impI)
  show "finite (dom (add_event G e))" using assms(1) by (simp add: valid_dag_def)
  fix a f assume "add_event G e a = Some f"
  then consider "a = ev_id e" "f = e" | "a \<noteq> ev_id e" "G a = Some f"
    by (auto simp: add_event_def split: if_splits)
  then show "ev_id f = a" and "set (ev_parents f) \<subseteq> dom (add_event G e)"
    and "Checkers_Validate reader f (parents_of (add_event G e) (ev_parents f)) = None"
    using assms parents_of_add_event [of e G "ev_parents f"]
    by (cases; auto simp: valid_dag_def addable_def; fail)+
qed

lemma observes_new_iff:
  assumes "valid_dag reader G" and "addable reader G e"
  shows "observes (add_event G e) (ev_id e) x \<longleftrightarrow>
    x = ev_id e \<or> (\<exists>p \<in> set (ev_parents e). observes G p x)"
proof -
  have "observes (add_event G e) p x \<longleftrightarrow> observes G p x" if "p \<in> set (ev_parents e)" for p
  proof -
    have "ev_id e \<notin> dom G" "p \<in> dom G" using that assms(2) by (auto simp: addable_def)
    then show ?thesis using observes_extend_iff [OF assms(1) add_event_le] by metis
  qed
  then show ?thesis
    using observes_iff [of "add_event G e" "ev_id e" e x] by auto
qed

lemma self_ancestor_extend:
  assumes "G \<subseteq>\<^sub>m H" and "self_ancestor G a b"
  shows "self_ancestor H a b"
  using assms(2)
proof (induction rule: self_ancestor.induct)
  case (self_refl a)
  then show ?case using assms(1) by (metis domD domI map_le_def self_ancestor.self_refl)
next
  case (self_parent a e p b)
  then show ?case using assms(1) by (metis domI map_le_def self_ancestor.self_parent)
qed

section \<open>The invariant\<close>

abbreviation branches_num :: "BranchesInfo \<Rightarrow> nat" where
  "branches_num bi \<equiv> length (BranchIDCreatorIdxs bi)"

definition wf_branches :: "Validators \<Rightarrow> BranchesInfo \<Rightarrow> bool" where
  "wf_branches vals bi \<longleftrightarrow>
    length (BranchIDLastSeq bi) = branches_num bi \<and>
    Validators_Len vals \<le> branches_num bi \<and>
    (\<forall>i < Validators_Len vals. BranchIDCreatorIdxs bi ! i = i) \<and>
    (\<forall>b < branches_num bi. BranchIDCreatorIdxs bi ! b < Validators_Len vals) \<and>
    length (BranchIDByCreators bi) = Validators_Len vals \<and>
    (\<forall>v < Validators_Len vals.
      set (BranchIDByCreators bi ! v) = {b. b < branches_num bi \<and> BranchIDCreatorIdxs bi ! b = v})"

text \<open>Which branch an event is on, and the chains.\<close>

definition branch_members :: "Validators \<Rightarrow> dag \<Rightarrow> BranchesInfo \<Rightarrow> (hash_event \<Rightarrow> nat) \<Rightarrow> bool" where
  "branch_members vals G bi br \<longleftrightarrow>
    (\<forall>x \<in> dom G. br x < branches_num bi \<and>
      BranchIDCreatorIdxs bi ! br x = GetIdx vals (creator_of G x) \<and>
      seq_of G x \<le> unat (BranchIDLastSeq bi ! br x))"

definition branch_chains :: "dag \<Rightarrow> (hash_event \<Rightarrow> nat) \<Rightarrow> bool" where
  "branch_chains G br \<longleftrightarrow>
    (\<forall>x \<in> dom G. \<forall>y \<in> dom G. br x = br y \<and> seq_of G x \<le> seq_of G y \<longrightarrow> self_ancestor G y x) \<and>
    (\<forall>x \<in> dom G. \<forall>y \<in> dom G. \<forall>s. br x = br y \<and> seq_of G x \<le> s \<and> s \<le> seq_of G y \<longrightarrow>
      (\<exists>z \<in> dom G. br z = br x \<and> seq_of G z = s))"

definition branch_tops :: "dag \<Rightarrow> BranchesInfo \<Rightarrow> (hash_event \<Rightarrow> nat) \<Rightarrow> bool" where
  "branch_tops G bi br \<longleftrightarrow>
    (\<forall>b < branches_num bi. BranchIDLastSeq bi ! b \<noteq> 0 \<longrightarrow>
      (\<exists>x \<in> dom G. br x = b \<and> seq_of G x = unat (BranchIDLastSeq bi ! b)))"

definition branch_inv :: "Validators \<Rightarrow> dag \<Rightarrow> BranchesInfo \<Rightarrow> (hash_event \<Rightarrow> nat) \<Rightarrow> bool" where
  "branch_inv vals G bi br \<longleftrightarrow>
    wf_branches vals bi \<and> branch_members vals G bi br \<and> branch_chains G br \<and> branch_tops G bi br"

lemma branch_chains_cong:
  assumes "\<And>x. x \<in> dom G \<Longrightarrow> br x = br' x"
  shows "branch_chains G br \<longleftrightarrow> branch_chains G br'"
  using assms unfolding branch_chains_def by (intro conj_cong ball_cong refl) auto

lemma branch_unique:
  assumes "valid_dag reader G" and "branch_chains G br" and "x \<in> dom G" and "y \<in> dom G"
    and "br x = br y" and "seq_of G x = seq_of G y"
  shows "x = y"
proof -
  have "self_ancestor G y x" "self_ancestor G x y"
    using assms(2-6) unfolding branch_chains_def by auto
  then show ?thesis
    using self_ancestor_observes [OF assms(1)] observes_antisym [OF assms(1)] by blast
qed

lemma branch_inv_initial:
  assumes "wf_validators vals"
  shows "branch_inv vals Map.empty (newInitialBranchesInfo vals) br"
  using assms
  by (auto simp: branch_inv_def wf_branches_def branch_members_def branch_chains_def branch_tops_def
      newInitialBranchesInfo_def SortedIDs_def Let_def length_ids)

section \<open>Extending a chain\<close>

text \<open>
  Adding an event to a branch all of whose events are its self-ancestors with
  smaller sequence numbers, the last of which directly precedes it.
\<close>

lemma branch_chains_add:
  assumes valid: "valid_dag reader G" and add: "addable reader G e"
    and chains: "branch_chains G br"
    and below: "\<And>x. x \<in> dom G \<Longrightarrow> br x = b \<Longrightarrow>
      seq_of G x < unat (ev_seq e) \<and> self_ancestor (add_event G e) (ev_id e) x"
    and top: "(\<forall>x \<in> dom G. br x \<noteq> b) \<or> (\<exists>p \<in> dom G. br p = b \<and> Suc (seq_of G p) = unat (ev_seq e))"
  shows "branch_chains (add_event G e) (br(ev_id e := b))"
proof -
  let ?G = "add_event G e" and ?e = "ev_id e" and ?br = "br(ev_id e := b)"
  have fresh: "?e \<notin> dom G" using add by (simp add: addable_def)
  have le: "G \<subseteq>\<^sub>m ?G" using add_event_le [OF fresh] .
  have old: "seq_of ?G x = seq_of G x" "?br x = br x" if "x \<in> dom G" for x
    using extend_eq(3) [OF le that] that fresh by auto
  have new: "seq_of ?G ?e = unat (ev_seq e)" by (simp add: seq_of_def)
  have anc: "self_ancestor ?G y x"
    if "x \<in> dom ?G" "y \<in> dom ?G" "?br x = ?br y" "seq_of ?G x \<le> seq_of ?G y" for x y
  proof (cases "y = ?e")
    case True
    show ?thesis
    proof (cases "x = ?e")
      case True
      then show ?thesis using \<open>y = ?e\<close> by (auto intro: self_refl)
    next
      case False
      then show ?thesis using that True below [of x] by auto
    qed
  next
    case False
    then have y: "y \<in> dom G" using that by simp
    have "x \<noteq> ?e"
    proof
      assume "x = ?e"
      then have "br y = b" "unat (ev_seq e) \<le> seq_of G y" using that False y old new by auto
      then show False using below [OF y] by simp
    qed
    then have "x \<in> dom G" using that by simp
    then show ?thesis
      using that y old chains self_ancestor_extend [OF le] unfolding branch_chains_def by metis
  qed
  moreover have "\<exists>z \<in> dom ?G. ?br z = ?br x \<and> seq_of ?G z = s"
    if "x \<in> dom ?G" "y \<in> dom ?G" "?br x = ?br y" "seq_of ?G x \<le> s" "s \<le> seq_of ?G y" for x y s
  proof (cases "x = ?e \<or> s = seq_of ?G y")
    case True
    show ?thesis
    proof (cases "s = seq_of ?G y")
      case False
      then have x: "x = ?e" using True by simp
      then have "y \<noteq> ?e" using that False by auto
      then have "y \<in> dom G" "br y = b" using that x by auto
      then show ?thesis using that x below [of y] old new by auto
    qed (use that in \<open>auto intro!: bexI [of _ y]\<close>)
  next
    case False
    then have x: "x \<in> dom G" "?br x = br x" using that old by auto
    show ?thesis
    proof (cases "y = ?e")
      case True
      with that x have bx: "br x = b" by simp
      with top x obtain p where p: "p \<in> dom G" "br p = b" "Suc (seq_of G p) = unat (ev_seq e)" by auto
      have "seq_of G x \<le> s" "s \<le> seq_of G p" using that x old new p True False by auto
      with chains x p bx have "\<exists>z \<in> dom G. br z = br x \<and> seq_of G z = s"
        unfolding branch_chains_def by metis
      then show ?thesis using old x by (metis dom_add_event insertI2)
    next
      case False
      then have "y \<in> dom G" using that by simp
      with chains x that old have "\<exists>z \<in> dom G. br z = br x \<and> seq_of G z = s"
        unfolding branch_chains_def by metis
      then show ?thesis using old x by (metis dom_add_event insertI2)
    qed
  qed
  ultimately show ?thesis unfolding branch_chains_def by blast
qed

section \<open>fillGlobalBranchID keeps the invariant\<close>

text \<open>What a step of the branch assignment gives for the branch \<^term>\<open>b\<close> of the new event.\<close>

definition branch_step ::
  "Validators \<Rightarrow> dag \<Rightarrow> BaseEvent \<Rightarrow> BranchesInfo \<Rightarrow> (hash_event \<Rightarrow> nat) \<Rightarrow> nat \<Rightarrow> BranchesInfo \<Rightarrow> bool" where
  "branch_step vals G e bi br b bi' \<longleftrightarrow>
    branch_inv vals (add_event G e) bi' (br(ev_id e := b)) \<and>
    b < branches_num bi' \<and> BranchIDCreatorIdxs bi' ! b = GetIdx vals (ev_creator e) \<and>
    branches_num bi \<le> branches_num bi' \<and>
    (\<forall>i < branches_num bi. BranchIDCreatorIdxs bi' ! i = BranchIDCreatorIdxs bi ! i) \<and>
    (\<forall>i < branches_num bi'. i < branches_num bi \<or> i = b) \<and>
    (\<forall>x \<in> dom G. br x = b \<longrightarrow> seq_of G x < unat (ev_seq e))"

lemma branch_step_old:
  assumes valid: "valid_dag (vals, ep) G" and add: "addable (vals, ep) G e"
    and inv: "branch_inv vals G bi br" and b: "b < branches_num bi"
    and creator: "BranchIDCreatorIdxs bi ! b = GetIdx vals (ev_creator e)"
    and below: "\<And>x. x \<in> dom G \<Longrightarrow> br x = b \<Longrightarrow>
      seq_of G x < unat (ev_seq e) \<and> self_ancestor (add_event G e) (ev_id e) x"
    and top: "(\<forall>x \<in> dom G. br x \<noteq> b) \<or> (\<exists>p \<in> dom G. br p = b \<and> Suc (seq_of G p) = unat (ev_seq e))"
  shows "branch_step vals G e bi br b
    (bi\<lparr>BranchIDLastSeq := (BranchIDLastSeq bi)[b := ev_seq e]\<rparr>)"
proof -
  let ?bi = "bi\<lparr>BranchIDLastSeq := (BranchIDLastSeq bi)[b := ev_seq e]\<rparr>"
  let ?G = "add_event G e" and ?e = "ev_id e" and ?br = "br(ev_id e := b)"
  have fresh: "?e \<notin> dom G" using add by (simp add: addable_def)
  have le: "G \<subseteq>\<^sub>m ?G" using add_event_le [OF fresh] .
  have wfb: "wf_branches vals bi" and mem: "branch_members vals G bi br"
    and ch: "branch_chains G br" and tops: "branch_tops G bi br"
    using inv by (auto simp: branch_inv_def)
  have len: "length (BranchIDLastSeq bi) = branches_num bi" using wfb by (simp add: wf_branches_def)
  have wf': "wf_branches vals ?bi" using wfb by (simp add: wf_branches_def)
  have last: "BranchIDLastSeq ?bi ! c = (if c = b then ev_seq e else BranchIDLastSeq bi ! c)"
    if "c < branches_num bi" for c
    using that len b by simp
  have old: "seq_of ?G x = seq_of G x" "creator_of ?G x = creator_of G x" "?br x = br x"
    if "x \<in> dom G" for x
    using extend_eq [OF le that] that fresh by auto
  have new: "seq_of ?G ?e = unat (ev_seq e)" "creator_of ?G ?e = ev_creator e"
    by (simp_all add: seq_of_def creator_of_def)
  have "branch_members vals ?G ?bi ?br"
    unfolding branch_members_def
  proof
    fix x assume "x \<in> dom ?G"
    then consider "x = ?e" | "x \<in> dom G" "x \<noteq> ?e" using fresh by auto
    then show "?br x < branches_num ?bi \<and> BranchIDCreatorIdxs ?bi ! ?br x = GetIdx vals (creator_of ?G x) \<and>
        seq_of ?G x \<le> unat (BranchIDLastSeq ?bi ! ?br x)"
    proof cases
      case 2
      then have "br x < branches_num bi \<and> BranchIDCreatorIdxs bi ! br x = GetIdx vals (creator_of G x) \<and>
          seq_of G x \<le> unat (BranchIDLastSeq bi ! br x)"
        using mem by (auto simp: branch_members_def)
      moreover have "seq_of G x \<le> unat (ev_seq e)" if "br x = b" using below [OF 2(1) that] by simp
      ultimately show ?thesis using 2 old last by auto
    qed (use b creator new last in auto)
  qed
  moreover have "branch_tops ?G ?bi ?br"
    unfolding branch_tops_def
  proof (intro allI impI)
    fix c assume c: "c < branches_num ?bi" "BranchIDLastSeq ?bi ! c \<noteq> 0"
    show "\<exists>x \<in> dom ?G. ?br x = c \<and> seq_of ?G x = unat (BranchIDLastSeq ?bi ! c)"
    proof (cases "c = b")
      case True
      then show ?thesis using c last new by (intro bexI [of _ ?e]) auto
    next
      case False
      then have "c < branches_num bi" "BranchIDLastSeq bi ! c \<noteq> 0" using c last by auto
      then obtain x where "x \<in> dom G" "br x = c" "seq_of G x = unat (BranchIDLastSeq bi ! c)"
        using tops unfolding branch_tops_def by blast
      then show ?thesis using False c last old by (intro bexI [of _ x]) auto
    qed
  qed
  ultimately have "branch_inv vals ?G ?bi ?br"
    using wf' branch_chains_add [OF valid add ch below top] by (simp add: branch_inv_def)
  then show ?thesis
    using b creator below by (simp add: branch_step_def)
qed

lemma branch_step_new:
  assumes valid: "valid_dag (vals, ep) G" and add: "addable (vals, ep) G e"
    and wfv: "wf_validators vals" and inv: "branch_inv vals G bi br"
  defines "v \<equiv> GetIdx vals (ev_creator e)"
  shows "branch_step vals G e bi br (branches_num bi)
    (bi\<lparr>BranchIDLastSeq := BranchIDLastSeq bi @ [ev_seq e],
        BranchIDCreatorIdxs := BranchIDCreatorIdxs bi @ [v],
        BranchIDByCreators := (BranchIDByCreators bi)[v := BranchIDByCreators bi ! v @ [branches_num bi]]\<rparr>)"
    (is "branch_step vals G e bi br ?b ?bi")
proof -
  let ?G = "add_event G e" and ?e = "ev_id e" and ?br = "br(ev_id e := ?b)"
  have fresh: "?e \<notin> dom G" using add by (simp add: addable_def)
  have le: "G \<subseteq>\<^sub>m ?G" using add_event_le [OF fresh] .
  have wfb: "wf_branches vals bi" and mem: "branch_members vals G bi br"
    and ch: "branch_chains G br" and tops: "branch_tops G bi br"
    using inv by (auto simp: branch_inv_def)
  have len: "length (BranchIDLastSeq bi) = ?b" using wfb by (simp add: wf_branches_def)
  have "Exists vals (ev_creator e)"
    using valid_dag_creator [OF valid_dag_add_event [OF valid add], of ?e] by (simp add: creator_of_def)
  then have v: "v < Validators_Len vals" using GetIdx_Exists(1) [OF wfv] by (simp add: v_def)
  have none: "br x \<noteq> ?b" if "x \<in> dom G" for x
    using bspec [OF mem [unfolded branch_members_def] that] by simp
  have old: "seq_of ?G x = seq_of G x" "creator_of ?G x = creator_of G x" "?br x = br x"
    if "x \<in> dom G" for x
    using extend_eq [OF le that] that fresh by auto
  have new: "seq_of ?G ?e = unat (ev_seq e)" "creator_of ?G ?e = ev_creator e"
    by (simp_all add: seq_of_def creator_of_def)
  have wf': "wf_branches vals ?bi"
    using wfb v len by (auto simp: wf_branches_def nth_append nth_list_update less_Suc_eq)
  have "branch_members vals ?G ?bi ?br"
    unfolding branch_members_def
  proof
    fix x assume "x \<in> dom ?G"
    then consider "x = ?e" | "x \<in> dom G" "x \<noteq> ?e" using fresh by auto
    then show "?br x < branches_num ?bi \<and> BranchIDCreatorIdxs ?bi ! ?br x = GetIdx vals (creator_of ?G x) \<and>
        seq_of ?G x \<le> unat (BranchIDLastSeq ?bi ! ?br x)"
    proof cases
      case 2
      then show ?thesis using mem len old by (auto simp: branch_members_def nth_append less_SucI)
    qed (use len new in \<open>auto simp: v_def nth_append\<close>)
  qed
  moreover have "branch_tops ?G ?bi ?br"
    unfolding branch_tops_def
  proof (intro allI impI)
    fix c assume c: "c < branches_num ?bi" "BranchIDLastSeq ?bi ! c \<noteq> 0"
    show "\<exists>x \<in> dom ?G. ?br x = c \<and> seq_of ?G x = unat (BranchIDLastSeq ?bi ! c)"
    proof (cases "c = ?b")
      case True
      then show ?thesis using new len by (intro bexI [of _ ?e]) (auto simp: nth_append)
    next
      case False
      then have "c < ?b" using c by simp
      then have "BranchIDLastSeq bi ! c \<noteq> 0" using c len by (simp add: nth_append)
      then obtain x where "x \<in> dom G" "br x = c" "seq_of G x = unat (BranchIDLastSeq bi ! c)"
        using tops \<open>c < ?b\<close> unfolding branch_tops_def by blast
      then show ?thesis using \<open>c < ?b\<close> len old by (intro bexI [of _ x]) (auto simp: nth_append)
    qed
  qed
  moreover have "branch_chains ?G ?br"
    using none by (intro branch_chains_add [OF valid add ch]) auto
  ultimately have "branch_inv vals ?G ?bi ?br" using wf' by (simp add: branch_inv_def)
  then show ?thesis
    using none by (auto simp: branch_step_def v_def nth_append)
qed

text \<open>
  The creator's next branch: its first branch for a first event, the branch of
  the self-parent when that is the end of its branch, a new one otherwise.
\<close>

lemma fillGlobalBranchID_step:
  assumes valid: "valid_dag (vals, ep) G" and add: "addable (vals, ep) G e"
    and wfv: "wf_validators vals" and inv: "branch_inv vals G bi (\<lambda>x. the (EventBranch db x))"
    and dom: "dom (EventBranch db) = dom G"
    and cap: "length (BranchIDByCreators bi ! GetIdx vals (ev_creator e)) < maxBranchesPerValidator"
  shows "\<exists>b bi'. fillGlobalBranchID vals db bi e (GetIdx vals (ev_creator e)) = Inr (b, False, bi') \<and>
    branch_step vals G e bi (\<lambda>x. the (EventBranch db x)) b bi'"
proof -
  let ?v = "GetIdx vals (ev_creator e)" and ?br = "\<lambda>x. the (EventBranch db x)"
  let ?G = "add_event G e"
  have fresh: "ev_id e \<notin> dom G" using add by (simp add: addable_def)
  have le: "G \<subseteq>\<^sub>m ?G" using add_event_le [OF fresh] .
  have valid': "valid_dag (vals, ep) ?G" using valid_dag_add_event [OF valid add] .
  have wfb: "wf_branches vals bi" and mem: "branch_members vals G bi ?br"
    and ch: "branch_chains G ?br" and tops: "branch_tops G bi ?br"
    using inv by (auto simp: branch_inv_def)
  have "Exists vals (ev_creator e)"
    using valid_dag_creator [OF valid', of "ev_id e"] by (simp add: creator_of_def)
  then have v: "?v < Validators_Len vals" using GetIdx_Exists(1) [OF wfv] by simp
  have len: "length (BranchIDLastSeq bi) = branches_num bi" "?v < branches_num bi"
    "BranchIDCreatorIdxs bi ! ?v = ?v" "?v < length (BranchIDByCreators bi)"
    using wfb v by (auto simp: wf_branches_def)
  note member = bspec [OF mem [unfolded branch_members_def]]
  have fork: "newForkBranch bi e ?v = Inr (branches_num bi,
      bi\<lparr>BranchIDLastSeq := BranchIDLastSeq bi @ [ev_seq e],
         BranchIDCreatorIdxs := BranchIDCreatorIdxs bi @ [?v],
         BranchIDByCreators := (BranchIDByCreators bi)[?v := BranchIDByCreators bi ! ?v @ [branches_num bi]]\<rparr>)"
    using cap len by (simp add: newForkBranch_def Let_def)
  note step_new = branch_step_new [OF valid add wfv inv]
  have seq: "seq_of ?G (ev_id e) = unat (ev_seq e)" by (simp add: seq_of_def)
  have guards: "\<not> branches_num bi < Validators_Len vals" using wfb by (simp add: wf_branches_def)
  show ?thesis
  proof (cases "SelfParent e")
    case None
    show ?thesis
    proof (cases "BranchIDLastSeq bi ! ?v = 0")
      case True
      have "?br x \<noteq> ?v" if "x \<in> dom G" for x
        using member [OF that] True valid_dag_seq(1) [OF valid that] by auto
      then have "branch_step vals G e bi ?br ?v
          (bi\<lparr>BranchIDLastSeq := (BranchIDLastSeq bi)[?v := ev_seq e]\<rparr>)"
        using len by (intro branch_step_old [OF valid add inv]) auto
      then show ?thesis
        using None True len guards by (simp add: fillGlobalBranchID_def)
    next
      case False
      then show ?thesis
        using None len guards fork step_new by (simp add: fillGlobalBranchID_def)
    qed
  next
    case (Some p)
    note sp = SelfParent_Some [OF valid' add_event_new Some]
    have p: "p \<in> dom G" using sp(1) add by (auto simp: addable_def)
    have seqp: "unat (ev_seq e) = Suc (seq_of G p)" using sp(4) seq extend_eq(3) [OF le p] by simp
    let ?b = "?br p"
    have b: "?b < branches_num bi" and cr: "BranchIDCreatorIdxs bi ! ?b = ?v"
      using member [OF p] sp(3) extend_eq(2) [OF le p] by (auto simp: creator_of_def)
    obtain b' where b': "EventBranch db p = Some b'" using p dom by auto
    have "unat (BranchIDLastSeq bi ! ?b) < 2147483647"
    proof (cases "BranchIDLastSeq bi ! ?b = 0")
      case False
      then obtain x where "x \<in> dom G" "seq_of G x = unat (BranchIDLastSeq bi ! ?b)"
        using tops b unfolding branch_tops_def by blast
      then show ?thesis using valid_dag_seq(2) [OF valid, of x] by simp
    qed simp
    then have last: "unat (BranchIDLastSeq bi ! ?b + 1) = Suc (unat (BranchIDLastSeq bi ! ?b))"
      by (subst unat_Suc_no_overflow) auto
    show ?thesis
    proof (cases "BranchIDLastSeq bi ! ?b + 1 = ev_seq e")
      case True
      then have top: "unat (BranchIDLastSeq bi ! ?b) = seq_of G p" using last seqp by simp
      have "seq_of G x < unat (ev_seq e) \<and> self_ancestor ?G (ev_id e) x"
        if "x \<in> dom G" "?br x = ?b" for x
      proof -
        have "seq_of G x \<le> seq_of G p" using member [OF that(1)] that(2) top by simp
        then have "self_ancestor G p x"
          using ch that p unfolding branch_chains_def by blast
        then have "self_ancestor ?G (ev_id e) x"
          by (intro self_parent [of ?G "ev_id e" e p] self_ancestor_extend [OF le]) (simp_all add: Some)
        then show ?thesis using \<open>seq_of G x \<le> seq_of G p\<close> seqp by simp
      qed
      then have "branch_step vals G e bi ?br ?b
          (bi\<lparr>BranchIDLastSeq := (BranchIDLastSeq bi)[?b := ev_seq e]\<rparr>)"
        using b cr p seqp by (intro branch_step_old [OF valid add inv]) auto
      then show ?thesis
        using Some True len b guards b' by (simp add: fillGlobalBranchID_def GetEventBranchID_def)
    next
      case False
      then show ?thesis
        using Some len b guards b' fork step_new
        by (simp add: fillGlobalBranchID_def GetEventBranchID_def)
    qed
  qed
qed

end
