(* ===== verification/Vec_Highest.thy ===== *)
theory Vec_Highest
  imports Vec_Branches
begin

text \<open>
  Correctness of the \<^verbatim>\<open>HighestBefore\<close> vectors: the entry of a branch is the
  highest and the lowest sequence number of the observed events on it, and the
  fork marker stands on the branches of exactly those validators whose fork the
  event sees.
\<close>

section \<open>Entries\<close>

definition seqs_before :: "dag \<Rightarrow> (hash_event \<Rightarrow> nat) \<Rightarrow> hash_event \<Rightarrow> nat \<Rightarrow> nat set" where
  "seqs_before G br a b = seq_of G ` {x \<in> dom G. br x = b \<and> observes G a x}"

abbreviation empty_entry :: BranchSeq where
  "empty_entry \<equiv> \<lparr>bs_Seq = 0, bs_MinSeq = 0\<rparr>"

definition entry_of :: "nat set \<Rightarrow> BranchSeq" where
  "entry_of S = (if S = {} then empty_entry
    else \<lparr>bs_Seq = of_nat (Max S), bs_MinSeq = of_nat (Min S)\<rparr>)"

definition seq_range :: "nat set \<Rightarrow> bool" where
  "seq_range S \<longleftrightarrow> finite S \<and> (\<forall>s \<in> S. 0 < s \<and> s < 2147483646)"

lemma seq_range_empty [simp]: "seq_range {}"
  by (simp add: seq_range_def)

lemma seq_range_Un [simp]: "seq_range (S \<union> T) \<longleftrightarrow> seq_range S \<and> seq_range T"
  by (auto simp: seq_range_def)

lemma seq_range_bounds:
  assumes "seq_range S" and "S \<noteq> {}"
  shows "0 < Max S" "Max S < 2147483646" "0 < Min S" "Min S < 2147483646" "Min S \<le> Max S"
  using assms Max_in [of S] Min_in [of S] by (auto simp: seq_range_def)

lemma unat_entry:
  assumes "seq_range S" and "S \<noteq> {}"
  shows "unat (bs_Seq (entry_of S)) = Max S" and "unat (bs_MinSeq (entry_of S)) = Min S"
  using seq_range_bounds [OF assms] assms(2) by (simp_all add: entry_of_def unat_of_nat)

lemma entry_of_empty [simp]: "entry_of {} = empty_entry"
  by (simp add: entry_of_def)

lemma entry_not_fork: "seq_range S \<Longrightarrow> entry_of S \<noteq> forkDetectedSeq"
proof
  assume S: "seq_range S" and eq: "entry_of S = forkDetectedSeq"
  show False
  proof (cases "S = {}")
    case False
    then have "unat (bs_Seq (entry_of S)) \<noteq> 0"
      using unat_entry(1) [OF S] seq_range_bounds(1) [OF S] by simp
    then show False by (simp add: eq forkDetectedSeq_def)
  qed (use eq in \<open>simp add: forkDetectedSeq_def\<close>)
qed

lemma entry_seq_zero_iff: "seq_range S \<Longrightarrow> bs_Seq (entry_of S) = 0 \<longleftrightarrow> S = {}"
  using unat_entry(1) [of S] seq_range_bounds(1) [of S] by (cases "S = {}") (auto simp: unat_eq_zero)

lemma of_nat_max_min:
  assumes "x < 2147483646" and "y < 2147483646"
  shows "max (of_nat x :: u32) (of_nat y) = of_nat (max x y)"
    and "min (of_nat x :: u32) (of_nat y) = of_nat (min x y)"
  using assms by (simp_all add: max_def min_def word_le_nat_alt unat_of_nat)

lemma join_entry:
  assumes "seq_range S" and "seq_range T"
  shows "join_seq (entry_of S) (entry_of T) = entry_of (S \<union> T)"
proof (cases "S = {} \<or> T = {}")
  case True
  then show ?thesis
    using assms entry_not_fork [OF assms(1)] entry_not_fork [OF assms(2)]
    by (auto simp: join_seq_def entry_seq_zero_iff forkDetectedSeq_def)
next
  case False
  have fin: "finite S" "finite T" using assms by (auto simp: seq_range_def)
  note bounds = seq_range_bounds [OF assms(1)] seq_range_bounds [OF assms(2)]
  have "max (bs_Seq (entry_of S)) (bs_Seq (entry_of T)) = of_nat (Max (S \<union> T))"
    using False fin bounds(2) bounds(7) of_nat_max_min(1) by (simp add: entry_of_def Max_Un)
  moreover have "min (bs_MinSeq (entry_of S)) (bs_MinSeq (entry_of T)) = of_nat (Min (S \<union> T))"
    using False fin bounds(4) bounds(9) of_nat_max_min(2) by (simp add: entry_of_def Min_Un)
  ultimately show ?thesis
    using False assms entry_not_fork [OF assms(1)] entry_not_fork [OF assms(2)]
    by (simp add: join_seq_def entry_seq_zero_iff) (simp add: entry_of_def)
qed

lemma join_fork [simp]: "join_seq forkDetectedSeq x = forkDetectedSeq"
  by (simp add: join_seq_def)

lemma join_fork_right: "join_seq x forkDetectedSeq = forkDetectedSeq"
  by (simp add: join_seq_def)

lemma foldl_join_fork: "foldl join_seq forkDetectedSeq es = forkDetectedSeq"
  by (induction es) auto

lemma foldl_join:
  assumes "seq_range S0" and "\<And>i. i \<in> set is \<Longrightarrow> seq_range (S i)"
    and "\<And>i. i \<in> set is \<Longrightarrow> E i = forkDetectedSeq \<or> E i = entry_of (S i)"
  shows "foldl join_seq (entry_of S0) (map E is) =
    (if \<exists>i \<in> set is. E i = forkDetectedSeq then forkDetectedSeq
     else entry_of (S0 \<union> (\<Union>i \<in> set is. S i)))"
  using assms
proof (induction "is" arbitrary: S0)
  case (Cons i "is")
  show ?case
  proof (cases "E i = forkDetectedSeq")
    case True
    then show ?thesis by (simp add: join_fork_right foldl_join_fork)
  next
    case False
    then have "E i = entry_of (S i)" using Cons.prems(3) by auto
    then have "join_seq (entry_of S0) (E i) = entry_of (S0 \<union> S i)"
      using Cons.prems by (simp add: join_entry)
    then show ?thesis
      using Cons.IH [of "S0 \<union> S i"] Cons.prems False by (simp add: Un_assoc)
  qed
qed simp

section \<open>Collecting the parents\<close>

lemma collectParents_get:
  assumes "wf_hb h"
  shows "\<exists>h'. fold_option (collectParent n) (map Some vs) h = Some h' \<and> wf_hb h' \<and>
    (\<forall>b. HB_Get h' b =
      (if b < n then foldl join_seq (HB_Get h b) (map (\<lambda>v. HB_Get v b) vs) else HB_Get h b))"
  using assms
proof (induction vs arbitrary: h)
  case (Cons v vs)
  have c: "wf_hb (CollectFrom h v n)"
    "\<And>b. HB_Get (CollectFrom h v n) b = (if b < n then join_seq (HB_Get h b) (HB_Get v b) else HB_Get h b)"
    using CollectFrom_get [OF Cons.prems] by auto
  from Cons.IH [OF c(1)] show ?case
    by (auto simp: collectParent_def c(2))
qed simp

lemma loadParents_eq:
  assumes "set ps \<subseteq> dom (EventBranch db)" and "set ps \<subseteq> dom (HighestBeforeTable db)"
  shows "loadParents db ps = Inr (map Some (map (\<lambda>p. the (HighestBeforeTable db p)) ps))"
  using assms by (induction ps) (auto simp: GetEventBranchID_def GetHighestBefore_def)

section \<open>Marking forks\<close>

lemma setForkDetected_get:
  assumes "wf_branches vals bi" and "wf_hb h" and "v < Validators_Len vals"
  shows "\<exists>h'. setForkDetected bi h v = Some h' \<and> wf_hb h' \<and>
    (\<forall>b. HB_Get h' b =
      (if b < branches_num bi \<and> BranchIDCreatorIdxs bi ! b = v then forkDetectedSeq else HB_Get h b))"
proof -
  have v: "v < branches_num bi" "BranchIDCreatorIdxs bi ! v = v" "v < length (BranchIDByCreators bi)"
    "set (BranchIDByCreators bi ! v) = {b. b < branches_num bi \<and> BranchIDCreatorIdxs bi ! b = v}"
    using assms(1,3) by (auto simp: wf_branches_def)
  show ?thesis
    using v hb.fold_set [OF assms(2), of forkDetectedSeq "BranchIDByCreators bi ! v"]
    by (simp add: setForkDetected_def HB_SetForkDetected_def)
qed

text \<open>
  A loop over the validators whose body marks the branches of one validator
  under a condition on their entries.
\<close>

lemma mark_loop:
  assumes step: "\<And>h v. wf_hb h \<Longrightarrow> v < N \<Longrightarrow> \<exists>h'. f h v = Some h' \<and> wf_hb h' \<and>
      (\<forall>b. HB_Get h' b = (if b < n \<and> cr b = v \<and> P v h then forkDetectedSeq else HB_Get h b))"
    and local: "\<And>h h' v. v < N \<Longrightarrow> (\<And>b. b < n \<Longrightarrow> cr b = v \<Longrightarrow> HB_Get h b = HB_Get h' b) \<Longrightarrow> P v h = P v h'"
    and "wf_hb h" and "k \<le> N"
  shows "\<exists>h'. fold_option f [0..<k] h = Some h' \<and> wf_hb h' \<and>
    (\<forall>b. HB_Get h' b = (if b < n \<and> cr b < k \<and> P (cr b) h then forkDetectedSeq else HB_Get h b))"
  using assms(4)
proof (induction k)
  case (Suc k)
  then obtain h1 where h1: "fold_option f [0..<k] h = Some h1" "wf_hb h1"
    "\<And>b. HB_Get h1 b = (if b < n \<and> cr b < k \<and> P (cr b) h then forkDetectedSeq else HB_Get h b)"
    by auto
  obtain h2 where h2: "f h1 k = Some h2" "wf_hb h2"
    "\<And>b. HB_Get h2 b = (if b < n \<and> cr b = k \<and> P k h1 then forkDetectedSeq else HB_Get h1 b)"
    using step [OF h1(2), of k] Suc.prems by auto
  have "P k h1 = P k h" using h1(3) Suc.prems by (intro local) auto
  then have "\<forall>b. HB_Get h2 b = (if b < n \<and> cr b < Suc k \<and> P (cr b) h then forkDetectedSeq else HB_Get h b)"
    using h1(3) h2(3) by (auto simp: less_Suc_eq)
  with h1(1) h2(1,2) show ?case by (simp add: fold_option_append)
qed (use assms(3) in simp)

definition some_marked :: "BranchesInfo \<Rightarrow> nat \<Rightarrow> HighestBeforeSeq \<Rightarrow> bool" where
  "some_marked bi v h \<longleftrightarrow> 1 < length (BranchIDByCreators bi ! v) \<and>
    (\<exists>b \<in> set (BranchIDByCreators bi ! v). HB_Get h b = forkDetectedSeq)"

definition some_overlap :: "BranchesInfo \<Rightarrow> nat \<Rightarrow> HighestBeforeSeq \<Rightarrow> bool" where
  "some_overlap bi v h \<longleftrightarrow> HB_Get h v \<noteq> forkDetectedSeq \<and>
    (\<exists>a \<in> set (BranchIDByCreators bi ! v). \<exists>b \<in> set (BranchIDByCreators bi ! v). forkPair h a b)"

lemma detectForks_get:
  assumes wfb: "wf_branches vals bi" and h: "wf_hb h" and fork: "AtLeastOneFork vals bi"
  shows "\<exists>h1 h2. detectForks vals bi h = Some h2 \<and> wf_hb h2 \<and>
    (\<forall>b. HB_Get h1 b = (if b < branches_num bi \<and> some_marked bi (BranchIDCreatorIdxs bi ! b) h
      then forkDetectedSeq else HB_Get h b)) \<and>
    (\<forall>b. HB_Get h2 b = (if b < branches_num bi \<and> some_overlap bi (BranchIDCreatorIdxs bi ! b) h1
      then forkDetectedSeq else HB_Get h1 b))"
proof -
  let ?N = "Validators_Len vals" and ?n = "branches_num bi" and ?cr = "\<lambda>b. BranchIDCreatorIdxs bi ! b"
  have byc: "v < length (BranchIDByCreators bi)"
    "set (BranchIDByCreators bi ! v) = {b. b < ?n \<and> ?cr b = v}" "v < ?n" "?cr v = v" if "v < ?N" for v
    using wfb that by (auto simp: wf_branches_def)
  have cr: "?cr b < ?N" if "b < ?n" for b using wfb that by (simp add: wf_branches_def)
  have step1: "\<exists>h'. markParentsForks bi h v = Some h' \<and> wf_hb h' \<and>
      (\<forall>b. HB_Get h' b = (if b < ?n \<and> ?cr b = v \<and> some_marked bi v h then forkDetectedSeq else HB_Get h b))"
    if "wf_hb h" "v < ?N" for h v
  proof (cases "some_marked bi v h")
    case True
    then have "markParentsForks bi h v = setForkDetected bi h v"
      using byc(1) [OF that(2)]
      by (auto simp: markParentsForks_def some_marked_def HB_IsForkDetected_def
          BranchSeq_IsForkDetected_def list_ex_iff)
    then show ?thesis using setForkDetected_get [OF wfb that] True by auto
  next
    case False
    then have "markParentsForks bi h v = Some h"
      using byc(1) [OF that(2)]
      by (auto simp: markParentsForks_def some_marked_def HB_IsForkDetected_def
          BranchSeq_IsForkDetected_def list_ex_iff)
    then show ?thesis using that False by auto
  qed
  have step2: "\<exists>h'. markNewForks bi h v = Some h' \<and> wf_hb h' \<and>
      (\<forall>b. HB_Get h' b = (if b < ?n \<and> ?cr b = v \<and> some_overlap bi v h then forkDetectedSeq else HB_Get h b))"
    if "wf_hb h" "v < ?N" for h v
  proof (cases "some_overlap bi v h")
    case True
    then have "markNewForks bi h v = setForkDetected bi h v"
      using byc(1) [OF that(2)]
      by (auto simp: markNewForks_def some_overlap_def HB_IsForkDetected_def
          BranchSeq_IsForkDetected_def list_ex_iff)
    then show ?thesis using setForkDetected_get [OF wfb that] True by auto
  next
    case False
    then have "markNewForks bi h v = Some h"
      using byc(1) [OF that(2)]
      by (auto simp: markNewForks_def some_overlap_def HB_IsForkDetected_def
          BranchSeq_IsForkDetected_def list_ex_iff)
    then show ?thesis using that False by auto
  qed
  have local1: "some_marked bi v h = some_marked bi v h'"
    if "v < ?N" "\<And>b. b < ?n \<Longrightarrow> ?cr b = v \<Longrightarrow> HB_Get h b = HB_Get h' b" for h h' v
    using that byc [OF that(1)] by (auto simp: some_marked_def)
  have local2: "some_overlap bi v h = some_overlap bi v h'"
    if "v < ?N" "\<And>b. b < ?n \<Longrightarrow> ?cr b = v \<Longrightarrow> HB_Get h b = HB_Get h' b" for h h' v
  proof -
    have "forkPair h a b = forkPair h' a b"
      if "a \<in> set (BranchIDByCreators bi ! v)" "b \<in> set (BranchIDByCreators bi ! v)" for a b
      using that \<open>\<And>b. b < ?n \<Longrightarrow> ?cr b = v \<Longrightarrow> HB_Get h b = HB_Get h' b\<close> byc(2) [OF \<open>v < ?N\<close>]
      by (simp add: forkPair_def HB_IsEmpty_def HB_MinSeq_def HB_Seq_def)
    then show ?thesis using that byc [OF that(1)] by (auto simp: some_overlap_def)
  qed
  obtain h1 where h1: "fold_option (markParentsForks bi) [0..<?N] h = Some h1" "wf_hb h1"
    "\<And>b. HB_Get h1 b = (if b < ?n \<and> ?cr b < ?N \<and> some_marked bi (?cr b) h then forkDetectedSeq else HB_Get h b)"
    using mark_loop [of ?N "markParentsForks bi" ?n ?cr "some_marked bi" h ?N, OF step1 local1 h] by blast
  obtain h2 where h2: "fold_option (markNewForks bi) [0..<?N] h1 = Some h2" "wf_hb h2"
    "\<And>b. HB_Get h2 b = (if b < ?n \<and> ?cr b < ?N \<and> some_overlap bi (?cr b) h1 then forkDetectedSeq else HB_Get h1 b)"
    using mark_loop [of ?N "markNewForks bi" ?n ?cr "some_overlap bi" h1 ?N, OF step2 local2 h1(2)] by blast
  show ?thesis
    using h1 h2 fork cr by (intro exI [of _ h1] exI [of _ h2]) (simp add: detectForks_def)
qed

section \<open>The vectors against the graph\<close>

abbreviation owner :: "Validators \<Rightarrow> BranchesInfo \<Rightarrow> nat \<Rightarrow> ValidatorID" where
  "owner vals bi b \<equiv> ids (vv_cache vals) ! (BranchIDCreatorIdxs bi ! b)"

definition hb_ok ::
  "Validators \<Rightarrow> dag \<Rightarrow> BranchesInfo \<Rightarrow> (hash_event \<Rightarrow> nat) \<Rightarrow> hash_event \<Rightarrow> HighestBeforeSeq \<Rightarrow> bool" where
  "hb_ok vals G bi br a h \<longleftrightarrow>
    wf_hb h \<and> (\<forall>b. branches_num bi \<le> b \<longrightarrow> HB_Get h b = empty_entry) \<and>
    (\<forall>b < branches_num bi.
      if fork_seen G a (owner vals bi b)
      then (HB_Get h b = forkDetectedSeq \<or> HB_Get h b = empty_entry \<and> seqs_before G br a b = {}) \<and>
           (b < Validators_Len vals \<longrightarrow> HB_Get h b = forkDetectedSeq)
      else HB_Get h b = entry_of (seqs_before G br a b))"

lemma seq_range_before: "valid_dag reader G \<Longrightarrow> seq_range (seqs_before G br a b)"
  using valid_dag_seq [of reader G]
  by (auto simp: seqs_before_def seq_range_def valid_dag_def intro!: finite_imageI)

lemma seqs_before_contiguous:
  assumes "valid_dag reader G" and "branch_chains G br" and "x \<in> seqs_before G br a b"
    and "y \<in> seqs_before G br a b" and "x \<le> s" and "s \<le> y"
  shows "\<exists>z. z \<in> dom G \<and> br z = b \<and> observes G a z \<and> seq_of G z = s"
proof -
  obtain p q where p: "p \<in> dom G" "br p = b" "seq_of G p = x"
    and q: "q \<in> dom G" "br q = b" "observes G a q" "seq_of G q = y"
    using assms(3,4) by (auto simp: seqs_before_def)
  obtain z where z: "z \<in> dom G" "br z = b" "seq_of G z = s"
    using assms(2,5,6) p q unfolding branch_chains_def by metis
  have "self_ancestor G q z"
    using assms(2,6) q z unfolding branch_chains_def by metis
  then have "observes G a z"
    using self_ancestor_observes [OF assms(1)] q(3) observes_trans by blast
  with z show ?thesis by blast
qed

lemma branch_of_creator:
  assumes "wf_validators vals" and "branch_members vals G bi br" and "x \<in> dom G"
    and "creator_of G x = ids (vv_cache vals) ! v" and "v < Validators_Len vals"
  shows "br x < branches_num bi" and "BranchIDCreatorIdxs bi ! br x = v"
  using bspec [OF assms(2) [unfolded branch_members_def] assms(3)] assms(4)
    GetIdx_nth [OF assms(1,5)] by auto

lemma creator_of_branch:
  assumes "valid_dag (vals, ep) G" and "wf_validators vals" and "branch_members vals G bi br"
    and "x \<in> dom G"
  shows "creator_of G x = owner vals bi (br x)"
  using bspec [OF assms(3) [unfolded branch_members_def] assms(4)]
    GetIdx_Exists(2) [OF assms(2)] valid_dag_creator [OF assms(1,4)] by auto

text \<open>A fork is seen exactly when two branches of the validator overlap.\<close>

definition overlap :: "nat set \<Rightarrow> nat set \<Rightarrow> bool" where
  "overlap S T \<longleftrightarrow> S \<noteq> {} \<and> T \<noteq> {} \<and> Min S \<le> Max T \<and> Min T \<le> Max S"

lemma overlapI:
  assumes "finite S" and "finite T" and "s \<in> S" and "s \<in> T"
  shows "overlap S T"
proof -
  have "Min S \<le> s" "s \<le> Max T" "Min T \<le> s" "s \<le> Max S" using assms by simp_all
  moreover have "S \<noteq> {}" "T \<noteq> {}" using assms by auto
  ultimately show ?thesis unfolding overlap_def by (blast intro: order_trans)
qed

lemma fork_seen_iff_overlap:
  assumes valid: "valid_dag (vals, ep) G" and wfv: "wf_validators vals" and inv: "branch_inv vals G bi br"
    and v: "v < Validators_Len vals"
  shows "fork_seen G a (ids (vv_cache vals) ! v) \<longleftrightarrow>
    (\<exists>b c. b \<noteq> c \<and> b < branches_num bi \<and> c < branches_num bi \<and> BranchIDCreatorIdxs bi ! b = v \<and>
      BranchIDCreatorIdxs bi ! c = v \<and> overlap (seqs_before G br a b) (seqs_before G br a c))"
proof
  have mem: "branch_members vals G bi br" and ch: "branch_chains G br"
    using inv by (auto simp: branch_inv_def)
  assume "fork_seen G a (ids (vv_cache vals) ! v)"
  then obtain x y where xy: "observes G a x" "observes G a y" "x \<noteq> y"
    "creator_of G x = ids (vv_cache vals) ! v" "creator_of G y = ids (vv_cache vals) ! v"
    "seq_of G x = seq_of G y"
    by (auto simp: fork_seen_def)
  have dom: "x \<in> dom G" "y \<in> dom G" using xy observes_dom by auto
  have "br x \<noteq> br y" using branch_unique [OF valid ch dom] xy by auto
  moreover have "overlap (seqs_before G br a (br x)) (seqs_before G br a (br y))"
  proof -
    have fin: "finite (seqs_before G br a b)" for b
      using seq_range_before [OF valid] by (simp add: seq_range_def)
    have "seq_of G x \<in> seqs_before G br a (br x)" "seq_of G y \<in> seqs_before G br a (br y)"
      using dom xy(1,2) unfolding seqs_before_def by blast+
    then show ?thesis using overlapI [OF fin fin] xy(6) by auto
  qed
  ultimately show "\<exists>b c. b \<noteq> c \<and> b < branches_num bi \<and> c < branches_num bi \<and>
      BranchIDCreatorIdxs bi ! b = v \<and> BranchIDCreatorIdxs bi ! c = v \<and>
      overlap (seqs_before G br a b) (seqs_before G br a c)"
    using branch_of_creator [OF wfv mem dom(1) xy(4) v] branch_of_creator [OF wfv mem dom(2) xy(5) v]
    by blast
next
  have mem: "branch_members vals G bi br" and ch: "branch_chains G br"
    using inv by (auto simp: branch_inv_def)
  assume "\<exists>b c. b \<noteq> c \<and> b < branches_num bi \<and> c < branches_num bi \<and>
      BranchIDCreatorIdxs bi ! b = v \<and> BranchIDCreatorIdxs bi ! c = v \<and>
      overlap (seqs_before G br a b) (seqs_before G br a c)"
  then obtain b c where bc: "b \<noteq> c" "BranchIDCreatorIdxs bi ! b = v" "BranchIDCreatorIdxs bi ! c = v"
    and ov: "overlap (seqs_before G br a b) (seqs_before G br a c)" by blast
  let ?S = "seqs_before G br a"
  let ?s = "max (Min (?S b)) (Min (?S c))"
  have fin: "finite (?S b)" for b using seq_range_before [OF valid] by (simp add: seq_range_def)
  have ne: "?S b \<noteq> {}" "?S c \<noteq> {}" and
    range: "Min (?S b) \<le> Max (?S c)" "Min (?S c) \<le> Max (?S b)"
    using ov unfolding overlap_def by blast+
  have in_b: "Min (?S b) \<in> ?S b" "Max (?S b) \<in> ?S b" "Min (?S c) \<in> ?S c" "Max (?S c) \<in> ?S c"
    using Min_in [OF fin ne(1)] Max_in [OF fin ne(1)] Min_in [OF fin ne(2)] Max_in [OF fin ne(2)] .
  have "Min (?S b) \<le> Max (?S b)" "Min (?S c) \<le> Max (?S c)"
    using Min_le [OF fin in_b(2)] Min_le [OF fin in_b(4)] .
  then have le: "?s \<le> Max (?S b)" "?s \<le> Max (?S c)"
    using range max.boundedI by blast+
  obtain x where x: "x \<in> dom G" "br x = b" "observes G a x" "seq_of G x = ?s"
    using seqs_before_contiguous [OF valid ch in_b(1,2) max.cobounded1 le(1)] by blast
  obtain y where y: "y \<in> dom G" "br y = c" "observes G a y" "seq_of G y = ?s"
    using seqs_before_contiguous [OF valid ch in_b(3,4) max.cobounded2 le(2)] by blast
  have "creator_of G x = ids (vv_cache vals) ! v" "creator_of G y = ids (vv_cache vals) ! v"
    using creator_of_branch [OF valid wfv mem x(1)] creator_of_branch [OF valid wfv mem y(1)] x(2) y(2) bc
    by simp_all
  moreover have "x \<noteq> y" using x(2) y(2) bc(1) by auto
  ultimately show "fork_seen G a (ids (vv_cache vals) ! v)"
    unfolding fork_seen_def using x(3,4) y(3,4) by metis
qed

lemma forkPair_entries:
  assumes "HB_Get h a = entry_of S" and "HB_Get h b = entry_of T" and "seq_range S" and "seq_range T"
  shows "forkPair h a b \<longleftrightarrow> a \<noteq> b \<and> overlap S T"
proof -
  have "HB_IsEmpty h a \<longleftrightarrow> S = {}" "HB_IsEmpty h b \<longleftrightarrow> T = {}"
    using assms entry_not_fork
    by (auto simp: HB_IsEmpty_def BranchSeq_IsForkDetected_def entry_seq_zero_iff)
  moreover have "HB_MinSeq h a \<le> HB_Seq h b \<longleftrightarrow> Min S \<le> Max T" "HB_MinSeq h b \<le> HB_Seq h a \<longleftrightarrow> Min T \<le> Max S"
    if "S \<noteq> {}" "T \<noteq> {}"
    using assms that by (simp_all add: HB_MinSeq_def HB_Seq_def word_le_nat_alt unat_entry)
  ultimately show ?thesis by (auto simp: forkPair_def overlap_def)
qed

section \<open>A new event\<close>

lemma seqs_before_old:
  assumes "valid_dag reader G" and "addable reader G e" and "a \<in> dom G"
  shows "seqs_before (add_event G e) (br(ev_id e := m)) a b = seqs_before G br a b"
proof -
  have fresh: "ev_id e \<notin> dom G" using assms(2) by (simp add: addable_def)
  note le = add_event_le [OF fresh]
  have "x \<in> dom (add_event G e) \<and> (br(ev_id e := m)) x = b \<and> observes (add_event G e) a x \<longleftrightarrow>
      x \<in> dom G \<and> br x = b \<and> observes G a x" for x
    using observes_extend_iff [OF assms(1) le assms(3)] observes_dom [of G a x] fresh by auto
  then have "{x \<in> dom (add_event G e). (br(ev_id e := m)) x = b \<and> observes (add_event G e) a x} =
      {x \<in> dom G. br x = b \<and> observes G a x}" by blast
  then show ?thesis
    unfolding seqs_before_def using extend_eq(3) [OF le] by (auto intro!: image_cong)
qed

lemma seqs_before_new:
  assumes "valid_dag reader G" and "addable reader G e"
  shows "seqs_before (add_event G e) (br(ev_id e := m)) (ev_id e) b =
    (if b = m then {unat (ev_seq e)} else {}) \<union> (\<Union>p \<in> set (ev_parents e). seqs_before G br p b)"
proof -
  let ?G = "add_event G e" and ?br = "br(ev_id e := m)"
  have fresh: "ev_id e \<notin> dom G" using assms(2) by (simp add: addable_def)
  have old: "seq_of ?G x = seq_of G x" if "x \<in> dom G" for x
    using extend_eq(3) [OF add_event_le [OF fresh] that] .
  have new: "seq_of ?G (ev_id e) = unat (ev_seq e)" by (simp add: seq_of_def)
  have "{x \<in> dom ?G. ?br x = b \<and> observes ?G (ev_id e) x} =
      (if b = m then {ev_id e} else {}) \<union>
      (\<Union>p \<in> set (ev_parents e). {x \<in> dom G. br x = b \<and> observes G p x})"
    using fresh observes_dom [of G] by (auto simp: observes_new_iff [OF assms])
  then show ?thesis
    unfolding seqs_before_def using new old by (auto simp: image_Un image_UN)
qed

lemma hb_ok_old:
  assumes valid: "valid_dag (vals, ep) G" and add: "addable (vals, ep) G e"
    and step: "branch_step vals G e bi br m bi'" and inv: "branch_inv vals G bi br"
    and a: "a \<in> dom G" and ok: "hb_ok vals G bi br a h"
  shows "hb_ok vals (add_event G e) bi' (br(ev_id e := m)) a h"
proof -
  let ?G = "add_event G e" and ?br = "br(ev_id e := m)"
  have fresh: "ev_id e \<notin> dom G" using add by (simp add: addable_def)
  note le = add_event_le [OF fresh]
  have seqs: "seqs_before ?G ?br a b = seqs_before G br a b" for b
    using seqs_before_old [OF valid add a] .
  have seen: "fork_seen ?G a v = fork_seen G a v" for v using fork_seen_extend [OF valid le a] .
  have num: "branches_num bi \<le> branches_num bi'"
    and crs: "\<And>i. i < branches_num bi \<Longrightarrow> BranchIDCreatorIdxs bi' ! i = BranchIDCreatorIdxs bi ! i"
    using step by (auto simp: branch_step_def)
  have mem: "branch_members vals G bi br" and Len: "Validators_Len vals \<le> branches_num bi"
    using inv by (auto simp: branch_inv_def wf_branches_def)
  have new: "seqs_before G br a b = {}" if "branches_num bi \<le> b" for b
    using bspec [OF mem [unfolded branch_members_def]] that by (fastforce simp: seqs_before_def)
  have empty: "HB_Get h b = empty_entry" if "branches_num bi \<le> b" for b
    using ok that by (simp add: hb_ok_def)
  show ?thesis
    unfolding hb_ok_def seqs seen
  proof (intro conjI allI impI)
    show "wf_hb h" using ok by (simp add: hb_ok_def)
    show "HB_Get h b = empty_entry" if "branches_num bi' \<le> b" for b
      using empty that num by simp
    fix b assume b: "b < branches_num bi'"
    show "if fork_seen G a (owner vals bi' b)
      then (HB_Get h b = forkDetectedSeq \<or> HB_Get h b = empty_entry \<and> seqs_before G br a b = {}) \<and>
           (b < Validators_Len vals \<longrightarrow> HB_Get h b = forkDetectedSeq)
      else HB_Get h b = entry_of (seqs_before G br a b)"
    proof (cases "b < branches_num bi")
      case True
      then show ?thesis using ok crs by (simp add: hb_ok_def)
    next
      case False
      then show ?thesis using empty [of b] new [of b] Len by simp
    qed
  qed
qed

text \<open>The collected vector: markers where a parent has one, the exact entries elsewhere.\<close>

lemma hb_collected:
  assumes valid: "valid_dag (vals, ep) G" and add: "addable (vals, ep) G e"
    and step: "branch_step vals G e bi br m bi'" and inv: "branch_inv vals G bi br"
    and parents: "\<And>p. p \<in> set (ev_parents e) \<Longrightarrow> hb_ok vals G bi br p (H p)"
  defines "G' \<equiv> add_event G e" and "br' \<equiv> br(ev_id e := m)"
  shows "\<exists>h. fold_option (collectParent (branches_num bi')) (map Some (map H (ev_parents e)))
      (HB_InitWithEvent (NewHighestBeforeSeq (branches_num bi)) m e) = Some h \<and> wf_hb h \<and>
    (\<forall>b. branches_num bi' \<le> b \<longrightarrow> HB_Get h b = empty_entry) \<and>
    (\<forall>b < branches_num bi'. HB_Get h b =
      (if \<exists>p \<in> set (ev_parents e). HB_Get (H p) b = forkDetectedSeq then forkDetectedSeq
       else entry_of (seqs_before G' br' (ev_id e) b)))"
proof -
  let ?h0 = "HB_InitWithEvent (NewHighestBeforeSeq (branches_num bi)) m e"
  let ?S0 = "\<lambda>b. if b = m then {unat (ev_seq e)} else {}"
  have valid': "valid_dag (vals, ep) G'" using valid_dag_add_event [OF valid add] by (simp add: G'_def)
  have seq: "seq_range {unat (ev_seq e)}"
    using valid_dag_seq [OF valid', of "ev_id e"] by (simp add: G'_def seq_range_def seq_of_def)
  have h0: "wf_hb ?h0" "HB_Get ?h0 b = entry_of (?S0 b)" for b
    by (auto simp: HB_InitWithEvent_def vec_simps entry_of_def)
  have m: "m < branches_num bi'" using step by (simp add: branch_step_def)
  obtain h where h: "fold_option (collectParent (branches_num bi')) (map Some (map H (ev_parents e))) ?h0 = Some h"
    "wf_hb h" "\<And>b. HB_Get h b = (if b < branches_num bi'
      then foldl join_seq (HB_Get ?h0 b) (map (\<lambda>v. HB_Get v b) (map H (ev_parents e))) else HB_Get ?h0 b)"
    using collectParents_get [OF h0(1)] by blast
  have cases: "HB_Get (H p) b = forkDetectedSeq \<or> HB_Get (H p) b = entry_of (seqs_before G br p b)"
    if "p \<in> set (ev_parents e)" "b < branches_num bi'" for p b
  proof (cases "b < branches_num bi")
    case True
    then show ?thesis using parents [OF that(1)] by (auto simp: hb_ok_def split: if_splits)
  next
    case False
    have "seqs_before G br p b = {}"
    proof -
      have "br x < branches_num bi" if "x \<in> dom G" for x
        using that inv unfolding branch_inv_def branch_members_def by blast
      then have "br x \<noteq> b" if "x \<in> dom G" for x using False that by auto
      then show ?thesis by (auto simp: seqs_before_def)
    qed
    then show ?thesis using False parents [OF that(1)] by (simp add: hb_ok_def)
  qed
  have "HB_Get h b = (if \<exists>p \<in> set (ev_parents e). HB_Get (H p) b = forkDetectedSeq then forkDetectedSeq
       else entry_of (seqs_before G' br' (ev_id e) b))" if b: "b < branches_num bi'" for b
  proof -
    have "HB_Get h b = foldl join_seq (entry_of (?S0 b)) (map (\<lambda>p. HB_Get (H p) b) (ev_parents e))"
      using b by (simp add: h(3) h0(2) comp_def)
    also have "\<dots> = (if \<exists>p \<in> set (ev_parents e). HB_Get (H p) b = forkDetectedSeq then forkDetectedSeq
        else entry_of (?S0 b \<union> (\<Union>p \<in> set (ev_parents e). seqs_before G br p b)))"
      using seq seq_range_before [OF valid] cases b by (intro foldl_join) auto
    finally show ?thesis
      unfolding G'_def br'_def seqs_before_new [OF valid add] .
  qed
  then show ?thesis using h m h0 by (intro exI [of _ h]) auto
qed

lemma single_branch_no_fork:
  assumes "valid_dag (vals, ep) G" and "wf_validators vals" and "branch_inv vals G bi br"
    and "\<not> AtLeastOneFork vals bi" and "v < Validators_Len vals"
  shows "\<not> fork_seen G a (ids (vv_cache vals) ! v)"
proof
  have n: "branches_num bi \<le> Validators_Len vals"
    "\<And>i. i < Validators_Len vals \<Longrightarrow> BranchIDCreatorIdxs bi ! i = i"
    using assms(3,4) by (auto simp: AtLeastOneFork_def branch_inv_def wf_branches_def)
  assume "fork_seen G a (ids (vv_cache vals) ! v)"
  then obtain b c where "b \<noteq> c" "b < branches_num bi" "c < branches_num bi"
    "BranchIDCreatorIdxs bi ! b = v" "BranchIDCreatorIdxs bi ! c = v"
    using fork_seen_iff_overlap [OF assms(1-3,5)] by auto
  then show False using n by auto
qed

lemma forked_has_branches:
  assumes "valid_dag (vals, ep) G" and "wf_validators vals" and "branch_inv vals G bi br"
    and "v < Validators_Len vals" and "fork_seen G a (ids (vv_cache vals) ! v)"
  shows "1 < length (BranchIDByCreators bi ! v)"
proof -
  obtain b c where bc: "b \<noteq> c" "b < branches_num bi" "c < branches_num bi"
    "BranchIDCreatorIdxs bi ! b = v" "BranchIDCreatorIdxs bi ! c = v"
    using assms fork_seen_iff_overlap [OF assms(1-4)] by auto
  then have "{b, c} \<subseteq> set (BranchIDByCreators bi ! v)"
    using assms(3,4) by (auto simp: branch_inv_def wf_branches_def)
  then have "card {b, c} \<le> length (BranchIDByCreators bi ! v)"
    by (meson List.finite_set card_length card_mono order_trans)
  then show ?thesis using bc(1) by simp
qed

lemma hb_ok_new:
  assumes valid: "valid_dag (vals, ep) G" and add: "addable (vals, ep) G e"
    and wfv: "wf_validators vals"
    and step: "branch_step vals G e bi br m bi'" and inv: "branch_inv vals G bi br"
    and parents: "\<And>p. p \<in> set (ev_parents e) \<Longrightarrow> hb_ok vals G bi br p (H p)"
  defines "G' \<equiv> add_event G e" and "br' \<equiv> br(ev_id e := m)"
  shows "\<exists>h h'. fold_option (collectParent (branches_num bi')) (map Some (map H (ev_parents e)))
      (HB_InitWithEvent (NewHighestBeforeSeq (branches_num bi)) m e) = Some h \<and>
    detectForks vals bi' h = Some h' \<and> hb_ok vals G' bi' br' (ev_id e) h'"
proof -
  let ?n = "branches_num bi'" and ?cr = "\<lambda>b. BranchIDCreatorIdxs bi' ! b" and ?e = "ev_id e"
  let ?id = "\<lambda>v. ids (vv_cache vals) ! v" and ?S = "seqs_before G' br' (ev_id e)"
  have valid': "valid_dag (vals, ep) G'" using valid_dag_add_event [OF valid add] by (simp add: G'_def)
  have inv': "branch_inv vals G' bi' br'" using step by (simp add: branch_step_def G'_def br'_def)
  have wfb': "wf_branches vals bi'" using inv' by (simp add: branch_inv_def)
  have byc: "set (BranchIDByCreators bi' ! v) = {b. b < ?n \<and> ?cr b = v}" "v < ?n" "?cr v = v"
    if "v < Validators_Len vals" for v
    using wfb' that by (auto simp: wf_branches_def)
  have crv: "?cr b < Validators_Len vals" if "b < ?n" for b using wfb' that by (simp add: wf_branches_def)
  have fresh: "ev_id e \<notin> dom G" using add by (simp add: addable_def)
  have pdom: "p \<in> dom G" if "p \<in> set (ev_parents e)" for p using add that by (auto simp: addable_def)
  have obs_p: "observes G' ?e p" if "p \<in> set (ev_parents e)" for p
    using observes_new_iff [OF valid add] that observes_refl [OF pdom [OF that]] by (auto simp: G'_def)
  have seen_p: "fork_seen G' p v = fork_seen G p v" if "p \<in> set (ev_parents e)" for p v
    using fork_seen_extend [OF valid add_event_le [OF fresh] pdom [OF that]] by (simp add: G'_def)
  have rng: "seq_range (?S b)" for b using seq_range_before [OF valid'] .
  obtain h where h: "fold_option (collectParent ?n) (map Some (map H (ev_parents e)))
      (HB_InitWithEvent (NewHighestBeforeSeq (branches_num bi)) m e) = Some h" "wf_hb h"
    "\<And>b. ?n \<le> b \<Longrightarrow> HB_Get h b = empty_entry"
    "\<And>b. b < ?n \<Longrightarrow> HB_Get h b = (if \<exists>p \<in> set (ev_parents e). HB_Get (H p) b = forkDetectedSeq
      then forkDetectedSeq else entry_of (?S b))"
    using hb_collected [OF valid add step inv parents] unfolding G'_def br'_def by blast
  define PF where "PF v \<longleftrightarrow> (\<exists>p \<in> set (ev_parents e). fork_seen G p (?id v))" for v
  have crs: "?cr b = BranchIDCreatorIdxs bi ! b" if "b < branches_num bi" for b
    using step that by (simp add: branch_step_def)
  have Len: "Validators_Len vals \<le> branches_num bi"
    using inv by (auto simp: branch_inv_def wf_branches_def)
  have unmarked: "HB_Get h b = entry_of (?S b)" if "b < ?n" "\<not> PF (?cr b)" for b
  proof -
    have "HB_Get (H p) b \<noteq> forkDetectedSeq" if p: "p \<in> set (ev_parents e)" for p
    proof (cases "b < branches_num bi")
      case True
      have "\<not> fork_seen G p (owner vals bi b)"
        using \<open>\<not> PF (?cr b)\<close> p crs [OF True] by (auto simp: PF_def)
      then show ?thesis
        using parents [OF p] True entry_not_fork [OF seq_range_before [OF valid]] by (auto simp: hb_ok_def)
    next
      case False
      then show ?thesis using parents [OF p] by (simp add: hb_ok_def forkDetectedSeq_def)
    qed
    then show ?thesis using h(4) that by auto
  qed
  have marked: "HB_Get h v = forkDetectedSeq \<and> 1 < length (BranchIDByCreators bi' ! v) \<and> fork_seen G' ?e (?id v)"
    if v: "v < Validators_Len vals" and PF: "PF v" for v
  proof -
    obtain p where p: "p \<in> set (ev_parents e)" "fork_seen G p (?id v)" using PF by (auto simp: PF_def)
    have vn: "v < branches_num bi" "BranchIDCreatorIdxs bi ! v = v"
      using v Len inv by (auto simp: branch_inv_def wf_branches_def)
    have "HB_Get (H p) v = forkDetectedSeq"
      using parents [OF p(1)] p(2) v vn by (auto simp: hb_ok_def)
    then have "HB_Get h v = forkDetectedSeq" using h(4) [of v] byc(2) [OF v] p(1) by auto
    moreover have "fork_seen G' ?e (?id v)"
      using fork_seen_mono [OF obs_p [OF p(1)]] seen_p [OF p(1)] p(2) by simp
    ultimately show ?thesis using forked_has_branches [OF valid' wfv inv' v] by simp
  qed
  show ?thesis
  proof (cases "AtLeastOneFork vals bi'")
    case False
    have none: "\<not> fork_seen G' a (?id v)" if "v < Validators_Len vals" for v a
      using single_branch_no_fork [OF valid' wfv inv' False that] .
    have "\<not> PF v" if "v < Validators_Len vals" for v
      using none [OF that] seen_p by (auto simp: PF_def)
    then have "hb_ok vals G' bi' br' ?e h"
      using h(2,3) unmarked none crv by (simp add: hb_ok_def)
    with h(1) False show ?thesis by (auto simp: detectForks_def)
  next
    case True
    obtain h1 h2 where d: "detectForks vals bi' h = Some h2" "wf_hb h2"
      "\<And>b. HB_Get h1 b = (if b < ?n \<and> some_marked bi' (?cr b) h then forkDetectedSeq else HB_Get h b)"
      "\<And>b. HB_Get h2 b = (if b < ?n \<and> some_overlap bi' (?cr b) h1 then forkDetectedSeq else HB_Get h1 b)"
      using detectForks_get [OF wfb' h(2) True] by blast
    have sm: "some_marked bi' v h \<longleftrightarrow> PF v" if v: "v < Validators_Len vals" for v
    proof
      assume "PF v"
      then show "some_marked bi' v h"
        using marked [OF v] byc [OF v] by (auto simp: some_marked_def)
    next
      assume "some_marked bi' v h"
      then obtain b where "b < ?n" "?cr b = v" "HB_Get h b = forkDetectedSeq"
        using byc(1) [OF v] by (auto simp: some_marked_def)
      then show "PF v" using unmarked [of b] entry_not_fork [OF rng, of b] by metis
    qed
    have so: "some_overlap bi' v h1 \<longleftrightarrow> fork_seen G' ?e (?id v)"
      if v: "v < Validators_Len vals" and "\<not> PF v" for v
    proof -
      have h1: "HB_Get h1 b = entry_of (?S b)" if "b < ?n" "?cr b = v" for b
        using that d(3) [of b] sm [OF v] \<open>\<not> PF v\<close> unmarked by auto
      have "HB_Get h1 v \<noteq> forkDetectedSeq"
        using h1 [OF byc(2,3) [OF v]] entry_not_fork [OF rng] by simp
      moreover have "forkPair h1 b c \<longleftrightarrow> b \<noteq> c \<and> overlap (?S b) (?S c)"
        if "b < ?n" "?cr b = v" "c < ?n" "?cr c = v" for b c
        using forkPair_entries [OF h1 h1 rng rng] that by simp
      ultimately show ?thesis
        unfolding some_overlap_def byc(1) [OF v] fork_seen_iff_overlap [OF valid' wfv inv' v] by auto
    qed
    have "hb_ok vals G' bi' br' ?e h2"
      unfolding hb_ok_def
    proof (intro conjI allI impI)
      show "wf_hb h2" using d(2) .
      show "HB_Get h2 b = empty_entry" if "?n \<le> b" for b using that d h(3) by auto
      fix b assume b: "b < ?n"
      note v = crv [OF b]
      show "if fork_seen G' ?e (owner vals bi' b)
        then (HB_Get h2 b = forkDetectedSeq \<or> HB_Get h2 b = empty_entry \<and> ?S b = {}) \<and>
             (b < Validators_Len vals \<longrightarrow> HB_Get h2 b = forkDetectedSeq)
        else HB_Get h2 b = entry_of (?S b)"
      proof (cases "PF (?cr b)")
        case True
        then show ?thesis using d(3,4) [of b] b sm [OF v] marked [OF v] by auto
      next
        case False
        have "HB_Get h1 b = entry_of (?S b)" using d(3) [of b] sm [OF v] False unmarked [OF b] by auto
        then show ?thesis using d(4) [of b] so [OF v False] b by auto
      qed
    qed
    with h(1) d(1) show ?thesis by blast
  qed
qed

end
