(* ===== verification/Vec_Lowest.thy ===== *)
theory Vec_Lowest
  imports Vec_Branches
begin

text \<open>
  Correctness of the \<^verbatim>\<open>LowestAfter\<close> vectors: the entry of a branch is the lowest
  sequence number on it among the events that observe the vector's event. The
  traversal that updates them ends and touches exactly the events that the new
  event is the first on its branch to observe.
\<close>

definition seqs_after :: "dag \<Rightarrow> (hash_event \<Rightarrow> nat) \<Rightarrow> hash_event \<Rightarrow> nat \<Rightarrow> nat set" where
  "seqs_after G br x b = seq_of G ` {y \<in> dom G. br y = b \<and> observes G y x}"

definition la_entry :: "nat set \<Rightarrow> Event_seq" where
  "la_entry T = (if T = {} then 0 else of_nat (Min T))"

definition la_ok :: "dag \<Rightarrow> (hash_event \<Rightarrow> nat) \<Rightarrow> hash_event \<Rightarrow> LowestAfterSeq \<Rightarrow> bool" where
  "la_ok G br x l \<longleftrightarrow> wf_la l \<and> (\<forall>b. LA_Get l b = la_entry (seqs_after G br x b))"

lemma seqs_after_range:
  assumes "valid_dag reader G"
  shows "finite (seqs_after G br x b)" and "\<forall>s \<in> seqs_after G br x b. 0 < s \<and> s < 2147483646"
  using assms valid_dag_seq [OF assms] by (auto simp: seqs_after_def valid_dag_def)

lemma unat_la_entry:
  assumes "finite T" and "\<forall>s \<in> T. 0 < s \<and> s < 2147483646" and "T \<noteq> {}"
  shows "unat (la_entry T) = Min T" and "0 < Min T" and "Min T \<in> T"
proof -
  show "Min T \<in> T" using assms by simp
  then have "0 < Min T" "Min T < 2147483646" using assms(2) by auto
  then show "0 < Min T" and "unat (la_entry T) = Min T"
    using assms(3) by (simp_all add: la_entry_def unat_of_nat)
qed

lemma la_entry_zero_iff:
  assumes "finite T" and "\<forall>s \<in> T. 0 < s \<and> s < 2147483646"
  shows "la_entry T = 0 \<longleftrightarrow> T = {}"
proof (cases "T = {}")
  case False
  then have "unat (la_entry T) \<noteq> 0" using unat_la_entry [OF assms False] by simp
  then show ?thesis using False by auto
qed (simp add: la_entry_def)

section \<open>The traversal\<close>

type_synonym walk_ctx = "dag \<times> EventSource \<times> nat \<times> BaseEvent"

definition walk_good :: "walk_ctx \<Rightarrow> bool" where
  "walk_good c = (case c of (G, getEvent, m, e) \<Rightarrow>
    finite (dom G) \<and> (\<forall>x ev. G x = Some ev \<longrightarrow> set (ev_parents ev) \<subseteq> dom G) \<and>
    (\<forall>x \<in> dom G. getEvent x = G x) \<and> ev_seq e \<noteq> 0)"

definition walk_nodes :: "walk_ctx \<Rightarrow> hash_event set" where
  "walk_nodes c = (case c of (G, getEvent, m, e) \<Rightarrow> dom G)"

definition walk_succs :: "walk_ctx \<Rightarrow> hash_event \<Rightarrow> hash_event list" where
  "walk_succs c x = (case c of (G, getEvent, m, e) \<Rightarrow> ev_parents (the (G x)))"

definition walk_body :: "walk_ctx \<Rightarrow> vec_db \<Rightarrow> hash_event \<Rightarrow> vec_error + (vec_db \<times> hash_event list)" where
  "walk_body c = (case c of (G, getEvent, m, e) \<Rightarrow> DfsSubgraph_body getEvent (onWalk m e))"

definition walk_valid :: "walk_ctx \<Rightarrow> vec_db \<Rightarrow> bool" where
  "walk_valid c db = (case c of (G, getEvent, m, e) \<Rightarrow>
    \<forall>x \<in> dom G. \<exists>l. LowestAfterTable db x = Some l \<and> wf_la l)"

definition walk_marked :: "walk_ctx \<Rightarrow> vec_db \<Rightarrow> hash_event set" where
  "walk_marked c db = (case c of (G, getEvent, m, e) \<Rightarrow>
    {x \<in> dom G. LA_Get (the (LowestAfterTable db x)) m \<noteq> 0})"

definition walk_mark :: "walk_ctx \<Rightarrow> vec_db \<Rightarrow> hash_event \<Rightarrow> vec_db" where
  "walk_mark c db x = (case c of (G, getEvent, m, e) \<Rightarrow>
    SetLowestAfter db x (LA_Set (the (LowestAfterTable db x)) m (ev_seq e)))"

lemmas walk_defs = walk_good_def walk_nodes_def walk_succs_def walk_body_def walk_valid_def
  walk_marked_def walk_mark_def

interpretation lowest: marking_walk walk_good walk_nodes walk_succs walk_body walk_valid walk_marked
  walk_mark
proof
  fix c :: walk_ctx and db :: vec_db and x :: hash_event
  obtain G getEvent m e where c: "c = (G, getEvent, m, e)" by (cases c)
  assume good: "walk_good c"
  show "finite (walk_nodes c)" using good by (simp add: c walk_defs)
  assume x: "x \<in> walk_nodes c"
  then obtain ev where ev: "G x = Some ev" "getEvent x = Some ev" "set (ev_parents ev) \<subseteq> dom G"
    using good by (auto simp: c walk_defs)
  show "set (walk_succs c x) \<subseteq> walk_nodes c" using ev by (simp add: c walk_defs)
next
  fix c :: walk_ctx and db :: vec_db and x :: hash_event
  obtain G getEvent m e where c: "c = (G, getEvent, m, e)" by (cases c)
  assume good: "walk_good c" and valid: "walk_valid c db" and x: "x \<in> walk_nodes c"
  then obtain ev where ev: "G x = Some ev" "getEvent x = Some ev" by (auto simp: c walk_defs)
  obtain l where l: "LowestAfterTable db x = Some l" "wf_la l"
    using valid x by (auto simp: c walk_defs)
  show "walk_body c db x = Inr (db, [])" if "x \<in> walk_marked c db"
    using that l by (simp add: c walk_defs DfsSubgraph_body_def onWalk_def GetLowestAfter_def LA_Visit_def)
  assume fresh: "x \<notin> walk_marked c db"
  then have zero: "LA_Get l m = 0" using l ev by (auto simp: c walk_defs)
  show "walk_body c db x = Inr (walk_mark c db x, walk_succs c x)"
    using zero l ev by (simp add: c walk_defs DfsSubgraph_body_def onWalk_def GetLowestAfter_def LA_Visit_def)
  show "walk_valid c (walk_mark c db x)"
    using valid l by (auto simp: c walk_defs SetLowestAfter_def vec_simps)
  show "walk_marked c (walk_mark c db x) = insert x (walk_marked c db)"
    using good l ev by (auto simp: c walk_defs SetLowestAfter_def vec_simps)
qed

lemma fold_walk_mark:
  assumes "distinct L"
  shows "fold (\<lambda>x db. walk_mark (G, getEvent, m, e) db x) L db =
    db\<lparr>LowestAfterTable := (\<lambda>x. if x \<in> set L
      then Some (LA_Set (the (LowestAfterTable db x)) m (ev_seq e)) else LowestAfterTable db x)\<rparr>"
  using assms
proof (induction L arbitrary: db)
  case (Cons y L)
  then show ?case
    by (auto simp: walk_defs SetLowestAfter_def fun_eq_iff intro!: arg_cong2 [where f = LowestAfterTable_update])
qed simp

lemma reach_parents_iff:
  assumes "valid_dag reader G" and "set ps \<subseteq> dom G"
  shows "reach (walk_succs (G, getEvent, m, e)) (set ps) x \<longleftrightarrow> (\<exists>p \<in> set ps. observes G p x)"
proof
  assume "reach (walk_succs (G, getEvent, m, e)) (set ps) x"
  then show "\<exists>p \<in> set ps. observes G p x"
  proof (induction rule: reach.induct)
    case (reach_start n)
    then show ?case using assms(2) observes_refl by blast
  next
    case (reach_step n q)
    then obtain p where p: "p \<in> set ps" "observes G p n" by auto
    then obtain ev where ev: "G n = Some ev" using observes_dom by blast
    have "q \<in> dom G"
      using valid_dag_event(2) [OF assms(1) ev] reach_step.hyps(2) ev by (auto simp: walk_defs)
    then have "observes G n q"
      using ev reach_step.hyps(2) by (auto simp: walk_defs intro: observes_parent observes_refl)
    then show ?case using p observes_trans by blast
  qed
next
  assume "\<exists>p \<in> set ps. observes G p x"
  then obtain p where p: "p \<in> set ps" "observes G p x" by auto
  have "reach (walk_succs (G, getEvent, m, e)) {p} x"
    using p(2)
  proof (induction rule: observes.induct)
    case (observes_refl a)
    then show ?case by (auto intro: reach_start)
  next
    case (observes_parent a ev q b)
    have "reach (walk_succs (G, getEvent, m, e)) {a} q"
      using observes_parent.hyps by (intro reach_step [OF reach_start]) (auto simp: walk_defs)
    then show ?case by (rule reach_trans [OF observes_parent.IH])
  qed
  then show "reach (walk_succs (G, getEvent, m, e)) (set ps) x"
    by (rule reach_mono) (use p(1) in simp)
qed

section \<open>A new event\<close>

lemma seqs_after_old:
  assumes "valid_dag reader G" and "addable reader G e" and "x \<in> dom G"
  shows "seqs_after (add_event G e) (br(ev_id e := m)) x b = seqs_after G br x b \<union>
    (if b = m \<and> (\<exists>p \<in> set (ev_parents e). observes G p x) then {unat (ev_seq e)} else {})"
proof -
  let ?G = "add_event G e" and ?br = "br(ev_id e := m)"
  have fresh: "ev_id e \<notin> dom G" using assms(2) by (simp add: addable_def)
  note le = add_event_le [OF fresh]
  have new: "seq_of ?G (ev_id e) = unat (ev_seq e)" by (simp add: seq_of_def)
  have "{y \<in> dom ?G. ?br y = b \<and> observes ?G y x} = {y \<in> dom G. br y = b \<and> observes G y x} \<union>
      (if b = m \<and> (\<exists>p \<in> set (ev_parents e). observes G p x) then {ev_id e} else {})"
    using fresh assms(3) observes_extend_iff [OF assms(1) le] observes_new_iff [OF assms(1,2)] by auto
  then show ?thesis
    unfolding seqs_after_def using new extend_eq(3) [OF le] by (auto simp: image_Un)
qed

lemma seqs_after_new:
  assumes "valid_dag reader G" and "addable reader G e"
  shows "seqs_after (add_event G e) (br(ev_id e := m)) (ev_id e) b =
    (if b = m then {unat (ev_seq e)} else {})"
proof -
  let ?G = "add_event G e" and ?br = "br(ev_id e := m)"
  have fresh: "ev_id e \<notin> dom G" using assms(2) by (simp add: addable_def)
  have "\<not> observes G y (ev_id e)" for y using observes_dom [of G y "ev_id e"] fresh by auto
  then have "observes ?G y (ev_id e) \<longleftrightarrow> y = ev_id e" if "y \<in> dom ?G" for y
    using that observes_extend_iff [OF assms(1) add_event_le [OF fresh], of y]
      observes_new_iff [OF assms, of "ev_id e"] by auto
  then have "{y \<in> dom ?G. ?br y = b \<and> observes ?G y (ev_id e)} = (if b = m then {ev_id e} else {})"
    by auto
  then show ?thesis by (simp add: seqs_after_def seq_of_def)
qed

lemma la_ok_new:
  assumes "valid_dag reader G" and "addable reader G e"
  shows "la_ok (add_event G e) (br(ev_id e := m)) (ev_id e) (LA_InitWithEvent (NewLowestAfterSeq n) m e)"
  by (simp add: la_ok_def seqs_after_new [OF assms] LA_InitWithEvent_def vec_simps la_entry_def)

lemma DfsSubgraph_lowest:
  assumes valid: "valid_dag (vals, ep) G" and add: "addable (vals, ep) G e"
    and getEvent: "\<forall>x \<in> dom G. getEvent x = G x"
    and tables: "\<And>x. x \<in> dom G \<Longrightarrow> \<exists>l. LowestAfterTable db x = Some l \<and> la_ok G br x l"
    and below: "\<forall>x \<in> dom G. br x = m \<longrightarrow> seq_of G x < unat (ev_seq e)"
  shows "\<exists>T. DfsSubgraph getEvent e (onWalk m e) db = Some (Inr (db\<lparr>LowestAfterTable := T\<rparr>)) \<and>
    (\<forall>x. x \<notin> dom G \<longrightarrow> T x = LowestAfterTable db x) \<and>
    (\<forall>x \<in> dom G. \<exists>l. T x = Some l \<and> la_ok (add_event G e) (br(ev_id e := m)) x l)"
proof -
  let ?c = "(G, getEvent, m, e)" and ?P = "set (ev_parents e)"
  let ?obs = "\<lambda>x. \<exists>p \<in> ?P. observes G p x"
  have sub: "?P \<subseteq> dom G" using add by (simp add: addable_def)
  have valid': "valid_dag (vals, ep) (add_event G e)" using valid_dag_add_event [OF valid add] .
  have seq: "0 < unat (ev_seq e)" "unat (ev_seq e) < 2147483646"
    using valid_dag_seq [OF valid', of "ev_id e"] by (simp_all add: seq_of_def)
  have good: "walk_good ?c"
    using valid getEvent seq valid_dag_event(2) [OF valid] by (auto simp: walk_defs valid_dag_def)
  have wvalid: "walk_valid ?c db"
    using tables by (auto simp: walk_defs la_ok_def)
  have marked: "x \<in> walk_marked ?c db \<longleftrightarrow> x \<in> dom G \<and> seqs_after G br x m \<noteq> {}" for x
  proof (cases "x \<in> dom G")
    case True
    then obtain l where "LowestAfterTable db x = Some l" "la_ok G br x l" using tables by blast
    then show ?thesis
      using True la_entry_zero_iff [OF seqs_after_range [OF valid], of br x m]
      by (simp add: walk_marked_def la_ok_def)
  qed (simp add: walk_marked_def)
  have closed: "\<forall>x \<in> walk_marked ?c db \<inter> walk_nodes ?c. set (walk_succs ?c x) \<subseteq> walk_marked ?c db"
  proof (intro ballI subsetI)
    fix x assume h: "x \<in> walk_marked ?c db \<inter> walk_nodes ?c"
    fix q assume q: "q \<in> set (walk_succs ?c x)"
    obtain ev where ev: "G x = Some ev" using h by (auto simp: walk_defs)
    have qd: "q \<in> set (ev_parents ev)" "q \<in> dom G"
      using q ev valid_dag_event(2) [OF valid ev] by (auto simp: walk_defs)
    obtain y where y: "y \<in> dom G" "br y = m" "observes G y x"
      using h marked by (auto simp: seqs_after_def)
    have "observes G y q"
      using y(3) observes_parent [OF ev qd(1) observes_refl [OF qd(2)]] observes_trans by blast
    then show "q \<in> walk_marked ?c db"
      using y qd marked by (auto simp: seqs_after_def)
  qed
  have nodes: "?P \<subseteq> walk_nodes ?c" using sub by (simp add: walk_nodes_def)
  obtain L where L: "walk_stack (walk_body ?c) (ev_parents e) db = Some (Inr (fold (\<lambda>n s. walk_mark ?c s n) L db))"
    "walk_valid ?c (fold (\<lambda>n s. walk_mark ?c s n) L db)"
    "walk_marked ?c (fold (\<lambda>n s. walk_mark ?c s n) L db) = walk_marked ?c db \<union> set L"
    "distinct L" "set L = {n. reach (walk_succs ?c) ?P n \<and> n \<notin> walk_marked ?c db}" "set L \<subseteq> walk_nodes ?c"
    by (rule lowest.walk_reachable [OF good wvalid nodes closed])
  have setL: "x \<in> set L \<longleftrightarrow> ?obs x \<and> seqs_after G br x m = {}" if "x \<in> dom G" for x
    unfolding L(5) mem_Collect_eq reach_parents_iff [OF valid sub] marked using that by blast
  let ?T = "\<lambda>x. if x \<in> set L then Some (LA_Set (the (LowestAfterTable db x)) m (ev_seq e))
    else LowestAfterTable db x"
  have run: "DfsSubgraph getEvent e (onWalk m e) db = Some (Inr (db\<lparr>LowestAfterTable := ?T\<rparr>))"
    using L(1) by (simp add: DfsSubgraph_def Stack_PushAll_def walk_body_def fold_walk_mark [OF L(4)])
  have "\<exists>l. ?T x = Some l \<and> la_ok (add_event G e) (br(ev_id e := m)) x l" if x: "x \<in> dom G" for x
  proof -
    obtain l where l: "LowestAfterTable db x = Some l" "wf_la l"
      "\<And>b. LA_Get l b = la_entry (seqs_after G br x b)"
      using tables [OF x] by (auto simp: la_ok_def)
    note S = seqs_after_old [OF valid add x, of br m]
    show ?thesis
    proof (cases "x \<in> set L")
      case True
      then have "?obs x" "seqs_after G br x m = {}" using setL [OF x] by auto
      then have "la_ok (add_event G e) (br(ev_id e := m)) x (LA_Set l m (ev_seq e))"
        unfolding la_ok_def S using l by (simp add: vec_simps la_entry_def)
      then show ?thesis using True l by simp
    next
      case False
      have "la_entry (seqs_after G br x b \<union> (if b = m \<and> ?obs x then {unat (ev_seq e)} else {})) =
          la_entry (seqs_after G br x b)" for b
      proof (cases "b = m \<and> ?obs x")
        case True
        then have ne: "seqs_after G br x m \<noteq> {}" using False setL [OF x] by auto
        have fin: "finite (seqs_after G br x m)" using seqs_after_range(1) [OF valid] .
        have "\<forall>s \<in> seqs_after G br x m. s < unat (ev_seq e)"
          using below by (auto simp: seqs_after_def)
        then have "Min (seqs_after G br x m) < unat (ev_seq e)" using Min_in [OF fin ne] by blast
        then have "min (unat (ev_seq e)) (Min (seqs_after G br x m)) = Min (seqs_after G br x m)"
          by (intro min_absorb2) simp
        then have "Min (insert (unat (ev_seq e)) (seqs_after G br x m)) = Min (seqs_after G br x m)"
          unfolding Min_insert [OF fin ne] .
        then show ?thesis using True ne by (simp add: la_entry_def)
      qed auto
      then have "la_ok (add_event G e) (br(ev_id e := m)) x l"
        unfolding la_ok_def S using l by simp
      then show ?thesis using False l by simp
    qed
  qed
  moreover have "?T x = LowestAfterTable db x" if "x \<notin> dom G" for x
    using that L(6) by (auto simp: walk_nodes_def)
  ultimately show ?thesis using run by blast
qed

end
