(* ===== verification/Vec_Correct.thy ===== *)
theory Vec_Correct
  imports Vec_Highest Vec_Lowest
begin

text \<open>
  The vector engine refines the graph of events: an invariant that every
  lifecycle operation keeps, the absence of failures of \<^verbatim>\<open>Add\<close>, and that
  \<^verbatim>\<open>forklessCause\<close> and the merged vector compute what the graph says.
\<close>

section \<open>Invariant of the tables\<close>

abbreviation branch_fun :: "vec_db \<Rightarrow> hash_event \<Rightarrow> nat" where
  "branch_fun db \<equiv> \<lambda>x. the (EventBranch db x)"

definition tables_ok :: "Validators \<Rightarrow> dag \<Rightarrow> BranchesInfo \<Rightarrow> vec_db \<Rightarrow> bool" where
  "tables_ok vals G bi db \<longleftrightarrow>
    branch_inv vals G bi (branch_fun db) \<and> dom (EventBranch db) = dom G \<and>
    dom (HighestBeforeTable db) = dom G \<and> dom (LowestAfterTable db) = dom G \<and>
    (\<forall>a \<in> dom G. hb_ok vals G bi (branch_fun db) a (the (HighestBeforeTable db a))) \<and>
    (\<forall>x \<in> dom G. la_ok G (branch_fun db) x (the (LowestAfterTable db x)))"

definition stored_bi :: "Validators \<Rightarrow> vec_db \<Rightarrow> BranchesInfo" where
  "stored_bi vals db =
    (case StoredBranchesInfo db of None \<Rightarrow> newInitialBranchesInfo vals | Some bi \<Rightarrow> bi)"

definition current_bi :: "Engine \<Rightarrow> BranchesInfo" where
  "current_bi vi = (case vi_bi vi of None \<Rightarrow> stored_bi (vi_validators vi) (vecDb vi) | Some bi \<Rightarrow> bi)"

lemma vi_bi_InitBranchesInfo: "vi_bi (InitBranchesInfo vi) = Some (current_bi vi)"
  by (simp add: InitBranchesInfo_def current_bi_def stored_bi_def split: option.splits)

lemma InitBranchesInfo_simps [simp]:
  "vi_validators (InitBranchesInfo vi) = vi_validators vi"
  "vecDb (InitBranchesInfo vi) = vecDb vi"
  "flushedDb (InitBranchesInfo vi) = flushedDb vi"
  "current_bi (InitBranchesInfo vi) = current_bi vi"
  by (simp_all add: InitBranchesInfo_def current_bi_def stored_bi_def split: option.splits)

definition engine_ok :: "Validators \<times> Epoch \<Rightarrow> Engine \<Rightarrow> dag \<Rightarrow> dag \<Rightarrow> bool" where
  "engine_ok reader vi G F \<longleftrightarrow>
    wf_validators (fst reader) \<and> vi_validators vi = fst reader \<and>
    valid_dag reader G \<and> valid_dag reader F \<and>
    tables_ok (fst reader) G (current_bi vi) (vecDb vi) \<and>
    tables_ok (fst reader) F (stored_bi (fst reader) (flushedDb vi)) (flushedDb vi)"

lemma tables_ok_stored: "tables_ok vals G bi (setBranchesInfo db x) \<longleftrightarrow> tables_ok vals G bi db"
  by (simp add: tables_ok_def setBranchesInfo_def)

section \<open>Adding an event\<close>

definition below_cap :: "Engine \<Rightarrow> BaseEvent \<Rightarrow> bool" where
  "below_cap vi e \<longleftrightarrow>
    length (BranchIDByCreators (current_bi vi) ! GetIdx (vi_validators vi) (ev_creator e))
      < maxBranchesPerValidator"

lemma fillEventVectors_ok:
  assumes valid: "valid_dag (vals, ep) G" and wfv: "wf_validators vals" and add: "addable (vals, ep) G e"
    and vals: "vi_validators vi = vals" and bi: "vi_bi vi = Some bi"
    and ok: "tables_ok vals G bi (vecDb vi)"
    and getEvent: "\<forall>x \<in> dom G. getEvent x = G x"
    and cap: "length (BranchIDByCreators bi ! GetIdx vals (ev_creator e)) < maxBranchesPerValidator"
  shows "\<exists>bi' db'. fillEventVectors getEvent vi e = Some (Inr (vi\<lparr>vi_bi := Some bi', vecDb := db'\<rparr>)) \<and>
    tables_ok vals (add_event G e) bi' db' \<and> StoredBranchesInfo db' = StoredBranchesInfo (vecDb vi)"
proof -
  let ?db = "vecDb vi" and ?G = "add_event G e" and ?e = "ev_id e"
  let ?br = "branch_fun (vecDb vi)" and ?v = "GetIdx vals (ev_creator e)"
  have inv: "branch_inv vals G bi ?br" and dEB: "dom (EventBranch ?db) = dom G"
    and dHB: "dom (HighestBeforeTable ?db) = dom G" and dLA: "dom (LowestAfterTable ?db) = dom G"
    and hb: "\<And>a. a \<in> dom G \<Longrightarrow> hb_ok vals G bi ?br a (the (HighestBeforeTable ?db a))"
    and la: "\<And>x. x \<in> dom G \<Longrightarrow> la_ok G ?br x (the (LowestAfterTable ?db x))"
    using ok by (auto simp: tables_ok_def)
  have sub: "set (ev_parents e) \<subseteq> dom G" and fresh: "?e \<notin> dom G" using add by (auto simp: addable_def)
  obtain m bi' where fill: "fillGlobalBranchID vals ?db bi e ?v = Inr (m, False, bi')"
    and step: "branch_step vals G e bi ?br m bi'"
    using fillGlobalBranchID_step [OF valid add wfv inv dEB cap] by blast
  have load: "loadParents ?db (ev_parents e) =
      Inr (map Some (map (\<lambda>p. the (HighestBeforeTable ?db p)) (ev_parents e)))"
    using sub dEB dHB by (intro loadParents_eq) auto
  have parents: "hb_ok vals G bi ?br p (the (HighestBeforeTable ?db p))" if "p \<in> set (ev_parents e)" for p
    using that sub hb by auto
  obtain h h' where h: "fold_option (collectParent (branches_num bi'))
      (map Some (map (\<lambda>p. the (HighestBeforeTable ?db p)) (ev_parents e)))
      (HB_InitWithEvent (NewHighestBeforeSeq (branches_num bi)) m e) = Some h"
    "detectForks vals bi' h = Some h'" "hb_ok vals ?G bi' (?br(?e := m)) ?e h'"
    using hb_ok_new [OF valid add wfv step inv parents] by blast
  have below: "\<forall>x \<in> dom G. ?br x = m \<longrightarrow> seq_of G x < unat (ev_seq e)"
    using step by (simp add: branch_step_def)
  have tables: "\<exists>l. LowestAfterTable ?db x = Some l \<and> la_ok G ?br x l" if x: "x \<in> dom G" for x
  proof -
    obtain l where "LowestAfterTable ?db x = Some l" using x dLA by blast
    with la [OF x] show ?thesis by simp
  qed
  obtain T where T: "DfsSubgraph getEvent e (onWalk m e) ?db = Some (Inr (?db\<lparr>LowestAfterTable := T\<rparr>))"
    "\<And>x. x \<notin> dom G \<Longrightarrow> T x = LowestAfterTable ?db x"
    "\<And>x. x \<in> dom G \<Longrightarrow> \<exists>l. T x = Some l \<and> la_ok ?G (?br(?e := m)) x l"
    using DfsSubgraph_lowest [OF valid add getEvent tables below] by blast
  let ?after = "LA_InitWithEvent (NewLowestAfterSeq (branches_num bi)) m e"
  let ?db' = "SetEventBranchID (SetLowestAfter (SetHighestBefore (?db\<lparr>LowestAfterTable := T\<rparr>) ?e h')
    ?e ?after) ?e m"
  have run: "fillEventVectors getEvent vi e = Some (Inr (vi\<lparr>vi_bi := Some bi', vecDb := ?db'\<rparr>))"
    by (simp add: fillEventVectors_def bi vals Let_def fill load h(1,2) T(1) del: map_map)
  have br': "branch_fun ?db' = ?br(?e := m)"
    by (auto simp: SetEventBranchID_def SetLowestAfter_def SetHighestBefore_def)
  have HB': "HighestBeforeTable ?db' = (HighestBeforeTable ?db)(?e \<mapsto> h')"
    and LA': "LowestAfterTable ?db' = T(?e \<mapsto> ?after)"
    and EB': "EventBranch ?db' = (EventBranch ?db)(?e \<mapsto> m)"
    and stored: "StoredBranchesInfo ?db' = StoredBranchesInfo ?db"
    by (simp_all add: SetEventBranchID_def SetLowestAfter_def SetHighestBefore_def)
  have domT: "dom T = dom G"
  proof -
    have "x \<in> dom T \<longleftrightarrow> x \<in> dom G" for x
      using T(2) [of x] T(3) [of x] dLA by (cases "x \<in> dom G") (auto simp: domIff)
    then show ?thesis by blast
  qed
  have "tables_ok vals ?G bi' ?db'"
    unfolding tables_ok_def br'
  proof (intro conjI ballI)
    show "branch_inv vals ?G bi' (?br(?e := m))" using step by (simp add: branch_step_def)
    show "dom (EventBranch ?db') = dom ?G" "dom (HighestBeforeTable ?db') = dom ?G"
      "dom (LowestAfterTable ?db') = dom ?G"
      unfolding EB' HB' LA' using dEB dHB domT by auto
    fix x assume "x \<in> dom ?G"
    then consider "x = ?e" | "x \<in> dom G" "x \<noteq> ?e" using fresh by auto
    then show "hb_ok vals ?G bi' (?br(?e := m)) x (the (HighestBeforeTable ?db' x))"
    proof cases
      case 2
      then show ?thesis unfolding HB' using hb_ok_old [OF valid add step inv 2(1) hb [OF 2(1)]] by simp
    qed (simp add: HB' h(3))
  next
    fix x assume "x \<in> dom ?G"
    then consider "x = ?e" | "x \<in> dom G" "x \<noteq> ?e" using fresh by auto
    then show "la_ok ?G (?br(?e := m)) x (the (LowestAfterTable ?db' x))"
    proof cases
      case 2
      then show ?thesis unfolding LA' using T(3) [OF 2(1)] by auto
    qed (simp add: LA' la_ok_new [OF valid add])
  qed
  with run stored show ?thesis by blast
qed

lemma Engine_Add_ok:
  assumes ok: "engine_ok reader vi G F" and add: "addable reader G e"
    and getEvent: "\<forall>x \<in> dom G. getEvent x = G x" and cap: "below_cap vi e"
  shows "\<exists>vi'. Engine_Add getEvent vi e = Some (Inr vi') \<and> engine_ok reader vi' (add_event G e) F"
proof -
  obtain vals ep where r: "reader = (vals, ep)" by (cases reader)
  have h: "valid_dag (vals, ep) G" "wf_validators vals" "addable (vals, ep) G e" "vi_validators vi = vals"
    "tables_ok vals G (current_bi vi) (vecDb vi)"
    using ok add by (auto simp: engine_ok_def r)
  obtain bi' db' where run: "fillEventVectors getEvent (InitBranchesInfo vi) e =
      Some (Inr ((InitBranchesInfo vi)\<lparr>vi_bi := Some bi', vecDb := db'\<rparr>))"
    "tables_ok vals (add_event G e) bi' db'"
    using fillEventVectors_ok [OF h(1-3), of "InitBranchesInfo vi" "current_bi vi" getEvent] h getEvent cap
    by (auto simp: vi_bi_InitBranchesInfo below_cap_def)
  let ?vi' = "(InitBranchesInfo vi)\<lparr>vi_bi := Some bi', vecDb := db'\<rparr>"
  have "engine_ok reader ?vi' (add_event G e) F"
    using ok run(2) valid_dag_add_event [OF h(1,3)] by (simp add: engine_ok_def r current_bi_def)
  with run(1) show ?thesis by (auto simp: Engine_Add_def)
qed

section \<open>Lifecycle\<close>

text \<open>
  The runs of the engine: reset on an empty database, additions of checked events
  whose parents were added, loading of the branches by a reader, flushes and drops.
  The two graphs are the events added so far and the events last flushed.
\<close>

inductive engine_run :: "Validators \<times> Epoch \<Rightarrow> Engine \<Rightarrow> dag \<Rightarrow> dag \<Rightarrow> bool" for reader where
  run_reset: "wf_validators (fst reader) \<Longrightarrow>
    engine_run reader (Engine_Reset (fst reader) empty_vec_db) Map.empty Map.empty"
| run_add: "engine_run reader vi G F \<Longrightarrow> addable reader G e \<Longrightarrow> \<forall>x \<in> dom G. getEvent x = G x \<Longrightarrow>
    below_cap vi e \<Longrightarrow> Engine_Add getEvent vi e = Some (Inr vi') \<Longrightarrow>
    engine_run reader vi' (add_event G e) F"
| run_init: "engine_run reader vi G F \<Longrightarrow> engine_run reader (InitBranchesInfo vi) G F"
| run_flush: "engine_run reader vi G F \<Longrightarrow> engine_run reader (Engine_Flush vi) G G"
| run_drop: "engine_run reader vi G F \<Longrightarrow> engine_run reader (Engine_DropNotFlushed vi) F F"

lemma engine_ok_reset:
  assumes "wf_validators (fst reader)"
  shows "engine_ok reader (Engine_Reset (fst reader) empty_vec_db) Map.empty Map.empty"
  using assms branch_inv_initial [OF assms]
  by (simp add: engine_ok_def Engine_Reset_def valid_dag_def tables_ok_def current_bi_def stored_bi_def
      empty_vec_db_def)

lemma engine_ok_init: "engine_ok reader vi G F \<Longrightarrow> engine_ok reader (InitBranchesInfo vi) G F"
  by (simp add: engine_ok_def)

lemma stored_bi_set: "stored_bi vals (setBranchesInfo db bi) = bi"
  by (simp add: stored_bi_def setBranchesInfo_def)

lemma engine_ok_flush: "engine_ok reader vi G F \<Longrightarrow> engine_ok reader (Engine_Flush vi) G G"
  by (cases "vi_bi vi")
    (auto simp: engine_ok_def Engine_Flush_def Let_def current_bi_def stored_bi_set tables_ok_stored)

lemma engine_ok_drop: "engine_ok reader vi G F \<Longrightarrow> engine_ok reader (Engine_DropNotFlushed vi) F F"
  by (simp add: engine_ok_def Engine_DropNotFlushed_def current_bi_def)

lemma engine_run_ok: "engine_run reader vi G F \<Longrightarrow> engine_ok reader vi G F"
proof (induction rule: engine_run.induct)
  case (run_add vi G F e getEvent vi')
  then show ?case using Engine_Add_ok [of reader vi G F e getEvent] by auto
qed (auto intro: engine_ok_reset engine_ok_init engine_ok_flush engine_ok_drop)

section \<open>Forkless cause\<close>

definition observing :: "HighestBeforeSeq \<Rightarrow> LowestAfterSeq \<Rightarrow> nat \<Rightarrow> bool" where
  "observing a b i \<longleftrightarrow> LA_Get b i \<le> bs_Seq (HB_Get a i) \<and> LA_Get b i \<noteq> 0 \<and> HB_Get a i \<noteq> forkDetectedSeq"

lemma countObserving_rep:
  assumes "counter_rep vals yes A" and "\<forall>c \<in> set cs. c < Validators_Len vals"
  shows "\<exists>yes'. countObserving a b k cs yes = Some yes' \<and>
    counter_rep vals yes' (A \<union> {cs ! i | i. i < length cs \<and> observing a b (k + i)})"
  using assms
proof (induction cs arbitrary: k yes A)
  case (Cons c cs)
  have split: "{(c # cs) ! i | i. i < length (c # cs) \<and> observing a b (k + i)} =
      (if observing a b k then {c} else {}) \<union> {cs ! i | i. i < length cs \<and> observing a b (Suc k + i)}"
  proof (intro set_eqI iffI)
    fix x assume "x \<in> {(c # cs) ! i | i. i < length (c # cs) \<and> observing a b (k + i)}"
    then obtain i where "x = (c # cs) ! i" "i < length (c # cs)" "observing a b (k + i)" by blast
    then show "x \<in> (if observing a b k then {c} else {}) \<union>
        {cs ! i | i. i < length cs \<and> observing a b (Suc k + i)}"
      by (cases i) auto
  next
    fix x assume "x \<in> (if observing a b k then {c} else {}) \<union>
        {cs ! i | i. i < length cs \<and> observing a b (Suc k + i)}"
    then consider "x = c" "observing a b k"
      | i where "x = cs ! i" "i < length cs" "observing a b (Suc k + i)"
      by (auto split: if_splits)
    then show "x \<in> {(c # cs) ! i | i. i < length (c # cs) \<and> observing a b (k + i)}"
    proof cases
      case 1
      then show ?thesis by (intro CollectI exI [of _ 0]) auto
    next
      case 2
      then show ?thesis by (intro CollectI exI [of _ "Suc i"]) auto
    qed
  qed
  show ?case
  proof (cases "observing a b k")
    case True
    obtain yes1 where y1: "CountByIdx yes c = Some (yes1, c \<notin> A)" "counter_rep vals yes1 (insert c A)"
      using counter.count [OF Cons.prems(1), of c] Cons.prems(2) by auto
    have eq: "countObserving a b k (c # cs) yes = countObserving a b (Suc k) cs yes1"
      using True y1(1) by (simp add: observing_def BranchSeq_IsForkDetected_def)
    from Cons.IH [OF y1(2), of "Suc k"] Cons.prems(2) show ?thesis
      unfolding eq split using True by simp
  next
    case False
    have eq: "countObserving a b k (c # cs) yes = countObserving a b (Suc k) cs yes"
      using False by (auto simp: observing_def BranchSeq_IsForkDetected_def)
    from Cons.IH [OF Cons.prems(1), of "Suc k"] Cons.prems(2) show ?thesis
      unfolding eq split using False by simp
  qed
qed simp

lemma seqs_before_iff:
  "s \<in> seqs_before G br a b \<longleftrightarrow> (\<exists>x \<in> dom G. br x = b \<and> observes G a x \<and> seq_of G x = s)"
  by (auto simp: seqs_before_def)

lemma seqs_after_iff:
  "s \<in> seqs_after G br x b \<longleftrightarrow> (\<exists>y \<in> dom G. br y = b \<and> observes G y x \<and> seq_of G y = s)"
  by (auto simp: seqs_after_def)

lemma observing_iff:
  assumes valid: "valid_dag (vals, ep) G" and inv: "branch_inv vals G bi br"
    and a: "hb_ok vals G bi br x h" and b: "la_ok G br y l" and i: "i < branches_num bi"
  shows "observing h l i \<longleftrightarrow> \<not> fork_seen G x (owner vals bi i) \<and>
    (\<exists>z \<in> dom G. br z = i \<and> observes G x z \<and> observes G z y)"
proof -
  let ?S = "seqs_before G br x i" and ?T = "seqs_after G br y i"
  have S: "seq_range ?S" using seq_range_before [OF valid] .
  note T = seqs_after_range [OF valid, of br y i]
  have l: "LA_Get l i = la_entry ?T" using b by (simp add: la_ok_def)
  have nz: "LA_Get l i \<noteq> 0 \<longleftrightarrow> ?T \<noteq> {}" using la_entry_zero_iff [OF T] by (simp add: l)
  show ?thesis
  proof (cases "fork_seen G x (owner vals bi i)")
    case True
    then have "HB_Get h i = forkDetectedSeq \<or> HB_Get h i = empty_entry"
      using a i by (auto simp: hb_ok_def)
    then show ?thesis using True by (auto simp: observing_def)
  next
    case False
    then have h: "HB_Get h i = entry_of ?S" using a i by (auto simp: hb_ok_def)
    have "observing h l i \<longleftrightarrow> ?T \<noteq> {} \<and> ?S \<noteq> {} \<and> Min ?T \<le> Max ?S"
    proof (cases "?S = {} \<or> ?T = {}")
      case True
      then show ?thesis
        using nz h by (auto simp: observing_def)
    next
      case False
      then show ?thesis
        using nz h l entry_not_fork [OF S] unat_entry(1) [OF S] unat_la_entry(1) [OF T]
        by (auto simp: observing_def word_le_nat_alt)
    qed
    also have "\<dots> \<longleftrightarrow> (\<exists>z \<in> dom G. br z = i \<and> observes G x z \<and> observes G z y)"
    proof
      assume A: "?T \<noteq> {} \<and> ?S \<noteq> {} \<and> Min ?T \<le> Max ?S"
      have fin: "finite ?S" using S by (simp add: seq_range_def)
      have "Min ?T \<in> ?T" "Max ?S \<in> ?S"
        using A Min_in [OF T(1)] Max_in [OF fin] by blast+
      then obtain p q where p: "p \<in> dom G" "br p = i" "observes G p y" "seq_of G p = Min ?T"
        and q: "q \<in> dom G" "br q = i" "observes G x q" "seq_of G q = Max ?S"
        unfolding seqs_after_iff seqs_before_iff by blast
      have "self_ancestor G q p"
        using inv p q A unfolding branch_inv_def branch_chains_def by metis
      then have "observes G q y" using self_ancestor_observes [OF valid] p(3) observes_trans by blast
      with q show "\<exists>z \<in> dom G. br z = i \<and> observes G x z \<and> observes G z y" by blast
    next
      assume "\<exists>z \<in> dom G. br z = i \<and> observes G x z \<and> observes G z y"
      then obtain z where z: "z \<in> dom G" "br z = i" "observes G x z" "observes G z y" by blast
      then have in_sets: "seq_of G z \<in> ?S" "seq_of G z \<in> ?T"
        unfolding seqs_after_def seqs_before_def by blast+
      then have "Min ?T \<le> seq_of G z" "seq_of G z \<le> Max ?S"
        using S T(1) by (auto simp: seq_range_def)
      then show "?T \<noteq> {} \<and> ?S \<noteq> {} \<and> Min ?T \<le> Max ?S"
        using in_sets order_trans by blast
    qed
    finally show ?thesis using False by simp
  qed
qed

lemma forklessCause_correct:
  assumes ok: "engine_ok (vals, ep) vi G F" and bi: "vi_bi vi = Some bi"
    and a: "a \<in> dom G" and b: "b \<in> dom G"
  shows "forklessCause vi a b = Inr (forkless_cause vals G a b)"
proof -
  let ?db = "vecDb vi" and ?br = "branch_fun (vecDb vi)"
  have valid: "valid_dag (vals, ep) G" and wfv: "wf_validators vals" and vals: "vi_validators vi = vals"
    and tok: "tables_ok vals G bi ?db"
    using ok bi by (auto simp: engine_ok_def current_bi_def)
  have inv: "branch_inv vals G bi ?br" and wfb: "wf_branches vals bi" and mem: "branch_members vals G bi ?br"
    using tok by (auto simp: tables_ok_def branch_inv_def)
  obtain h where h: "HighestBeforeTable ?db a = Some h" "hb_ok vals G bi ?br a h"
    using tok a unfolding tables_ok_def by (metis domD option.sel)
  obtain l where l: "LowestAfterTable ?db b = Some l" "la_ok G ?br b l"
    using tok b unfolding tables_ok_def by (metis domD option.sel)
  obtain bb where bb: "EventBranch ?db b = Some bb" "?br b = bb"
    using tok b unfolding tables_ok_def by (metis domD option.sel)
  have bbn: "bb < branches_num bi" and owner_b: "creator_of G b = owner vals bi bb"
    using bspec [OF mem [unfolded branch_members_def] b] creator_of_branch [OF valid wfv mem b] bb(2)
    by auto
  have crs: "\<forall>c \<in> set (BranchIDCreatorIdxs bi). c < Validators_Len vals"
    using wfb by (auto simp: wf_branches_def in_set_conv_nth)
  let ?C = "{BranchIDCreatorIdxs bi ! i | i. i < branches_num bi \<and> observing h l i}"
  obtain yes where yes: "countObserving h l 0 (BranchIDCreatorIdxs bi) (NewCounter vals) = Some yes"
    "counter_rep vals yes ?C"
    using countObserving_rep [OF counter.new_counter [OF wfv] crs, of h l 0] by auto
  have C: "?C = {v. v < Validators_Len vals \<and> confirms G a b (ids (vv_cache vals) ! v)}"
  proof (intro set_eqI iffI)
    fix v assume "v \<in> ?C"
    then obtain i where i: "i < branches_num bi" "v = BranchIDCreatorIdxs bi ! i" "observing h l i" by blast
    obtain z where z: "z \<in> dom G" "?br z = i" "observes G a z" "observes G z b"
      "\<not> fork_seen G a (owner vals bi i)"
      using i(3) unfolding observing_iff [OF valid inv h(2) l(2) i(1)] by blast
    have "creator_of G z = ids (vv_cache vals) ! v"
      using creator_of_branch [OF valid wfv mem z(1)] z(2) i(2) by simp
    then have "confirms G a b (ids (vv_cache vals) ! v)"
      using z i(2) unfolding confirms_def by blast
    moreover have "v < Validators_Len vals" using i wfb by (simp add: wf_branches_def)
    ultimately show "v \<in> {v. v < Validators_Len vals \<and> confirms G a b (ids (vv_cache vals) ! v)}" by blast
  next
    fix v assume "v \<in> {v. v < Validators_Len vals \<and> confirms G a b (ids (vv_cache vals) ! v)}"
    then obtain z where v: "v < Validators_Len vals" "\<not> fork_seen G a (ids (vv_cache vals) ! v)"
      and z: "creator_of G z = ids (vv_cache vals) ! v" "observes G a z" "observes G z b"
      unfolding confirms_def by blast
    have zd: "z \<in> dom G" using z(2) observes_dom by blast
    note br = branch_of_creator [OF wfv mem zd z(1) v(1)]
    have "observing h l (?br z)"
      using z(2,3) zd v(2) br unfolding observing_iff [OF valid inv h(2) l(2) br(1)] by auto
    then show "v \<in> ?C" using br by (intro CollectI exI [of _ "?br z"]) simp
  qed
  have quorum: "HasQuorum yes \<longleftrightarrow> unat (Quorum vals) \<le>
      sum (weight_at vals) {v. v < Validators_Len vals \<and> confirms G a b (ids (vv_cache vals) ! v)}"
    using counter.has_quorum [OF yes(2)] unfolding C .
  have run: "forklessCause vi a b = Inr (\<not> (AtLeastOneFork vals bi \<and> HB_Get h bb = forkDetectedSeq) \<and> HasQuorum yes)"
    by (cases "HB_Get h bb = forkDetectedSeq")
      (simp_all add: forklessCause_def GetHighestBefore_def GetLowestAfter_def GetEventBranchID_def h(1) l(1)
        bi bb(1) vals yes(1) BranchSeq_IsForkDetected_def)
  show ?thesis
  proof (cases "fork_seen G a (creator_of G b)")
    case False
    then have "HB_Get h bb \<noteq> forkDetectedSeq"
      using h(2) bbn entry_not_fork [OF seq_range_before [OF valid]] by (auto simp: hb_ok_def owner_b)
    then show ?thesis using run quorum False by (simp add: forkless_cause_def)
  next
    case True
    have "\<not> HasQuorum yes" if nf: "\<not> (AtLeastOneFork vals bi \<and> HB_Get h bb = forkDetectedSeq)"
    proof -
      have "AtLeastOneFork vals bi"
      proof (rule ccontr)
        assume no: "\<not> AtLeastOneFork vals bi"
        have "BranchIDCreatorIdxs bi ! bb < Validators_Len vals" using bbn wfb by (simp add: wf_branches_def)
        from single_branch_no_fork [OF valid wfv inv no this] True show False by (simp add: owner_b)
      qed
      then have empty: "seqs_before G ?br a bb = {}"
        using nf h(2) bbn True by (auto simp: hb_ok_def owner_b)
      have "\<not> observes G a b" using empty b bb(2) unfolding seqs_before_def by blast
      then have "\<not> confirms G a b v" for v unfolding confirms_def using observes_trans by blast
      then have none: "{v. v < Validators_Len vals \<and> confirms G a b (ids (vv_cache vals) ! v)} = {}" by blast
      have "HasQuorum yes \<longleftrightarrow> unat (Quorum vals) \<le> 0" using quorum unfolding none by simp
      then show ?thesis by (simp add: unat_Quorum [OF wfv])
    qed
    then show ?thesis using run True by (auto simp: forkless_cause_def)
  qed
qed

section \<open>The merged vector\<close>

lemma fold_GatherFrom:
  assumes "wf_hb m"
  shows "wf_hb (fold (\<lambda>(c, bs) m. GatherFrom m c s bs) (zip [k..<k + length bss] bss) m) \<and>
    (\<forall>v. HB_Get (fold (\<lambda>(c, bs) m. GatherFrom m c s bs) (zip [k..<k + length bss] bss) m) v =
      (if k \<le> v \<and> v < k + length bss then GatherFrom_loop s (bss ! (v - k)) empty_entry else HB_Get m v))"
  using assms
proof (induction bss arbitrary: k m)
  case (Cons bs bss)
  have g: "wf_hb (GatherFrom m k s bs)"
    "HB_Get (GatherFrom m k s bs) v = (if v = k then GatherFrom_loop s bs empty_entry else HB_Get m v)" for v
    using Cons.prems by (simp_all add: GatherFrom_def vec_simps)
  have upt: "zip [k..<k + length (bs # bss)] (bs # bss) = (k, bs) # zip [Suc k..<Suc k + length bss] bss"
    by (simp add: upt_conv_Cons del: upt_Suc)
  show ?case
    unfolding upt using Cons.IH [OF g(1), of "Suc k"] g(2)
    by (auto simp: nth_Cons' not_less_eq_eq)
qed auto

definition highest_seq :: "dag \<Rightarrow> hash_event \<Rightarrow> ValidatorID \<Rightarrow> nat" where
  "highest_seq G a v = Max (insert 0 (seq_of G ` {x \<in> dom G. creator_of G x = v \<and> observes G a x}))"

lemma Max_insert_UN:
  fixes S :: "'b \<Rightarrow> nat set"
  assumes "finite B" and "\<And>b. finite (S b)"
  shows "Max (insert 0 ((\<lambda>b. Max (insert 0 (S b))) ` B)) = Max (insert 0 (\<Union>b \<in> B. S b))"
proof (rule Max_eq_if)
  show "finite (insert 0 ((\<lambda>b. Max (insert 0 (S b))) ` B))" "finite (insert 0 (\<Union>b \<in> B. S b))"
    using assms by auto
  have "Max (insert 0 (S b)) \<in> insert 0 (S b)" for b using assms(2) by (intro Max_in) auto
  then show "\<forall>x \<in> insert 0 ((\<lambda>b. Max (insert 0 (S b))) ` B). \<exists>y \<in> insert 0 (\<Union>b \<in> B. S b). x \<le> y"
    by blast
  have "x \<le> Max (insert 0 (S b))" if "x \<in> S b" for x b using that assms(2) by (intro Max_ge) auto
  then show "\<forall>x \<in> insert 0 (\<Union>b \<in> B. S b). \<exists>y \<in> insert 0 ((\<lambda>b. Max (insert 0 (S b))) ` B). x \<le> y"
    by blast
qed

lemma GetMergedHighestBefore_correct:
  assumes ok: "engine_ok (vals, ep) vi G F" and a: "a \<in> dom G"
  shows "\<exists>m. GetMergedHighestBefore vi a = (InitBranchesInfo vi, Some m) \<and>
    (\<forall>v < Validators_Len vals.
      (HB_IsForkDetected m v \<longleftrightarrow> fork_seen G a (ids (vv_cache vals) ! v)) \<and>
      (\<not> fork_seen G a (ids (vv_cache vals) ! v) \<longrightarrow>
        unat (HB_Seq m v) = highest_seq G a (ids (vv_cache vals) ! v)))"
proof -
  let ?bi = "current_bi vi" and ?db = "vecDb vi" and ?br = "branch_fun (vecDb vi)"
  let ?id = "\<lambda>v. ids (vv_cache vals) ! v" and ?S = "seqs_before G (branch_fun (vecDb vi)) a"
  have valid: "valid_dag (vals, ep) G" and wfv: "wf_validators vals" and vals: "vi_validators vi = vals"
    and tok: "tables_ok vals G ?bi ?db"
    using ok by (auto simp: engine_ok_def)
  have inv: "branch_inv vals G ?bi ?br" and wfb: "wf_branches vals ?bi" and mem: "branch_members vals G ?bi ?br"
    using tok by (auto simp: tables_ok_def branch_inv_def)
  obtain h where h: "HighestBeforeTable ?db a = Some h" "hb_ok vals G ?bi ?br a h"
    using tok a unfolding tables_ok_def by (metis domD option.sel)
  have byc: "set (BranchIDByCreators ?bi ! v) = {b. b < branches_num ?bi \<and> BranchIDCreatorIdxs ?bi ! b = v}"
    "v < branches_num ?bi" "BranchIDCreatorIdxs ?bi ! v = v" if "v < Validators_Len vals" for v
    using wfb that by (auto simp: wf_branches_def)
  have entry: "HB_Get h b = entry_of (?S b)"
    if "b < branches_num ?bi" "\<not> fork_seen G a (?id (BranchIDCreatorIdxs ?bi ! b))" for b
    using h(2) that by (auto simp: hb_ok_def)
  have seqs: "(\<Union>b \<in> {b. b < branches_num ?bi \<and> BranchIDCreatorIdxs ?bi ! b = v}. ?S b) =
      seq_of G ` {x \<in> dom G. creator_of G x = ?id v \<and> observes G a x}" if v: "v < Validators_Len vals" for v
  proof -
    have "x \<in> dom G \<Longrightarrow> ?br x < branches_num ?bi \<and>
        (BranchIDCreatorIdxs ?bi ! ?br x = v \<longleftrightarrow> creator_of G x = ?id v)" for x
      using branch_of_creator [OF wfv mem _ _ v] creator_of_branch [OF valid wfv mem]
        bspec [OF mem [unfolded branch_members_def]] by metis
    then show ?thesis unfolding seqs_before_def by blast
  qed
  have max: "unat (bs_Seq e) = highest_seq G a (?id v)"
    if v: "v < Validators_Len vals" and nf: "\<not> fork_seen G a (?id v)"
      and e: "bs_Seq e = Max (insert 0 ((\<lambda>b. bs_Seq (HB_Get h b)) ` {b. b < branches_num ?bi \<and> BranchIDCreatorIdxs ?bi ! b = v}))"
    for v e
  proof -
    let ?B = "{b. b < branches_num ?bi \<and> BranchIDCreatorIdxs ?bi ! b = v}"
    have fin: "finite ?B" by simp
    have u: "unat (bs_Seq (HB_Get h b)) = Max (insert 0 (?S b))" if b: "b \<in> ?B" for b
    proof -
      have S: "seq_range (?S b)" using seq_range_before [OF valid] .
      have g: "HB_Get h b = entry_of (?S b)" using entry b nf by auto
      show ?thesis
      proof (cases "?S b = {}")
        case False
        then show ?thesis
          using unat_entry(1) [OF S False] S by (simp add: g seq_range_def)
      qed (simp add: g)
    qed
    have mono: "mono (unat :: u32 \<Rightarrow> nat)" by (auto intro!: monoI simp: word_le_nat_alt)
    have "unat (bs_Seq e) = Max (unat ` insert 0 ((\<lambda>b. bs_Seq (HB_Get h b)) ` ?B))"
      unfolding e using mono_Max_commute [OF mono, of "insert 0 ((\<lambda>b. bs_Seq (HB_Get h b)) ` ?B)"] fin by simp
    also have "unat ` insert 0 ((\<lambda>b. bs_Seq (HB_Get h b)) ` ?B) = insert 0 ((\<lambda>b. Max (insert 0 (?S b))) ` ?B)"
      using u by (auto simp: image_image)
    also have "Max \<dots> = Max (insert 0 (\<Union>b \<in> ?B. ?S b))"
      using seq_range_before [OF valid] by (intro Max_insert_UN) (auto simp: seq_range_def)
    finally show ?thesis unfolding highest_seq_def seqs [OF v] .
  qed
  show ?thesis
  proof (cases "AtLeastOneFork vals ?bi")
    case False
    have nofork: "\<not> fork_seen G a (?id v)" if "v < Validators_Len vals" for v
      using single_branch_no_fork [OF valid wfv inv False that] .
    have n: "branches_num ?bi = Validators_Len vals"
      using False wfb by (simp add: AtLeastOneFork_def wf_branches_def)
    have run: "GetMergedHighestBefore vi a = (InitBranchesInfo vi, Some h)"
      using False h(1)
      by (simp add: GetMergedHighestBefore_def Let_def vi_bi_InitBranchesInfo vals GetHighestBefore_def)
    have "\<not> HB_IsForkDetected h v \<and> unat (HB_Seq h v) = highest_seq G a (?id v)"
      if v: "v < Validators_Len vals" for v
    proof -
      have single: "{b. b < branches_num ?bi \<and> BranchIDCreatorIdxs ?bi ! b = v} = {v}"
        using v n byc by auto
      have "unat (bs_Seq (HB_Get h v)) = highest_seq G a (?id v)"
        using max [OF v nofork [OF v], of "HB_Get h v"] unfolding single by simp
      moreover have "HB_Get h v \<noteq> forkDetectedSeq"
        using entry [of v] byc(2,3) [OF v] nofork [OF v] entry_not_fork [OF seq_range_before [OF valid]] by simp
      ultimately show ?thesis
        by (simp add: HB_IsForkDetected_def BranchSeq_IsForkDetected_def HB_Seq_def)
    qed
    then show ?thesis using run nofork by auto
  next
    case True
    let ?m = "fold (\<lambda>(c, bs) m. GatherFrom m c h bs)
      (zip [0..<length (BranchIDByCreators ?bi)] (BranchIDByCreators ?bi))
      (NewHighestBeforeSeq (Validators_Len vals))"
    have run: "GetMergedHighestBefore vi a = (InitBranchesInfo vi, Some ?m)"
      using True h(1)
      by (simp add: GetMergedHighestBefore_def Let_def vi_bi_InitBranchesInfo vals GetHighestBefore_def)
    have len: "length (BranchIDByCreators ?bi) = Validators_Len vals" using wfb by (simp add: wf_branches_def)
    have m: "HB_Get ?m v = GatherFrom_loop h (BranchIDByCreators ?bi ! v) empty_entry"
      if "v < Validators_Len vals" for v
      using that len fold_GatherFrom [OF hb.wf_new [of "Validators_Len vals"], of h 0 "BranchIDByCreators ?bi"]
      by simp
    have "(HB_IsForkDetected ?m v \<longleftrightarrow> fork_seen G a (?id v)) \<and>
        (\<not> fork_seen G a (?id v) \<longrightarrow> unat (HB_Seq ?m v) = highest_seq G a (?id v))"
      if v: "v < Validators_Len vals" for v
    proof (cases "fork_seen G a (?id v)")
      case True
      have "HB_Get h v = forkDetectedSeq" using h(2) byc(2,3) [OF v] True v by (auto simp: hb_ok_def)
      then have "HB_Get ?m v = forkDetectedSeq"
        unfolding m [OF v] using byc [OF v] by (intro GatherFrom_loop_fork) auto
      then show ?thesis using True by (simp add: HB_IsForkDetected_def BranchSeq_IsForkDetected_def)
    next
      case False
      have nm: "HB_Get h b \<noteq> forkDetectedSeq" if "b \<in> set (BranchIDByCreators ?bi ! v)" for b
        using entry [of b] that byc(1) [OF v] False entry_not_fork [OF seq_range_before [OF valid]] by auto
      have "bs_Seq (HB_Get ?m v) = Max (insert 0 ((\<lambda>b. bs_Seq (HB_Get h b)) `
          {b. b < branches_num ?bi \<and> BranchIDCreatorIdxs ?bi ! b = v}))"
        unfolding m [OF v] using GatherFrom_loop_max [of "BranchIDByCreators ?bi ! v" h empty_entry] nm
        by (simp add: byc(1) [OF v])
      from max [OF v False this] have sq: "unat (HB_Seq ?m v) = highest_seq G a (?id v)"
        by (simp add: HB_Seq_def)
      have "HB_Get ?m v \<noteq> forkDetectedSeq"
        unfolding m [OF v] using GatherFrom_loop_unmarked [of "BranchIDByCreators ?bi ! v" h empty_entry] nm
        by (simp add: forkDetectedSeq_def)
      then show ?thesis using False sq by (simp add: HB_IsForkDetected_def BranchSeq_IsForkDetected_def)
    qed
    then show ?thesis using run by auto
  qed
qed

end
