(* ===== verification/Vec_Properties.thy ===== *)
theory Vec_Properties
  imports Vec_Correct
begin

text \<open>
  The properties of the vector engine, stated for every run of it, with witnesses
  on the run of one validator with one event.
\<close>

section \<open>A small run\<close>

definition sample_graph :: dag where
  "sample_graph = add_event Map.empty (sample_event 1 1)"

lemma sample_addable: "addable (sample_validators, 1) Map.empty (sample_event 1 1)"
proof -
  have "Checkers_Validate (sample_validators, 1) (sample_event 1 1) [] = None"
    by (subst Checkers_accept_iff)
      (simp_all add: sample_event_def event_ok_def self_chain_ok_def sample_validators_simps)
  then show ?thesis by (simp add: addable_def parents_of_def sample_event_def)
qed

lemma sample_cap:
  "below_cap (Engine_Reset sample_validators empty_vec_db) (sample_event 1 1)"
  by (simp add: below_cap_def Engine_Reset_def current_bi_def stored_bi_def empty_vec_db_def
      newInitialBranchesInfo_def maxBranchesPerValidator_def sample_validators_simps sample_event_def
      GetIdx_def sample_validators_def caches_of_def sortedArray_def SortedIDs_def Validators_Len_def)

lemma sample_run:
  obtains vi where "Engine_Add Map.empty (Engine_Reset sample_validators empty_vec_db) (sample_event 1 1) =
      Some (Inr vi)"
    and "engine_run (sample_validators, 1) vi sample_graph Map.empty"
proof -
  let ?vi0 = "Engine_Reset sample_validators empty_vec_db"
  have r0: "engine_run (sample_validators, 1) ?vi0 Map.empty Map.empty"
    using run_reset [of "(sample_validators, 1)"] wf_sample_validators by simp
  obtain vi where "Engine_Add Map.empty ?vi0 (sample_event 1 1) = Some (Inr vi)"
    using Engine_Add_ok [OF engine_run_ok [OF r0] sample_addable _ sample_cap, of Map.empty] by auto
  with run_add [OF r0 sample_addable _ sample_cap this] that show ?thesis
    by (simp add: sample_graph_def)
qed

lemma sample_graph_dom: "dom sample_graph = {0}" "sample_graph 0 = Some (sample_event 1 1)"
  by (simp_all add: sample_graph_def add_event_def sample_event_def)

lemma sample_forkless_cause: "forkless_cause sample_validators sample_graph 0 0"
proof -
  have obs: "observes sample_graph 0 0" by (rule observes_refl) (simp add: sample_graph_dom)
  have nofork: "\<not> fork_seen sample_graph 0 v" for v
    using observes_dom [of sample_graph 0] by (auto simp: fork_seen_def sample_graph_dom(1))
  have creator: "creator_of sample_graph 0 = 1"
    by (simp add: creator_of_def sample_graph_dom(2) sample_event_def)
  have "confirms sample_graph 0 0 1"
    unfolding confirms_def using obs nofork creator by auto
  then have "{i. i < Validators_Len sample_validators \<and>
      confirms sample_graph 0 0 (ids (vv_cache sample_validators) ! i)} = {0}"
    by (auto simp: sample_validators_simps)
  then show ?thesis
    using nofork by (simp add: forkless_cause_def sample_validators_simps weight_at_def)
qed

section \<open>Properties\<close>

text \<open>
  C10: adding an event never fails. In every run of the vector engine, \<^verbatim>\<open>Add\<close> of an
  event that passed the event checks, whose parents were added before, ends
  without a panic, a critical error or an endless traversal, as long as its
  creator has fewer branches than the cap.
\<close>

theorem Add_total:
  assumes "engine_run reader vi G F" and "addable reader G e"
    and "\<forall>x \<in> dom G. getEvent x = G x" and "below_cap vi e"
  shows "\<exists>vi'. Engine_Add getEvent vi e = Some (Inr vi')"
  using Engine_Add_ok [OF engine_run_ok [OF assms(1)] assms(2-4)] by blast

theorem Add_total_witness:
  "\<exists>vi'. Engine_Add Map.empty (Engine_Reset sample_validators empty_vec_db) (sample_event 1 1) = Some (Inr vi')"
  by (rule Add_total [OF _ sample_addable _ sample_cap])
    (use run_reset [of "(sample_validators, 1)"] wf_sample_validators in simp_all)

text \<open>
  C8: the vector clocks implement the graph definition. In every run,
  \<^verbatim>\<open>forklessCause\<close> of two added events answers exactly whether the first sees no
  fork of the second's creator and observes that validators of at least the
  quorum, whose forks it does not see, observe the second.
\<close>

theorem forklessCause_refines:
  assumes "engine_run (vals, ep) vi G F" and "a \<in> dom G" and "b \<in> dom G"
  shows "forklessCause (InitBranchesInfo vi) a b = Inr (forkless_cause vals G a b)"
  using forklessCause_correct [OF engine_ok_init [OF engine_run_ok [OF assms(1)]]
      vi_bi_InitBranchesInfo assms(2,3)] .

theorem forklessCause_refines_witness:
  "\<exists>vi. Engine_Add Map.empty (Engine_Reset sample_validators empty_vec_db) (sample_event 1 1) = Some (Inr vi) \<and>
    forklessCause (InitBranchesInfo vi) 0 0 = Inr True"
proof -
  obtain vi where vi: "Engine_Add Map.empty (Engine_Reset sample_validators empty_vec_db) (sample_event 1 1) =
      Some (Inr vi)" "engine_run (sample_validators, 1) vi sample_graph Map.empty"
    by (rule sample_run)
  then show ?thesis
    using forklessCause_refines [OF vi(2), of 0 0] sample_forkless_cause by (auto simp: sample_graph_dom)
qed

text \<open>
  C9: fork exclusion, the property that \<^verbatim>\<open>ForklessCause\<close> exists for. Two nodes
  have added parts of one graph in which the validators with forks hold at most
  a third of the total weight. If one node finds that \<open>b1\<close> forkless-causes \<open>a1\<close>
  and the other that \<open>b2\<close> forkless-causes \<open>a2\<close>, and \<open>b1\<close>, \<open>b2\<close> have one creator,
  then they are not a fork: one is a self-ancestor of the other.
\<close>

theorem forklessCause_excludes_forks:
  assumes "valid_dag (vals, ep) G"
    and "3 * (\<Sum>i \<in> forking vals G. weight_at vals i) \<le> unat (TotalWeight vals)"
    and "engine_run (vals, ep) n1 G1 F1" and "G1 \<subseteq>\<^sub>m G"
    and "engine_run (vals, ep) n2 G2 F2" and "G2 \<subseteq>\<^sub>m G"
    and "a1 \<in> dom G1" and "b1 \<in> dom G1" and "a2 \<in> dom G2" and "b2 \<in> dom G2"
    and "forklessCause (InitBranchesInfo n1) a1 b1 = Inr True"
    and "forklessCause (InitBranchesInfo n2) a2 b2 = Inr True"
    and "creator_of G b1 = creator_of G b2"
  shows "self_ancestor G b1 b2 \<or> self_ancestor G b2 b1"
proof -
  note ok = engine_run_ok [OF assms(3)] engine_run_ok [OF assms(5)]
  have wf: "wf_validators vals" and valid: "valid_dag (vals, ep) G1" "valid_dag (vals, ep) G2"
    using ok by (auto simp: engine_ok_def)
  have "forkless_cause vals G1 a1 b1" "forkless_cause vals G2 a2 b2"
    using assms(11,12) forklessCause_correct [OF engine_ok_init [OF ok(1)] vi_bi_InitBranchesInfo assms(7,8)]
      forklessCause_correct [OF engine_ok_init [OF ok(2)] vi_bi_InitBranchesInfo assms(9,10)] by simp_all
  then have "forkless_cause vals G a1 b1" "forkless_cause vals G a2 b2"
    using forkless_cause_extend [OF valid(1) assms(4,7,8)] forkless_cause_extend [OF valid(2) assms(6,9,10)]
    by simp_all
  from fork_exclusion [OF assms(1) wf _ this assms(13)] assms(2) show ?thesis
    by (simp add: unat_TotalWeight [OF wf] sum_weight_at [OF wf])
qed

theorem forklessCause_excludes_forks_witness:
  "\<exists>vi. forklessCause (InitBranchesInfo vi) 0 0 = Inr True \<and>
    (self_ancestor sample_graph 0 0 \<or> self_ancestor sample_graph 0 0)"
proof -
  obtain vi where vi: "engine_run (sample_validators, 1) vi sample_graph Map.empty"
    by (rule sample_run)
  have fc: "forklessCause (InitBranchesInfo vi) 0 0 = Inr True"
    using forklessCause_correct [OF engine_ok_init [OF engine_run_ok [OF vi]] vi_bi_InitBranchesInfo]
      sample_forkless_cause by (simp add: sample_graph_dom)
  have valid: "valid_dag (sample_validators, 1) sample_graph"
    using engine_run_ok [OF vi] by (simp add: engine_ok_def)
  have none: "forking sample_validators sample_graph = {}"
    by (auto simp: forking_def has_fork_def sample_graph_dom(1))
  have "3 * (\<Sum>i \<in> forking sample_validators sample_graph. weight_at sample_validators i) \<le>
      unat (TotalWeight sample_validators)"
    by (simp add: none)
  from forklessCause_excludes_forks [OF valid this vi _ vi _ _ _ _ _ fc fc] fc show ?thesis
    by (auto simp: sample_graph_dom)
qed

text \<open>
  An answer of \<^verbatim>\<open>forklessCause\<close> never changes. Whatever events a node, or
  another node of the same epoch, adds, flushes or drops later, for two events
  that both have the answer is the same, so the results may be cached.
\<close>

theorem forklessCause_stable:
  assumes "engine_run (vals, ep) vi G F" and "engine_run (vals, ep) vi' G' F'"
    and "\<forall>x \<in> dom G \<inter> dom G'. G x = G' x"
    and "a \<in> dom G \<inter> dom G'" and "b \<in> dom G \<inter> dom G'"
  shows "forklessCause (InitBranchesInfo vi) a b = forklessCause (InitBranchesInfo vi') a b"
proof -
  note ok = engine_run_ok [OF assms(1)] engine_run_ok [OF assms(2)]
  have valid: "valid_dag (vals, ep) G" "valid_dag (vals, ep) G'" using ok by (auto simp: engine_ok_def)
  define H where "H = G |` dom G'"
  have le: "H \<subseteq>\<^sub>m G" "H \<subseteq>\<^sub>m G'"
    using assms(3) by (auto simp: H_def map_le_def restrict_map_def split: if_splits)
  have domH: "dom H = dom G \<inter> dom G'" by (auto simp: H_def)
  have "valid_dag (vals, ep) H"
    unfolding valid_dag_def
  proof (intro conjI allI impI)
    show "finite (dom H)" using valid(1) by (simp add: domH valid_dag_def)
    fix x e assume x: "H x = Some e"
    then have xG: "G x = Some e" "G' x = Some e" using le by (auto simp: map_le_def dom_def)
    show "ev_id e = x" using valid_dag_event(1) [OF valid(1) xG(1)] .
    show sub: "set (ev_parents e) \<subseteq> dom H"
      using valid_dag_event(2) [OF valid(1) xG(1)] valid_dag_event(2) [OF valid(2) xG(2)] by (simp add: domH)
    have "parents_of H (ev_parents e) = parents_of G (ev_parents e)"
      using sub le(1) by (auto simp: parents_of_def map_le_def intro!: arg_cong [where f = the])
    then show "Checkers_Validate (vals, ep) e (parents_of H (ev_parents e)) = None"
      using valid(1) xG(1) by (simp add: valid_dag_def)
  qed
  then have "forkless_cause vals G a b = forkless_cause vals G' a b"
    using forkless_cause_extend [OF _ le(1)] forkless_cause_extend [OF _ le(2)] assms(4,5)
    unfolding domH by metis
  then show ?thesis
    using forklessCause_correct [OF engine_ok_init [OF ok(1)] vi_bi_InitBranchesInfo]
      forklessCause_correct [OF engine_ok_init [OF ok(2)] vi_bi_InitBranchesInfo] assms(4,5) by simp
qed

theorem forklessCause_stable_witness:
  "\<exists>vi. Engine_Add Map.empty (Engine_Reset sample_validators empty_vec_db) (sample_event 1 1) = Some (Inr vi) \<and>
    forklessCause (InitBranchesInfo vi) 0 0 = forklessCause (InitBranchesInfo (Engine_Flush vi)) 0 0"
proof -
  obtain vi where vi: "Engine_Add Map.empty (Engine_Reset sample_validators empty_vec_db) (sample_event 1 1) =
      Some (Inr vi)" "engine_run (sample_validators, 1) vi sample_graph Map.empty"
    by (rule sample_run)
  show ?thesis
    using vi(1) forklessCause_stable [OF vi(2) run_flush [OF vi(2)], of 0 0] by (auto simp: sample_graph_dom)
qed

text \<open>
  C11: the merged vector of an event names exactly its cheaters. For every
  validator the fork marker stands in the merged vector if and only if the event
  observes two events of it with one sequence number; for the other validators
  the entry is the highest sequence number that the event observes.
\<close>

theorem merged_vector_cheaters:
  assumes "engine_run (vals, ep) vi G F" and "a \<in> dom G"
  shows "\<exists>m. GetMergedHighestBefore vi a = (InitBranchesInfo vi, Some m) \<and>
    (\<forall>v < Validators_Len vals.
      (HB_IsForkDetected m v \<longleftrightarrow> fork_seen G a (ids (vv_cache vals) ! v)) \<and>
      (\<not> fork_seen G a (ids (vv_cache vals) ! v) \<longrightarrow>
        unat (HB_Seq m v) = highest_seq G a (ids (vv_cache vals) ! v)))"
  using GetMergedHighestBefore_correct [OF engine_run_ok [OF assms(1)] assms(2)] .

theorem merged_vector_cheaters_witness:
  "\<exists>vi m. Engine_Add Map.empty (Engine_Reset sample_validators empty_vec_db) (sample_event 1 1) = Some (Inr vi) \<and>
    GetMergedHighestBefore vi 0 = (InitBranchesInfo vi, Some m) \<and>
    (HB_IsForkDetected m 0 \<longleftrightarrow> fork_seen sample_graph 0 1)"
proof -
  obtain vi where vi: "Engine_Add Map.empty (Engine_Reset sample_validators empty_vec_db) (sample_event 1 1) =
      Some (Inr vi)" "engine_run (sample_validators, 1) vi sample_graph Map.empty"
    by (rule sample_run)
  then show ?thesis
    using merged_vector_cheaters [OF vi(2), of 0] by (auto simp: sample_graph_dom sample_validators_simps)
qed

end
