(* ===== verification/Wlru.thy ===== *)
theory Wlru
  imports Prelude
begin

text \<open>
  The weighted LRU cache (\<^verbatim>\<open>utils/simplewlru\<close>) and its lock-protected wrapper
  (\<^verbatim>\<open>utils/wlru\<close>). The eviction list is a list of entries, the most recent first;
  the map \<^verbatim>\<open>items\<close> of the code points at the elements of that list by key, and every
  operation that changes one of them changes the other with it, so a look-up in it
  is a look-up in the list. The weights are Go's \<^verbatim>\<open>uint\<close> of 64 bits, which wrap.
  The entries passed to the eviction callback are returned as a list.
\<close>

section \<open>The cache\<close>

record ('k, 'v) lru_cache =
  lru_maxSize :: int
  lru_weight :: u64
  lru_maxWeight :: u64
  lru_evictList :: "('k \<times> 'v \<times> u64) list"

definition lru_NewWithEvict :: "u64 \<Rightarrow> int \<Rightarrow> ('k, 'v) lru_cache option" where
  "lru_NewWithEvict maxWeight maxSize =
    (if maxSize < 0 then None
     else Some \<lparr>lru_maxSize = maxSize, lru_weight = 0, lru_maxWeight = maxWeight, lru_evictList = []\<rparr>)"

definition lru_New :: "u64 \<Rightarrow> int \<Rightarrow> ('k, 'v) lru_cache option" where
  "lru_New maxWeight maxSize = lru_NewWithEvict maxWeight maxSize"

definition lru_Len :: "('k, 'v) lru_cache \<Rightarrow> int" where
  "lru_Len c = int (length (lru_evictList c))"

definition lru_item :: "('k, 'v) lru_cache \<Rightarrow> 'k \<Rightarrow> ('v \<times> u64) option" where
  "lru_item c key = map_of (lru_evictList c) key"

definition lru_Purge :: "('k, 'v) lru_cache \<Rightarrow> ('k, 'v) lru_cache \<times> ('k \<times> 'v) list" where
  "lru_Purge c =
    (c\<lparr>lru_weight := fold (\<lambda>(_, _, w) total. total - w) (lru_evictList c) (lru_weight c),
       lru_evictList := []\<rparr>,
     map (\<lambda>(k, v, _). (k, v)) (lru_evictList c))"

definition lru_unlink :: "'k \<Rightarrow> ('k \<times> 'v \<times> u64) list \<Rightarrow> ('k \<times> 'v \<times> u64) list" where
  "lru_unlink key xs = filter (\<lambda>(k, _). k \<noteq> key) xs"

definition lru_removeElement ::
  "('k, 'v) lru_cache \<Rightarrow> 'k \<times> 'v \<times> u64 \<Rightarrow> ('k, 'v) lru_cache \<times> ('k \<times> 'v) list" where
  "lru_removeElement c e =
    (case e of (key, val, w) \<Rightarrow>
       (c\<lparr>lru_evictList := lru_unlink key (lru_evictList c), lru_weight := lru_weight c - w\<rparr>, [(key, val)]))"

definition lru_removeOldest :: "('k, 'v) lru_cache \<Rightarrow> ('k, 'v) lru_cache \<times> ('k \<times> 'v) list" where
  "lru_removeOldest c =
    (if lru_evictList c = [] then (c, []) else lru_removeElement c (last (lru_evictList c)))"

definition lru_exceeds :: "('k, 'v) lru_cache \<Rightarrow> bool" where
  "lru_exceeds c = (lru_weight c > lru_maxWeight c \<or> lru_Len c > lru_maxSize c)"

partial_function (option) lru_normalize ::
  "('k, 'v) lru_cache \<Rightarrow> ('k \<times> 'v) list \<Rightarrow> (('k, 'v) lru_cache \<times> ('k \<times> 'v) list) option" where
  "lru_normalize c evicted =
    (if lru_exceeds c
     then lru_normalize (fst (lru_removeOldest c)) (evicted @ snd (lru_removeOldest c))
     else Some (c, evicted))"

definition lru_Add ::
  "('k, 'v) lru_cache \<Rightarrow> 'k \<Rightarrow> 'v \<Rightarrow> u64 \<Rightarrow> (('k, 'v) lru_cache \<times> ('k \<times> 'v) list) option" where
  "lru_Add c key val w =
    (case lru_item c key of
       Some (_, existing) \<Rightarrow>
         lru_normalize (c\<lparr>lru_evictList := (key, val, w) # lru_unlink key (lru_evictList c),
                          lru_weight := lru_weight c - existing + w\<rparr>) []
     | None \<Rightarrow>
         lru_normalize (c\<lparr>lru_evictList := (key, val, w) # lru_evictList c,
                          lru_weight := lru_weight c + w\<rparr>) [])"

definition lru_Get :: "('k, 'v) lru_cache \<Rightarrow> 'k \<Rightarrow> ('k, 'v) lru_cache \<times> 'v option" where
  "lru_Get c key =
    (case lru_item c key of
       Some (val, w) \<Rightarrow>
         (c\<lparr>lru_evictList := (key, val, w) # lru_unlink key (lru_evictList c)\<rparr>, Some val)
     | None \<Rightarrow> (c, None))"

definition lru_Contains :: "('k, 'v) lru_cache \<Rightarrow> 'k \<Rightarrow> bool" where
  "lru_Contains c key = (lru_item c key \<noteq> None)"

definition lru_Peek :: "('k, 'v) lru_cache \<Rightarrow> 'k \<Rightarrow> 'v option" where
  "lru_Peek c key = map_option fst (lru_item c key)"

definition lru_Remove :: "('k, 'v) lru_cache \<Rightarrow> 'k \<Rightarrow> ('k, 'v) lru_cache \<times> ('k \<times> 'v) list \<times> bool" where
  "lru_Remove c key =
    (case lru_item c key of
       Some (val, w) \<Rightarrow> (case lru_removeElement c (key, val, w) of (c1, evicted) \<Rightarrow> (c1, evicted, True))
     | None \<Rightarrow> (c, [], False))"

definition lru_RemoveOldest ::
  "('k, 'v) lru_cache \<Rightarrow> ('k, 'v) lru_cache \<times> ('k \<times> 'v) list \<times> ('k \<times> 'v) option" where
  "lru_RemoveOldest c =
    (if lru_evictList c = [] then (c, [], None)
     else let ent = last (lru_evictList c) in
       case lru_removeElement c ent of (c1, evicted) \<Rightarrow> (c1, evicted, Some (fst ent, fst (snd ent))))"

definition lru_GetOldest :: "('k, 'v) lru_cache \<Rightarrow> ('k \<times> 'v) option" where
  "lru_GetOldest c =
    (if lru_evictList c = [] then None
     else let ent = last (lru_evictList c) in Some (fst ent, fst (snd ent)))"

definition lru_Keys :: "('k, 'v) lru_cache \<Rightarrow> 'k list" where
  "lru_Keys c = map fst (rev (lru_evictList c))"

definition lru_Weight :: "('k, 'v) lru_cache \<Rightarrow> u64" where
  "lru_Weight c = lru_weight c"

definition lru_Total :: "('k, 'v) lru_cache \<Rightarrow> u64 \<times> int" where
  "lru_Total c = (lru_Weight c, lru_Len c)"

definition lru_Resize ::
  "('k, 'v) lru_cache \<Rightarrow> u64 \<Rightarrow> int \<Rightarrow> (('k, 'v) lru_cache \<times> ('k \<times> 'v) list) option" where
  "lru_Resize c maxWeight maxSize =
    lru_normalize (c\<lparr>lru_maxWeight := maxWeight, lru_maxSize := maxSize\<rparr>) []"

text \<open>The two compound operations that only the wrapper has; it holds its lock over both steps.\<close>

definition wlru_ContainsOrAdd ::
  "('k, 'v) lru_cache \<Rightarrow> 'k \<Rightarrow> 'v \<Rightarrow> u64 \<Rightarrow> (('k, 'v) lru_cache \<times> bool \<times> nat) option" where
  "wlru_ContainsOrAdd c key val w =
    (if lru_Contains c key then Some (c, True, 0)
     else map_option (\<lambda>(c1, evicted). (c1, False, length evicted)) (lru_Add c key val w))"

definition wlru_PeekOrAdd ::
  "('k, 'v) lru_cache \<Rightarrow> 'k \<Rightarrow> 'v \<Rightarrow> u64 \<Rightarrow> (('k, 'v) lru_cache \<times> 'v option \<times> nat) option" where
  "wlru_PeekOrAdd c key val w =
    (case lru_Peek c key of
       Some previous \<Rightarrow> Some (c, Some previous, 0)
     | None \<Rightarrow> map_option (\<lambda>(c1, evicted). (c1, None, length evicted)) (lru_Add c key val w))"

section \<open>Invariant\<close>

text \<open>
  Keys occur once and the counted weight is the wrapped sum of the weights. Both
  hold whatever weights are added; the sum need not fit into 64 bits.
\<close>

definition entries_weight :: "('k \<times> 'v \<times> u64) list \<Rightarrow> u64" where
  "entries_weight xs = (\<Sum>(_, _, w) \<leftarrow> xs. w)"

definition lru_linked :: "('k, 'v) lru_cache \<Rightarrow> bool" where
  "lru_linked c \<longleftrightarrow> distinct (map fst (lru_evictList c)) \<and> lru_weight c = entries_weight (lru_evictList c)"

definition lru_inv :: "('k, 'v) lru_cache \<Rightarrow> bool" where
  "lru_inv c \<longleftrightarrow> lru_linked c \<and> \<not> lru_exceeds c"

lemma entries_weight_simps [simp]:
  "entries_weight [] = 0" "entries_weight ((k, v, w) # xs) = w + entries_weight xs"
  "entries_weight (xs @ ys) = entries_weight xs + entries_weight ys"
  by (simp_all add: entries_weight_def)

lemma entries_weight_unlink:
  "distinct (map fst xs) \<Longrightarrow> map_of xs key = Some (v, w) \<Longrightarrow>
    entries_weight (lru_unlink key xs) = entries_weight xs - w"
proof (induction xs)
  case (Cons x xs)
  obtain k v' w' where x: "x = (k, v', w')" by (cases x)
  have "lru_unlink key xs = xs" if "key \<notin> fst ` set xs"
    using that unfolding lru_unlink_def by (intro filter_True) force
  with Cons x show ?case by (auto simp: lru_unlink_def)
qed simp

lemma unlink_last: "distinct (map fst (ys @ [(k, v, w)])) \<Longrightarrow> lru_unlink k (ys @ [(k, v, w)]) = ys"
  unfolding lru_unlink_def by (auto intro!: filter_True simp: image_iff)

lemma fst_set_unlink: "fst ` set (lru_unlink key xs) = fst ` set xs - {key}"
  by (auto simp: lru_unlink_def image_iff split: prod.splits)

lemma distinct_unlink: "distinct (map fst xs) \<Longrightarrow> distinct (map fst (lru_unlink key xs))"
  by (simp add: lru_unlink_def distinct_map_filter)

lemma map_of_unlink: "map_of (lru_unlink key xs) k = (if k = key then None else map_of xs k)"
  by (induction xs) (auto simp: lru_unlink_def)

section \<open>Normalizing\<close>

lemma removeOldest_snoc:
  assumes "lru_evictList c = ys @ [(k, v, w)]" and "lru_linked c"
  shows "lru_removeOldest c = (c\<lparr>lru_evictList := ys, lru_weight := entries_weight ys\<rparr>, [(k, v)])"
proof -
  have "lru_unlink k (ys @ [(k, v, w)]) = ys"
    using assms by (intro unlink_last) (simp add: lru_linked_def)
  then show ?thesis
    using assms by (simp add: lru_removeOldest_def lru_removeElement_def lru_linked_def)
qed

definition with_entries :: "('k, 'v) lru_cache \<Rightarrow> ('k \<times> 'v \<times> u64) list \<Rightarrow> ('k, 'v) lru_cache" where
  "with_entries c xs = c\<lparr>lru_evictList := xs, lru_weight := entries_weight xs\<rparr>"

lemma with_entries_simps [simp]:
  "lru_evictList (with_entries c xs) = xs" "lru_maxSize (with_entries c xs) = lru_maxSize c"
  "lru_maxWeight (with_entries c xs) = lru_maxWeight c" "lru_weight (with_entries c xs) = entries_weight xs"
  "with_entries (with_entries c ys) xs = with_entries c xs"
  by (simp_all add: with_entries_def)

lemma linked_with_entries: "lru_linked (with_entries c xs) \<longleftrightarrow> distinct (map fst xs)"
  by (simp add: lru_linked_def)

lemma with_entries_id: "lru_linked c \<Longrightarrow> with_entries c (lru_evictList c) = c"
  by (simp add: with_entries_def lru_linked_def)

text \<open>
  Normalizing ends and keeps the longest prefix of the list, that is the most
  recent entries, that respects both limits.
\<close>

lemma normalize_prefix:
  assumes "0 \<le> lru_maxSize c" and "lru_linked c"
  shows "\<exists>n \<le> length (lru_evictList c).
    lru_normalize c ev = Some (with_entries c (take n (lru_evictList c)),
      ev @ rev (map (\<lambda>(k, v, _). (k, v)) (drop n (lru_evictList c)))) \<and>
    \<not> lru_exceeds (with_entries c (take n (lru_evictList c))) \<and>
    (\<forall>m. n < m \<and> m \<le> length (lru_evictList c) \<longrightarrow> lru_exceeds (with_entries c (take m (lru_evictList c))))"
  using assms
proof (induction "lru_evictList c" arbitrary: c ev rule: rev_induct)
  case Nil
  then have "\<not> lru_exceeds c" by (simp add: lru_exceeds_def lru_Len_def lru_linked_def)
  with Nil show ?case by (simp add: lru_normalize.simps [of c] with_entries_id [of c, simplified Nil(1) [symmetric]])
next
  case (snoc x xs)
  obtain k v w where x: "x = (k, v, w)" by (cases x)
  show ?case
  proof (cases "lru_exceeds c")
    case False
    then show ?thesis
      using snoc.prems by (intro exI [of _ "length (lru_evictList c)"])
        (simp add: lru_normalize.simps [of c] with_entries_id)
  next
    case True
    have list: "lru_evictList c = xs @ [(k, v, w)]" using snoc.hyps(2) x by simp
    have step: "lru_removeOldest c = (with_entries c xs, [(k, v)])"
      using removeOldest_snoc [OF list snoc.prems(2)] by (simp add: with_entries_def)
    have linked: "lru_linked (with_entries c xs)"
      using snoc.prems(2) list by (simp add: lru_linked_def)
    from snoc.hyps(1) [of "with_entries c xs" "ev @ [(k, v)]"] snoc.prems(1) linked
    obtain n where n: "n \<le> length xs"
      "lru_normalize (with_entries c xs) (ev @ [(k, v)]) = Some (with_entries c (take n xs),
        ev @ [(k, v)] @ rev (map (\<lambda>(k, v, _). (k, v)) (drop n xs)))"
      "\<not> lru_exceeds (with_entries c (take n xs))"
      "\<forall>m. n < m \<and> m \<le> length xs \<longrightarrow> lru_exceeds (with_entries c (take m xs))"
      by auto
    have whole: "lru_exceeds (with_entries c (take m (xs @ [(k, v, w)])))" if "m = Suc (length xs)" for m
      using True with_entries_id [OF snoc.prems(2)] that list by simp
    show ?thesis
      unfolding list
    proof (intro exI [of _ n] conjI allI impI)
      show "lru_normalize c ev = Some (with_entries c (take n (xs @ [(k, v, w)])),
          ev @ rev (map (\<lambda>(k, v, _). (k, v)) (drop n (xs @ [(k, v, w)]))))"
        using n(1,2) True step by (simp add: lru_normalize.simps [of c])
      fix m assume m: "n < m \<and> m \<le> length (xs @ [(k, v, w)])"
      show "lru_exceeds (with_entries c (take m (xs @ [(k, v, w)])))"
      proof (cases "m \<le> length xs")
        case True
        then show ?thesis using n(4) m by simp
      next
        case False
        then show ?thesis using m by (intro whole) simp
      qed
    qed (use n in simp_all)
  qed
qed

lemma normalize_inv:
  assumes "0 \<le> lru_maxSize c" and "lru_linked c"
  obtains c' ev' where "lru_normalize c ev = Some (c', ev')" "lru_inv c'"
    "lru_maxSize c' = lru_maxSize c" "lru_maxWeight c' = lru_maxWeight c"
    "\<And>k e. map_of (lru_evictList c') k = Some e \<Longrightarrow> map_of (lru_evictList c) k = Some e"
proof -
  from normalize_prefix [OF assms, of ev]
  obtain n ev' where n: "lru_normalize c ev = Some (with_entries c (take n (lru_evictList c)), ev')"
    "\<not> lru_exceeds (with_entries c (take n (lru_evictList c)))" by auto
  have dist: "distinct (map fst (lru_evictList c))" using assms(2) by (simp add: lru_linked_def)
  have "distinct (map fst (take n (lru_evictList c)))" using dist by (simp add: take_map [symmetric])
  then have "lru_inv (with_entries c (take n (lru_evictList c)))"
    using n(2) by (simp add: lru_inv_def linked_with_entries)
  moreover have "map_of (lru_evictList c) k = Some e" if "map_of (take n (lru_evictList c)) k = Some e" for k e
    using that dist by (metis in_set_takeD map_of_SomeD map_of_is_SomeI)
  ultimately show thesis using n(1) by (intro that [OF n(1)]) simp_all
qed

text \<open>With a negative limit, which only \<^verbatim>\<open>Resize\<close> lets through, the loop never ends.\<close>

lemma normalize_negative: "lru_maxSize c < 0 \<Longrightarrow> lru_normalize c ev = None"
proof -
  have "0 \<le> lru_maxSize c" if "lru_normalize c ev = Some r" for r
    using that
  proof (rule lru_normalize.raw_induct [rotated])
    fix f :: "('a, 'b) lru_cache \<Rightarrow> ('a \<times> 'b) list \<Rightarrow> (('a, 'b) lru_cache \<times> ('a \<times> 'b) list) option"
      and c ev r
    assume IH: "\<And>c ev r. f c ev = Some r \<Longrightarrow> 0 \<le> lru_maxSize c"
      and step: "(if lru_exceeds c then f (fst (lru_removeOldest c)) (ev @ snd (lru_removeOldest c))
        else Some (c, ev)) = Some r"
    have "lru_maxSize (fst (lru_removeOldest c)) = lru_maxSize c"
      by (simp add: lru_removeOldest_def lru_removeElement_def split: prod.split)
    with IH [of "fst (lru_removeOldest c)"] step show "0 \<le> lru_maxSize c"
      by (auto simp: lru_exceeds_def lru_Len_def split: if_splits)
  qed
  then show "lru_maxSize c < 0 \<Longrightarrow> lru_normalize c ev = None"
    by (cases "lru_normalize c ev") (auto simp: not_le [symmetric])
qed

section \<open>Operations\<close>

lemma inv_maxSize: "lru_inv c \<Longrightarrow> 0 \<le> lru_maxSize c"
  by (simp add: lru_inv_def lru_exceeds_def lru_Len_def)

definition lru_touched :: "('k, 'v) lru_cache \<Rightarrow> 'k \<Rightarrow> 'v \<Rightarrow> u64 \<Rightarrow> ('k \<times> 'v \<times> u64) list" where
  "lru_touched c key val w = (key, val, w) # lru_unlink key (lru_evictList c)"

lemma unlink_absent: "map_of xs key = None \<Longrightarrow> lru_unlink key xs = xs"
  unfolding lru_unlink_def by (intro filter_True) (force simp: map_of_eq_None_iff)

lemma linked_touched: "lru_linked c \<Longrightarrow> distinct (map fst (lru_touched c key val w))"
  unfolding lru_touched_def lru_linked_def using fst_set_unlink [of key "lru_evictList c"]
  by (simp add: distinct_unlink)

lemma Add_normalize:
  assumes "lru_linked c"
  shows "lru_Add c key val w = lru_normalize (with_entries c (lru_touched c key val w)) []"
proof (cases "lru_item c key")
  case None
  then show ?thesis
    using assms by (simp add: lru_Add_def lru_touched_def with_entries_def lru_item_def unlink_absent
        lru_linked_def add.commute)
next
  case (Some e)
  obtain v existing where e: "e = (v, existing)" by (cases e)
  have "entries_weight (lru_unlink key (lru_evictList c)) = lru_weight c - existing"
    using entries_weight_unlink [of "lru_evictList c" key v existing] assms Some e
    by (simp add: lru_linked_def lru_item_def)
  then show ?thesis
    using Some e by (simp add: lru_Add_def lru_touched_def with_entries_def add.commute)
qed

lemma map_of_touched:
  "map_of (lru_touched c key val w) k = (if k = key then Some (val, w) else lru_item c k)"
  by (simp add: lru_touched_def map_of_unlink lru_item_def)

lemma Add_inv:
  assumes "lru_inv c"
  obtains c' ev where "lru_Add c key val w = Some (c', ev)" "lru_inv c'"
    "\<And>k v. lru_Peek c' k = Some v \<Longrightarrow> (if k = key then v = val else lru_Peek c k = Some v)"
proof -
  have linked: "lru_linked c" using assms by (simp add: lru_inv_def)
  have pre: "0 \<le> lru_maxSize (with_entries c (lru_touched c key val w))"
    "lru_linked (with_entries c (lru_touched c key val w))"
    using inv_maxSize [OF assms] linked_touched [OF linked] by (simp_all add: linked_with_entries)
  obtain c' ev where c': "lru_normalize (with_entries c (lru_touched c key val w)) [] = Some (c', ev)" "lru_inv c'"
    "\<And>k e. map_of (lru_evictList c') k = Some e \<Longrightarrow>
      map_of (lru_evictList (with_entries c (lru_touched c key val w))) k = Some e"
    by (rule normalize_inv [OF pre, of "[]"]) blast
  show thesis
  proof (rule that [of c' ev])
    show "lru_Add c key val w = Some (c', ev)" using c'(1) Add_normalize [OF linked] by simp
    fix k v assume "lru_Peek c' k = Some v"
    then obtain w' where "map_of (lru_evictList c') k = Some (v, w')" by (auto simp: lru_Peek_def lru_item_def)
    from c'(3) [OF this, simplified with_entries_simps] show "if k = key then v = val else lru_Peek c k = Some v"
      by (auto simp: map_of_touched lru_Peek_def split: if_splits)
  qed (rule c'(2))
qed

lemma Get_inv:
  assumes "lru_inv c"
  shows "lru_inv (fst (lru_Get c key))" "lru_Peek (fst (lru_Get c key)) = lru_Peek c"
    "snd (lru_Get c key) = lru_Peek c key"
proof -
  show "snd (lru_Get c key) = lru_Peek c key"
    by (simp add: lru_Get_def lru_Peek_def split: option.split prod.split)
  have "lru_inv (fst (lru_Get c key)) \<and> lru_Peek (fst (lru_Get c key)) = lru_Peek c"
  proof (cases "lru_item c key")
    case (Some e)
    obtain v w where e: "e = (v, w)" by (cases e)
    have linked: "lru_linked c" using assms by (simp add: lru_inv_def)
    have wt: "entries_weight (lru_touched c key v w) = lru_weight c"
      using entries_weight_unlink [of "lru_evictList c" key v w] linked Some e
      by (simp add: lru_touched_def lru_linked_def lru_item_def)
    have perm: "set (map fst (lru_touched c key v w)) = set (map fst (lru_evictList c))"
      using Some e fst_set_unlink [of key "lru_evictList c"]
      by (auto simp: lru_touched_def lru_item_def dest: map_of_SomeD intro: rev_image_eqI)
    have "length (lru_touched c key v w) = length (lru_evictList c)"
      using perm linked linked_touched [OF linked, of key v w] unfolding lru_linked_def
      by (metis distinct_card length_map)
    moreover have "lru_Peek (c\<lparr>lru_evictList := lru_touched c key v w\<rparr>) = lru_Peek c"
      using Some e map_of_touched [of c key v w] by (auto simp: lru_Peek_def lru_item_def)
    ultimately show ?thesis
      using assms Some e wt linked_touched [OF linked, of key v w]
      by (auto simp: lru_Get_def lru_inv_def lru_linked_def lru_exceeds_def lru_Len_def
          lru_touched_def [symmetric])
  qed (use assms in \<open>simp add: lru_Get_def\<close>)
  then show "lru_inv (fst (lru_Get c key))" "lru_Peek (fst (lru_Get c key)) = lru_Peek c" by simp_all
qed

lemma Purge_inv:
  assumes "lru_inv c"
  shows "lru_inv (fst (lru_Purge c))" "lru_Peek (fst (lru_Purge c)) k = None"
proof -
  have "fold (\<lambda>(_, _, w) total. total - w) xs t = t - entries_weight xs" for xs :: "('a \<times> 'b \<times> u64) list" and t
    by (induction xs arbitrary: t) (auto simp: algebra_simps)
  then show "lru_inv (fst (lru_Purge c))"
    using assms by (simp add: lru_Purge_def lru_inv_def lru_linked_def lru_exceeds_def lru_Len_def)
qed (simp add: lru_Purge_def lru_Peek_def lru_item_def)

lemma New_inv: "lru_New mw ms = Some c \<Longrightarrow> lru_inv c \<and> lru_Peek c k = None"
  by (auto simp: lru_New_def lru_NewWithEvict_def lru_inv_def lru_linked_def lru_exceeds_def lru_Len_def
      lru_Peek_def lru_item_def split: if_splits)

section \<open>Caches as an interface\<close>

text \<open>
  What the readers of the code rely on: an entry that a cache returns was added
  for its key and not replaced since. A cache in front of a table stays coherent
  with it when reads fill it from the table and writes go to both.
\<close>

locale read_cache =
  fixes peek :: "'c \<Rightarrow> 'k \<Rightarrow> 'v option"
    and get :: "'c \<Rightarrow> 'k \<Rightarrow> 'c \<times> 'v option"
    and add :: "'c \<Rightarrow> 'k \<Rightarrow> 'v \<Rightarrow> 'w \<Rightarrow> ('c \<times> 'e) option"
    and purge :: "'c \<Rightarrow> 'c"
    and good :: "'c \<Rightarrow> bool"
  assumes get_good: "good c \<Longrightarrow> good (fst (get c k))"
    and get_peek: "good c \<Longrightarrow> peek (fst (get c k)) = peek c"
    and get_result: "good c \<Longrightarrow> snd (get c k) = peek c k"
    and add_total: "good c \<Longrightarrow> \<exists>c' e. add c k v w = Some (c', e)"
    and add_good: "good c \<Longrightarrow> add c k v w = Some (c', e) \<Longrightarrow> good c'"
    and add_peek: "good c \<Longrightarrow> add c k v w = Some (c', e) \<Longrightarrow> peek c' k' = Some v' \<Longrightarrow>
      (if k' = k then v' = v else peek c k' = Some v')"
    and purge_good: "good c \<Longrightarrow> good (purge c)"
    and purge_peek: "good c \<Longrightarrow> peek (purge c) k = None"
begin

definition coherent :: "'c \<Rightarrow> ('k \<rightharpoonup> 'v) \<Rightarrow> bool" where
  "coherent c m \<longleftrightarrow> good c \<and> (\<forall>k v. peek c k = Some v \<longrightarrow> m k = Some v)"

definition put :: "'c \<Rightarrow> 'k \<Rightarrow> 'v \<Rightarrow> 'w \<Rightarrow> 'c" where
  "put c k v w = (case add c k v w of None \<Rightarrow> c | Some (c', _) \<Rightarrow> c')"

lemma put_coherent: "coherent c m \<Longrightarrow> coherent (put c k v w) (m(k \<mapsto> v))"
  using add_total [of c k v w] add_good [of c k v w] add_peek [of c k v w]
  by (fastforce simp: coherent_def put_def split: if_splits)

lemma fill_coherent: "coherent c m \<Longrightarrow> m k = Some v \<Longrightarrow> coherent (put c k v w) m"
  using put_coherent [of c m k v w] by (simp add: fun_upd_idem)

lemma get_coherent:
  "coherent c m \<Longrightarrow> coherent (fst (get c k)) m"
  "coherent c m \<Longrightarrow> snd (get c k) = Some v \<Longrightarrow> m k = Some v"
  by (simp_all add: coherent_def get_good get_peek get_result)

lemma purge_coherent: "coherent c m \<Longrightarrow> coherent (purge c) m'"
  by (simp add: coherent_def purge_good purge_peek)

lemma extend_coherent: "coherent c m \<Longrightarrow> m \<subseteq>\<^sub>m m' \<Longrightarrow> coherent c m'"
  by (auto simp: coherent_def map_le_def dom_def)

end

interpretation lru: read_cache lru_Peek lru_Get lru_Add "\<lambda>c. fst (lru_Purge c)" lru_inv
proof
  fix c :: "('k, 'v) lru_cache" and k v w assume c: "lru_inv c"
  from Add_inv [OF c] show "\<exists>c' e. lru_Add c k v w = Some (c', e)" by metis
next
  fix c :: "('k, 'v) lru_cache" and k v w c' e assume "lru_inv c" "lru_Add c k v w = Some (c', e)"
  with Add_inv [of c k v w] show "lru_inv c'" by (metis option.inject prod.inject)
next
  fix c :: "('k, 'v) lru_cache" and k v w c' e k' v'
  assume "lru_inv c" "lru_Add c k v w = Some (c', e)" "lru_Peek c' k' = Some v'"
  with Add_inv [of c k v w] show "if k' = k then v' = v else lru_Peek c k' = Some v'"
    by (metis (no_types, lifting) option.inject prod.inject)
qed (simp_all add: Get_inv Purge_inv)

section \<open>Properties\<close>

text \<open>
  C37: \<^verbatim>\<open>Add\<close> of the weighted LRU cache always ends, respects both limits and evicts
  exactly the least recently used entries that have to go: the cache afterwards
  is the longest prefix of the new entry followed by the older ones, in order of
  use, that fits; the evicted entries are reported from the oldest on. This holds
  for all weights, also when their sum wraps.
\<close>

theorem lru_Add_keeps_most_recent:
  assumes "lru_inv c"
  shows "\<exists>n c' evicted. lru_Add c key val w = Some (c', evicted) \<and> lru_inv c' \<and>
    lru_evictList c' = take n (lru_touched c key val w) \<and>
    evicted = rev (map (\<lambda>(k, v, _). (k, v)) (drop n (lru_touched c key val w))) \<and>
    (\<forall>m. n < m \<and> m \<le> length (lru_touched c key val w) \<longrightarrow>
      lru_exceeds (with_entries c (take m (lru_touched c key val w))))"
proof -
  have linked: "lru_linked c" using assms by (simp add: lru_inv_def)
  let ?c = "with_entries c (lru_touched c key val w)"
  have dist: "distinct (map fst (lru_touched c key val w))" by (rule linked_touched [OF linked])
  have "0 \<le> lru_maxSize ?c" "lru_linked ?c"
    using inv_maxSize [OF assms] dist by (simp_all add: linked_with_entries)
  from normalize_prefix [OF this, of "[]"] obtain n where n:
    "lru_normalize ?c [] = Some (with_entries c (take n (lru_touched c key val w)),
      rev (map (\<lambda>(k, v, _). (k, v)) (drop n (lru_touched c key val w))))"
    "\<not> lru_exceeds (with_entries c (take n (lru_touched c key val w)))"
    "\<forall>m. n < m \<and> m \<le> length (lru_touched c key val w) \<longrightarrow>
      lru_exceeds (with_entries c (take m (lru_touched c key val w)))"
    by auto
  have "distinct (map fst (take n (lru_touched c key val w)))" using dist by (simp add: take_map [symmetric])
  then have "lru_inv (with_entries c (take n (lru_touched c key val w)))"
    using n(2) by (simp add: lru_inv_def linked_with_entries)
  with n Add_normalize [OF linked, of key val w] show ?thesis by auto
qed

definition sample_cache :: "(nat, nat) lru_cache" where
  "sample_cache = \<lparr>lru_maxSize = 2, lru_weight = 3, lru_maxWeight = 3, lru_evictList = [(1, 10, 2), (2, 20, 1)]\<rparr>"

lemma sample_cache_inv: "lru_inv sample_cache"
  by (simp add: sample_cache_def lru_inv_def lru_linked_def lru_exceeds_def lru_Len_def)

theorem lru_Add_keeps_most_recent_witness:
  "\<exists>n c' evicted. lru_Add sample_cache 3 30 1 = Some (c', evicted) \<and>
    lru_evictList c' = take n [(3, 30, 1), (1, 10, 2), (2, 20, 1)]"
  using lru_Add_keeps_most_recent [OF sample_cache_inv, of 3 30 1]
  by (auto simp: lru_touched_def lru_unlink_def sample_cache_def)

text \<open>
  C38: \<^verbatim>\<open>Resize\<close> ends if and only if the new size is not negative. The constructors
  refuse a negative size, \<^verbatim>\<open>Resize\<close> accepts it and then loops on the empty list.
\<close>

theorem lru_Resize_diverges_iff:
  assumes "lru_linked c"
  shows "lru_Resize c maxWeight maxSize = None \<longleftrightarrow> maxSize < 0"
proof -
  let ?c = "c\<lparr>lru_maxWeight := maxWeight, lru_maxSize := maxSize\<rparr>"
  have "lru_linked ?c" using assms by (simp add: lru_linked_def)
  then have "\<exists>r. lru_normalize ?c [] = Some r" if "0 \<le> maxSize"
    using normalize_prefix [of ?c "[]"] that by auto
  then show ?thesis
    using normalize_negative [of ?c "[]"] by (force simp: lru_Resize_def)
qed

theorem lru_Resize_diverges_iff_witness:
  "lru_linked sample_cache \<and> (lru_Resize sample_cache 1 (- 1) = None \<longleftrightarrow> (- 1 :: int) < 0)"
  using lru_Resize_diverges_iff [of sample_cache 1 "- 1"] sample_cache_inv by (simp add: lru_inv_def)

end
