(* ===== verification/Vec_Index.thy ===== *)
theory Vec_Index
  imports Vec_Properties Wlru
begin

text \<open>
  The index of \<^verbatim>\<open>vecfc\<close>: the vector engine with its three caches. The caches of the
  vectors stand in front of the tables; the cache of \<^verbatim>\<open>ForklessCause\<close> keeps answers,
  also over \<^verbatim>\<open>DropNotFlushed\<close>, which purges only the other two. The outer option of
  an operation is None when a cache does not return.
\<close>

section \<open>The index\<close>

record Index =
  ix_engine :: Engine
  ix_HighestBeforeSeq :: "(hash_event, HighestBeforeSeq) lru_cache"
  ix_LowestAfterSeq :: "(hash_event, LowestAfterSeq) lru_cache"
  ix_ForklessCause :: "(hash_event \<times> hash_event, bool) lru_cache"

definition Index_GetLowestAfter :: "Index \<Rightarrow> hash_event \<Rightarrow> (Index \<times> LowestAfterSeq option) option" where
  "Index_GetLowestAfter vi i =
    (case lru_Get (ix_LowestAfterSeq vi) i of
       (c, Some bVal) \<Rightarrow> Some (vi\<lparr>ix_LowestAfterSeq := c\<rparr>, Some bVal)
     | (c, None) \<Rightarrow>
         (case GetLowestAfter (vecDb (ix_engine vi)) i of
            None \<Rightarrow> Some (vi\<lparr>ix_LowestAfterSeq := c\<rparr>, None)
          | Some b \<Rightarrow>
              (case lru_Add c i b (of_nat (length b)) of
                 None \<Rightarrow> None
               | Some (c1, _) \<Rightarrow> Some (vi\<lparr>ix_LowestAfterSeq := c1\<rparr>, Some b))))"

definition Index_GetHighestBefore :: "Index \<Rightarrow> hash_event \<Rightarrow> (Index \<times> HighestBeforeSeq option) option" where
  "Index_GetHighestBefore vi i =
    (case lru_Get (ix_HighestBeforeSeq vi) i of
       (c, Some bVal) \<Rightarrow> Some (vi\<lparr>ix_HighestBeforeSeq := c\<rparr>, Some bVal)
     | (c, None) \<Rightarrow>
         (case GetHighestBefore (vecDb (ix_engine vi)) i of
            None \<Rightarrow> Some (vi\<lparr>ix_HighestBeforeSeq := c\<rparr>, None)
          | Some b \<Rightarrow>
              (case lru_Add c i b (of_nat (length b)) of
                 None \<Rightarrow> None
               | Some (c1, _) \<Rightarrow> Some (vi\<lparr>ix_HighestBeforeSeq := c1\<rparr>, Some b))))"

definition Index_SetLowestAfter :: "Index \<Rightarrow> hash_event \<Rightarrow> LowestAfterSeq \<Rightarrow> Index option" where
  "Index_SetLowestAfter vi i seq =
    (case lru_Add (ix_LowestAfterSeq vi) i seq (of_nat (length seq)) of
       None \<Rightarrow> None
     | Some (c, _) \<Rightarrow>
         Some (vi\<lparr>ix_engine := (ix_engine vi)\<lparr>vecDb := SetLowestAfter (vecDb (ix_engine vi)) i seq\<rparr>,
                  ix_LowestAfterSeq := c\<rparr>))"

definition Index_SetHighestBefore :: "Index \<Rightarrow> hash_event \<Rightarrow> HighestBeforeSeq \<Rightarrow> Index option" where
  "Index_SetHighestBefore vi i seq =
    (case lru_Add (ix_HighestBeforeSeq vi) i seq (of_nat (length seq)) of
       None \<Rightarrow> None
     | Some (c, _) \<Rightarrow>
         Some (vi\<lparr>ix_engine := (ix_engine vi)\<lparr>vecDb := SetHighestBefore (vecDb (ix_engine vi)) i seq\<rparr>,
                  ix_HighestBeforeSeq := c\<rparr>))"

definition onDropNotFlushed :: "Index \<Rightarrow> Index" where
  "onDropNotFlushed vi =
    vi\<lparr>ix_HighestBeforeSeq := fst (lru_Purge (ix_HighestBeforeSeq vi)),
       ix_LowestAfterSeq := fst (lru_Purge (ix_LowestAfterSeq vi))\<rparr>"

definition Index_Reset :: "Index \<Rightarrow> Validators \<Rightarrow> vec_db \<Rightarrow> Index" where
  "Index_Reset vi validators db =
    onDropNotFlushed
      (vi\<lparr>ix_engine := Engine_Reset validators db,
          ix_ForklessCause := fst (lru_Purge (ix_ForklessCause vi))\<rparr>)"

text \<open>The number of pairs that are not flushed is the answer of the flushable wrapper.\<close>

definition Index_DropNotFlushed :: "nat \<Rightarrow> Index \<Rightarrow> Index" where
  "Index_DropNotFlushed notFlushedPairs vi =
    (if notFlushedPairs \<noteq> 0
     then onDropNotFlushed (vi\<lparr>ix_engine := Engine_DropNotFlushed (ix_engine vi)\<rparr>)
     else vi\<lparr>ix_engine := (ix_engine vi)\<lparr>vi_bi := None\<rparr>\<rparr>)"

definition ForklessCause :: "Index \<Rightarrow> hash_event \<Rightarrow> hash_event \<Rightarrow> (vec_error + Index \<times> bool) option" where
  "ForklessCause vi aID bID =
    (case lru_Get (ix_ForklessCause vi) (aID, bID) of
       (c, Some res) \<Rightarrow> Some (Inr (vi\<lparr>ix_ForklessCause := c\<rparr>, res))
     | (c, None) \<Rightarrow>
         let vi1 = vi\<lparr>ix_engine := InitBranchesInfo (ix_engine vi)\<rparr> in
         (case forklessCause (ix_engine vi1) aID bID of
            Inl err \<Rightarrow> Some (Inl err)
          | Inr res \<Rightarrow>
              (case lru_Add c (aID, bID) res 1 of
                 None \<Rightarrow> None
               | Some (c1, _) \<Rightarrow> Some (Inr (vi1\<lparr>ix_ForklessCause := c1\<rparr>, res)))))"

section \<open>Coherence of the caches\<close>

text \<open>
  The answers are kept for pairs of events of a graph \<open>U\<close> that contains every event
  the node adds in the epoch, also those dropped again: identifiers name contents.
\<close>

definition answers :: "Validators \<Rightarrow> dag \<Rightarrow> hash_event \<times> hash_event \<Rightarrow> bool option" where
  "answers vals U = (\<lambda>(a, b). if a \<in> dom U \<and> b \<in> dom U then Some (forkless_cause vals U a b) else None)"

definition vectors_coherent :: "Index \<Rightarrow> bool" where
  "vectors_coherent vi \<longleftrightarrow>
    lru.coherent (ix_HighestBeforeSeq vi) (HighestBeforeTable (vecDb (ix_engine vi))) \<and>
    lru.coherent (ix_LowestAfterSeq vi) (LowestAfterTable (vecDb (ix_engine vi)))"

text \<open>
  The steps of a node in one epoch. During \<^verbatim>\<open>Add\<close> the engine reads and writes the
  vectors through the caches many times; the step allows any coherent caches
  afterwards, which the accessors below guarantee one by one.
\<close>

inductive index_run :: "dag \<Rightarrow> Validators \<times> Epoch \<Rightarrow> Index \<Rightarrow> dag \<Rightarrow> dag \<Rightarrow> bool" for U reader where
  index_reset: "wf_validators (fst reader) \<Longrightarrow> lru_inv (ix_HighestBeforeSeq vi) \<Longrightarrow>
    lru_inv (ix_LowestAfterSeq vi) \<Longrightarrow> lru_inv (ix_ForklessCause vi) \<Longrightarrow>
    index_run U reader (Index_Reset vi (fst reader) empty_vec_db) Map.empty Map.empty"
| index_add: "index_run U reader vi G F \<Longrightarrow> addable reader G e \<Longrightarrow> U (ev_id e) = Some e \<Longrightarrow>
    \<forall>x \<in> dom G. getEvent x = G x \<Longrightarrow> below_cap (ix_engine vi) e \<Longrightarrow>
    Engine_Add getEvent (ix_engine vi) e = Some (Inr vi') \<Longrightarrow>
    lru.coherent hb (HighestBeforeTable (vecDb vi')) \<Longrightarrow> lru.coherent la (LowestAfterTable (vecDb vi')) \<Longrightarrow>
    index_run U reader (vi\<lparr>ix_engine := vi', ix_HighestBeforeSeq := hb, ix_LowestAfterSeq := la\<rparr>) (add_event G e) F"
| index_flush: "index_run U reader vi G F \<Longrightarrow>
    index_run U reader (vi\<lparr>ix_engine := Engine_Flush (ix_engine vi)\<rparr>) G G"
| index_drop: "index_run U reader vi G F \<Longrightarrow>
    (notFlushedPairs = 0 \<longrightarrow> vecDb (ix_engine vi) = flushedDb (ix_engine vi)) \<Longrightarrow>
    index_run U reader (Index_DropNotFlushed notFlushedPairs vi) F F"
| index_ask: "index_run U reader vi G F \<Longrightarrow> a \<in> dom G \<Longrightarrow> b \<in> dom G \<Longrightarrow>
    ForklessCause vi a b = Some (Inr (vi', res)) \<Longrightarrow> index_run U reader vi' G F"

definition index_ok :: "dag \<Rightarrow> Validators \<times> Epoch \<Rightarrow> Index \<Rightarrow> dag \<Rightarrow> dag \<Rightarrow> bool" where
  "index_ok U reader vi G F \<longleftrightarrow>
    engine_ok reader (ix_engine vi) G F \<and> vectors_coherent vi \<and> G \<subseteq>\<^sub>m U \<and> F \<subseteq>\<^sub>m U \<and>
    lru.coherent (ix_ForklessCause vi) (answers (fst reader) U)"

lemma coherent_empty: "lru_inv c \<Longrightarrow> lru.coherent (fst (lru_Purge c)) m"
  by (simp add: lru.coherent_def Purge_inv)

lemma put_Add: "lru_inv c \<Longrightarrow> \<exists>e. lru_Add c k v w = Some (lru.put c k v w, e)"
  using lru.add_total [of c k v w] by (auto simp: lru.put_def)

lemma Index_GetLowestAfter_coherent:
  assumes "vectors_coherent vi"
  shows "\<exists>vi'. Index_GetLowestAfter vi i = Some (vi', GetLowestAfter (vecDb (ix_engine vi)) i) \<and>
    vectors_coherent vi' \<and> ix_engine vi' = ix_engine vi"
proof -
  let ?c = "fst (lru_Get (ix_LowestAfterSeq vi) i)" and ?m = "LowestAfterTable (vecDb (ix_engine vi))"
  have coh: "lru.coherent (ix_LowestAfterSeq vi) ?m" using assms by (simp add: vectors_coherent_def)
  have c: "lru.coherent ?c ?m" "lru_inv ?c" using lru.get_coherent(1) [OF coh, of i] by (auto simp: lru.coherent_def)
  show ?thesis
  proof (cases "lru_Get (ix_LowestAfterSeq vi) i")
    case (Pair c' o')
    note hit = lru.get_coherent(2) [OF coh, of i, unfolded Pair snd_conv]
    show ?thesis
    proof (cases o')
      case (Some b)
      with Pair hit [of b] assms c show ?thesis
        by (simp add: Index_GetLowestAfter_def GetLowestAfter_def vectors_coherent_def)
    next
      case None
      note miss = None
      show ?thesis
      proof (cases "?m i")
        case None
        with Pair miss assms c show ?thesis
          by (simp add: Index_GetLowestAfter_def GetLowestAfter_def vectors_coherent_def)
      next
        case (Some b)
        from put_Add [OF c(2), of i b "of_nat (length b)"] obtain e where
          "lru_Add ?c i b (of_nat (length b)) = Some (lru.put ?c i b (of_nat (length b)), e)" ..
        with Pair miss Some assms lru.fill_coherent [OF c(1) Some, of "of_nat (length b)"] show ?thesis
          by (simp add: Index_GetLowestAfter_def GetLowestAfter_def vectors_coherent_def)
      qed
    qed
  qed
qed

lemma Index_GetHighestBefore_coherent:
  assumes "vectors_coherent vi"
  shows "\<exists>vi'. Index_GetHighestBefore vi i = Some (vi', GetHighestBefore (vecDb (ix_engine vi)) i) \<and>
    vectors_coherent vi' \<and> ix_engine vi' = ix_engine vi"
proof -
  let ?c = "fst (lru_Get (ix_HighestBeforeSeq vi) i)" and ?m = "HighestBeforeTable (vecDb (ix_engine vi))"
  have coh: "lru.coherent (ix_HighestBeforeSeq vi) ?m" using assms by (simp add: vectors_coherent_def)
  have c: "lru.coherent ?c ?m" "lru_inv ?c" using lru.get_coherent(1) [OF coh, of i] by (auto simp: lru.coherent_def)
  show ?thesis
  proof (cases "lru_Get (ix_HighestBeforeSeq vi) i")
    case (Pair c' o')
    note hit = lru.get_coherent(2) [OF coh, of i, unfolded Pair snd_conv]
    show ?thesis
    proof (cases o')
      case (Some b)
      with Pair hit [of b] assms c show ?thesis
        by (simp add: Index_GetHighestBefore_def GetHighestBefore_def vectors_coherent_def)
    next
      case None
      note miss = None
      show ?thesis
      proof (cases "?m i")
        case None
        with Pair miss assms c show ?thesis
          by (simp add: Index_GetHighestBefore_def GetHighestBefore_def vectors_coherent_def)
      next
        case (Some b)
        from put_Add [OF c(2), of i b "of_nat (length b)"] obtain e where
          "lru_Add ?c i b (of_nat (length b)) = Some (lru.put ?c i b (of_nat (length b)), e)" ..
        with Pair miss Some assms lru.fill_coherent [OF c(1) Some, of "of_nat (length b)"] show ?thesis
          by (simp add: Index_GetHighestBefore_def GetHighestBefore_def vectors_coherent_def)
      qed
    qed
  qed
qed

lemma Index_SetLowestAfter_coherent:
  assumes "vectors_coherent vi"
  shows "\<exists>vi'. Index_SetLowestAfter vi i seq = Some vi' \<and> vectors_coherent vi' \<and>
    vecDb (ix_engine vi') = SetLowestAfter (vecDb (ix_engine vi)) i seq"
proof -
  have coh: "lru.coherent (ix_LowestAfterSeq vi) (LowestAfterTable (vecDb (ix_engine vi)))"
    using assms by (simp add: vectors_coherent_def)
  then have "lru_inv (ix_LowestAfterSeq vi)" by (simp add: lru.coherent_def)
  from put_Add [OF this, of i seq "of_nat (length seq)"] obtain e where
    "lru_Add (ix_LowestAfterSeq vi) i seq (of_nat (length seq)) =
      Some (lru.put (ix_LowestAfterSeq vi) i seq (of_nat (length seq)), e)" ..
  with assms lru.put_coherent [OF coh, of i seq "of_nat (length seq)"] show ?thesis
    by (simp add: Index_SetLowestAfter_def vectors_coherent_def SetLowestAfter_def)
qed

lemma Index_SetHighestBefore_coherent:
  assumes "vectors_coherent vi"
  shows "\<exists>vi'. Index_SetHighestBefore vi i seq = Some vi' \<and> vectors_coherent vi' \<and>
    vecDb (ix_engine vi') = SetHighestBefore (vecDb (ix_engine vi)) i seq"
proof -
  have coh: "lru.coherent (ix_HighestBeforeSeq vi) (HighestBeforeTable (vecDb (ix_engine vi)))"
    using assms by (simp add: vectors_coherent_def)
  then have "lru_inv (ix_HighestBeforeSeq vi)" by (simp add: lru.coherent_def)
  from put_Add [OF this, of i seq "of_nat (length seq)"] obtain e where
    "lru_Add (ix_HighestBeforeSeq vi) i seq (of_nat (length seq)) =
      Some (lru.put (ix_HighestBeforeSeq vi) i seq (of_nat (length seq)), e)" ..
  with assms lru.put_coherent [OF coh, of i seq "of_nat (length seq)"] show ?thesis
    by (simp add: Index_SetHighestBefore_def vectors_coherent_def SetHighestBefore_def)
qed

lemma InitBranchesInfo_tables [simp]: "vecDb (InitBranchesInfo vi) = vecDb vi"
  by (simp add: InitBranchesInfo_def split: option.split)

lemma ForklessCause_ok:
  assumes ok: "index_ok U (vals, ep) vi G F" and ab: "a \<in> dom G" "b \<in> dom G"
  shows "\<exists>vi'. ForklessCause vi a b = Some (Inr (vi', forkless_cause vals G a b)) \<and> index_ok U (vals, ep) vi' G F"
proof -
  note ok' = ok [unfolded index_ok_def fst_conv]
  let ?c = "fst (lru_Get (ix_ForklessCause vi) (a, b))" and ?r = "forkless_cause vals G a b"
  have valid: "valid_dag (vals, ep) G" using ok' by (simp add: engine_ok_def)
  have ext: "forkless_cause vals U a b = ?r" using forkless_cause_extend [OF valid _ ab] ok' by blast
  have inU: "answers vals U (a, b) = Some ?r" using ok' ab ext by (auto simp: answers_def map_le_def dom_def)
  have coh: "lru.coherent (ix_ForklessCause vi) (answers vals U)" using ok' by simp
  have c: "lru.coherent ?c (answers vals U)" by (rule lru.get_coherent(1) [OF coh])
  then have inv: "lru_inv ?c" by (simp add: lru.coherent_def)
  have hit: "res = ?r" if "snd (lru_Get (ix_ForklessCause vi) (a, b)) = Some res" for res
    using lru.get_coherent(2) [OF coh that] inU by simp
  have "engine_ok (vals, ep) (InitBranchesInfo (ix_engine vi)) G F" using ok' by (simp add: engine_ok_init)
  from forklessCause_correct [OF this vi_bi_InitBranchesInfo ab]
  have fc: "forklessCause (InitBranchesInfo (ix_engine vi)) a b = Inr ?r" .
  obtain e where add: "lru_Add ?c (a, b) ?r 1 = Some (lru.put ?c (a, b) ?r 1, e)"
    using put_Add [OF inv, of "(a, b)" ?r 1] ..
  have keep: "index_ok U (vals, ep) (vi\<lparr>ix_ForklessCause := ?c\<rparr>) G F"
    "index_ok U (vals, ep) (vi\<lparr>ix_engine := InitBranchesInfo (ix_engine vi),
      ix_ForklessCause := lru.put ?c (a, b) ?r 1\<rparr>) G F"
    using ok' c lru.fill_coherent [OF c inU, of 1]
    by (simp_all add: index_ok_def vectors_coherent_def engine_ok_init)
  show ?thesis
  proof (cases "lru_Get (ix_ForklessCause vi) (a, b)")
    case (Pair c' o')
    show ?thesis
    proof (cases o')
      case None
      with Pair keep(2) add fc show ?thesis by (simp add: ForklessCause_def)
    next
      case (Some res)
      with Pair keep(1) hit [of res] show ?thesis by (simp add: ForklessCause_def)
    qed
  qed
qed

lemma add_event_in: "G \<subseteq>\<^sub>m U \<Longrightarrow> U (ev_id e) = Some e \<Longrightarrow> add_event G e \<subseteq>\<^sub>m U"
  by (auto simp: add_event_def map_le_def)

lemma index_run_ok: "index_run U reader vi G F \<Longrightarrow> index_ok U reader vi G F"
proof (induction rule: index_run.induct)
  case (index_reset vi)
  then show ?case
    using engine_ok_reset [of reader]
    by (simp add: index_ok_def Index_Reset_def onDropNotFlushed_def vectors_coherent_def coherent_empty)
next
  case (index_add vi G F e getEvent vi' hb la)
  then have "engine_ok reader vi' (add_event G e) F"
    using Engine_Add_ok [of reader "ix_engine vi" G F e getEvent] by (auto simp: index_ok_def)
  with index_add show ?case by (simp add: index_ok_def vectors_coherent_def add_event_in)
next
  case (index_flush vi G F)
  then show ?case
    using engine_ok_flush [of reader "ix_engine vi" G F]
    by (auto simp: index_ok_def vectors_coherent_def Engine_Flush_def Let_def setBranchesInfo_def split: option.split)
next
  case (index_drop vi G F notFlushedPairs)
  then have eq: "(ix_engine vi)\<lparr>vi_bi := None\<rparr> = Engine_DropNotFlushed (ix_engine vi)" if "notFlushedPairs = 0"
    using that by (simp add: Engine_DropNotFlushed_def)
  have inv: "lru_inv (ix_HighestBeforeSeq vi)" "lru_inv (ix_LowestAfterSeq vi)"
    using index_drop.IH by (simp_all add: index_ok_def vectors_coherent_def lru.coherent_def)
  have drop: "engine_ok reader (Engine_DropNotFlushed (ix_engine vi)) F F"
    using engine_ok_drop [of reader "ix_engine vi" G F] index_drop.IH by (simp add: index_ok_def)
  show ?case
  proof (cases "notFlushedPairs = 0")
    case True
    then have "vecDb (Engine_DropNotFlushed (ix_engine vi)) = vecDb (ix_engine vi)"
      using index_drop.hyps by (simp add: Engine_DropNotFlushed_def)
    with True index_drop.IH drop show ?thesis
      by (simp add: index_ok_def Index_DropNotFlushed_def vectors_coherent_def eq)
  next
    case False
    with index_drop.IH drop inv show ?thesis
      by (simp add: index_ok_def Index_DropNotFlushed_def vectors_coherent_def onDropNotFlushed_def coherent_empty)
  qed
next
  case (index_ask vi G F a b vi' res)
  then show ?case using ForklessCause_ok [of U "fst reader" "snd reader" vi G F a b] by auto
qed

section \<open>Properties\<close>

definition empty_cache :: "u64 \<Rightarrow> int \<Rightarrow> ('k, 'v) lru_cache" where
  "empty_cache maxWeight maxSize =
    \<lparr>lru_maxSize = maxSize, lru_weight = 0, lru_maxWeight = maxWeight, lru_evictList = []\<rparr>"

lemma empty_cache_inv: "0 \<le> maxSize \<Longrightarrow> lru_inv (empty_cache maxWeight maxSize)"
  by (simp add: empty_cache_def lru_inv_def lru_linked_def lru_exceeds_def lru_Len_def)

lemma empty_cache_coherent: "0 \<le> maxSize \<Longrightarrow> lru.coherent (empty_cache maxWeight maxSize) m"
  by (simp add: lru.coherent_def empty_cache_def lru_inv_def lru_linked_def lru_exceeds_def lru_Len_def
      lru_Peek_def lru_item_def)

definition sample_index :: "Engine \<Rightarrow> Index" where
  "sample_index vi = \<lparr>ix_engine = vi, ix_HighestBeforeSeq = empty_cache 100 100,
    ix_LowestAfterSeq = empty_cache 100 100, ix_ForklessCause = empty_cache 1 1\<rparr>"

lemma sample_index_run:
  obtains vi where "Engine_Add Map.empty (Engine_Reset sample_validators empty_vec_db) (sample_event 1 1) =
      Some (Inr vi)"
    and "index_run sample_graph (sample_validators, 1) (sample_index vi) sample_graph Map.empty"
proof -
  let ?vi0 = "Engine_Reset sample_validators empty_vec_db"
  obtain vi where vi: "Engine_Add Map.empty ?vi0 (sample_event 1 1) = Some (Inr vi)" by (rule sample_run)
  have "Index_Reset (sample_index ?vi0) sample_validators empty_vec_db = sample_index ?vi0"
    by (simp add: Index_Reset_def onDropNotFlushed_def sample_index_def empty_cache_def lru_Purge_def)
  with index_reset [of "(sample_validators, 1)" "sample_index ?vi0" sample_graph]
  have r0: "index_run sample_graph (sample_validators, 1) (sample_index ?vi0) Map.empty Map.empty"
    by (simp add: wf_sample_validators sample_index_def empty_cache_inv)
  have "index_run sample_graph (sample_validators, 1)
      (sample_index ?vi0\<lparr>ix_engine := vi, ix_HighestBeforeSeq := empty_cache 100 100,
        ix_LowestAfterSeq := empty_cache 100 100\<rparr>) (add_event Map.empty (sample_event 1 1)) Map.empty"
    by (rule index_add [OF r0 sample_addable, of Map.empty])
      (use vi sample_cap in \<open>simp_all add: sample_index_def empty_cache_coherent sample_graph_def add_event_def\<close>)
  with vi that show thesis by (simp add: sample_index_def sample_graph_def)
qed



text \<open>
  The vector caches are transparent. After any sequence of operations a read
  of a vector through its cache returns what the table holds, and a write leaves
  table and cache so that all reads afterwards return what was written.
\<close>

theorem vector_caches_transparent:
  assumes "index_run U reader vi G F"
  shows "(\<exists>vi'. Index_GetHighestBefore vi i = Some (vi', GetHighestBefore (vecDb (ix_engine vi)) i)) \<and>
    (\<exists>vi'. Index_GetLowestAfter vi i = Some (vi', GetLowestAfter (vecDb (ix_engine vi)) i)) \<and>
    (\<exists>vi' vi''. Index_SetHighestBefore vi i seq = Some vi' \<and>
      Index_GetHighestBefore vi' j = Some (vi'', if j = i then Some seq else GetHighestBefore (vecDb (ix_engine vi)) j)) \<and>
    (\<exists>vi' vi''. Index_SetLowestAfter vi i seq = Some vi' \<and>
      Index_GetLowestAfter vi' j = Some (vi'', if j = i then Some seq else GetLowestAfter (vecDb (ix_engine vi)) j))"
proof -
  have coh: "vectors_coherent vi" using index_run_ok [OF assms] by (simp add: index_ok_def)
  obtain h where h: "Index_SetHighestBefore vi i seq = Some h" "vectors_coherent h"
    "vecDb (ix_engine h) = SetHighestBefore (vecDb (ix_engine vi)) i seq"
    using Index_SetHighestBefore_coherent [OF coh] by blast
  obtain l where l: "Index_SetLowestAfter vi i seq = Some l" "vectors_coherent l"
    "vecDb (ix_engine l) = SetLowestAfter (vecDb (ix_engine vi)) i seq"
    using Index_SetLowestAfter_coherent [OF coh] by blast
  show ?thesis
    using Index_GetHighestBefore_coherent [OF coh, of i] Index_GetLowestAfter_coherent [OF coh, of i]
      Index_GetHighestBefore_coherent [OF h(2), of j] Index_GetLowestAfter_coherent [OF l(2), of j] h(1,3) l(1,3)
    by (auto simp: GetHighestBefore_def GetLowestAfter_def SetHighestBefore_def SetLowestAfter_def)
qed

theorem vector_caches_transparent_witness:
  "\<exists>vi vi'. Engine_Add Map.empty (Engine_Reset sample_validators empty_vec_db) (sample_event 1 1) =
      Some (Inr vi) \<and> Index_GetHighestBefore (sample_index vi) 0 = Some (vi', GetHighestBefore (vecDb vi) 0)"
proof -
  obtain vi where vi: "Engine_Add Map.empty (Engine_Reset sample_validators empty_vec_db) (sample_event 1 1) =
      Some (Inr vi)" "index_run sample_graph (sample_validators, 1) (sample_index vi) sample_graph Map.empty"
    by (rule sample_index_run)
  with vector_caches_transparent [OF vi(2), of 0] show ?thesis by (auto simp: sample_index_def)
qed

end
