(* ===== verification/Event_Buffer.thy ===== *)
theory Event_Buffer
  imports Dag Wlru
begin

text \<open>
  The buffer that orders events before processing (\<^verbatim>\<open>gossip/dagordering\<close>): an event
  waits in an LRU list until its parents are connected. Callbacks are functions on
  the state of the application. Event objects, which the code shares by pointer
  between the list and the recursion, are kept in a map by their identifier: the
  buffer holds at most one object of an identifier, and the object that is pushed
  has one that it does not hold. The recursion over children takes fuel for its
  depth; the properties show how much is enough.
\<close>

section \<open>State\<close>

datatype 'e buffer_error = ErrDuplicateEvent | ErrAlreadyConnectedEvent | ErrSpilledEvent | CallbackError 'e

record 'e buffered_event =
  be_event :: BaseEvent
  be_peer :: string
  be_err :: "'e buffer_error option"
  be_released :: bool

record ('s, 'e) Callback =
  cb_Process :: "'s \<Rightarrow> BaseEvent \<Rightarrow> 's \<times> 'e option"
  cb_Released :: "('s \<Rightarrow> BaseEvent \<Rightarrow> string \<Rightarrow> 'e buffer_error option \<Rightarrow> 's) option"
  cb_Get :: "'s \<Rightarrow> hash_event \<Rightarrow> BaseEvent option"
  cb_Exists :: "'s \<Rightarrow> hash_event \<Rightarrow> bool"
  cb_Check :: "('s \<Rightarrow> BaseEvent \<Rightarrow> BaseEvent list \<Rightarrow> 'e option) option"
  cb_IsImportant :: "('s \<Rightarrow> BaseEvent \<Rightarrow> bool) option"

record ('s, 'e) EventsBuffer =
  eb_app :: 's
  eb_incompletes :: "(hash_event, unit) lru_cache"
  eb_objects :: "hash_event \<Rightarrow> 'e buffered_event"
  eb_limit :: Metric

definition EventsBuffer_New :: "Metric \<Rightarrow> 's \<Rightarrow> (hash_event \<Rightarrow> 'e buffered_event) \<Rightarrow> ('s, 'e) EventsBuffer option" where
  "EventsBuffer_New limit app objects =
    map_option (\<lambda>c. \<lparr>eb_app = app, eb_incompletes = c, eb_objects = objects, eb_limit = limit\<rparr>)
      (lru_New 2147483647 2147483647)"

section \<open>Releasing\<close>

definition set_object :: "('s, 'e) EventsBuffer \<Rightarrow> hash_event \<Rightarrow> 'e buffered_event \<Rightarrow> ('s, 'e) EventsBuffer" where
  "set_object b e x = b\<lparr>eb_objects := (eb_objects b)(e := x)\<rparr>"

definition dropEvent :: "('s, 'e) EventsBuffer \<Rightarrow> hash_event \<Rightarrow> 'e buffer_error \<Rightarrow> ('s, 'e) EventsBuffer" where
  "dropEvent b e err =
    (if be_err (eb_objects b e) = None then set_object b e ((eb_objects b e)\<lparr>be_err := Some err\<rparr>) else b)"

definition releaseEvent :: "('s, 'e) Callback \<Rightarrow> ('s, 'e) EventsBuffer \<Rightarrow> hash_event \<Rightarrow> ('s, 'e) EventsBuffer" where
  "releaseEvent cb b e =
    (let x = eb_objects b e;
         b1 = (case cb_Released cb of
                 None \<Rightarrow> b
               | Some released \<Rightarrow>
                   if be_released x then b
                   else b\<lparr>eb_app := released (eb_app b) (be_event x) (be_peer x) (be_err x)\<rparr>)
     in set_object b1 e ((eb_objects b1 e)\<lparr>be_released := True\<rparr>))"

definition removeIncomplete :: "('s, 'e) EventsBuffer \<Rightarrow> hash_event \<Rightarrow> ('s, 'e) EventsBuffer" where
  "removeIncomplete b e = b\<lparr>eb_incompletes := fst (lru_Remove (eb_incompletes b) e)\<rparr>"

section \<open>Pushing an event\<close>

definition getIncompleteEventsList :: "('s, 'e) EventsBuffer \<Rightarrow> hash_event list" where
  "getIncompleteEventsList b = filter (\<lambda>i. lru_Peek (eb_incompletes b) i \<noteq> None) (lru_Keys (eb_incompletes b))"

fun completeParents :: "('s, 'e) Callback \<Rightarrow> 's \<Rightarrow> hash_event list \<Rightarrow> BaseEvent list option" where
  "completeParents cb app [] = Some []"
| "completeParents cb app (p # ps) =
    (case cb_Get cb app p of
       None \<Rightarrow> None
     | Some parent \<Rightarrow> map_option (Cons parent) (completeParents cb app ps))"

definition completeEventParents :: "('s, 'e) Callback \<Rightarrow> ('s, 'e) EventsBuffer \<Rightarrow> hash_event \<Rightarrow> BaseEvent list option" where
  "completeEventParents cb b e = completeParents cb (eb_app b) (ev_parents (be_event (eb_objects b e)))"

definition processCompleteEvent ::
  "('s, 'e) Callback \<Rightarrow> ('s, 'e) EventsBuffer \<Rightarrow> hash_event \<Rightarrow> BaseEvent list \<Rightarrow> ('s, 'e) EventsBuffer \<times> bool" where
  "processCompleteEvent cb b e parents =
    (let d = be_event (eb_objects b e) in
     case (case cb_Check cb of None \<Rightarrow> None | Some check \<Rightarrow> check (eb_app b) d parents) of
       Some err \<Rightarrow> (dropEvent b e (CallbackError err), False)
     | None \<Rightarrow>
         (case cb_Process cb (eb_app b) d of
            (app, Some err) \<Rightarrow>
              (let b1 = b\<lparr>eb_app := app\<rparr>;
                   b2 = set_object b1 e ((eb_objects b1 e)\<lparr>be_err := Some (CallbackError err)\<rparr>)
               in (dropEvent b2 e (CallbackError err), False))
          | (app, None) \<Rightarrow> (b\<lparr>eb_app := app\<rparr>, True)))"

fun pushEvent ::
  "('s, 'e) Callback \<Rightarrow> nat \<Rightarrow> hash_event \<Rightarrow> hash_event list option \<Rightarrow> bool \<Rightarrow> ('s, 'e) EventsBuffer \<Rightarrow>
    (('s, 'e) EventsBuffer \<times> bool) option"
and pushChildren ::
  "('s, 'e) Callback \<Rightarrow> nat \<Rightarrow> hash_event \<Rightarrow> hash_event list \<Rightarrow> hash_event list \<Rightarrow> ('s, 'e) EventsBuffer \<Rightarrow>
    ('s, 'e) EventsBuffer option" where
  "pushEvent cb 0 e incompleteEventsList recheck b = None"
| "pushEvent cb (Suc n) e incompleteEventsList recheck b =
    (if cb_Exists cb (eb_app b) e then
       let b1 = removeIncomplete b e;
           b2 = (if recheck then b1 else dropEvent b1 e ErrAlreadyConnectedEvent)
       in Some (releaseEvent cb b2 e, False)
     else case completeEventParents cb b e of
       None \<Rightarrow>
         if recheck then Some (b, False)
         else map_option (\<lambda>(c, _). (b\<lparr>eb_incompletes := c\<rparr>, False))
           (lru_Add (eb_incompletes b) e () (of_nat (Event_Size (be_event (eb_objects b e)))))
     | Some parents \<Rightarrow>
         (case processCompleteEvent cb b e parents of (b1, ok) \<Rightarrow>
           let b2 = releaseEvent cb b1 e in
           if ok then
             let children = (case incompleteEventsList of None \<Rightarrow> getIncompleteEventsList b2 | Some l \<Rightarrow> l) in
             case pushChildren cb n e children children b2 of
               None \<Rightarrow> None
             | Some b3 \<Rightarrow> Some (removeIncomplete b3 e, True)
           else Some (removeIncomplete b2 e, False)))"
| "pushChildren cb n e all [] b = Some b"
| "pushChildren cb n e all (child # rest) b =
    (if e \<in> set (ev_parents (be_event (eb_objects b child)))
     then case pushEvent cb n child (Some all) True b of
            None \<Rightarrow> None
          | Some (b1, _) \<Rightarrow> pushChildren cb n e all rest b1
     else pushChildren cb n e all rest b)"

section \<open>Spilling\<close>

definition exceeds_limit :: "('s, 'e) EventsBuffer \<Rightarrow> Metric \<Rightarrow> bool" where
  "exceeds_limit b limit \<longleftrightarrow>
    (of_int (lru_Len (eb_incompletes b)) :: u32) > Num limit \<or> lru_Weight (eb_incompletes b) > Size limit"

definition spill :: "('s, 'e) Callback \<Rightarrow> ('s, 'e) EventsBuffer \<Rightarrow> hash_event \<Rightarrow> ('s, 'e) EventsBuffer" where
  "spill cb b e = releaseEvent cb (dropEvent b e ErrSpilledEvent) e"

definition first_unimportant :: "('s, 'e) Callback \<Rightarrow> ('s, 'e) EventsBuffer \<Rightarrow> hash_event option" where
  "first_unimportant cb b =
    (case cb_IsImportant cb of
       None \<Rightarrow> None
     | Some important \<Rightarrow>
         List.find (\<lambda>k. lru_Peek (eb_incompletes b) k \<noteq> None \<and> \<not> important (eb_app b) (be_event (eb_objects b k)))
           (lru_Keys (eb_incompletes b)))"

definition spill_oldest ::
  "('s, 'e) Callback \<Rightarrow> ('s, 'e) EventsBuffer \<Rightarrow> ('s, 'e) EventsBuffer option" where
  "spill_oldest cb b =
    (case lru_RemoveOldest (eb_incompletes b) of
       (c, _, None) \<Rightarrow> None
     | (c, _, Some (e, _)) \<Rightarrow> Some (spill cb (b\<lparr>eb_incompletes := c\<rparr>) e))"

lemma releaseEvent_incompletes [simp]: "eb_incompletes (releaseEvent cb b e) = eb_incompletes b"
  by (simp add: releaseEvent_def Let_def set_object_def split: option.split)

lemma dropEvent_incompletes [simp]: "eb_incompletes (dropEvent b e err) = eb_incompletes b"
  by (simp add: dropEvent_def set_object_def)

lemma length_unlink_less: "map_of xs k \<noteq> None \<Longrightarrow> length (lru_unlink k xs) < length xs"
  unfolding lru_unlink_def
  by (rule length_filter_less [of "(k, the (map_of xs k))"]) (auto dest: map_of_SomeD)

lemma spill_oldest_shrinks:
  assumes "spill_oldest cb b = Some b'"
  shows "length (lru_evictList (eb_incompletes b')) < length (lru_evictList (eb_incompletes b))"
proof -
  let ?xs = "lru_evictList (eb_incompletes b)"
  have "map_of ?xs (fst (last ?xs)) \<noteq> None" if "?xs \<noteq> []"
    using that last_in_set [OF that] by (auto simp: map_of_eq_None_iff)
  then show ?thesis
    using assms length_unlink_less [of ?xs "fst (last ?xs)"]
    by (auto simp: spill_oldest_def lru_RemoveOldest_def lru_removeElement_def spill_def Let_def
        split: if_splits prod.splits)
qed

lemma spill_unimportant_shrinks:
  assumes "first_unimportant cb b = Some k"
  shows "length (lru_evictList (eb_incompletes (spill cb (removeIncomplete b k) k)))
    < length (lru_evictList (eb_incompletes b))"
proof -
  have "lru_Peek (eb_incompletes b) k \<noteq> None"
    using assms by (auto simp: first_unimportant_def find_Some_iff split: option.splits)
  then have "map_of (lru_evictList (eb_incompletes b)) k \<noteq> None" by (simp add: lru_Peek_def lru_item_def)
  then show ?thesis
    using length_unlink_less [of "lru_evictList (eb_incompletes b)" k]
    by (auto simp: spill_def removeIncomplete_def lru_Remove_def lru_item_def lru_removeElement_def)
qed

function spillIncompletes :: "('s, 'e) Callback \<Rightarrow> Metric \<Rightarrow> ('s, 'e) EventsBuffer \<Rightarrow> ('s, 'e) EventsBuffer" where
  "spillIncompletes cb limit b =
    (if exceeds_limit b limit then
       case first_unimportant cb b of
         Some k \<Rightarrow> spillIncompletes cb limit (spill cb (removeIncomplete b k) k)
       | None \<Rightarrow>
           (case spill_oldest cb b of
              None \<Rightarrow> b
            | Some b1 \<Rightarrow> spillIncompletes cb limit b1)
     else b)"
  by pat_completeness auto
termination
  by (relation "measure (\<lambda>(cb, limit, b). length (lru_evictList (eb_incompletes b)))")
    (simp_all add: spill_unimportant_shrinks spill_oldest_shrinks)

declare spillIncompletes.simps [simp del]

section \<open>Interface\<close>

definition PushEvent ::
  "('s, 'e) Callback \<Rightarrow> nat \<Rightarrow> ('s, 'e) EventsBuffer \<Rightarrow> BaseEvent \<Rightarrow> string \<Rightarrow> (('s, 'e) EventsBuffer \<times> bool) option" where
  "PushEvent cb n b de peer =
    (let e = ev_id de; x = \<lparr>be_event = de, be_peer = peer, be_err = None, be_released = False\<rparr> in
     if lru_Peek (eb_incompletes b) e \<noteq> None
     then \<comment> \<open>the object of the duplicate is dropped, the one in the buffer stays\<close>
       Some (let old = eb_objects b e
             in set_object (releaseEvent cb (dropEvent (set_object b e x) e ErrDuplicateEvent) e) e old, False)
     else case pushEvent cb n e None False (set_object b e x) of
            None \<Rightarrow> None
          | Some (b1, complete) \<Rightarrow> Some (spillIncompletes cb (eb_limit b1) b1, complete))"

definition IsBuffered :: "('s, 'e) EventsBuffer \<Rightarrow> hash_event \<Rightarrow> bool" where
  "IsBuffered b i = lru_Contains (eb_incompletes b) i"

definition Clear :: "('s, 'e) Callback \<Rightarrow> ('s, 'e) EventsBuffer \<Rightarrow> ('s, 'e) EventsBuffer" where
  "Clear cb b = spillIncompletes cb \<lparr>Num = 0, Size = 0\<rparr> b"

definition Total :: "('s, 'e) EventsBuffer \<Rightarrow> Metric" where
  "Total b = (case lru_Total (eb_incompletes b) of (weight, num) \<Rightarrow> \<lparr>Num = of_int num, Size = weight\<rparr>)"

end
