(* ===== verification/Event_Buffer_Correct.thy ===== *)
theory Event_Buffer_Correct
  imports Event_Buffer
begin

text \<open>
  Correctness of the events buffer: what every step keeps, that the recursion over
  children ends, that only complete events are processed and none of them stays
  behind, that every event is released once it leaves, and that spilling respects
  the limit and the importance of events.
\<close>

section \<open>Buffered events\<close>

definition buffered :: "('s, 'e) EventsBuffer \<Rightarrow> hash_event set" where
  "buffered b = fst ` set (lru_evictList (eb_incompletes b))"

definition the_event :: "('s, 'e) EventsBuffer \<Rightarrow> hash_event \<Rightarrow> BaseEvent" where
  "the_event b k = be_event (eb_objects b k)"

definition released :: "('s, 'e) EventsBuffer \<Rightarrow> hash_event \<Rightarrow> bool" where
  "released b k = be_released (eb_objects b k)"

definition list_ok :: "('s, 'e) EventsBuffer \<Rightarrow> bool" where
  "list_ok b \<longleftrightarrow> lru_linked (eb_incompletes b) \<and> 0 \<le> lru_maxSize (eb_incompletes b)"

definition buffer_ok :: "('s, 'e) EventsBuffer \<Rightarrow> bool" where
  "buffer_ok b \<longleftrightarrow> list_ok b \<and>
    (\<forall>k \<in> buffered b. ev_id (the_event b k) = k \<and> \<not> released b k)"

lemma Peek_buffered: "lru_Peek (eb_incompletes b) k \<noteq> None \<longleftrightarrow> k \<in> buffered b"
  by (auto simp: lru_Peek_def lru_item_def buffered_def map_of_eq_None_iff)

lemma Keys_buffered [simp]: "set (lru_Keys (eb_incompletes b)) = buffered b"
  by (simp add: lru_Keys_def buffered_def)

lemma set_incompleteEventsList [simp]: "set (getIncompleteEventsList b) = buffered b"
  using Peek_buffered [of b] by (auto simp: getIncompleteEventsList_def)

lemma finite_buffered [simp]: "finite (buffered b)"
  by (simp add: buffered_def)

section \<open>What the steps change\<close>

lemma set_object_frame [simp]:
  "eb_app (set_object b e x) = eb_app b" "eb_incompletes (set_object b e x) = eb_incompletes b"
  "eb_limit (set_object b e x) = eb_limit b"
  by (simp_all add: set_object_def)

lemma dropEvent_frame [simp]:
  "eb_app (dropEvent b e err) = eb_app b" "eb_limit (dropEvent b e err) = eb_limit b"
  "the_event (dropEvent b e err) = the_event b" "released (dropEvent b e err) = released b"
  by (auto simp: dropEvent_def set_object_def the_event_def released_def fun_eq_iff)

lemma releaseEvent_frame [simp]:
  "eb_limit (releaseEvent cb b e) = eb_limit b" "the_event (releaseEvent cb b e) = the_event b"
  "released (releaseEvent cb b e) k = (k = e \<or> released b k)"
  by (auto simp: releaseEvent_def set_object_def Let_def the_event_def released_def fun_eq_iff
      split: option.splits)

lemma removeIncomplete_frame [simp]:
  "eb_app (removeIncomplete b e) = eb_app b" "eb_limit (removeIncomplete b e) = eb_limit b"
  "the_event (removeIncomplete b e) = the_event b" "released (removeIncomplete b e) = released b"
  by (auto simp: removeIncomplete_def the_event_def released_def fun_eq_iff)

lemma removeIncomplete_list:
  "lru_evictList (eb_incompletes (removeIncomplete b e)) = lru_unlink e (lru_evictList (eb_incompletes b))"
  "lru_maxSize (eb_incompletes (removeIncomplete b e)) = lru_maxSize (eb_incompletes b)"
  by (auto simp: removeIncomplete_def lru_Remove_def lru_item_def lru_removeElement_def unlink_absent
      split: option.split)

lemma buffered_removeIncomplete [simp]: "buffered (removeIncomplete b e) = buffered b - {e}"
  by (simp add: buffered_def removeIncomplete_list fst_set_unlink)

lemma buffered_cong: "eb_incompletes b = eb_incompletes b' \<Longrightarrow> buffered b = buffered b'"
  by (simp add: buffered_def)

lemma list_ok_cong: "eb_incompletes b = eb_incompletes b' \<Longrightarrow> list_ok b = list_ok b'"
  by (simp add: list_ok_def)

lemma buffered_frame [simp]:
  "buffered (releaseEvent cb b e) = buffered b" "buffered (dropEvent b e err) = buffered b"
  "buffered (set_object b e x) = buffered b"
  by (simp_all add: buffered_def)

lemma list_ok_frame [simp]:
  "list_ok (releaseEvent cb b e) = list_ok b" "list_ok (dropEvent b e err) = list_ok b"
  "list_ok (set_object b e x) = list_ok b"
  by (simp_all add: list_ok_def)

lemma list_ok_removeIncomplete [simp]:
  assumes "list_ok b"
  shows "list_ok (removeIncomplete b e)"
proof (cases "lru_item (eb_incompletes b) e")
  case None
  then show ?thesis using assms by (simp add: list_ok_def removeIncomplete_def lru_Remove_def)
next
  case (Some vw)
  obtain v w where vw: "vw = (v, w)" by (cases vw)
  show ?thesis
    using assms Some entries_weight_unlink [of "lru_evictList (eb_incompletes b)" e v w]
    by (simp add: vw list_ok_def removeIncomplete_def lru_Remove_def lru_removeElement_def lru_linked_def
        lru_item_def distinct_unlink)
qed

lemma processCompleteEvent_frame:
  assumes "processCompleteEvent cb b e parents = (b', ok)"
  shows "eb_incompletes b' = eb_incompletes b" "eb_limit b' = eb_limit b"
    "the_event b' = the_event b" "released b' = released b"
  using assms
  by (auto simp: processCompleteEvent_def Let_def set_object_def the_event_def released_def dropEvent_def
      fun_eq_iff split: option.splits prod.splits if_splits)

lemma Add_incomplete:
  assumes "list_ok b"
  obtains c ev where "lru_Add (eb_incompletes b) e () w = Some (c, ev)"
    "list_ok (b\<lparr>eb_incompletes := c\<rparr>)" "buffered (b\<lparr>eb_incompletes := c\<rparr>) \<subseteq> insert e (buffered b)"
proof -
  let ?c = "with_entries (eb_incompletes b) (lru_touched (eb_incompletes b) e () w)"
  have ok: "0 \<le> lru_maxSize ?c" "lru_linked ?c"
    using assms linked_touched [of "eb_incompletes b" e "()" w]
    by (simp_all add: list_ok_def linked_with_entries)
  obtain c ev where c: "lru_normalize ?c [] = Some (c, ev)" "lru_inv c"
    "lru_maxSize c = lru_maxSize ?c"
    "\<And>k x. map_of (lru_evictList c) k = Some x \<Longrightarrow> map_of (lru_evictList ?c) k = Some x"
    by (rule normalize_inv [OF ok, of "[]"]) blast
  have "k = e \<or> k \<in> buffered b" if "k \<in> buffered (b\<lparr>eb_incompletes := c\<rparr>)" for k
  proof -
    have "map_of (lru_evictList c) k \<noteq> None" using that by (simp add: buffered_def map_of_eq_None_iff)
    then obtain x where "map_of (lru_evictList c) k = Some x" by blast
    then have "map_of (lru_touched (eb_incompletes b) e () w) k = Some x" using c(4) by simp
    then have "k = e \<or> lru_item (eb_incompletes b) k = Some x" by (simp add: map_of_touched split: if_splits)
    then show ?thesis by (force simp: lru_item_def buffered_def dest: map_of_SomeD)
  qed
  moreover have "lru_Add (eb_incompletes b) e () w = Some (c, ev)"
    using assms c(1) by (simp add: Add_normalize list_ok_def)
  moreover have "list_ok (b\<lparr>eb_incompletes := c\<rparr>)"
    using c ok by (simp add: list_ok_def lru_inv_def)
  ultimately show thesis using that by blast
qed

text \<open>The branches of \<^const>\<open>pushEvent\<close>.\<close>

lemma pushEvent_cases:
  assumes "pushEvent cb (Suc n) e l recheck b = Some (b', r)" "list_ok b"
  obtains
    (connected) b0 where "cb_Exists cb (eb_app b) e" "r = False" "b' = releaseEvent cb b0 e"
      "b0 = removeIncomplete b e \<or> (\<not> recheck \<and> b0 = dropEvent (removeIncomplete b e) e ErrAlreadyConnectedEvent)"
  | (incomplete) "\<not> cb_Exists cb (eb_app b) e" "completeEventParents cb b e = None" "recheck" "b' = b" "r = False"
  | (added) c ev where "\<not> cb_Exists cb (eb_app b) e" "completeEventParents cb b e = None" "\<not> recheck"
      "lru_Add (eb_incompletes b) e () (of_nat (Event_Size (the_event b e))) = Some (c, ev)"
      "b' = b\<lparr>eb_incompletes := c\<rparr>" "list_ok b'" "buffered b' \<subseteq> insert e (buffered b)" "r = False"
  | (failed) parents b1 where "\<not> cb_Exists cb (eb_app b) e" "completeEventParents cb b e = Some parents"
      "processCompleteEvent cb b e parents = (b1, False)" "b' = removeIncomplete (releaseEvent cb b1 e) e" "r = False"
  | (processed) parents b1 children b3 where "\<not> cb_Exists cb (eb_app b) e"
      "completeEventParents cb b e = Some parents"
      "processCompleteEvent cb b e parents = (b1, True)"
      "children = (case l of None \<Rightarrow> getIncompleteEventsList (releaseEvent cb b1 e) | Some l \<Rightarrow> l)"
      "pushChildren cb n e children children (releaseEvent cb b1 e) = Some b3"
      "b' = removeIncomplete b3 e" "r = True"
proof -
  show thesis
  proof (cases "cb_Exists cb (eb_app b) e")
    case True
    let ?b0 = "if recheck then removeIncomplete b e else dropEvent (removeIncomplete b e) e ErrAlreadyConnectedEvent"
    have "b' = releaseEvent cb ?b0 e" "r = False" using assms(1) True by (simp_all add: Let_def)
    then show thesis using True by (intro connected [of ?b0]) auto
  next
    case new: False
    show thesis
    proof (cases "completeEventParents cb b e")
      case None
      show thesis
      proof (cases recheck)
        case True
        then show thesis using assms(1) new None by (intro incomplete) auto
      next
        case False
        obtain c ev where "lru_Add (eb_incompletes b) e () (of_nat (Event_Size (the_event b e))) = Some (c, ev)"
          "list_ok (b\<lparr>eb_incompletes := c\<rparr>)" "buffered (b\<lparr>eb_incompletes := c\<rparr>) \<subseteq> insert e (buffered b)"
          by (rule Add_incomplete [OF assms(2)])
        then show thesis using assms(1) new None False by (intro added [of c ev]) (auto simp: the_event_def)
      qed
    next
      case (Some parents)
      obtain b1 ok where p: "processCompleteEvent cb b e parents = (b1, ok)" by (cases "processCompleteEvent cb b e parents")
      let ?ch = "case l of None \<Rightarrow> getIncompleteEventsList (releaseEvent cb b1 e) | Some l \<Rightarrow> l"
      show thesis
      proof (cases ok)
        case True
        then obtain b3 where "pushChildren cb n e ?ch ?ch (releaseEvent cb b1 e) = Some b3"
          "b' = removeIncomplete b3 e" "r = True"
          using assms(1) new Some p by (simp add: Let_def split: option.splits)
        then show thesis using new Some p True by (intro processed [of parents b1 ?ch b3]) auto
      next
        case False
        then show thesis using assms(1) new Some p by (intro failed [of parents b1]) (auto simp: Let_def)
      qed
    qed
  qed
qed


section \<open>What a push keeps\<close>

definition evolves :: "('s, 'e) EventsBuffer \<Rightarrow> ('s, 'e) EventsBuffer \<Rightarrow> bool" where
  "evolves b b' \<longleftrightarrow> list_ok b' \<and> the_event b' = the_event b \<and> eb_limit b' = eb_limit b \<and>
    buffered b' \<subseteq> buffered b \<and> (\<forall>k. released b k \<longrightarrow> released b' k)"

lemma evolves_refl: "list_ok b \<Longrightarrow> evolves b b"
  by (simp add: evolves_def)

lemma evolves_trans: "evolves b b' \<Longrightarrow> evolves b' b'' \<Longrightarrow> evolves b b''"
  by (auto simp: evolves_def)

lemma evolves_list_ok: "evolves b b' \<Longrightarrow> list_ok b'"
  by (simp add: evolves_def)

lemma evolves_removeIncomplete: "evolves b b' \<Longrightarrow> evolves b (removeIncomplete b' e)"
  by (auto simp: evolves_def)

lemma evolves_dropEvent: "evolves b b' \<Longrightarrow> evolves b (dropEvent b' e err)"
  by (simp add: evolves_def)

lemma evolves_releaseEvent: "evolves b b' \<Longrightarrow> evolves b (releaseEvent cb b' e)"
  by (auto simp: evolves_def)

lemma evolves_process:
  "list_ok b \<Longrightarrow> processCompleteEvent cb b e parents = (b', ok) \<Longrightarrow> evolves b b'"
  using processCompleteEvent_frame [of cb b e parents b' ok] buffered_cong [of b' b] list_ok_cong [of b' b]
  by (simp add: evolves_def)

lemmas evolves_intros = evolves_refl evolves_removeIncomplete evolves_dropEvent evolves_releaseEvent

text \<open>
  A returning run of the recursion as a big-step relation, for rule induction: how an
  event of the list of incomplete events is pushed again, and the loop over that list.
\<close>

inductive repushes :: "('s, 'e) Callback \<Rightarrow> hash_event list \<Rightarrow> hash_event \<Rightarrow>
    ('s, 'e) EventsBuffer \<Rightarrow> ('s, 'e) EventsBuffer \<Rightarrow> bool"
and repushes_children :: "('s, 'e) Callback \<Rightarrow> hash_event list \<Rightarrow> hash_event \<Rightarrow> hash_event list \<Rightarrow>
    ('s, 'e) EventsBuffer \<Rightarrow> ('s, 'e) EventsBuffer \<Rightarrow> bool"
for cb :: "('s, 'e) Callback" and all :: "hash_event list" where
  connected: "cb_Exists cb (eb_app b) e \<Longrightarrow> repushes cb all e b (releaseEvent cb (removeIncomplete b e) e)"
| incomplete: "\<not> cb_Exists cb (eb_app b) e \<Longrightarrow> completeEventParents cb b e = None \<Longrightarrow> repushes cb all e b b"
| failed: "\<not> cb_Exists cb (eb_app b) e \<Longrightarrow> completeEventParents cb b e = Some parents \<Longrightarrow>
    processCompleteEvent cb b e parents = (b1, False) \<Longrightarrow>
    repushes cb all e b (removeIncomplete (releaseEvent cb b1 e) e)"
| processed: "\<not> cb_Exists cb (eb_app b) e \<Longrightarrow> completeEventParents cb b e = Some parents \<Longrightarrow>
    processCompleteEvent cb b e parents = (b1, True) \<Longrightarrow>
    repushes_children cb all e all (releaseEvent cb b1 e) b2 \<Longrightarrow>
    repushes cb all e b (removeIncomplete b2 e)"
| no_child: "repushes_children cb all e [] b b"
| child: "e \<in> set (ev_parents (the_event b c)) \<Longrightarrow> repushes cb all c b b1 \<Longrightarrow>
    repushes_children cb all e rest b1 b2 \<Longrightarrow> repushes_children cb all e (c # rest) b b2"
| not_child: "e \<notin> set (ev_parents (the_event b c)) \<Longrightarrow>
    repushes_children cb all e rest b b2 \<Longrightarrow> repushes_children cb all e (c # rest) b b2"

lemma pushEvent_repushes:
  "pushEvent cb n e l recheck b = Some (b', r) \<Longrightarrow> l = Some xs \<Longrightarrow> recheck \<Longrightarrow> repushes cb xs e b b'"
  "pushChildren cb n e all rest b = Some b'' \<Longrightarrow> repushes_children cb all e rest b b''"
proof (induction cb n e l recheck b and cb n e all rest b arbitrary: b' r xs and b''
    rule: pushEvent_pushChildren.induct)
  case (2 cb n e l recheck b)
  show ?case
  proof (cases "cb_Exists cb (eb_app b) e")
    case True
    then show ?thesis using 2 connected by (auto simp: Let_def)
  next
    case new: False
    show ?thesis
    proof (cases "completeEventParents cb b e")
      case None
      then show ?thesis using 2 new incomplete by simp
    next
      case (Some parents)
      obtain b1 ok where p: "processCompleteEvent cb b e parents = (b1, ok)"
        by (cases "processCompleteEvent cb b e parents")
      show ?thesis
      proof (cases ok)
        case True
        then obtain b2 where b2: "pushChildren cb n e xs xs (releaseEvent cb b1 e) = Some b2"
          "b' = removeIncomplete b2 e"
          using 2(2-4) new Some p by (simp add: Let_def split: option.splits)
        have "repushes_children cb xs e xs (releaseEvent cb b1 e) b2"
          using 2(1) [OF new Some p [symmetric] refl True refl] b2(1) 2(3) by simp
        then show ?thesis using processed [OF new Some] p True b2(2) by simp
      next
        case False
        then show ?thesis using failed [OF new Some, of b1] 2(2-4) new Some p by (auto simp: Let_def)
      qed
    qed
  qed
next
  case (4 cb n e all c rest b)
  show ?case
  proof (cases "e \<in> set (ev_parents (be_event (eb_objects b c)))")
    case True
    then obtain b1 r where p: "pushEvent cb n c (Some all) True b = Some (b1, r)"
      "pushChildren cb n e all rest b1 = Some b''"
      using 4 by (auto split: option.splits)
    show ?thesis
      using 4(1) [OF True p(1)] 4(2) [OF True p(1) refl p(2)] True
      by (auto intro!: child simp: the_event_def)
  next
    case False
    then show ?thesis using 4 by (auto intro!: not_child simp: the_event_def)
  qed
qed (auto intro: no_child)

lemma repushes_evolves:
  "repushes cb all e b b' \<Longrightarrow> list_ok b \<Longrightarrow> evolves b b'"
  "repushes_children cb all e rest b b' \<Longrightarrow> list_ok b \<Longrightarrow> evolves b b'"
proof (induction rule: repushes_repushes_children.inducts)
  case (failed b e parents b1)
  then show ?case using evolves_process by (auto intro!: evolves_intros)
next
  case (processed b e parents b1 b2)
  then have "evolves b (releaseEvent cb b1 e)" using evolves_process evolves_releaseEvent by blast
  then show ?case using processed evolves_list_ok evolves_trans evolves_removeIncomplete by blast
next
  case (child e b c b1 rest b2)
  then show ?case using evolves_list_ok evolves_trans by blast
qed (auto intro!: evolves_intros)


section \<open>What the callbacks are called with\<close>

definition complete_in :: "('s, 'e) Callback \<Rightarrow> 's \<Rightarrow> BaseEvent \<Rightarrow> bool" where
  "complete_in cb s d \<longleftrightarrow> \<not> cb_Exists cb s (ev_id d) \<and>
    (\<exists>parents. completeParents cb s (ev_parents d) = Some parents \<and>
       (\<forall>check. cb_Check cb = Some check \<longrightarrow> check s d parents = None))"

definition app_keeps :: "('s, 'e) Callback \<Rightarrow> ('s \<Rightarrow> bool) \<Rightarrow> bool" where
  "app_keeps cb I \<longleftrightarrow>
    (\<forall>s d. I s \<longrightarrow> complete_in cb s d \<longrightarrow> I (fst (cb_Process cb s d))) \<and>
    (\<forall>rel s d peer err. cb_Released cb = Some rel \<longrightarrow> I s \<longrightarrow> I (rel s d peer err))"

definition keyed :: "('s, 'e) EventsBuffer \<Rightarrow> hash_event set \<Rightarrow> bool" where
  "keyed b K \<longleftrightarrow> (\<forall>k \<in> K. ev_id (the_event b k) = k)"

lemma keyed_evolves: "evolves b b' \<Longrightarrow> keyed b K \<Longrightarrow> keyed b' K"
  by (simp add: evolves_def keyed_def)

lemma releaseEvent_app: "app_keeps cb I \<Longrightarrow> I (eb_app b) \<Longrightarrow> I (eb_app (releaseEvent cb b e))"
  by (auto simp: app_keeps_def releaseEvent_def Let_def split: option.splits)

lemma process_app:
  assumes "app_keeps cb I" "I (eb_app b)" "\<not> cb_Exists cb (eb_app b) e"
    "completeEventParents cb b e = Some parents" "processCompleteEvent cb b e parents = (b1, ok)"
    "ev_id (the_event b e) = e"
  shows "I (eb_app b1)"
proof (cases "case cb_Check cb of None \<Rightarrow> None | Some check \<Rightarrow> check (eb_app b) (the_event b e) parents")
  case None
  then have "complete_in cb (eb_app b) (the_event b e)"
    using assms by (auto simp: complete_in_def completeEventParents_def the_event_def split: option.splits)
  then have "I (fst (cb_Process cb (eb_app b) (the_event b e)))"
    using assms(1,2) unfolding app_keeps_def by blast
  then show ?thesis
    using assms(5) None
    by (auto simp: processCompleteEvent_def the_event_def [symmetric] Let_def split: prod.splits option.splits)
next
  case (Some err)
  then show ?thesis using assms(2,5) by (auto simp: processCompleteEvent_def the_event_def [symmetric] Let_def)
qed

lemma repushes_app:
  "repushes cb all e b b' \<Longrightarrow> app_keeps cb I \<Longrightarrow> list_ok b \<Longrightarrow> keyed b (set all) \<Longrightarrow> e \<in> set all \<Longrightarrow>
    I (eb_app b) \<Longrightarrow> I (eb_app b')"
  "repushes_children cb all e rest b b' \<Longrightarrow> app_keeps cb I \<Longrightarrow> list_ok b \<Longrightarrow> keyed b (set all) \<Longrightarrow>
    set rest \<subseteq> set all \<Longrightarrow> I (eb_app b) \<Longrightarrow> I (eb_app b')"
proof (induction rule: repushes_repushes_children.inducts)
  case (connected b e)
  then show ?case by (simp add: releaseEvent_app)
next
  case (failed b e parents b1)
  then have "I (eb_app b1)" using process_app [of cb I b e parents b1 False] by (simp add: keyed_def)
  then show ?case using failed by (simp add: releaseEvent_app)
next
  case (processed b e parents b1 b2)
  then have "I (eb_app b1)" using process_app [of cb I b e parents b1 True] by (simp add: keyed_def)
  moreover have "evolves b (releaseEvent cb b1 e)"
    using evolves_process [OF processed(7,3)] by (rule evolves_releaseEvent)
  ultimately show ?case
    using processed(5) processed(6-10) keyed_evolves [of b _ "set all"] releaseEvent_app [of cb I]
      evolves_list_ok [of b "releaseEvent cb b1 e"] by simp
next
  case (child e b c b1 rest b2)
  have "evolves b b1" using child(2,7) repushes_evolves by blast
  then show ?case
    using child(3,5) child(6-10) keyed_evolves [of b b1 "set all"] evolves_list_ok [of b b1] by simp
qed auto

section \<open>Connected events\<close>

text \<open>
  What the buffer relies on: an event exists for the application iff it can be fetched, a
  successful \<^verbatim>\<open>Process\<close> connects that event and nothing else, and neither a
  failing \<^verbatim>\<open>Process\<close> nor \<^verbatim>\<open>Released\<close> connects or disconnects an event.
\<close>

definition callback_ok :: "('s, 'e) Callback \<Rightarrow> bool" where
  "callback_ok cb \<longleftrightarrow>
    (\<forall>s h. cb_Exists cb s h \<longleftrightarrow> cb_Get cb s h \<noteq> None) \<and>
    (\<forall>s d h. \<not> cb_Exists cb s (ev_id d) \<longrightarrow>
      cb_Exists cb (fst (cb_Process cb s d)) h =
        (cb_Exists cb s h \<or> (h = ev_id d \<and> snd (cb_Process cb s d) = None))) \<and>
    (\<forall>rel s d peer err h. cb_Released cb = Some rel \<longrightarrow> cb_Exists cb (rel s d peer err) h = cb_Exists cb s h)"

definition waiting :: "('s, 'e) Callback \<Rightarrow> ('s, 'e) EventsBuffer \<Rightarrow> hash_event \<Rightarrow> bool" where
  "waiting cb b k \<longleftrightarrow> (\<exists>p \<in> set (ev_parents (the_event b k)). \<not> cb_Exists cb (eb_app b) p)"

lemma completeParents_None:
  "callback_ok cb \<Longrightarrow> completeParents cb s ps = None \<longleftrightarrow> (\<exists>p \<in> set ps. \<not> cb_Exists cb s p)"
  by (induction ps) (auto simp: callback_ok_def split: option.splits)

lemma complete_iff: "callback_ok cb \<Longrightarrow> completeEventParents cb b e = None \<longleftrightarrow> waiting cb b e"
  by (simp add: completeEventParents_def waiting_def the_event_def completeParents_None)

lemma Exists_Released:
  "callback_ok cb \<Longrightarrow> cb_Released cb = Some rel \<Longrightarrow> cb_Exists cb (rel s d peer err) h = cb_Exists cb s h"
  unfolding callback_ok_def by blast

lemma Exists_Process:
  "callback_ok cb \<Longrightarrow> \<not> cb_Exists cb s (ev_id d) \<Longrightarrow>
    cb_Exists cb (fst (cb_Process cb s d)) h =
      (cb_Exists cb s h \<or> (h = ev_id d \<and> snd (cb_Process cb s d) = None))"
  unfolding callback_ok_def by blast

lemma Exists_releaseEvent [simp]:
  "callback_ok cb \<Longrightarrow> cb_Exists cb (eb_app (releaseEvent cb b e)) h = cb_Exists cb (eb_app b) h"
  by (simp add: releaseEvent_def Let_def Exists_Released split: option.split)

lemma Exists_process:
  assumes "callback_ok cb" "\<not> cb_Exists cb (eb_app b) e" "ev_id (the_event b e) = e"
    "processCompleteEvent cb b e parents = (b1, ok)"
  shows "cb_Exists cb (eb_app b1) h = (cb_Exists cb (eb_app b) h \<or> (h = e \<and> ok))"
proof -
  have law: "cb_Exists cb (fst (cb_Process cb (eb_app b) (the_event b e))) h =
      (cb_Exists cb (eb_app b) h \<or> (h = e \<and> snd (cb_Process cb (eb_app b) (the_event b e)) = None))"
    using assms(1-3) by (simp add: Exists_Process)
  show ?thesis
    using assms(4) law
    by (auto simp: processCompleteEvent_def the_event_def [symmetric] Let_def split: prod.splits option.splits)
qed

lemma app_keeps_Exists: "callback_ok cb \<Longrightarrow> app_keeps cb (\<lambda>s. \<forall>h \<in> C. cb_Exists cb s h)"
  by (simp add: app_keeps_def complete_in_def Exists_Process Exists_Released)


lemma repushes_Exists:
  "repushes cb all e b b' \<Longrightarrow> callback_ok cb \<Longrightarrow> list_ok b \<Longrightarrow> keyed b (set all) \<Longrightarrow> e \<in> set all \<Longrightarrow>
    cb_Exists cb (eb_app b) h \<Longrightarrow> cb_Exists cb (eb_app b') h"
  using repushes_app(1) [of cb all e b b' "\<lambda>s. \<forall>h' \<in> {h}. cb_Exists cb s h'"] app_keeps_Exists [of cb "{h}"] by simp

section \<open>No complete event stays behind\<close>

lemma processed_wakes:
  assumes cb: "callback_ok cb" and new: "\<not> cb_Exists cb (eb_app b) e" and id: "ev_id (the_event b e) = e"
    and p: "processCompleteEvent cb b e parents = (b1, True)"
    and wait: "waiting cb b k"
  shows "waiting cb (releaseEvent cb b1 e) k \<or> e \<in> set (ev_parents (the_event (releaseEvent cb b1 e) k))"
  using wait Exists_process [OF cb new id p] processCompleteEvent_frame(3) [OF p] cb
  by (auto simp: waiting_def)

lemma failed_waits:
  assumes cb: "callback_ok cb" and new: "\<not> cb_Exists cb (eb_app b) e" and id: "ev_id (the_event b e) = e"
    and p: "processCompleteEvent cb b e parents = (b1, False)"
  shows "waiting cb (removeIncomplete (releaseEvent cb b1 e) e') k = waiting cb b k"
  using Exists_process [OF cb new id p] processCompleteEvent_frame(3) [OF p] cb
  by (simp add: waiting_def)

lemma waiting_frame [simp]:
  "waiting cb (removeIncomplete b e) k = waiting cb b k"
  "callback_ok cb \<Longrightarrow> waiting cb (releaseEvent cb b e) k = waiting cb b k"
  "waiting cb (dropEvent b e err) k = waiting cb b k"
  by (simp_all add: waiting_def)

lemma repushes_settle:
  "repushes cb all e b b' \<Longrightarrow> callback_ok cb \<Longrightarrow> list_ok b \<Longrightarrow> keyed b (set all) \<Longrightarrow> e \<in> set all \<Longrightarrow>
    buffered b \<subseteq> set all \<Longrightarrow> \<forall>k \<in> buffered b. waiting cb b k \<or> k = e \<or> k \<in> X \<Longrightarrow>
    \<forall>k \<in> buffered b'. waiting cb b' k \<or> k \<in> X"
  "repushes_children cb all e rest b b' \<Longrightarrow> callback_ok cb \<Longrightarrow> list_ok b \<Longrightarrow> keyed b (set all) \<Longrightarrow>
    set rest \<subseteq> set all \<Longrightarrow> buffered b \<subseteq> set all \<Longrightarrow>
    \<forall>k \<in> buffered b. waiting cb b k \<or> k \<in> Y \<or> (k \<in> set rest \<and> e \<in> set (ev_parents (the_event b k))) \<Longrightarrow>
    \<forall>k \<in> buffered b'. waiting cb b' k \<or> k \<in> Y"
proof (induction arbitrary: X and Y rule: repushes_repushes_children.inducts)
  case (connected b e)
  then show ?case by auto
next
  case (incomplete b e)
  then show ?case by (auto simp: complete_iff)
next
  case (failed b e parents b1)
  have "ev_id (the_event b e) = e" using failed by (simp add: keyed_def)
  moreover have "buffered b1 = buffered b" using processCompleteEvent_frame(1) [OF failed(3)] by (rule buffered_cong)
  ultimately show ?case using failed failed_waits [of cb b e parents b1] by auto
next
  case (processed b e parents b1 b2)
  have "buffered b1 = buffered b" using processCompleteEvent_frame(1) [OF processed(3)] by (rule buffered_cong)
  moreover have "evolves b (releaseEvent cb b1 e)"
    using evolves_process [OF processed(7,3)] by (rule evolves_releaseEvent)
  moreover have "\<forall>k \<in> buffered (releaseEvent cb b1 e). waiting cb (releaseEvent cb b1 e) k \<or> k \<in> insert e X \<or>
      (k \<in> set all \<and> e \<in> set (ev_parents (the_event (releaseEvent cb b1 e) k)))"
    using processed_wakes [OF processed(6,1) _ processed(3)] processed(8-11) calculation(1)
    unfolding keyed_def by auto
  ultimately have "\<forall>k \<in> buffered b2. waiting cb b2 k \<or> k \<in> insert e X"
    using processed(5) [of "insert e X"] processed(6-10) keyed_evolves [of b _ "set all"]
      evolves_list_ok [of b "releaseEvent cb b1 e"] by simp
  then show ?case by auto
next
  case (child e b c b1 rest b2)
  have ev: "evolves b b1" using child(2,7) repushes_evolves by blast
  let ?X = "Y \<union> {k \<in> set rest. e \<in> set (ev_parents (the_event b k))}"
  have "\<forall>k \<in> buffered b1. waiting cb b1 k \<or> k \<in> ?X"
    using child(11) child(9) by (intro child(3) [of ?X] child(6-8) child(10)) auto
  then have "\<forall>k \<in> buffered b1. waiting cb b1 k \<or> k \<in> Y \<or> (k \<in> set rest \<and> e \<in> set (ev_parents (the_event b1 k)))"
    using ev by (auto simp: evolves_def)
  moreover have "buffered b1 \<subseteq> set all" using ev child(10) by (auto simp: evolves_def)
  ultimately show ?case
    using child(5) [of Y] child(6-9) evolves_list_ok [OF ev] keyed_evolves [OF ev] by simp
next
  case (not_child e b c rest b2)
  then show ?case by auto
qed auto

section \<open>Releasing\<close>

lemma repushes_released:
  "repushes cb all e b b' \<Longrightarrow> list_ok b \<Longrightarrow> \<forall>k \<in> buffered b. released b k \<longrightarrow> k \<in> X \<Longrightarrow>
    (\<forall>k \<in> buffered b'. released b' k \<longrightarrow> k \<in> X) \<and> (\<forall>k \<in> buffered b - buffered b'. released b' k)"
  "repushes_children cb all e rest b b' \<Longrightarrow> list_ok b \<Longrightarrow> \<forall>k \<in> buffered b. released b k \<longrightarrow> k \<in> Y \<Longrightarrow>
    (\<forall>k \<in> buffered b'. released b' k \<longrightarrow> k \<in> Y) \<and> (\<forall>k \<in> buffered b - buffered b'. released b' k)"
proof (induction arbitrary: X and Y rule: repushes_repushes_children.inducts)
  case (failed b e parents b1)
  then show ?case
    using processCompleteEvent_frame [OF failed(3)] buffered_cong [of b1 b] by auto
next
  case (processed b e parents b1 b2)
  have "evolves b (releaseEvent cb b1 e)"
    using evolves_process [OF processed(6,3)] by (rule evolves_releaseEvent)
  moreover have "buffered b1 = buffered b" "released b1 = released b"
    using processCompleteEvent_frame [OF processed(3)] buffered_cong [of b1 b] by auto
  moreover have "evolves (releaseEvent cb b1 e) b2"
    using processed(4) calculation repushes_evolves(2) evolves_list_ok by blast
  moreover have "(\<forall>k \<in> buffered b2. released b2 k \<longrightarrow> k \<in> insert e X) \<and>
      (\<forall>k \<in> buffered b - buffered b2. released b2 k)"
    using processed(5) [of "insert e X"] processed(7) evolves_list_ok [OF calculation(1)] calculation(2,3) by simp
  moreover have "released (releaseEvent cb b1 e) e" by simp
  ultimately show ?case by (auto simp: evolves_def)
next
  case (child e b c b1 rest b2)
  have "evolves b b1" using child(2,6) repushes_evolves by blast
  moreover have "evolves b1 b2" using child(4) calculation repushes_evolves(2) evolves_list_ok by blast
  moreover have 1: "(\<forall>k \<in> buffered b1. released b1 k \<longrightarrow> k \<in> Y) \<and> (\<forall>k \<in> buffered b - buffered b1. released b1 k)"
    using child(3) [of Y] child(6,7) by blast
  moreover have "(\<forall>k \<in> buffered b2. released b2 k \<longrightarrow> k \<in> Y) \<and> (\<forall>k \<in> buffered b1 - buffered b2. released b2 k)"
    using child(5) [of Y] evolves_list_ok [OF calculation(1)] 1 by blast
  ultimately show ?case unfolding evolves_def by blast
next
  case (connected b e)
  then show ?case by auto
next
  case (not_child e b c rest b2)
  show ?case using not_child(3) [of Y] not_child(4,5) by blast
qed simp_all


section \<open>The recursion ends\<close>

definition unconnected :: "('s, 'e) Callback \<Rightarrow> ('s, 'e) EventsBuffer \<Rightarrow> hash_event set \<Rightarrow> hash_event set" where
  "unconnected cb b K = {k \<in> K. \<not> cb_Exists cb (eb_app b) k}"

lemma finite_unconnected [simp]: "finite K \<Longrightarrow> finite (unconnected cb b K)"
  by (simp add: unconnected_def)

lemma unconnected_processed:
  assumes "callback_ok cb" "\<not> cb_Exists cb (eb_app b) e" "ev_id (the_event b e) = e"
    "processCompleteEvent cb b e parents = (b1, True)"
  shows "unconnected cb (releaseEvent cb b1 e) K = unconnected cb b K - {e}"
  using Exists_process [OF assms] assms(1) by (auto simp: unconnected_def)

lemma push_returns:
  "callback_ok cb \<Longrightarrow> list_ok b \<Longrightarrow> l = Some xs \<Longrightarrow> recheck \<Longrightarrow> keyed b (set xs) \<Longrightarrow> e \<in> set xs \<Longrightarrow>
    card (unconnected cb b (set xs)) < n \<Longrightarrow> pushEvent cb n e l recheck b \<noteq> None"
  "callback_ok cb \<Longrightarrow> list_ok b \<Longrightarrow> keyed b (set all) \<Longrightarrow> set rest \<subseteq> set all \<Longrightarrow>
    card (unconnected cb b (set all)) < n \<Longrightarrow> pushChildren cb n e all rest b \<noteq> None"
proof (induction cb n e l recheck b and cb n e all rest b arbitrary: xs rule: pushEvent_pushChildren.induct)
  case (2 cb n e l recheck b)
  have id: "ev_id (the_event b e) = e" using 2 by (simp add: keyed_def)
  have "pushChildren cb n e xs xs (releaseEvent cb b1 e) \<noteq> None"
    if new: "\<not> cb_Exists cb (eb_app b) e" and comp: "completeEventParents cb b e = Some parents"
      and p: "processCompleteEvent cb b e parents = (b1, True)" for parents b1
  proof -
    have ev: "evolves b (releaseEvent cb b1 e)" using evolves_process [OF 2(3) p] by (rule evolves_releaseEvent)
    have "e \<in> unconnected cb b (set xs)" using new 2 by (simp add: unconnected_def)
    then have "card (unconnected cb (releaseEvent cb b1 e) (set xs)) < card (unconnected cb b (set xs))"
      unfolding unconnected_processed [OF 2(2) new id p] by (intro card_Diff1_less) simp
    then show ?thesis
      using 2(1) [OF new comp p [symmetric] refl TrueI, of xs] 2(2,4,6,8) evolves_list_ok [OF ev] keyed_evolves [OF ev]
      by simp
  qed
  then show ?case using 2(4,5) by (fastforce simp: Let_def split: option.splits prod.splits)
next
  case (4 cb n e all c rest b)
  show ?case
  proof (cases "e \<in> set (ev_parents (be_event (eb_objects b c)))")
    case True
    obtain b1 r where p: "pushEvent cb n c (Some all) True b = Some (b1, r)"
      using 4(1) [OF True 4(4,5) refl TrueI 4(6) _ 4(8)] 4(7) by fastforce
    have re: "repushes cb all c b b1" using p by (rule pushEvent_repushes) auto
    have ev: "evolves b b1" using repushes_evolves(1) [OF re 4(5)] .
    have "unconnected cb b1 (set all) \<subseteq> unconnected cb b (set all)"
      using repushes_Exists [OF re 4(4,5,6)] 4(7) by (auto simp: unconnected_def)
    then have "card (unconnected cb b1 (set all)) < n"
      using 4(8) card_mono [of "unconnected cb b (set all)" "unconnected cb b1 (set all)"] by simp
    then show ?thesis
      using 4(2) [OF True p refl] 4(4,7) evolves_list_ok [OF ev] keyed_evolves [OF ev 4(6)] True p by simp
  next
    case False
    then show ?thesis using 4 by simp
  qed
qed auto

text \<open>The call that a new event starts with.\<close>

lemma pushEvent_new_returns:
  assumes "callback_ok cb" "list_ok b" "keyed b (insert e (buffered b))" "card (buffered b) + 1 < n"
  shows "pushEvent cb n e None False b \<noteq> None"
proof -
  obtain m where n: "n = Suc m" using assms(4) by (cases n) auto
  have id: "ev_id (the_event b e) = e" using assms(3) by (simp add: keyed_def)
  have add: "lru_Add (eb_incompletes b) e () w \<noteq> None" for w
    by (rule Add_incomplete [OF assms(2)]) auto
  have "pushChildren cb m e xs xs (releaseEvent cb b1 e) \<noteq> None"
    if new: "\<not> cb_Exists cb (eb_app b) e" and p: "processCompleteEvent cb b e parents = (b1, True)"
      and xs: "xs = getIncompleteEventsList (releaseEvent cb b1 e)" for parents b1 xs
  proof (rule push_returns(2) [OF assms(1)])
    have ev: "evolves b (releaseEvent cb b1 e)" using evolves_process [OF assms(2) p] by (rule evolves_releaseEvent)
    show "list_ok (releaseEvent cb b1 e)" using ev by (rule evolves_list_ok)
    have xsb: "set xs \<subseteq> buffered b" using ev xs by (simp add: evolves_def)
    show "keyed (releaseEvent cb b1 e) (set xs)"
      using keyed_evolves [OF ev assms(3)] xsb by (auto simp: keyed_def)
    have "card (unconnected cb (releaseEvent cb b1 e) (set xs)) \<le> card (buffered b)"
      using xsb by (intro card_mono) (auto simp: unconnected_def)
    then show "card (unconnected cb (releaseEvent cb b1 e) (set xs)) < m" using assms(4) n by simp
  qed simp
  then show ?thesis using n add by (fastforce simp: Let_def split: option.splits prod.splits)
qed

end
