(* ===== verification/Event_Buffer_Properties.thy ===== *)
theory Event_Buffer_Properties
  imports Event_Buffer_Correct
begin

text \<open>
  Properties of the interface of the events buffer, with an application that logs
  the events it processes as the sample instance.
\<close>

section \<open>Pushing a new event\<close>

lemma Add_keeps:
  assumes "list_ok b" "lru_Add (eb_incompletes b) e () w = Some (c, [])"
  shows "buffered (b\<lparr>eb_incompletes := c\<rparr>) = insert e (buffered b)"
proof -
  let ?xs = "lru_touched (eb_incompletes b) e () w" and ?c = "with_entries (eb_incompletes b) (lru_touched (eb_incompletes b) e () w)"
  have ok: "0 \<le> lru_maxSize ?c" "lru_linked ?c"
    using assms(1) linked_touched [of "eb_incompletes b" e "()" w] by (simp_all add: list_ok_def linked_with_entries)
  have "lru_normalize ?c [] = Some (c, [])" using assms by (simp add: Add_normalize list_ok_def)
  then have "lru_evictList c = ?xs" using normalize_prefix [OF ok, of "[]"] by auto
  then show ?thesis using fst_set_unlink [of e "lru_evictList (eb_incompletes b)"] by (auto simp: buffered_def lru_touched_def)
qed

lemma new_children:
  assumes "list_ok b" "processCompleteEvent cb b e parents = (b1, True)"
    "children = getIncompleteEventsList (releaseEvent cb b1 e)"
    "pushChildren cb n e children children (releaseEvent cb b1 e) = Some b3"
  shows "repushes_children cb children e children (releaseEvent cb b1 e) b3"
    "set children = buffered b" "evolves b (releaseEvent cb b1 e)" "evolves (releaseEvent cb b1 e) b3"
proof -
  show rel: "repushes_children cb children e children (releaseEvent cb b1 e) b3"
    using assms(4) by (rule pushEvent_repushes(2))
  show ev: "evolves b (releaseEvent cb b1 e)"
    using evolves_process [OF assms(1,2)] by (rule evolves_releaseEvent)
  show "evolves (releaseEvent cb b1 e) b3" using repushes_evolves(2) [OF rel] evolves_list_ok [OF ev] by blast
  show "set children = buffered b"
    using buffered_cong [OF processCompleteEvent_frame(1) [OF assms(2)]] assms(3) by simp
qed

lemma pushEvent_new_frame:
  assumes "pushEvent cb (Suc n) e None False b = Some (b', r)" "list_ok b"
  shows "list_ok b' \<and> the_event b' = the_event b \<and> eb_limit b' = eb_limit b \<and>
    buffered b' \<subseteq> insert e (buffered b) \<and> (\<forall>k. released b k \<longrightarrow> released b' k)"
proof -
  have weaken: ?thesis if "evolves b b'" using that by (auto simp: evolves_def)
  show ?thesis using assms
  proof (cases rule: pushEvent_cases)
    case (connected b0)
    then show ?thesis using assms(2) by (intro weaken) (auto intro!: evolves_intros)
  next
    case (added c ev)
    then show ?thesis by (auto simp: the_event_def released_def fun_eq_iff)
  next
    case (failed parents b1)
    then show ?thesis using evolves_process [OF assms(2) failed(3)] by (intro weaken) (auto intro!: evolves_intros)
  next
    case (processed parents b1 children b3)
    then have "evolves b b3" using new_children(3,4) [OF assms(2) processed(3) processed(4) [simplified] processed(5)]
        evolves_trans by blast
    then show ?thesis using processed(6) by (intro weaken) (auto intro!: evolves_removeIncomplete)
  qed simp
qed

lemma pushEvent_new_app:
  assumes "pushEvent cb (Suc n) e None False b = Some (b', r)" "list_ok b" "app_keeps cb I"
    "keyed b (insert e (buffered b))" "I (eb_app b)"
  shows "I (eb_app b')"
  using assms(1,2)
proof (cases rule: pushEvent_cases)
  case (connected b0)
  then have "eb_app b0 = eb_app b" by auto
  then show ?thesis using connected assms releaseEvent_app [of cb I b0 e] by simp
next
  case (failed parents b1)
  then have "I (eb_app b1)"
    using process_app [OF assms(3,5) failed(1-3)] assms(4) by (simp add: keyed_def)
  then show ?thesis using failed assms(3) by (simp add: releaseEvent_app)
next
  case (processed parents b1 children b3)
  then have "I (eb_app b1)" using process_app [OF assms(3,5) processed(1-3)] assms(4) by (simp add: keyed_def)
  moreover note ch = new_children [OF assms(2) processed(3) processed(4) [simplified] processed(5)]
  have "keyed (releaseEvent cb b1 e) (set children)"
    using keyed_evolves [OF ch(3) assms(4)] ch(2) processed(4) by (simp add: keyed_def)
  ultimately show ?thesis
    using repushes_app(2) [OF ch(1) assms(3)] evolves_list_ok [OF ch(3)] processed(4,6) releaseEvent_app [OF assms(3)]
    by simp
qed (use assms(5) in simp_all)

lemma pushEvent_new_settles:
  assumes "pushEvent cb (Suc n) e None False b = Some (b', r)" "list_ok b" "callback_ok cb"
    "keyed b (insert e (buffered b))" "\<forall>k \<in> buffered b. waiting cb b k"
  shows "\<forall>k \<in> buffered b'. waiting cb b' k"
  using assms(1,2)
proof (cases rule: pushEvent_cases)
  case (connected b0)
  then show ?thesis using assms(3,5) by (elim disjE) auto
next
  case (added c ev)
  have "waiting cb b e" using added(2) complete_iff [OF assms(3)] by blast
  moreover have "waiting cb b' k = waiting cb b k" for k using added(5) by (simp add: waiting_def the_event_def)
  ultimately show ?thesis using added(7) assms(5) by auto
next
  case (failed parents b1)
  have "ev_id (the_event b e) = e" using assms(4) by (simp add: keyed_def)
  moreover have "buffered b1 = buffered b" using processCompleteEvent_frame(1) [OF failed(3)] by (rule buffered_cong)
  ultimately show ?thesis using failed assms(3,5) failed_waits [of cb b e parents b1] by auto
next
  case (processed parents b1 children b3)
  note ch = new_children [OF assms(2) processed(3) processed(4) [simplified] processed(5)]
  have id: "ev_id (the_event b e) = e" using assms(4) by (simp add: keyed_def)
  have sub: "set children = buffered b" "buffered (releaseEvent cb b1 e) \<subseteq> buffered b"
    using ch(2,3) processed(4) by (simp_all add: evolves_def)
  have "keyed (releaseEvent cb b1 e) (set children)"
    using keyed_evolves [OF ch(3) assms(4)] ch(2) processed(4) by (simp add: keyed_def)
  moreover have "\<forall>k \<in> buffered (releaseEvent cb b1 e). waiting cb (releaseEvent cb b1 e) k \<or> k \<in> {} \<or>
      (k \<in> set children \<and> e \<in> set (ev_parents (the_event (releaseEvent cb b1 e) k)))"
    using processed_wakes [OF assms(3) processed(1) id processed(3)] assms(5) sub by auto
  ultimately have "\<forall>k \<in> buffered b3. waiting cb b3 k \<or> k \<in> {}"
    using repushes_settle(2) [OF ch(1) assms(3) evolves_list_ok [OF ch(3)]] sub by blast
  then show ?thesis using processed(6) by simp
qed (use assms(5) in simp_all)

lemma pushEvent_new_releases:
  assumes "pushEvent cb (Suc n) e None False b = Some (b', r)" "list_ok b" "\<not> released b e"
    "\<forall>k \<in> buffered b. \<not> released b k"
  shows "\<forall>k \<in> buffered b'. \<not> released b' k"
    "\<forall>c ev. lru_Add (eb_incompletes b) e () (of_nat (Event_Size (the_event b e))) = Some (c, ev) \<longrightarrow> ev = [] \<Longrightarrow>
      \<forall>k \<in> insert e (buffered b) - buffered b'. released b' k"
proof -
  have "(\<forall>k \<in> buffered b'. \<not> released b' k) \<and>
    ((\<forall>c ev. lru_Add (eb_incompletes b) e () (of_nat (Event_Size (the_event b e))) = Some (c, ev) \<longrightarrow> ev = []) \<longrightarrow>
      (\<forall>k \<in> insert e (buffered b) - buffered b'. released b' k))" (is "?kept \<and> (?room \<longrightarrow> ?left)")
    using assms(1,2)
  proof (cases rule: pushEvent_cases)
    case (connected b0)
    then show ?thesis using assms(4) by (elim disjE) auto
  next
    case (added c ev)
    have "released b' = released b" using added(5) by (simp add: released_def fun_eq_iff)
    moreover have "?left" if ?room
      using that added Add_keeps [of b e _ c] assms(2) by simp
    ultimately show ?thesis using assms(3,4) added(7) by auto
  next
    case (failed parents b1)
    then show ?thesis
      using processCompleteEvent_frame [OF failed(3)] buffered_cong [of b1 b] assms(4) by auto
  next
    case (processed parents b1 children b3)
    note ch = new_children [OF assms(2) processed(3) processed(4) [simplified] processed(5)]
    have "\<forall>k \<in> buffered (releaseEvent cb b1 e). released (releaseEvent cb b1 e) k \<longrightarrow> k \<in> {e}"
      "buffered (releaseEvent cb b1 e) = buffered b"
      using processCompleteEvent_frame [OF processed(3)] buffered_cong [of b1 b] assms(4) by auto
    moreover have "released b3 e" using ch(4) by (simp add: evolves_def)
    ultimately show ?thesis
      using repushes_released(2) [OF ch(1) evolves_list_ok [OF ch(3)], of "{e}"] processed(6) by auto
  qed simp
  then show ?kept "?room \<Longrightarrow> ?left" by blast+
qed


section \<open>Spilling\<close>

definition evict :: "('s, 'e) Callback \<Rightarrow> ('s, 'e) EventsBuffer \<Rightarrow> hash_event \<Rightarrow> ('s, 'e) EventsBuffer" where
  "evict cb b k = spill cb (removeIncomplete b k) k"

lemma evict_frame [simp]:
  "buffered (evict cb b k) = buffered b - {k}" "the_event (evict cb b k) = the_event b"
  "released (evict cb b k) h = (h = k \<or> released b h)" "eb_limit (evict cb b k) = eb_limit b"
  "list_ok b \<Longrightarrow> list_ok (evict cb b k)"
  "eb_incompletes (evict cb b k) = eb_incompletes (removeIncomplete b k)"
  by (auto simp: evict_def spill_def)

lemma evict_app: "app_keeps cb I \<Longrightarrow> I (eb_app b) \<Longrightarrow> I (eb_app (evict cb b k))"
  by (simp add: evict_def spill_def releaseEvent_app)

lemma evict_Exists [simp]:
  "callback_ok cb \<Longrightarrow> cb_Exists cb (eb_app (evict cb b k)) h = cb_Exists cb (eb_app b) h"
  by (simp add: evict_def spill_def)

lemma spill_oldest_evict:
  assumes "list_ok b" "spill_oldest cb b = Some b'"
  obtains k where "k \<in> buffered b" "b' = evict cb b k" "k = fst (last (lru_evictList (eb_incompletes b)))"
proof -
  let ?xs = "lru_evictList (eb_incompletes b)"
  have ne: "?xs \<noteq> []" using assms(2) by (auto simp: spill_oldest_def lru_RemoveOldest_def)
  obtain k v w where l: "last ?xs = (k, v, w)" by (cases "last ?xs")
  have mem: "(k, v, w) \<in> set ?xs" using last_in_set [OF ne] l by simp
  then have "lru_item (eb_incompletes b) k = Some (v, w)"
    using assms(1) by (simp add: lru_item_def list_ok_def lru_linked_def)
  then have "b' = evict cb b k"
    using assms(2) ne l
    by (auto simp: spill_oldest_def lru_RemoveOldest_def evict_def removeIncomplete_def lru_Remove_def
        lru_removeElement_def Let_def split: option.splits)
  moreover have "k \<in> buffered b" using mem by (force simp: buffered_def)
  ultimately show thesis using that l by simp
qed

lemma first_unimportant_Some:
  assumes "first_unimportant cb b = Some k"
  obtains important where "k \<in> buffered b" "cb_IsImportant cb = Some important"
    "\<not> important (eb_app b) (the_event b k)"
  using assms Peek_buffered [of b k]
  by (auto simp: first_unimportant_def find_Some_iff the_event_def split: option.splits)

lemma first_unimportant_None:
  "first_unimportant cb b = None \<Longrightarrow> cb_IsImportant cb = Some important \<Longrightarrow> k \<in> buffered b \<Longrightarrow>
    important (eb_app b) (the_event b k)"
  using Peek_buffered [of b k] by (auto simp: first_unimportant_def find_None_iff the_event_def)

lemma spillIncompletes_induct:
  assumes "\<And>b k. P b \<Longrightarrow> list_ok b \<Longrightarrow> k \<in> buffered b \<Longrightarrow> exceeds_limit b limit \<Longrightarrow>
      first_unimportant cb b \<in> {None, Some k} \<Longrightarrow> P (evict cb b k)"
  shows "P b \<Longrightarrow> list_ok b \<Longrightarrow> P (spillIncompletes cb limit b) \<and> list_ok (spillIncompletes cb limit b)"
  using assms
proof (induction cb limit b rule: spillIncompletes.induct)
  case (1 cb limit b)
  note unfold = spillIncompletes.simps [of cb limit b]
  consider (stop) "\<not> exceeds_limit b limit \<or> (first_unimportant cb b = None \<and> spill_oldest cb b = None)"
    | (unimportant) k where "exceeds_limit b limit" "first_unimportant cb b = Some k"
    | (oldest) b1 where "exceeds_limit b limit" "first_unimportant cb b = None" "spill_oldest cb b = Some b1"
    by (cases "first_unimportant cb b"; cases "spill_oldest cb b") auto
  then show ?case
  proof cases
    case stop
    then show ?thesis using 1(3,4) by (auto simp: unfold)
  next
    case (unimportant k)
    then have "P (evict cb b k)" using 1(5) [OF 1(3,4)] first_unimportant_Some by blast
    then show ?thesis
      using 1(2) [OF unimportant] 1(4,5) unimportant by (simp add: unfold evict_def [symmetric])
  next
    case (oldest b1)
    obtain k where k: "k \<in> buffered b" "b1 = evict cb b k" by (rule spill_oldest_evict [OF 1(4) oldest(3)])
    then have "P b1" using 1(5) [OF 1(3,4)] oldest by blast
    then show ?thesis using 1(1) [OF oldest] 1(4,5) oldest k by (simp add: unfold)
  qed
qed

lemma spillIncompletes_limit:
  "list_ok b \<Longrightarrow> \<not> exceeds_limit (spillIncompletes cb limit b) limit"
proof (induction cb limit b rule: spillIncompletes.induct)
  case (1 cb limit b)
  show ?case
  proof (cases "exceeds_limit b limit")
    case ex: True
    show ?thesis
    proof (cases "first_unimportant cb b")
      case (Some k)
      then show ?thesis
        using 1(2) [OF ex Some] 1(3) ex evict_frame(5) [of b cb k]
        by (simp add: spillIncompletes.simps [of cb limit b] evict_def)
    next
      case None
      show ?thesis
      proof (cases "spill_oldest cb b")
        case none: None
        then have "lru_evictList (eb_incompletes b) = []"
          by (auto simp: spill_oldest_def lru_RemoveOldest_def Let_def split: if_splits prod.splits option.splits)
        then have "\<not> exceeds_limit b limit"
          using 1(3) by (simp add: exceeds_limit_def list_ok_def lru_linked_def lru_Len_def lru_Weight_def)
        then show ?thesis using ex by simp
      next
        case (Some b1)
        have "list_ok b1" by (rule spill_oldest_evict [OF 1(3) Some]) (simp add: 1(3))
        then show ?thesis
          using 1(1) [OF ex None Some] ex None Some by (simp add: spillIncompletes.simps [of cb limit b])
      qed
    qed
  next
    case False
    then show ?thesis by (simp add: spillIncompletes.simps [of cb limit b])
  qed
qed


lemma spillIncompletes_frame:
  assumes "list_ok b"
  shows "list_ok (spillIncompletes cb limit b)" "the_event (spillIncompletes cb limit b) = the_event b"
    "eb_limit (spillIncompletes cb limit b) = eb_limit b"
    "buffered (spillIncompletes cb limit b) \<subseteq> buffered b"
    "\<forall>k. released (spillIncompletes cb limit b) k \<longleftrightarrow>
      released b k \<or> k \<in> buffered b - buffered (spillIncompletes cb limit b)"
    "callback_ok cb \<Longrightarrow> waiting cb (spillIncompletes cb limit b) k = waiting cb b k"
proof -
  let ?P = "\<lambda>b'. the_event b' = the_event b \<and> eb_limit b' = eb_limit b \<and> buffered b' \<subseteq> buffered b \<and>
    (\<forall>k. released b' k \<longleftrightarrow> released b k \<or> k \<in> buffered b - buffered b')"
  have "?P (spillIncompletes cb limit b) \<and> list_ok (spillIncompletes cb limit b)"
    using assms by (intro spillIncompletes_induct) auto
  then show "list_ok (spillIncompletes cb limit b)" "the_event (spillIncompletes cb limit b) = the_event b"
    "eb_limit (spillIncompletes cb limit b) = eb_limit b"
    "buffered (spillIncompletes cb limit b) \<subseteq> buffered b"
    "\<forall>k. released (spillIncompletes cb limit b) k \<longleftrightarrow>
      released b k \<or> k \<in> buffered b - buffered (spillIncompletes cb limit b)" by blast+
  show "waiting cb (spillIncompletes cb limit b) k = waiting cb b k" if "callback_ok cb"
    using spillIncompletes_induct [of "\<lambda>b'. waiting cb b' k = waiting cb b k", OF _ refl assms] that
    by (simp add: waiting_def)
qed

lemma spillIncompletes_app:
  "list_ok b \<Longrightarrow> app_keeps cb I \<Longrightarrow> I (eb_app b) \<Longrightarrow> I (eb_app (spillIncompletes cb limit b))"
  using spillIncompletes_induct [of "\<lambda>b. I (eb_app b)" limit cb b] evict_app [of cb I] by blast

section \<open>The interface\<close>

definition new_object :: "('s, 'e) EventsBuffer \<Rightarrow> BaseEvent \<Rightarrow> string \<Rightarrow> ('s, 'e) EventsBuffer" where
  "new_object b de peer = set_object b (ev_id de) \<lparr>be_event = de, be_peer = peer, be_err = None, be_released = False\<rparr>"

lemma new_object_frame [simp]:
  "buffered (new_object b de peer) = buffered b" "eb_app (new_object b de peer) = eb_app b"
  "eb_limit (new_object b de peer) = eb_limit b" "list_ok (new_object b de peer) = list_ok b"
  "eb_incompletes (new_object b de peer) = eb_incompletes b"
  "the_event (new_object b de peer) k = (if k = ev_id de then de else the_event b k)"
  "released (new_object b de peer) k = (k \<noteq> ev_id de \<and> released b k)"
  by (simp_all add: new_object_def the_event_def released_def set_object_def buffered_def list_ok_def)

definition settled :: "('s, 'e) Callback \<Rightarrow> ('s, 'e) EventsBuffer \<Rightarrow> bool" where
  "settled cb b \<longleftrightarrow> (\<forall>k \<in> buffered b. waiting cb b k) \<and> \<not> exceeds_limit b (eb_limit b)"

lemma PushEvent_new:
  assumes "ev_id de \<notin> buffered b" "PushEvent cb n b de peer = Some (b', r)"
  obtains m b1 where "n = Suc m" "pushEvent cb (Suc m) (ev_id de) None False (new_object b de peer) = Some (b1, r)"
    "b' = spillIncompletes cb (eb_limit b1) b1"
proof -
  have "lru_Peek (eb_incompletes b) (ev_id de) = None" using assms(1) Peek_buffered by blast
  then obtain b1 where b1: "pushEvent cb n (ev_id de) None False (new_object b de peer) = Some (b1, r)"
    "b' = spillIncompletes cb (eb_limit b1) b1"
    using assms(2) by (auto simp: PushEvent_def new_object_def Let_def split: option.splits)
  moreover obtain m where "n = Suc m" using b1(1) by (cases n) auto
  ultimately show thesis using that by simp
qed

lemma PushEvent_duplicate:
  assumes "ev_id de \<in> buffered b"
  obtains b' where "PushEvent cb n b de peer = Some (b', False)" "eb_incompletes b' = eb_incompletes b"
    "eb_objects b' = eb_objects b" "eb_limit b' = eb_limit b"
    "\<And>I. app_keeps cb I \<Longrightarrow> I (eb_app b) \<Longrightarrow> I (eb_app b')"
    "\<And>h. callback_ok cb \<Longrightarrow> cb_Exists cb (eb_app b') h = cb_Exists cb (eb_app b) h"
proof -
  let ?e = "ev_id de"
  let ?b1 = "releaseEvent cb (dropEvent (new_object b de peer) ?e ErrDuplicateEvent) ?e"
  let ?b2 = "set_object ?b1 ?e (eb_objects b ?e)"
  have "lru_Peek (eb_incompletes b) ?e \<noteq> None" using assms Peek_buffered by blast
  then have "PushEvent cb n b de peer = Some (?b2, False)"
    by (simp add: PushEvent_def new_object_def Let_def)
  moreover have "eb_objects ?b2 = eb_objects b"
    by (auto simp: set_object_def releaseEvent_def dropEvent_def new_object_def Let_def fun_eq_iff split: option.splits)
  ultimately show thesis by (intro that [of ?b2]) (auto intro: releaseEvent_app)
qed

lemma new_keyed:
  "buffer_ok b \<Longrightarrow> keyed (new_object b de peer) (insert (ev_id de) (buffered (new_object b de peer)))"
  by (auto simp: keyed_def buffer_ok_def)


lemma PushEvent_returns:
  assumes "callback_ok cb" "buffer_ok b" "card (buffered b) + 1 < n"
  shows "\<exists>b' r. PushEvent cb n b de peer = Some (b', r)"
proof (cases "ev_id de \<in> buffered b")
  case True
  show ?thesis by (rule PushEvent_duplicate [OF True, of cb n peer]) blast
next
  case False
  then have "lru_Peek (eb_incompletes b) (ev_id de) = None" using Peek_buffered by blast
  moreover have "pushEvent cb n (ev_id de) None False (new_object b de peer) \<noteq> None"
    using assms new_keyed [OF assms(2)] by (intro pushEvent_new_returns) (auto simp: buffer_ok_def)
  ultimately show ?thesis by (auto simp: PushEvent_def new_object_def [symmetric] Let_def split: option.splits)
qed

lemma PushEvent_app:
  assumes "app_keeps cb I" "buffer_ok b" "I (eb_app b)" "PushEvent cb n b de peer = Some (b', r)"
  shows "I (eb_app b')"
proof (cases "ev_id de \<in> buffered b")
  case True
  then show ?thesis by (rule PushEvent_duplicate [of de b cb n peer]) (use assms in auto)
next
  case False
  obtain m b1 where b1: "pushEvent cb (Suc m) (ev_id de) None False (new_object b de peer) = Some (b1, r)"
    "b' = spillIncompletes cb (eb_limit b1) b1"
    using PushEvent_new [OF False assms(4)] by blast
  have ok: "list_ok (new_object b de peer)" using assms(2) by (simp add: buffer_ok_def)
  have "I (eb_app b1)" using pushEvent_new_app [OF b1(1) ok assms(1) new_keyed [OF assms(2)]] assms(3) by simp
  then show ?thesis using spillIncompletes_app assms(1) pushEvent_new_frame [OF b1(1) ok] b1(2) by blast
qed

lemma PushEvent_keeps_ok:
  assumes "buffer_ok b" "PushEvent cb n b de peer = Some (b', r)"
  shows "buffer_ok b'"
proof (cases "ev_id de \<in> buffered b")
  case True
  then show ?thesis
    by (rule PushEvent_duplicate [of de b cb n peer])
      (use assms in \<open>auto simp: buffer_ok_def buffered_def list_ok_def the_event_def released_def\<close>)
next
  case False
  obtain m b1 where b1: "pushEvent cb (Suc m) (ev_id de) None False (new_object b de peer) = Some (b1, r)"
    "b' = spillIncompletes cb (eb_limit b1) b1"
    using PushEvent_new [OF False assms(2)] by blast
  have ok: "list_ok (new_object b de peer)" using assms(1) by (simp add: buffer_ok_def)
  note fr = pushEvent_new_frame [OF b1(1) ok]
  have "\<forall>k \<in> buffered b1. \<not> released b1 k"
    using assms(1) by (intro pushEvent_new_releases(1) [OF b1(1) ok]) (auto simp: buffer_ok_def)
  moreover have "\<forall>k \<in> buffered b1. ev_id (the_event b1 k) = k"
  proof
    fix k assume "k \<in> buffered b1"
    then have "k \<in> insert (ev_id de) (buffered (new_object b de peer))" using fr by blast
    then have "ev_id (the_event (new_object b de peer) k) = k"
      using new_keyed [OF assms(1), of de peer] unfolding keyed_def by blast
    then show "ev_id (the_event b1 k) = k" using fr by metis
  qed
  moreover have l: "list_ok b1" using fr by blast
  ultimately show ?thesis
    by (auto simp: buffer_ok_def b1(2) spillIncompletes_frame(1,2) [OF l] spillIncompletes_frame(5) [OF l, rule_format]
        dest: subsetD [OF spillIncompletes_frame(4) [OF l]])
qed

lemma PushEvent_settled:
  assumes "callback_ok cb" "buffer_ok b" "settled cb b" "PushEvent cb n b de peer = Some (b', r)"
  shows "settled cb b'"
proof (cases "ev_id de \<in> buffered b")
  case True
  then show ?thesis
    by (rule PushEvent_duplicate [of de b cb n peer])
      (use assms in \<open>auto simp: settled_def buffered_def waiting_def exceeds_limit_def the_event_def\<close>)
next
  case False
  obtain m b1 where b1: "pushEvent cb (Suc m) (ev_id de) None False (new_object b de peer) = Some (b1, r)"
    "b' = spillIncompletes cb (eb_limit b1) b1"
    using PushEvent_new [OF False assms(4)] by blast
  have ok: "list_ok (new_object b de peer)" using assms(2) by (simp add: buffer_ok_def)
  note fr = pushEvent_new_frame [OF b1(1) ok]
  have "waiting cb (new_object b de peer) k" if "k \<in> buffered b" for k
    using that assms(3) False by (auto simp: settled_def waiting_def)
  then have "\<forall>k \<in> buffered b1. waiting cb b1 k"
    by (intro pushEvent_new_settles [OF b1(1) ok assms(1) new_keyed [OF assms(2)]]) simp
  moreover have l: "list_ok b1" using fr by blast
  ultimately show ?thesis
    by (auto simp: settled_def b1(2) spillIncompletes_frame(3) [OF l] spillIncompletes_frame(6) [OF l assms(1)]
        spillIncompletes_limit [OF l] dest: subsetD [OF spillIncompletes_frame(4) [OF l]])
qed

section \<open>Parents first\<close>

text \<open>An application together with the log of the events that it has processed.\<close>

definition with_log :: "('s, 'e) Callback \<Rightarrow> ('s \<times> BaseEvent list, 'e) Callback" where
  "with_log cb = \<lparr>
    cb_Process = (\<lambda>(s, log) d. case cb_Process cb s d of (s', err) \<Rightarrow> ((s', if err = None then log @ [d] else log), err)),
    cb_Released = map_option (\<lambda>rel (s, log) d peer err. (rel s d peer err, log)) (cb_Released cb),
    cb_Get = (\<lambda>(s, _). cb_Get cb s), cb_Exists = (\<lambda>(s, _). cb_Exists cb s),
    cb_Check = map_option (\<lambda>check (s, _). check s) (cb_Check cb),
    cb_IsImportant = map_option (\<lambda>important (s, _). important s) (cb_IsImportant cb)\<rparr>"

definition parents_first :: "hash_event set \<Rightarrow> BaseEvent list \<Rightarrow> bool" where
  "parents_first C log \<longleftrightarrow> (\<forall>i < length log.
    ev_id (log ! i) \<notin> C \<union> ev_id ` set (take i log) \<and> set (ev_parents (log ! i)) \<subseteq> C \<union> ev_id ` set (take i log))"

definition logged :: "('s, 'e) Callback \<Rightarrow> hash_event set \<Rightarrow> 's \<times> BaseEvent list \<Rightarrow> bool" where
  "logged cb C s \<longleftrightarrow> parents_first C (snd s) \<and> (\<forall>h. cb_Exists cb (fst s) h \<longleftrightarrow> h \<in> C \<union> ev_id ` set (snd s))"

lemma parents_first_snoc:
  "parents_first C (log @ [d]) \<longleftrightarrow> parents_first C log \<and>
    ev_id d \<notin> C \<union> ev_id ` set log \<and> set (ev_parents d) \<subseteq> C \<union> ev_id ` set log"
  unfolding parents_first_def by (auto simp: nth_append less_Suc_eq)

lemma completeParents_with_log: "completeParents (with_log cb) (s, log) ps = completeParents cb s ps"
  by (induction ps) (auto simp: with_log_def split: option.splits)

lemma app_keeps_logged:
  assumes cb: "callback_ok cb"
  shows "app_keeps (with_log cb) (logged cb C)"
proof -
  have "logged cb C (fst (cb_Process (with_log cb) (s, log) d))"
    if l: "logged cb C (s, log)" and d: "complete_in (with_log cb) (s, log) d" for s log d
  proof -
    have new: "\<not> cb_Exists cb s (ev_id d)" using d by (simp add: complete_in_def with_log_def)
    have "completeParents cb s (ev_parents d) \<noteq> None" using d by (auto simp: complete_in_def completeParents_with_log)
    then have "\<forall>p \<in> set (ev_parents d). cb_Exists cb s p" using completeParents_None [OF cb, of s "ev_parents d"] by simp
    then show ?thesis
      using l new Exists_Process [OF cb new]
      by (auto simp: logged_def with_log_def parents_first_snoc split: prod.splits)
  qed
  moreover have "logged cb C (rel s d peer err)"
    if "cb_Released (with_log cb) = Some rel" "logged cb C s" for rel s d peer err
    using that Exists_Released [OF cb] by (cases s) (auto simp: logged_def with_log_def)
  ultimately show ?thesis by (auto simp: app_keeps_def)
qed


section \<open>A sample application\<close>

definition list_callback :: "(BaseEvent list, unit) Callback" where
  "list_callback = \<lparr>cb_Process = (\<lambda>s d. (s @ [d], None)), cb_Released = None,
    cb_Get = (\<lambda>s h. List.find (\<lambda>d. ev_id d = h) s), cb_Exists = (\<lambda>s h. h \<in> ev_id ` set s),
    cb_Check = None, cb_IsImportant = Some (\<lambda>_ d. ev_seq d = 1)\<rparr>"

definition list_event :: "hash_event \<Rightarrow> hash_event list \<Rightarrow> BaseEvent" where
  "list_event i ps = \<lparr>ev_epoch = 1, ev_seq = of_nat (length ps) + 1, ev_frame = 1, ev_creator = 1,
    ev_parents = ps, ev_lamport = 1, ev_id = i\<rparr>"

definition list_buffer :: "'s \<Rightarrow> ('s, unit) EventsBuffer" where
  "list_buffer s = \<lparr>eb_app = s,
    eb_incompletes = \<lparr>lru_maxSize = 2147483647, lru_weight = 84, lru_maxWeight = 2147483647, lru_evictList = [(2, (), 84)]\<rparr>,
    eb_objects = (\<lambda>i. \<lparr>be_event = list_event i [1], be_peer = '''', be_err = None, be_released = False\<rparr>),
    eb_limit = \<lparr>Num = 10, Size = 1000\<rparr>\<rparr>"

lemma list_callback_ok: "callback_ok list_callback"
  by (auto simp: callback_ok_def list_callback_def find_None_iff)

lemma list_buffer_ok:
  "buffer_ok (list_buffer s)" "buffered (list_buffer s) = {2}" "eb_app (list_buffer s) = s"
  "settled list_callback (list_buffer [])"
  by (simp_all add: buffer_ok_def list_buffer_def list_ok_def lru_linked_def buffered_def the_event_def released_def
      list_event_def settled_def waiting_def exceeds_limit_def lru_Len_def lru_Weight_def list_callback_def)

lemma list_push:
  "map_option (\<lambda>(b, r). (map ev_id (snd (eb_app b)), lru_Keys (eb_incompletes b), r))
    (PushEvent (with_log list_callback) 3 (list_buffer ([], [])) (list_event 1 []) ''peer'') = Some ([1, 2], [], True)"
  by (simp add: PushEvent_def Let_def list_buffer_def list_event_def set_object_def with_log_def list_callback_def
      lru_Peek_def lru_item_def numeral_3_eq_3 completeEventParents_def processCompleteEvent_def releaseEvent_def
      getIncompleteEventsList_def lru_Keys_def removeIncomplete_def lru_Remove_def lru_removeElement_def lru_unlink_def
      spillIncompletes.simps exceeds_limit_def lru_Len_def lru_Weight_def)

section \<open>Properties\<close>

text \<open>
  C18: a push ends and leaves no complete event behind. Whatever event arrives, with
  recursion depth of two more than the number of buffered events \<^verbatim>\<open>PushEvent\<close> returns, every
  event that is still buffered misses a parent, and the buffer is within its limit;
  so an event is processed as soon as the last of its ancestors has arrived.
\<close>

theorem PushEvent_leaves_incomplete:
  assumes "callback_ok cb" "buffer_ok b" "settled cb b" "card (buffered b) + 1 < n"
  shows "\<exists>b' r. PushEvent cb n b de peer = Some (b', r) \<and> buffer_ok b' \<and> settled cb b'"
  using PushEvent_returns [OF assms(1,2,4)] PushEvent_keeps_ok [OF assms(2)] PushEvent_settled [OF assms(1-3)] by blast

theorem PushEvent_leaves_incomplete_witness:
  "\<exists>b' r. PushEvent list_callback 3 (list_buffer []) (list_event 1 []) ''peer'' = Some (b', r) \<and> settled list_callback b'"
  using PushEvent_leaves_incomplete [OF list_callback_ok list_buffer_ok(1,4), of 3 "list_event 1 []" "''peer''"]
  by (auto simp: list_buffer_ok)

text \<open>
  C19: parents first. The log of the successfully processed events stays such that
  no event occurs twice and all parents of an event were connected before it, for
  every order in which events arrive.
\<close>

theorem PushEvent_parents_first:
  assumes "callback_ok cb" "buffer_ok b" "logged cb C (eb_app b)" "PushEvent (with_log cb) n b de peer = Some (b', r)"
  shows "logged cb C (eb_app b')"
  using PushEvent_app [OF app_keeps_logged [OF assms(1)] assms(2,3,4)] .

theorem PushEvent_parents_first_witness:
  "\<exists>b' r. PushEvent (with_log list_callback) 3 (list_buffer ([], [])) (list_event 1 []) ''peer'' = Some (b', r) \<and>
    logged list_callback {} (eb_app b') \<and> map ev_id (snd (eb_app b')) = [1, 2]"
proof -
  obtain b' r where b': "PushEvent (with_log list_callback) 3 (list_buffer ([], [])) (list_event 1 []) ''peer'' = Some (b', r)"
    "map ev_id (snd (eb_app b')) = [1, 2]" using list_push by auto
  have "logged list_callback {} (eb_app (list_buffer ([], [])))"
    by (simp add: logged_def parents_first_def list_buffer_ok list_callback_def)
  from PushEvent_parents_first [OF list_callback_ok list_buffer_ok(1) this b'(1)] b' show ?thesis by (intro exI conjI)
qed

text \<open>
  C20: every event is accounted for. After a push of an event that is not buffered,
  each of the events concerned is either still buffered or has been released, never
  both, provided the list has room for one more event.
\<close>

theorem PushEvent_releases_all:
  assumes "buffer_ok b" "ev_id de \<notin> buffered b" "PushEvent cb n b de peer = Some (b', r)"
    and "\<forall>c ev. lru_Add (eb_incompletes b) (ev_id de) () (of_nat (Event_Size de)) = Some (c, ev) \<longrightarrow> ev = []"
    and "k \<in> insert (ev_id de) (buffered b)"
  shows "k \<in> buffered b' \<longleftrightarrow> \<not> released b' k"
proof -
  obtain m b1 where b1: "pushEvent cb (Suc m) (ev_id de) None False (new_object b de peer) = Some (b1, r)"
    "b' = spillIncompletes cb (eb_limit b1) b1"
    using PushEvent_new [OF assms(2,3)] by blast
  have ok: "list_ok (new_object b de peer)" using assms(1) by (simp add: buffer_ok_def)
  have l: "list_ok b1" using pushEvent_new_frame [OF b1(1) ok] by blast
  have "\<forall>k \<in> insert (ev_id de) (buffered b) - buffered b1. released b1 k" "\<forall>k \<in> buffered b1. \<not> released b1 k"
    using pushEvent_new_releases [OF b1(1) ok] assms(1,4) by (auto simp: buffer_ok_def)
  then show ?thesis
    using assms(5) spillIncompletes_frame(5) [OF l, rule_format, of cb "eb_limit b1" k]
      subsetD [OF spillIncompletes_frame(4) [OF l], of k cb "eb_limit b1"] b1(2) by auto
qed

theorem PushEvent_releases_all_witness:
  "\<exists>b' r. PushEvent (with_log list_callback) 3 (list_buffer ([], [])) (list_event 1 []) ''peer'' = Some (b', r) \<and>
    \<not> (2 \<in> buffered b' \<longleftrightarrow> released b' 2)"
proof -
  obtain b' r where b': "PushEvent (with_log list_callback) 3 (list_buffer ([], [])) (list_event 1 []) ''peer'' = Some (b', r)"
    using list_push by auto
  have "\<forall>c ev. lru_Add (eb_incompletes (list_buffer ([], []))) (ev_id (list_event 1 [])) ()
      (of_nat (Event_Size (list_event 1 []))) = Some (c, ev) \<longrightarrow> ev = []"
    by (simp add: lru_Add_def list_buffer_def lru_item_def list_event_def Event_Size_def lru_normalize.simps
        lru_exceeds_def lru_Len_def)
  from PushEvent_releases_all [OF list_buffer_ok(1) _ b' this, of 2] b' show ?thesis
    by (auto simp: list_buffer_ok list_event_def)
qed


text \<open>
  Spilling respects the limit and protects important events. When
  \<^verbatim>\<open>spillIncompletes\<close> returns, number and weight of the buffered events are within the
  limit, and it has evicted an important event only if no other event is left.
\<close>

theorem spillIncompletes_unimportant_first:
  assumes "list_ok b" and imp: "cb_IsImportant cb = Some important"
    and stable: "\<forall>rel s d peer err d'. cb_Released cb = Some rel \<longrightarrow> important (rel s d peer err) d' = important s d'"
  shows "\<not> exceeds_limit (spillIncompletes cb limit b) limit \<and>
    ((\<exists>k \<in> buffered b - buffered (spillIncompletes cb limit b). important (eb_app b) (the_event b k)) \<longrightarrow>
     (\<forall>k \<in> buffered (spillIncompletes cb limit b). important (eb_app b) (the_event b k)))"
proof -
  let ?P = "\<lambda>b'. the_event b' = the_event b \<and> important (eb_app b') = important (eb_app b) \<and>
    ((\<exists>k \<in> buffered b - buffered b'. important (eb_app b) (the_event b k)) \<longrightarrow>
     (\<forall>k \<in> buffered b'. important (eb_app b) (the_event b k)))"
  have app: "important (eb_app (evict cb b k)) = important (eb_app b)" for b :: "('a, 'b) EventsBuffer" and k
    using stable by (auto simp: evict_def spill_def releaseEvent_def Let_def fun_eq_iff split: option.splits)
  have "?P (evict cb b' k)"
    if "?P b'" "k \<in> buffered b'" "first_unimportant cb b' \<in> {None, Some k}" for b' k
    using that first_unimportant_None [OF _ imp, of b'] first_unimportant_Some [of cb b' k] imp
    by (auto simp: app)
  then have "?P (spillIncompletes cb limit b)" using spillIncompletes_induct [of ?P limit cb b] assms(1) by blast
  then show ?thesis using spillIncompletes_limit [OF assms(1)] by blast
qed

theorem spillIncompletes_unimportant_first_witness:
  "\<not> exceeds_limit (spillIncompletes list_callback \<lparr>Num = 0, Size = 0\<rparr> (list_buffer [])) \<lparr>Num = 0, Size = 0\<rparr>"
proof -
  have "list_ok (list_buffer ([] :: BaseEvent list))" using list_buffer_ok(1) [of "[] :: BaseEvent list"] by (simp add: buffer_ok_def)
  from spillIncompletes_unimportant_first [OF this, of list_callback "\<lambda>_ d. ev_seq d = 1" "\<lparr>Num = 0, Size = 0\<rparr>"]
  show ?thesis by (simp add: list_callback_def)
qed

end
