(* ===== verification/Voting.thy ===== *)
theory Voting
  imports Quorum_System
begin

text \<open>
  Voting by rounds over a weighted quorum system, as an interface. A world has
  levels of roots; level 0 holds the candidates, and every root of a later level
  observes roots of a quorum on the level below, never two different ones of one
  creator. From these laws alone it follows that decisions are final and equal
  everywhere, that a decision reaches all roots of the next level, and that not
  all subjects can be rejected. Theory \<^verbatim>\<open>Election\<close> interprets the locale.
\<close>

locale voting = weighted_quorum invar members weight quorum
  for invar :: "'c \<Rightarrow> bool" and members :: "'c \<Rightarrow> 'v set"
    and weight :: "'c \<Rightarrow> 'v \<Rightarrow> nat" and quorum :: "'c \<Rightarrow> nat" +
  fixes good :: "'c \<Rightarrow> 'w \<Rightarrow> bool"
    and level :: "'w \<Rightarrow> nat \<Rightarrow> 'r set"
    and creator :: "'c \<Rightarrow> 'r \<Rightarrow> 'v"
    and obs :: "'w \<Rightarrow> 'r \<Rightarrow> 'r \<Rightarrow> bool"
  assumes good_invar: "good c w \<Longrightarrow> invar c"
    and finite_level: "good c w \<Longrightarrow> finite (level w n)"
    and creator_member: "good c w \<Longrightarrow> r \<in> level w n \<Longrightarrow> creator c r \<in> members c"
    and one_per_creator: "good c w \<Longrightarrow> a1 \<in> level w (Suc n) \<Longrightarrow> a2 \<in> level w (Suc n) \<Longrightarrow>
      b1 \<in> level w n \<Longrightarrow> b2 \<in> level w n \<Longrightarrow> obs w a1 b1 \<Longrightarrow> obs w a2 b2 \<Longrightarrow>
      creator c b1 = creator c b2 \<Longrightarrow> b1 = b2"
    and observes_quorum: "good c w \<Longrightarrow> r \<in> level w (Suc n) \<Longrightarrow>
      quorum c \<le> sum (weight c) (creator c ` {b \<in> level w n. obs w r b})"
begin

text \<open>
  How a root of level \<open>n + 1\<close> votes on a subject, and who votes yes or no among the
  roots of level \<open>n + 1\<close> that a root of level \<open>n + 2\<close> observes.
\<close>

primrec yes :: "'c \<Rightarrow> 'w \<Rightarrow> nat \<Rightarrow> 'v \<Rightarrow> 'r \<Rightarrow> bool" where
  "yes c w 0 s r = (\<exists>b \<in> level w 0. obs w r b \<and> creator c b = s)"
| "yes c w (Suc n) s r =
    (sum (weight c) (creator c ` {b \<in> level w (Suc n). obs w r b \<and> \<not> yes c w n s b}) \<le>
     sum (weight c) (creator c ` {b \<in> level w (Suc n). obs w r b \<and> yes c w n s b}))"

definition voters :: "'c \<Rightarrow> 'w \<Rightarrow> nat \<Rightarrow> 'v \<Rightarrow> bool \<Rightarrow> 'r \<Rightarrow> 'v set" where
  "voters c w n s p r = creator c ` {b \<in> level w (Suc n). obs w r b \<and> yes c w n s b = p}"

definition decides :: "'c \<Rightarrow> 'w \<Rightarrow> nat \<Rightarrow> 'v \<Rightarrow> bool \<Rightarrow> 'r \<Rightarrow> bool" where
  "decides c w n s p r \<longleftrightarrow> quorum c \<le> sum (weight c) (voters c w n s p r)"

lemma yes_Suc_voters:
  "yes c w (Suc n) s r \<longleftrightarrow>
    sum (weight c) (voters c w n s False r) \<le> sum (weight c) (voters c w n s True r)"
  by (simp add: voters_def)

lemma quorum_pos: "invar c \<Longrightarrow> 0 < quorum c"
  using quorum_bound [of c] by linarith

lemma voters_sub: "good c w \<Longrightarrow> voters c w n s p r \<subseteq> members c"
  by (auto simp: voters_def creator_member)

lemma finite_voters: "good c w \<Longrightarrow> finite (voters c w n s p r)"
  using finite_subset [OF voters_sub finite_members] good_invar by blast

lemma voters_disjoint:
  assumes "good c w" and "r \<in> level w (Suc (Suc n))" and "r' \<in> level w (Suc (Suc n))"
  shows "voters c w n s True r \<inter> voters c w n s False r' = {}"
  using one_per_creator [OF assms] unfolding voters_def by blast

lemma voters_all:
  "voters c w n s True r \<union> voters c w n s False r = creator c ` {b \<in> level w (Suc n). obs w r b}"
  by (auto simp: voters_def)

lemma voters_quorum:
  assumes "good c w" and "r \<in> level w (Suc (Suc n))"
  shows "quorum c \<le> sum (weight c) (voters c w n s p r) + sum (weight c) (voters c w n s (\<not> p) r)"
proof -
  have "quorum c \<le> sum (weight c) (voters c w n s True r \<union> voters c w n s False r)"
    unfolding voters_all by (rule observes_quorum [OF assms])
  also have "\<dots> = sum (weight c) (voters c w n s True r) + sum (weight c) (voters c w n s False r)"
    by (rule sum.union_disjoint)
      (use voters_disjoint [OF assms assms(2)] finite_voters [OF assms(1)] in auto)
  finally show ?thesis by (cases p) simp_all
qed

text \<open>When one root decides, every root of the same level votes that way.\<close>

lemma decides_binds_level:
  assumes "good c w" and "r \<in> level w (Suc (Suc n))" and "r' \<in> level w (Suc (Suc n))"
    and "decides c w n s p r"
  shows "yes c w (Suc n) s r' = p"
proof -
  have inv: "invar c" by (rule good_invar [OF assms(1)])
  have disj: "voters c w n s p r \<inter> voters c w n s (\<not> p) r' = {}"
    using voters_disjoint [OF assms(1-3)] voters_disjoint [OF assms(1,3,2)] by (cases p) auto
  have "sum (weight c) (voters c w n s p r) + sum (weight c) (voters c w n s (\<not> p) r') \<le>
      sum (weight c) (members c)"
    using weight_split [OF inv voters_sub [OF assms(1)] voters_sub [OF assms(1)]] disj
    by (metis add_0_right sum.empty)
  then have "sum (weight c) (voters c w n s (\<not> p) r') < sum (weight c) (voters c w n s p r')"
    using assms(4) voters_quorum [OF assms(1,3), of s p] quorum_bound [OF inv]
    unfolding decides_def by linarith
  then show ?thesis by (cases p) (auto simp: yes_Suc_voters simp del: yes.simps)
qed

text \<open>A root that votes yes has seen a candidate, through roots that it observes.\<close>

lemma yes_sees_candidate:
  assumes "good c w" and "\<forall>a \<in> C. \<forall>n. \<forall>b \<in> level w n. obs w a b \<longrightarrow> b \<in> C"
    and "r \<in> level w (Suc n)" and "r \<in> C" and "yes c w n s r"
  shows "\<exists>a \<in> C \<inter> level w (Suc 0). \<exists>b \<in> C \<inter> level w 0. obs w a b \<and> creator c b = s"
  using assms(3-5)
proof (induction n arbitrary: r)
  case 0
  then show ?case using assms(2) by simp blast
next
  case (Suc n)
  have "voters c w n s True r \<noteq> {}"
  proof
    assume none: "voters c w n s True r = {}"
    then have "sum (weight c) (voters c w n s False r) \<le> 0" using Suc.prems(3) by (simp add: yes_Suc_voters del: yes.simps)
    then show False
      using none voters_quorum [OF assms(1) Suc.prems(1), of s True] quorum_pos [OF good_invar [OF assms(1)]] by simp
  qed
  then obtain b where "b \<in> level w (Suc n)" "obs w r b" "yes c w n s b" by (auto simp: voters_def)
  then show ?case using Suc.IH assms(2) Suc.prems(2) by blast
qed

lemma decides_has_candidate:
  assumes "good c w" and "\<forall>a \<in> C. \<forall>n. \<forall>b \<in> level w n. obs w a b \<longrightarrow> b \<in> C"
    and "r \<in> level w (Suc (Suc n))" and "r \<in> C" and "decides c w n s True r"
  shows "\<exists>a \<in> C \<inter> level w (Suc 0). \<exists>b \<in> C \<inter> level w 0. obs w a b \<and> creator c b = s"
proof -
  have "yes c w (Suc n) s r" using decides_binds_level [OF assms(1,3,3,5)] by simp
  then show ?thesis by (rule yes_sees_candidate [OF assms(1-4)])
qed

text \<open>A unanimous level makes every root above it decide.\<close>

lemma unanimous_decides:
  assumes "good c w" and "r \<in> level w (Suc (Suc n))" and "\<forall>b \<in> level w (Suc n). yes c w n s b = p"
  shows "decides c w n s p r"
proof -
  have "voters c w n s p r = creator c ` {b \<in> level w (Suc n). obs w r b}"
    using assms(3) by (auto simp: voters_def)
  then show ?thesis using observes_quorum [OF assms(1,2)] by (simp add: decides_def)
qed

lemma decides_spreads:
  assumes "good c w" and "r \<in> level w (Suc (Suc n))" and "decides c w n s p r"
    and "r' \<in> level w (Suc (Suc m))" and "n < m"
  shows "decides c w m s p r'"
proof -
  have "\<forall>b \<in> level w (Suc (n + Suc k)). yes c w (n + Suc k) s b = p" for k
  proof (induction k)
    case 0
    then show ?case using decides_binds_level [OF assms(1,2) _ assms(3)] by simp
  next
    case (Suc k)
    have "decides c w (n + Suc k) s p b" if "b \<in> level w (Suc (Suc (n + Suc k)))" for b
      by (rule unanimous_decides [OF assms(1) that Suc])
    then show ?case using decides_binds_level [OF assms(1)] by fastforce
  qed
  from this [of "m - Suc n"] assms(5) have "\<forall>b \<in> level w (Suc m). yes c w m s b = p" by simp
  then show ?thesis by (rule unanimous_decides [OF assms(1,4)])
qed

lemma decides_one_way:
  assumes "good c w" and "r \<in> level w (Suc (Suc n))" and "r' \<in> level w (Suc (Suc n))"
    and "decides c w n s p r" and "decides c w n s p' r'"
  shows "p = p'"
  using decides_binds_level [OF assms(1,2,2,4)] decides_binds_level [OF assms(1,3,2,5)] by simp

theorem decisions_agree:
  assumes "good c w" and "r \<in> level w (Suc (Suc n))" and "decides c w n s p r"
    and "r' \<in> level w (Suc (Suc m))" and "decides c w m s p' r'"
  shows "p = p'"
proof (cases n m rule: linorder_cases)
  case less
  with decides_spreads [OF assms(1-3) assms(4)] decides_one_way [OF assms(1,4,4) _ assms(5)]
  show ?thesis by blast
next
  case equal
  with decides_one_way [OF assms(1,2) _ assms(3)] assms(4,5) show ?thesis by blast
next
  case greater
  with decides_spreads [OF assms(1,4,5,2)] decides_one_way [OF assms(1,2,2,3)] show ?thesis by blast
qed

text \<open>A yes vote goes back to a candidate that a root of level 1 observes.\<close>

lemma yes_has_candidate:
  assumes "good c w" and "r \<in> level w (Suc n)" and "yes c w n s r"
  shows "\<exists>a \<in> level w (Suc 0). \<exists>b \<in> level w 0. obs w a b \<and> creator c b = s"
  using yes_sees_candidate [of c w UNIV r n s] assms by simp

lemma candidate_unique:
  assumes "good c w" and "a1 \<in> level w (Suc 0)" and "a2 \<in> level w (Suc 0)"
    and "b1 \<in> level w 0" and "b2 \<in> level w 0" and "obs w a1 b1" and "obs w a2 b2"
    and "creator c b1 = creator c b2"
  shows "b1 = b2"
  by (rule one_per_creator [OF assms])

text \<open>
  Not all subjects can be rejected: by averaging over the observed roots of level
  1, some candidate is observed by more than two thirds of their weight, and every
  root of level 2 then votes for it.
\<close>

lemma level_below:
  assumes "good c w" and "r \<in> level w (Suc n)"
  shows "level w n \<noteq> {}"
proof
  assume "level w n = {}"
  then show False
    using observes_quorum [OF assms] quorum_pos [OF good_invar [OF assms(1)]] by simp
qed

lemma level_two:
  assumes "good c w" and "r \<in> level w (Suc (Suc n))"
  shows "\<exists>r2. r2 \<in> level w (Suc (Suc 0))"
  using assms(2)
proof (induction n arbitrary: r)
  case (Suc n)
  from level_below [OF assms(1) Suc.prems] Suc.IH show ?case by blast
qed blast

definition seen :: "'c \<Rightarrow> 'w \<Rightarrow> 'r \<Rightarrow> 'v set" where
  "seen c w b = creator c ` {x \<in> level w 0. obs w b x}"

lemma yes_0_seen: "yes c w 0 s b \<longleftrightarrow> s \<in> seen c w b"
  by (auto simp: seen_def)

lemma seen_sub: "good c w \<Longrightarrow> seen c w b \<subseteq> members c"
  by (auto simp: seen_def creator_member)

lemma average:
  fixes wt :: "'v \<Rightarrow> nat" and u :: "'r \<Rightarrow> nat"
  assumes "finite M" and "finite B" and "0 < sum wt M"
    and "\<forall>b \<in> B. f b \<subseteq> M \<and> q \<le> sum wt (f b)"
  shows "\<exists>s \<in> M. sum u B * q \<le> sum u {b \<in> B. s \<in> f b} * sum wt M"
proof (rule ccontr)
  assume "\<not> ?thesis"
  then have less: "sum u {b \<in> B. s \<in> f b} * sum wt M < sum u B * q" if "s \<in> M" for s
    using that by (meson not_le)
  have Y: "sum u {b \<in> B. s \<in> f b} = (\<Sum>b \<in> B. if s \<in> f b then u b else 0)" for s
    using assms(2) by (simp add: sum.If_cases Int_def conj_commute)
  obtain t where t: "t \<in> M" "0 < wt t"
    using assms(3) by (metis gr0I less_irrefl sum.neutral)
  have "(\<Sum>s \<in> M. wt s * sum u {b \<in> B. s \<in> f b}) = (\<Sum>b \<in> B. \<Sum>s \<in> M. if s \<in> f b then u b * wt s else 0)"
    unfolding Y sum_distrib_left
    by (subst sum.swap) (auto intro!: sum.cong)
  also have "\<dots> = (\<Sum>b \<in> B. u b * sum wt (f b))"
  proof (rule sum.cong)
    fix b assume "b \<in> B"
    then have "M \<inter> f b = f b" using assms(4) by blast
    then show "(\<Sum>s \<in> M. if s \<in> f b then u b * wt s else 0) = u b * sum wt (f b)"
      using assms(1) by (simp add: sum.If_cases sum_distrib_left Int_def conj_commute)
  qed simp
  also have "\<dots> \<ge> (\<Sum>b \<in> B. u b * q)"
    using assms(4) by (intro sum_mono) simp
  finally have ge: "sum u B * q \<le> (\<Sum>s \<in> M. wt s * sum u {b \<in> B. s \<in> f b})"
    by (simp add: sum_distrib_right)
  have "(\<Sum>s \<in> M. wt s * (sum u {b \<in> B. s \<in> f b} * sum wt M)) < (\<Sum>s \<in> M. wt s * (sum u B * q))"
    using assms(1) t less by (intro sum_strict_mono_ex1) (auto intro!: mult_le_mono2 less_imp_le)
  also have "\<dots> = sum wt M * (sum u B * q)" by (simp add: sum_distrib_right)
  also have "\<dots> \<le> sum wt M * (\<Sum>s \<in> M. wt s * sum u {b \<in> B. s \<in> f b})" using ge by simp
  also have "\<dots> = (\<Sum>s \<in> M. wt s * (sum u {b \<in> B. s \<in> f b} * sum wt M))"
    by (simp add: sum_distrib_left algebra_simps)
  finally show False by simp
qed

lemma third:
  fixes W P Y N q :: nat
  assumes "P * q \<le> Y * W" and "Y + N = P" and "2 * W < 3 * q" and "0 < P"
  shows "3 * N < P"
proof -
  have "W * N + P * q \<le> W * P"
    using assms(1,2) by (auto simp: algebra_simps)
  then have a: "3 * (W * N) + P * (3 * q) \<le> 3 * (W * P)" by (simp add: algebra_simps)
  have "P * (2 * W + 1) \<le> P * (3 * q)" using assms(3) by (intro mult_le_mono2) simp
  with a have "W * (3 * N) + P \<le> W * P" by (simp add: algebra_simps)
  then have "W * (3 * N) < W * P" using assms(4) by linarith
  then show ?thesis by simp
qed

lemma some_candidate_popular:
  assumes "good c w" and "r0 \<in> level w (Suc (Suc 0))"
  shows "\<exists>s \<in> members c. \<forall>r \<in> level w (Suc (Suc 0)).
    3 * sum (weight c) (voters c w 0 s False r) < sum (weight c) (members c)"
proof -
  have inv: "invar c" by (rule good_invar [OF assms(1)])
  note pos = quorum_pos [OF inv]
  define B where "B = {b \<in> level w (Suc 0). \<exists>r \<in> level w (Suc (Suc 0)). obs w r b}"
  let ?u = "\<lambda>b. weight c (creator c b)"
  have finB: "finite B" using finite_level [OF assms(1)] by (simp add: B_def)
  have inj: "inj_on (creator c) B"
    using one_per_creator [OF assms(1)] by (auto simp: B_def inj_on_def)
  have sum_u: "sum (weight c) (creator c ` A) = sum ?u A" if "A \<subseteq> B" for A
    using inj_on_subset [OF inj that] by (simp add: sum.reindex)
  have seen: "\<forall>b \<in> B. seen c w b \<subseteq> members c \<and> quorum c \<le> sum (weight c) (seen c w b)"
    using seen_sub [OF assms(1)] observes_quorum [OF assms(1)] by (auto simp: B_def seen_def)
  have subP: "creator c ` B \<subseteq> members c" using creator_member [OF assms(1)] by (auto simp: B_def)
  have leW: "sum (weight c) A \<le> sum (weight c) (members c)" if "A \<subseteq> members c" for A
    using that finite_members [OF inv] by (intro sum_mono2) auto
  have "quorum c \<le> sum (weight c) (creator c ` {b \<in> level w (Suc 0). obs w r0 b})"
    by (rule observes_quorum [OF assms])
  also have "\<dots> \<le> sum (weight c) (creator c ` B)"
    using assms(2) finB by (intro sum_mono2) (auto simp: B_def)
  finally have q: "quorum c \<le> sum ?u B" by (simp add: sum_u)
  then have W: "quorum c \<le> sum (weight c) (members c)"
    using leW [OF subP] by (simp add: sum_u)
  obtain s where s: "s \<in> members c"
    "sum ?u B * quorum c \<le> sum ?u {b \<in> B. s \<in> seen c w b} * sum (weight c) (members c)"
    using average [OF finite_members [OF inv] finB _ seen, of ?u] W pos by auto
  have "sum ?u {b \<in> B. s \<in> seen c w b} + sum ?u {b \<in> B. s \<notin> seen c w b} = sum ?u B"
    using finB by (subst sum.union_disjoint [symmetric]) (auto intro!: arg_cong2 [where f = sum])
  from third [OF s(2) this quorum_bound [OF inv]] q pos
  have N: "3 * sum ?u {b \<in> B. s \<notin> seen c w b} < sum ?u B" by simp
  have "3 * sum (weight c) (voters c w 0 s False r) < sum (weight c) (members c)"
    if "r \<in> level w (Suc (Suc 0))" for r
  proof -
    have "voters c w 0 s False r \<subseteq> creator c ` {b \<in> B. s \<notin> seen c w b}"
      using that unfolding voters_def yes_0_seen by (auto simp: B_def)
    then have "sum (weight c) (voters c w 0 s False r) \<le> sum (weight c) (creator c ` {b \<in> B. s \<notin> seen c w b})"
      using finB by (intro sum_mono2) auto
    also have "\<dots> = sum ?u {b \<in> B. s \<notin> seen c w b}" by (intro sum_u) auto
    finally show ?thesis using N leW [OF subP] by (simp add: sum_u)
  qed
  with s(1) show ?thesis by blast
qed

theorem some_subject_not_rejected:
  assumes "good c w" and "r0 \<in> level w (Suc (Suc n0))"
  shows "\<exists>s \<in> members c. \<forall>n. \<forall>r \<in> level w (Suc (Suc n)). \<not> decides c w n s False r"
proof -
  have inv: "invar c" by (rule good_invar [OF assms(1)])
  obtain r2 where "r2 \<in> level w (Suc (Suc 0))" using level_two [OF assms] ..
  from some_candidate_popular [OF assms(1) this] obtain s where s: "s \<in> members c"
    "\<forall>r \<in> level w (Suc (Suc 0)). 3 * sum (weight c) (voters c w 0 s False r) < sum (weight c) (members c)"
    by blast
  have yes2: "yes c w (Suc n) s r" if "r \<in> level w (Suc (Suc n))" for n r
    using that
  proof (induction n arbitrary: r)
    case 0
    have "3 * sum (weight c) (voters c w 0 s False r) < sum (weight c) (members c)" using s(2) 0 by blast
    then show ?case
      using voters_quorum [OF assms(1) 0, of s True] quorum_bound [OF inv]
      by (simp add: yes_Suc_voters del: yes.simps)
  next
    case (Suc n)
    have "decides c w (Suc n) s True r"
      by (rule unanimous_decides [OF assms(1) Suc.prems]) (use Suc.IH in blast)
    from decides_binds_level [OF assms(1) Suc.prems Suc.prems this] show ?case by simp
  qed
  have "\<not> decides c w n s False r" if "r \<in> level w (Suc (Suc n))" for n r
    using decides_binds_level [OF assms(1) that that, of s False] yes2 [OF that] by blast
  with s(1) show ?thesis by blast
qed

end

end
