(* ===== verification/Election.thy ===== *)
theory Election
  imports Pos Voting "HOL-Library.AList"
begin

text \<open>
  The election of the Atropos of a frame (\<^verbatim>\<open>abft/election\<close>): votes of roots, decided
  roots, \<^verbatim>\<open>ProcessRoot\<close> with every error, and the choice of the Atropos. The two
  functions that an election is given, forkless cause and the roots of a frame,
  are arguments. An error leaves the votes written before it in place.
\<close>

section \<open>State\<close>

record Slot =
  slot_Frame :: Frame
  slot_Validator :: ValidatorID

record RootAndSlot =
  rs_ID :: hash_event
  rs_Slot :: Slot

record voteValue =
  vt_decided :: bool
  vt_yes :: bool
  vt_observedRoot :: hash_event

type_synonym voteID = "RootAndSlot \<times> ValidatorID"

record Election =
  el_frameToDecide :: Frame
  el_validators :: Validators
  el_decidedRoots :: "(ValidatorID \<times> voteValue) list"
  el_votes :: "voteID \<rightharpoonup> voteValue"

record Res =
  res_Frame :: Frame
  res_Atropos :: hash_event

type_synonym ForklessCauseFn = "hash_event \<Rightarrow> hash_event \<Rightarrow> bool"
type_synonym GetFrameRootsFn = "Frame \<Rightarrow> RootAndSlot list"

datatype election_error =
  ErrTwoForkRootsHash | ErrTwoForkRootsCount | ErrNotVoted | ErrNotQuorum | ErrAllDecidedNo
| PanicMismatchOfRoots | PanicValidatorIndex

abbreviation rs_Frame :: "RootAndSlot \<Rightarrow> Frame" where
  "rs_Frame r \<equiv> slot_Frame (rs_Slot r)"

abbreviation rs_Validator :: "RootAndSlot \<Rightarrow> ValidatorID" where
  "rs_Validator r \<equiv> slot_Validator (rs_Slot r)"

section \<open>Operations\<close>

definition Election_Reset :: "Validators \<Rightarrow> Frame \<Rightarrow> Election" where
  "Election_Reset validators frameToDecide =
    \<lparr>el_frameToDecide = frameToDecide, el_validators = validators, el_decidedRoots = [], el_votes = Map.empty\<rparr>"

definition Election_New :: "Validators \<Rightarrow> Frame \<Rightarrow> Election" where
  "Election_New validators frameToDecide = Election_Reset validators frameToDecide"

definition notDecidedRoots :: "Election \<Rightarrow> ValidatorID list option" where
  "notDecidedRoots el =
    (let notDecided = filter (\<lambda>v. map_of (el_decidedRoots el) v = None) (IDs (el_validators el))
     in if length notDecided + length (el_decidedRoots el) \<noteq> Validators_Len (el_validators el)
        then None else Some notDecided)"

definition observedRoots ::
  "ForklessCauseFn \<Rightarrow> GetFrameRootsFn \<Rightarrow> hash_event \<Rightarrow> Frame \<Rightarrow> RootAndSlot list" where
  "observedRoots observe getFrameRoots root frame =
    filter (\<lambda>frameRoot. observe root (rs_ID frameRoot)) (getFrameRoots frame)"

definition observedRootsMap ::
  "ForklessCauseFn \<Rightarrow> GetFrameRootsFn \<Rightarrow> hash_event \<Rightarrow> Frame \<Rightarrow> ValidatorID \<rightharpoonup> RootAndSlot" where
  "observedRootsMap observe getFrameRoots root frame =
    fold (\<lambda>frameRoot m. if observe root (rs_ID frameRoot) then m(rs_Validator frameRoot \<mapsto> frameRoot) else m)
      (getFrameRoots frame) Map.empty"

fun chooseAtropos_loop :: "Election \<Rightarrow> ValidatorID list \<Rightarrow> election_error + Res option" where
  "chooseAtropos_loop el [] = Inl ErrAllDecidedNo"
| "chooseAtropos_loop el (validator # rest) =
    (case map_of (el_decidedRoots el) validator of
       None \<Rightarrow> Inr None
     | Some vote \<Rightarrow>
         if vt_yes vote
         then Inr (Some \<lparr>res_Frame = el_frameToDecide el, res_Atropos = vt_observedRoot vote\<rparr>)
         else chooseAtropos_loop el rest)"

definition chooseAtropos :: "Election \<Rightarrow> election_error + Res option" where
  "chooseAtropos el = chooseAtropos_loop el (SortedIDs (el_validators el))"

text \<open>The vote of a root in the first round.\<close>

definition firstVote :: "(ValidatorID \<rightharpoonup> RootAndSlot) \<Rightarrow> ValidatorID \<Rightarrow> voteValue" where
  "firstVote rootsMap validatorSubject =
    (case rootsMap validatorSubject of
       Some observedRoot \<Rightarrow> \<lparr>vt_decided = False, vt_yes = True, vt_observedRoot = rs_ID observedRoot\<rparr>
     | None \<Rightarrow> \<lparr>vt_decided = False, vt_yes = False, vt_observedRoot = 0\<rparr>)"

text \<open>
  Later rounds count the votes of the observed roots: counters for yes, for no
  and for all votes, and the root that the yes votes name.
\<close>

fun tallyVotes ::
  "Election \<Rightarrow> ValidatorID \<Rightarrow> RootAndSlot list \<Rightarrow>
    WeightCounter \<Rightarrow> WeightCounter \<Rightarrow> WeightCounter \<Rightarrow> hash_event option \<Rightarrow>
    election_error + (WeightCounter \<times> WeightCounter \<times> WeightCounter \<times> hash_event option)" where
  "tallyVotes el subject [] yesVotes noVotes allVotes subjectHash =
    Inr (yesVotes, noVotes, allVotes, subjectHash)"
| "tallyVotes el subject (observedRoot # rest) yesVotes noVotes allVotes subjectHash =
    (case el_votes el (observedRoot, subject) of
       None \<Rightarrow> Inl ErrNotVoted
     | Some vote \<Rightarrow>
         if vt_yes vote \<and> subjectHash \<noteq> None \<and> subjectHash \<noteq> Some (vt_observedRoot vote)
         then Inl ErrTwoForkRootsHash
         else
           case (if vt_yes vote
                 then map_option (\<lambda>(c, _). (c, noVotes, Some (vt_observedRoot vote)))
                        (Count yesVotes (rs_Validator observedRoot))
                 else map_option (\<lambda>(c, _). (yesVotes, c, subjectHash))
                        (Count noVotes (rs_Validator observedRoot))) of
             None \<Rightarrow> Inl PanicValidatorIndex
           | Some (yesVotes1, noVotes1, subjectHash1) \<Rightarrow>
               (case Count allVotes (rs_Validator observedRoot) of
                  None \<Rightarrow> Inl PanicValidatorIndex
                | Some (allVotes1, counted) \<Rightarrow>
                    if \<not> counted then Inl ErrTwoForkRootsCount
                    else tallyVotes el subject rest yesVotes1 noVotes1 allVotes1 subjectHash1))"

definition laterVote :: "Election \<Rightarrow> RootAndSlot list \<Rightarrow> ValidatorID \<Rightarrow> election_error + voteValue" where
  "laterVote el roots validatorSubject =
    (let c = NewCounter (el_validators el) in
     case tallyVotes el validatorSubject roots c c c None of
       Inl err \<Rightarrow> Inl err
     | Inr (yesVotes, noVotes, allVotes, subjectHash) \<Rightarrow>
         if \<not> HasQuorum allVotes then Inl ErrNotQuorum
         else
           let yes = (Sum yesVotes \<ge> Sum noVotes) in
           Inr \<lparr>vt_decided = HasQuorum yesVotes \<or> HasQuorum noVotes,
                vt_yes = yes,
                vt_observedRoot = (case subjectHash of Some h \<Rightarrow> if yes then h else 0 | None \<Rightarrow> 0)\<rparr>)"

fun voteSubjects ::
  "RootAndSlot \<Rightarrow> bool \<Rightarrow> (ValidatorID \<rightharpoonup> RootAndSlot) \<Rightarrow> RootAndSlot list \<Rightarrow>
    ValidatorID list \<Rightarrow> Election \<Rightarrow> Election \<times> election_error option" where
  "voteSubjects newRoot firstRound rootsMap roots [] el = (el, None)"
| "voteSubjects newRoot firstRound rootsMap roots (validatorSubject # rest) el =
    (case (if firstRound then Inr (firstVote rootsMap validatorSubject)
           else laterVote el roots validatorSubject) of
       Inl err \<Rightarrow> (el, Some err)
     | Inr vote \<Rightarrow>
         let el1 = (if vt_decided vote
                    then el\<lparr>el_decidedRoots := AList.update validatorSubject vote (el_decidedRoots el)\<rparr>
                    else el)
         in voteSubjects newRoot firstRound rootsMap roots rest
              (el1\<lparr>el_votes := (el_votes el1)((newRoot, validatorSubject) \<mapsto> vote)\<rparr>))"

definition ProcessRoot ::
  "ForklessCauseFn \<Rightarrow> GetFrameRootsFn \<Rightarrow> Election \<Rightarrow> RootAndSlot \<Rightarrow>
    Election \<times> (election_error + Res option)" where
  "ProcessRoot observe getFrameRoots el newRoot =
    (case chooseAtropos el of
       Inl err \<Rightarrow> (el, Inl err)
     | Inr (Some res) \<Rightarrow> (el, Inr (Some res))
     | Inr None \<Rightarrow>
         if rs_Frame newRoot \<le> el_frameToDecide el then (el, Inr None)
         else
           let round = rs_Frame newRoot - el_frameToDecide el in
           if round = 0 then (el, Inr None)
           else
             case notDecidedRoots el of
               None \<Rightarrow> (el, Inl PanicMismatchOfRoots)
             | Some subjects \<Rightarrow>
                 let rootsMap = (if round = 1
                       then observedRootsMap observe getFrameRoots (rs_ID newRoot) (rs_Frame newRoot - 1)
                       else Map.empty);
                     roots = (if round = 1 then []
                       else observedRoots observe getFrameRoots (rs_ID newRoot) (rs_Frame newRoot - 1))
                 in case voteSubjects newRoot (round = 1) rootsMap roots subjects el of
                      (el1, Some err) \<Rightarrow> (el1, Inl err)
                    | (el1, None) \<Rightarrow> (el1, chooseAtropos el1))"

section \<open>The world of an election\<close>

text \<open>
  All roots of an epoch with their forkless-cause relation, and the frame to
  decide. The laws are those of the protocol: validators create roots; roots of
  one frame that forkless-cause roots of the next frame are unique per validator;
  every root of a later frame is forkless-caused by roots of a quorum on the frame
  before.
\<close>

type_synonym election_world = "Frame \<times> RootAndSlot set \<times> ForklessCauseFn"

definition world_level :: "election_world \<Rightarrow> nat \<Rightarrow> RootAndSlot set" where
  "world_level w n = {r \<in> fst (snd w). unat (rs_Frame r) = unat (fst w) + n}"

definition world_obs :: "election_world \<Rightarrow> RootAndSlot \<Rightarrow> RootAndSlot \<Rightarrow> bool" where
  "world_obs w r b = snd (snd w) (rs_ID r) (rs_ID b)"

definition root_creator :: "Validators \<Rightarrow> RootAndSlot \<Rightarrow> nat" where
  "root_creator vals r = GetIdx vals (rs_Validator r)"

definition good_world :: "Validators \<Rightarrow> election_world \<Rightarrow> bool" where
  "good_world vals w \<longleftrightarrow>
    wf_validators vals \<and> finite (fst (snd w)) \<and> (\<forall>r \<in> fst (snd w). Exists vals (rs_Validator r)) \<and>
    (\<forall>n. \<forall>a1 \<in> world_level w (Suc n). \<forall>a2 \<in> world_level w (Suc n).
      \<forall>b1 \<in> world_level w n. \<forall>b2 \<in> world_level w n.
        world_obs w a1 b1 \<and> world_obs w a2 b2 \<and> rs_Validator b1 = rs_Validator b2 \<longrightarrow> b1 = b2) \<and>
    (\<forall>n. \<forall>r \<in> world_level w (Suc n).
      unat (Quorum vals) \<le> (\<Sum>i \<in> root_creator vals ` {b \<in> world_level w n. world_obs w r b}. weight_at vals i))"

lemma good_world_wf: "good_world vals w \<Longrightarrow> wf_validators vals"
  by (simp add: good_world_def)

lemma root_creator_less:
  "good_world vals w \<Longrightarrow> r \<in> world_level w n \<Longrightarrow> root_creator vals r < Validators_Len vals"
  using GetIdx_Exists by (auto simp: good_world_def world_level_def root_creator_def)

interpretation vote: voting wf_validators idxs_of weight_at "\<lambda>vv. unat (Quorum vv)"
  good_world world_level root_creator world_obs
proof
  fix vals w n r assume good: "good_world vals w"
  show "wf_validators vals" using good by (rule good_world_wf)
  show "finite (world_level w n)" using good by (auto simp: good_world_def world_level_def)
  show "root_creator vals r \<in> idxs_of vals" if "r \<in> world_level w n"
    using root_creator_less [OF good that] by simp
  show "unat (Quorum vals) \<le> sum (weight_at vals) (root_creator vals ` {b \<in> world_level w n. world_obs w r b})"
    if "r \<in> world_level w (Suc n)"
    using good that unfolding good_world_def by blast
next
  fix vals w a1 n a2 b1 b2
  assume good: "good_world vals w" and mem: "a1 \<in> world_level w (Suc n)" "a2 \<in> world_level w (Suc n)"
    "b1 \<in> world_level w n" "b2 \<in> world_level w n" and obs: "world_obs w a1 b1" "world_obs w a2 b2"
    and eq: "root_creator vals b1 = root_creator vals b2"
  have "rs_Validator b1 = rs_Validator b2"
    using good mem(3,4) eq by (intro GetIdx_inj) (auto simp: good_world_def world_level_def root_creator_def)
  with good mem obs show "b1 = b2" unfolding good_world_def by blast
qed

end
