(* ===== verification/Abft_Store.thy ===== *)
theory Abft_Store
  imports Election Wlru Vec_Engine
begin

text \<open>
  The store of the consensus (\<^verbatim>\<open>abft/store*.go\<close>): the last decided frame and the
  epoch state with their pointer caches, the roots by frame with byte keys, prefix
  iteration and an LRU cache, and the confirmed events. The main database is the
  two fields of the main tables, the epoch database a record; RLP and the frame
  encoding of values are identities since one codec writes and reads. \<^verbatim>\<open>crit\<close> and
  panics are errors. The outer option is None where a loop or a cache operation
  does not end.
\<close>

section \<open>State\<close>

record EpochState =
  es_Epoch :: Epoch
  es_Validators :: Validators

record LastDecidedState =
  lds_LastDecidedFrame :: Frame

record epoch_db =
  ed_Roots :: "bytes set"
  ed_VectorIndex :: vec_db
  ed_ConfirmedEvent :: "hash_event \<rightharpoonup> Frame"

record abft_store =
  st_LastDecidedState :: "LastDecidedState option"
  st_EpochState :: "EpochState option"
  st_cacheLastDecidedState :: "LastDecidedState option"
  st_cacheEpochState :: "EpochState option"
  st_cacheFrameRoots :: "(Frame, RootAndSlot list) lru_cache"
  st_epochDB :: epoch_db

datatype abft_error =
  CritNoGenesis | CritRootKeyLen | CritRootFrame | PanicShortKey | CritCacheSize
| ErrNilGenesis | ErrNoValidators | ErrGenesisApplied
| CritWrongEpoch | CritWrongCreator | PanicNilEvent | ErrWrongFrame | ErrEventNotFound
| ErrAlreadyBootstrapped | PanicValidatorIdx | PanicNilElection | CritElection election_error
| PanicNilClock | CritIndex vec_error

type_synonym EpochDBProducer = "Epoch \<Rightarrow> epoch_db"

definition FirstFrame :: Frame where
  "FirstFrame = 1"

definition FirstEpoch :: Epoch where
  "FirstEpoch = 1"

definition empty_epoch_db :: epoch_db where
  "empty_epoch_db = \<lparr>ed_Roots = {}, ed_VectorIndex = empty_vec_db, ed_ConfirmedEvent = Map.empty\<rparr>"

definition NewStore ::
  "LastDecidedState option \<Rightarrow> EpochState option \<Rightarrow> u64 \<Rightarrow> int \<Rightarrow> abft_error + abft_store" where
  "NewStore lastDecided epochState rootsNum rootsFrames =
    (case lru_New rootsNum rootsFrames of
       None \<Rightarrow> Inl CritCacheSize
     | Some c \<Rightarrow>
         Inr \<lparr>st_LastDecidedState = lastDecided, st_EpochState = epochState,
              st_cacheLastDecidedState = None, st_cacheEpochState = None,
              st_cacheFrameRoots = c, st_epochDB = empty_epoch_db\<rparr>)"

definition openEpochDB :: "EpochDBProducer \<Rightarrow> abft_store \<Rightarrow> Epoch \<Rightarrow> abft_store" where
  "openEpochDB getEpochDB s n =
    s\<lparr>st_cacheFrameRoots := fst (lru_Purge (st_cacheFrameRoots s)), st_epochDB := getEpochDB n\<rparr>"

section \<open>Epoch state and last decided state\<close>

definition SetEpochState :: "abft_store \<Rightarrow> EpochState \<Rightarrow> abft_store" where
  "SetEpochState s e = s\<lparr>st_cacheEpochState := Some e, st_EpochState := Some e\<rparr>"

definition GetEpochState :: "abft_store \<Rightarrow> abft_error + (EpochState \<times> abft_store)" where
  "GetEpochState s =
    (case st_cacheEpochState s of
       Some e \<Rightarrow> Inr (e, s)
     | None \<Rightarrow>
         (case st_EpochState s of
            None \<Rightarrow> Inl CritNoGenesis
          | Some e \<Rightarrow> Inr (e, s\<lparr>st_cacheEpochState := Some e\<rparr>)))"

definition GetEpoch :: "abft_store \<Rightarrow> abft_error + (Epoch \<times> abft_store)" where
  "GetEpoch s = map_sum id (\<lambda>(e, s1). (es_Epoch e, s1)) (GetEpochState s)"

definition GetValidators :: "abft_store \<Rightarrow> abft_error + (Validators \<times> abft_store)" where
  "GetValidators s = map_sum id (\<lambda>(e, s1). (es_Validators e, s1)) (GetEpochState s)"

definition SetLastDecidedState :: "abft_store \<Rightarrow> LastDecidedState \<Rightarrow> abft_store" where
  "SetLastDecidedState s v = s\<lparr>st_cacheLastDecidedState := Some v, st_LastDecidedState := Some v\<rparr>"

definition GetLastDecidedState :: "abft_store \<Rightarrow> abft_error + (LastDecidedState \<times> abft_store)" where
  "GetLastDecidedState s =
    (case st_cacheLastDecidedState s of
       Some v \<Rightarrow> Inr (v, s)
     | None \<Rightarrow>
         (case st_LastDecidedState s of
            None \<Rightarrow> Inl CritNoGenesis
          | Some v \<Rightarrow> Inr (v, s\<lparr>st_cacheLastDecidedState := Some v\<rparr>)))"

definition GetLastDecidedFrame :: "abft_store \<Rightarrow> abft_error + (Frame \<times> abft_store)" where
  "GetLastDecidedFrame s = map_sum id (\<lambda>(v, s1). (lds_LastDecidedFrame v, s1)) (GetLastDecidedState s)"

definition applyGenesis :: "abft_store \<Rightarrow> Epoch \<Rightarrow> Validators \<Rightarrow> abft_store" where
  "applyGenesis s epoch validators =
    SetLastDecidedState (SetEpochState s \<lparr>es_Epoch = epoch, es_Validators = validators\<rparr>)
      \<lparr>lds_LastDecidedFrame = FirstFrame - 1\<rparr>"

definition ApplyGenesis :: "abft_store \<Rightarrow> (Epoch \<times> Validators) option \<Rightarrow> abft_error + abft_store" where
  "ApplyGenesis s g =
    (case g of
       None \<Rightarrow> Inl ErrNilGenesis
     | Some (epoch, validators) \<Rightarrow>
         if Validators_Len validators = 0 then Inl ErrNoValidators
         else if st_LastDecidedState s \<noteq> None then Inl ErrGenesisApplied
         else Inr (applyGenesis s epoch validators))"

section \<open>Confirmed events\<close>

definition SetEventConfirmedOn :: "abft_store \<Rightarrow> hash_event \<Rightarrow> Frame \<Rightarrow> abft_store" where
  "SetEventConfirmedOn s e on =
    s\<lparr>st_epochDB := (st_epochDB s)\<lparr>ed_ConfirmedEvent := (ed_ConfirmedEvent (st_epochDB s))(e \<mapsto> on)\<rparr>\<rparr>"

definition GetEventConfirmedOn :: "abft_store \<Rightarrow> hash_event \<Rightarrow> Frame" where
  "GetEventConfirmedOn s e = (case ed_ConfirmedEvent (st_epochDB s) e of None \<Rightarrow> 0 | Some f \<Rightarrow> f)"

section \<open>Roots\<close>

definition rootRecordKey :: "RootAndSlot \<Rightarrow> bytes" where
  "rootRecordKey r = Frame_Bytes (rs_Frame r) @ ValidatorID_Bytes (rs_Validator r) @ hash_Bytes (rs_ID r)"

definition addRoot :: "abft_store \<Rightarrow> BaseEvent \<Rightarrow> Frame \<Rightarrow> abft_store option" where
  "addRoot s root frame =
    (let r = \<lparr>rs_ID = ev_id root, rs_Slot = \<lparr>slot_Frame = frame, slot_Validator = ev_creator root\<rparr>\<rparr>;
         s1 = s\<lparr>st_epochDB := (st_epochDB s)\<lparr>ed_Roots := insert (rootRecordKey r) (ed_Roots (st_epochDB s))\<rparr>\<rparr>
     in case lru_Get (st_cacheFrameRoots s1) frame of
          (c, None) \<Rightarrow> Some (s1\<lparr>st_cacheFrameRoots := c\<rparr>)
        | (c, Some cached) \<Rightarrow>
            let rr = cached @ [r] in
            (case lru_Add c frame rr (of_nat (length rr)) of
               None \<Rightarrow> None
             | Some (c1, _) \<Rightarrow> Some (s1\<lparr>st_cacheFrameRoots := c1\<rparr>)))"

text \<open>The loop \<^verbatim>\<open>for f := lo; f <= hi; f++\<close> over frames; it wraps and never ends when \<open>hi\<close> is the largest frame.\<close>

partial_function (option) frames_upto :: "Frame \<Rightarrow> Frame \<Rightarrow> Frame list option" where
  "frames_upto lo hi =
    (if lo \<le> hi
     then Option.bind (frames_upto (lo + 1) hi) (\<lambda>fs. Some (lo # fs))
     else Some [])"

definition AddRoot :: "abft_store \<Rightarrow> Frame \<Rightarrow> BaseEvent \<Rightarrow> abft_store option" where
  "AddRoot s selfParentFrame root =
    (case frames_upto (selfParentFrame + 1) (ev_frame root) of
       None \<Rightarrow> None
     | Some fs \<Rightarrow> fold_option (\<lambda>s f. addRoot s root f) fs s)"

definition frameSize :: nat where
  "frameSize = 4"

definition validatorIDSize :: nat where
  "validatorIDSize = 4"

definition eventIDSize :: nat where
  "eventIDSize = 32"

definition iterate_prefix :: "bytes \<Rightarrow> bytes set \<Rightarrow> bytes list" where
  "iterate_prefix p keys = sorted_list_of_set {k \<in> keys. take (length p) k = p}"

definition decodeRoot :: "Frame \<Rightarrow> bytes \<Rightarrow> abft_error + RootAndSlot" where
  "decodeRoot f key =
    (if length key \<noteq> frameSize + validatorIDSize + eventIDSize then Inl CritRootKeyLen
     else
       case (BytesToFrame (take frameSize key),
             BytesToValidatorID (take validatorIDSize (drop frameSize key))) of
         (Some frame, Some validator) \<Rightarrow>
           if frame \<noteq> f then Inl CritRootFrame
           else Inr \<lparr>rs_ID = BytesToEvent (drop (frameSize + validatorIDSize) key),
                     rs_Slot = \<lparr>slot_Frame = frame, slot_Validator = validator\<rparr>\<rparr>
       | _ \<Rightarrow> Inl PanicShortKey)"

fun decodeRoots :: "Frame \<Rightarrow> bytes list \<Rightarrow> abft_error + RootAndSlot list" where
  "decodeRoots f [] = Inr []"
| "decodeRoots f (key # keys) =
    (case decodeRoot f key of
       Inl err \<Rightarrow> Inl err
     | Inr r \<Rightarrow> map_sum id (Cons r) (decodeRoots f keys))"

definition GetFrameRoots :: "abft_store \<Rightarrow> Frame \<Rightarrow> (abft_error + (RootAndSlot list \<times> abft_store)) option" where
  "GetFrameRoots s f =
    (case lru_Get (st_cacheFrameRoots s) f of
       (c, Some rr) \<Rightarrow> Some (Inr (rr, s\<lparr>st_cacheFrameRoots := c\<rparr>))
     | (c, None) \<Rightarrow>
         (case decodeRoots f (iterate_prefix (Frame_Bytes f) (ed_Roots (st_epochDB s))) of
            Inl err \<Rightarrow> Some (Inl err)
          | Inr rr \<Rightarrow>
              (case lru_Add c f rr (of_nat (length rr)) of
                 None \<Rightarrow> None
               | Some (c1, _) \<Rightarrow> Some (Inr (rr, s\<lparr>st_cacheFrameRoots := c1\<rparr>)))))"

section \<open>Keys\<close>

lemma rootRecordKey_decode: "decodeRoot (rs_Frame r) (rootRecordKey r) = Inr r"
  by (simp add: decodeRoot_def rootRecordKey_def frameSize_def validatorIDSize_def eventIDSize_def
      Frame_Bytes_def ValidatorID_Bytes_def BytesToFrame_def BytesToValidatorID_def)

lemma rootRecordKey_inj: "rootRecordKey a = rootRecordKey b \<longleftrightarrow> a = b"
proof
  assume eq: "rootRecordKey a = rootRecordKey b"
  then have "BytesToFrame (take 4 (rootRecordKey a)) = BytesToFrame (take 4 (rootRecordKey b))" by simp
  then have "rs_Frame a = rs_Frame b"
    by (simp add: rootRecordKey_def Frame_Bytes_def BytesToFrame_def)
  with eq show "a = b" by (metis rootRecordKey_decode sum.inject(2))
qed simp

lemma rootRecordKey_prefix:
  "take (length (Frame_Bytes f)) (rootRecordKey r) = Frame_Bytes f \<longleftrightarrow> rs_Frame r = f"
proof -
  have "Frame_Bytes a = Frame_Bytes b \<longleftrightarrow> a = b" for a b
    by (metis Frame_Bytes_def bigendian_32 option.inject)
  then show ?thesis by (simp add: rootRecordKey_def len_simps)
qed

lemma decodeRoots_ok:
  "\<forall>r \<in> set rs. rs_Frame r = f \<Longrightarrow> decodeRoots f (map rootRecordKey rs) = Inr rs"
proof (induction rs)
  case (Cons r rs)
  then show ?case using rootRecordKey_decode [of r] by simp
qed simp

lemma frames_upto_Some:
  assumes "hi \<noteq> - 1"
  shows "\<exists>fs. frames_upto lo hi = Some fs \<and> distinct fs \<and> set fs = {f. lo \<le> f \<and> f \<le> hi} \<and> sorted fs"
proof (induction "unat hi + 1 - unat lo" arbitrary: lo)
  case 0
  then have "\<not> lo \<le> hi" by (simp add: word_le_nat_alt)
  then show ?case by (auto simp: frames_upto.simps)
next
  case (Suc d)
  then have le: "lo \<le> hi" by (simp add: word_le_nat_alt)
  have "lo \<noteq> - 1" using le assms by (metis word_order.extremum_unique)
  then have un: "unat (lo + 1) = Suc (unat lo)"
    by (metis add.commute unatSuc add_eq_0_iff2 eq_neg_iff_add_eq_0)
  have "d = unat hi + 1 - unat (lo + 1)" using Suc.hyps(2) un le by (simp add: word_le_nat_alt)
  from Suc.hyps(1) [OF this]
  obtain fs where fs: "frames_upto (lo + 1) hi = Some fs" "distinct fs" "set fs = {f. lo + 1 \<le> f \<and> f \<le> hi}" "sorted fs"
    by auto
  have lt: "lo + 1 \<le> f \<longleftrightarrow> lo < f" for f
    using un by (auto simp: word_le_nat_alt word_less_nat_alt)
  have fs': "set fs = {f. lo < f \<and> f \<le> hi}" unfolding fs(3) lt ..
  have "f \<in> set (lo # fs) \<longleftrightarrow> lo \<le> f \<and> f \<le> hi" for f
    unfolding set_simps fs' insert_iff mem_Collect_eq using le le_less [of lo f] by blast
  then have "set (lo # fs) = {f. lo \<le> f \<and> f \<le> hi}" by blast
  moreover have "frames_upto lo hi = Some (lo # fs)" using le fs(1) by (subst frames_upto.simps) simp
  moreover have "distinct (lo # fs)" "sorted (lo # fs)"
    using fs(2,4) unfolding distinct.simps sorted_simps fs' by (simp_all add: less_imp_le)
  ultimately show ?case by blast
qed

section \<open>Coherence\<close>

definition stored_roots :: "abft_store \<Rightarrow> RootAndSlot set" where
  "stored_roots s = {r. rootRecordKey r \<in> ed_Roots (st_epochDB s)}"

definition roots_ok :: "abft_store \<Rightarrow> bool" where
  "roots_ok s \<longleftrightarrow>
    finite (ed_Roots (st_epochDB s)) \<and> ed_Roots (st_epochDB s) \<subseteq> range rootRecordKey \<and>
    lru_inv (st_cacheFrameRoots s) \<and>
    (\<forall>f rr. lru_Peek (st_cacheFrameRoots s) f = Some rr \<longrightarrow>
      distinct rr \<and> set rr = {r \<in> stored_roots s. rs_Frame r = f})"

definition states_ok :: "abft_store \<Rightarrow> bool" where
  "states_ok s \<longleftrightarrow>
    (\<forall>v. st_cacheLastDecidedState s = Some v \<longrightarrow> st_LastDecidedState s = Some v) \<and>
    (\<forall>e. st_cacheEpochState s = Some e \<longrightarrow> st_EpochState s = Some e)"

lemma decode_iterate:
  assumes "roots_ok s"
  shows "\<exists>rr. decodeRoots f (iterate_prefix (Frame_Bytes f) (ed_Roots (st_epochDB s))) = Inr rr \<and>
    distinct rr \<and> set rr = {r \<in> stored_roots s. rs_Frame r = f}"
proof -
  let ?keys = "iterate_prefix (Frame_Bytes f) (ed_Roots (st_epochDB s))"
  have fin: "finite (ed_Roots (st_epochDB s))" and sub: "ed_Roots (st_epochDB s) \<subseteq> range rootRecordKey"
    using assms by (auto simp: roots_ok_def)
  have keys: "set ?keys = {k \<in> ed_Roots (st_epochDB s). take (length (Frame_Bytes f)) k = Frame_Bytes f}"
    "distinct ?keys"
    using fin by (simp_all add: iterate_prefix_def)
  define rr where "rr = map (inv rootRecordKey) ?keys"
  have inj: "inj rootRecordKey" by (simp add: inj_def rootRecordKey_inj)
  have k: "map rootRecordKey rr = ?keys"
    unfolding rr_def map_map using keys(1) sub by (intro map_idI) (auto simp: f_inv_into_f)
  have "distinct rr" using keys(2) unfolding k [symmetric] by (simp add: distinct_map)
  moreover have set: "set rr = {r \<in> stored_roots s. rs_Frame r = f}"
  proof -
    have "r \<in> set rr \<longleftrightarrow> rootRecordKey r \<in> set ?keys" for r
      unfolding k [symmetric] using inj by (auto simp: inj_def)
    then show ?thesis using keys(1) rootRecordKey_prefix by (auto simp: stored_roots_def)
  qed
  moreover have "decodeRoots f ?keys = Inr rr"
    unfolding k [symmetric] using set by (intro decodeRoots_ok) auto
  ultimately show ?thesis by blast
qed

lemma stored_roots_cache [simp]: "stored_roots (s\<lparr>st_cacheFrameRoots := c\<rparr>) = stored_roots s"
  by (simp add: stored_roots_def)

lemma roots_ok_cache:
  assumes "roots_ok s" and "lru_inv c"
    and "\<And>f rr. lru_Peek c f = Some rr \<Longrightarrow> distinct rr \<and> set rr = {r \<in> stored_roots s. rs_Frame r = f}"
  shows "roots_ok (s\<lparr>st_cacheFrameRoots := c\<rparr>)"
  using assms by (simp add: roots_ok_def)

lemma GetFrameRoots_ok:
  assumes "roots_ok s"
  shows "\<exists>rr c. GetFrameRoots s f = Some (Inr (rr, s\<lparr>st_cacheFrameRoots := c\<rparr>)) \<and> distinct rr \<and>
    set rr = {r \<in> stored_roots s. rs_Frame r = f} \<and> roots_ok (s\<lparr>st_cacheFrameRoots := c\<rparr>)"
proof -
  let ?c = "st_cacheFrameRoots s"
  have inv: "lru_inv ?c" using assms by (simp add: roots_ok_def)
  have peek: "lru_Peek ?c f = Some rr \<Longrightarrow> distinct rr \<and> set rr = {r \<in> stored_roots s. rs_Frame r = f}" for f rr
    using assms by (simp add: roots_ok_def)
  obtain c o' where get: "lru_Get ?c f = (c, o')" by (cases "lru_Get ?c f")
  have c: "lru_inv c" "lru_Peek c = lru_Peek ?c" "o' = lru_Peek ?c f" using Get_inv [OF inv, of f] get by auto
  have ok: "roots_ok (s\<lparr>st_cacheFrameRoots := c\<rparr>)" by (rule roots_ok_cache [OF assms c(1)]) (use c(2) peek in auto)
  show ?thesis
  proof (cases o')
    case (Some rr)
    then show ?thesis
      using get c(3) peek [of f rr] ok by (auto simp: GetFrameRoots_def)
  next
    case None
    obtain rr where rr: "decodeRoots f (iterate_prefix (Frame_Bytes f) (ed_Roots (st_epochDB s))) = Inr rr"
      "distinct rr" "set rr = {r \<in> stored_roots s. rs_Frame r = f}" using decode_iterate [OF assms] by blast
    obtain c1 ev where c1: "lru_Add c f rr (of_nat (length rr)) = Some (c1, ev)" "lru_inv c1"
      "\<And>k v. lru_Peek c1 k = Some v \<Longrightarrow> (if k = f then v = rr else lru_Peek c k = Some v)"
      by (rule Add_inv [OF c(1), of f rr "of_nat (length rr)"]) blast
    have "roots_ok (s\<lparr>st_cacheFrameRoots := c1\<rparr>)"
    proof (rule roots_ok_cache [OF assms c1(2)])
      fix g v assume "lru_Peek c1 g = Some v"
      from c1(3) [OF this] show "distinct v \<and> set v = {r \<in> stored_roots s. rs_Frame r = g}"
        using rr(2,3) c(2) peek by (cases "g = f") auto
    qed
    with get None rr c1(1) show ?thesis by (auto simp: GetFrameRoots_def)
  qed
qed

lemma addRoot_ok:
  assumes ok: "roots_ok s" and r: "r = \<lparr>rs_ID = ev_id root, rs_Slot = \<lparr>slot_Frame = f, slot_Validator = ev_creator root\<rparr>\<rparr>"
    and new: "r \<notin> stored_roots s"
  shows "\<exists>c. addRoot s root f = Some (s\<lparr>st_epochDB := (st_epochDB s)\<lparr>ed_Roots := insert (rootRecordKey r) (ed_Roots (st_epochDB s))\<rparr>,
      st_cacheFrameRoots := c\<rparr>) \<and>
    roots_ok (s\<lparr>st_epochDB := (st_epochDB s)\<lparr>ed_Roots := insert (rootRecordKey r) (ed_Roots (st_epochDB s))\<rparr>,
      st_cacheFrameRoots := c\<rparr>)"
proof -
  let ?s1 = "s\<lparr>st_epochDB := (st_epochDB s)\<lparr>ed_Roots := insert (rootRecordKey r) (ed_Roots (st_epochDB s))\<rparr>\<rparr>"
  let ?c = "st_cacheFrameRoots s"
  have inv: "lru_inv ?c" using ok by (simp add: roots_ok_def)
  have peek: "lru_Peek ?c f = Some rr \<Longrightarrow> distinct rr \<and> set rr = {r \<in> stored_roots s. rs_Frame r = f}" for f rr
    using ok by (simp add: roots_ok_def)
  obtain c o' where get: "lru_Get ?c f = (c, o')" by (cases "lru_Get ?c f")
  have c: "lru_inv c" "lru_Peek c = lru_Peek ?c" "o' = lru_Peek ?c f" using Get_inv [OF inv, of f] get by auto
  have stored: "stored_roots ?s1 = insert r (stored_roots s)"
    by (auto simp: stored_roots_def rootRecordKey_inj)
  have frame: "rs_Frame r = f" using r by simp
  have build: "roots_ok (?s1\<lparr>st_cacheFrameRoots := c'\<rparr>)" if "lru_inv c'"
    "\<And>g v. lru_Peek c' g = Some v \<Longrightarrow> distinct v \<and> set v = {x \<in> insert r (stored_roots s). rs_Frame x = g}" for c'
    using that ok stored by (auto simp: roots_ok_def stored_roots_def)
  show ?thesis
  proof (cases o')
    case None
    have "roots_ok (?s1\<lparr>st_cacheFrameRoots := c\<rparr>)"
    proof (rule build [OF c(1)])
      fix g v assume "lru_Peek c g = Some v"
      with None c peek frame show "distinct v \<and> set v = {x \<in> insert r (stored_roots s). rs_Frame x = g}"
        by (cases "g = f") auto
    qed
    with get None r show ?thesis by (auto simp: addRoot_def Let_def)
  next
    case (Some cached)
    let ?rr = "cached @ [r]"
    have cached: "distinct cached" "set cached = {r \<in> stored_roots s. rs_Frame r = f}" using peek Some c(3) by auto
    obtain c1 ev where c1: "lru_Add c f ?rr (of_nat (length ?rr)) = Some (c1, ev)" "lru_inv c1"
      "\<And>k v. lru_Peek c1 k = Some v \<Longrightarrow> (if k = f then v = ?rr else lru_Peek c k = Some v)"
      by (rule Add_inv [OF c(1), of f ?rr "of_nat (length ?rr)"]) blast
    have "roots_ok (?s1\<lparr>st_cacheFrameRoots := c1\<rparr>)"
    proof (rule build [OF c1(2)])
      fix g v assume "lru_Peek c1 g = Some v"
      from c1(3) [OF this] show "distinct v \<and> set v = {x \<in> insert r (stored_roots s). rs_Frame x = g}"
        using cached new frame c(2) peek by (cases "g = f") auto
    qed
    with get Some r c1(1) show ?thesis by (auto simp: addRoot_def Let_def)
  qed
qed

definition root_at :: "BaseEvent \<Rightarrow> Frame \<Rightarrow> RootAndSlot" where
  "root_at e f = \<lparr>rs_ID = ev_id e, rs_Slot = \<lparr>slot_Frame = f, slot_Validator = ev_creator e\<rparr>\<rparr>"

definition with_roots :: "abft_store \<Rightarrow> bytes set \<Rightarrow> (Frame, RootAndSlot list) lru_cache \<Rightarrow> abft_store" where
  "with_roots s R c = s\<lparr>st_epochDB := (st_epochDB s)\<lparr>ed_Roots := R\<rparr>, st_cacheFrameRoots := c\<rparr>"

lemma with_roots_simps [simp]:
  "with_roots (with_roots s R c) R' c' = with_roots s R' c'"
  "ed_Roots (st_epochDB (with_roots s R c)) = R"
  "ed_ConfirmedEvent (st_epochDB (with_roots s R c)) = ed_ConfirmedEvent (st_epochDB s)"
  "st_LastDecidedState (with_roots s R c) = st_LastDecidedState s"
  "st_EpochState (with_roots s R c) = st_EpochState s"
  "st_cacheLastDecidedState (with_roots s R c) = st_cacheLastDecidedState s"
  "st_cacheEpochState (with_roots s R c) = st_cacheEpochState s"
  by (simp_all add: with_roots_def)

lemma with_roots_same: "with_roots s (ed_Roots (st_epochDB s)) c = s\<lparr>st_cacheFrameRoots := c\<rparr>"
  by (simp add: with_roots_def)

lemma fold_addRoot_ok:
  assumes "roots_ok s" and "distinct fs" and "\<forall>f \<in> set fs. root_at root f \<notin> stored_roots s"
  shows "\<exists>R c. fold_option (\<lambda>s f. addRoot s root f) fs s = Some (with_roots s R c) \<and> roots_ok (with_roots s R c) \<and>
    stored_roots (with_roots s R c) = stored_roots s \<union> root_at root ` set fs"
  using assms
proof (induction fs arbitrary: s)
  case Nil
  have "s = with_roots s (ed_Roots (st_epochDB s)) (st_cacheFrameRoots s)" by (simp add: with_roots_def)
  with Nil show ?case by (metis (no_types, lifting) fold_option.simps(1) image_empty list.set(1) sup_bot_right)
next
  case (Cons f fs)
  let ?R = "insert (rootRecordKey (root_at root f)) (ed_Roots (st_epochDB s))"
  have "root_at root f \<notin> stored_roots s" using Cons.prems(3) by simp
  from addRoot_ok [OF Cons.prems(1) root_at_def this, folded with_roots_def]
  obtain c where c: "addRoot s root f = Some (with_roots s ?R c)" "roots_ok (with_roots s ?R c)" by blast
  have stored: "stored_roots (with_roots s ?R c) = insert (root_at root f) (stored_roots s)"
    by (auto simp: stored_roots_def rootRecordKey_inj)
  have new: "\<forall>g \<in> set fs. root_at root g \<notin> stored_roots (with_roots s ?R c)"
  proof
    fix g assume g: "g \<in> set fs"
    then have "root_at root g \<noteq> root_at root f" using Cons.prems(2) by (auto simp: root_at_def)
    with g Cons.prems(3) show "root_at root g \<notin> stored_roots (with_roots s ?R c)" by (simp add: stored)
  qed
  from Cons.IH [OF c(2) _ new] Cons.prems(2) obtain R' c' where
    "fold_option (\<lambda>s f. addRoot s root f) fs (with_roots s ?R c) = Some (with_roots s R' c')"
    "roots_ok (with_roots s R' c')"
    "stored_roots (with_roots s R' c') = stored_roots (with_roots s ?R c) \<union> root_at root ` set fs" by auto
  with c(1) stored show ?case by auto
qed

lemma AddRoot_ok:
  assumes "roots_ok s" and "ev_frame root \<noteq> - 1"
    and "\<forall>f. spf + 1 \<le> f \<and> f \<le> ev_frame root \<longrightarrow> root_at root f \<notin> stored_roots s"
  shows "\<exists>R c. AddRoot s spf root = Some (with_roots s R c) \<and> roots_ok (with_roots s R c) \<and>
    stored_roots (with_roots s R c) = stored_roots s \<union> root_at root ` {f. spf + 1 \<le> f \<and> f \<le> ev_frame root}"
proof -
  obtain fs where fs: "frames_upto (spf + 1) (ev_frame root) = Some fs" "distinct fs"
    "set fs = {f. spf + 1 \<le> f \<and> f \<le> ev_frame root}"
    using frames_upto_Some [OF assms(2)] by blast
  have "\<forall>f \<in> set fs. root_at root f \<notin> stored_roots s" using assms(3) fs(3) by blast
  from fold_addRoot_ok [OF assms(1) fs(2) this] fs(1,3) show ?thesis by (simp add: AddRoot_def)
qed

end
