(* ===== verification/Outcome.thy ===== *)
theory Outcome
  imports Prelude
begin

text \<open>
  Operations that may fail and may not return: \<^const>\<open>None\<close> when a loop runs
  forever, an error on the left, the result on the right. \<^verbatim>\<open>res_bind\<close> is the
  sequencing of Go statements of which each may end the function.
\<close>

type_synonym ('e, 'a) outcome = "('e + 'a) option"

definition res_bind :: "('e, 'a) outcome \<Rightarrow> ('a \<Rightarrow> ('e, 'b) outcome) \<Rightarrow> ('e, 'b) outcome" where
  "res_bind m k = Option.bind m (\<lambda>r. case r of Inl err \<Rightarrow> Some (Inl err) | Inr x \<Rightarrow> k x)"

abbreviation ret :: "'a \<Rightarrow> ('e, 'a) outcome" where
  "ret x \<equiv> Some (Inr x)"

abbreviation fail :: "'e \<Rightarrow> ('e, 'a) outcome" where
  "fail err \<equiv> Some (Inl err)"

lemma res_bind_simps [simp]:
  "res_bind None k = None" "res_bind (fail err) k = fail err" "res_bind (ret x) k = k x"
  by (simp_all add: res_bind_def)

lemma res_bind_assoc: "res_bind (res_bind m f) g = res_bind m (\<lambda>x. res_bind (f x) g)"
proof (cases m)
  case (Some r)
  then show ?thesis by (cases r) simp_all
qed simp

lemma res_bind_eq_ret: "res_bind m k = ret y \<longleftrightarrow> (\<exists>x. m = ret x \<and> k x = ret y)"
proof (cases m)
  case (Some r)
  then show ?thesis by (cases r) simp_all
qed simp

lemma res_bind_cong [fundef_cong]:
  "m = m' \<Longrightarrow> (\<And>x. m' = ret x \<Longrightarrow> k x = k' x) \<Longrightarrow> res_bind m k = res_bind m' k'"
  by (auto simp: res_bind_def split: sum.split intro!: bind_option_cong [OF refl])

lemma res_bind_mono [partial_function_mono]:
  assumes "mono_option B" and "\<And>y. mono_option (\<lambda>f. C y f)"
  shows "mono_option (\<lambda>f. res_bind (B f) (\<lambda>y. C y f))"
proof -
  have "mono_option (\<lambda>f. case r of Inl err \<Rightarrow> Some (Inl err) | Inr x \<Rightarrow> C x f)" for r
    using assms(2) by (cases r) (auto intro: option.const_mono)
  then show ?thesis
    unfolding res_bind_def by (intro bind_mono assms(1))
qed

text \<open>A loop over a list whose body may fail.\<close>

fun res_fold :: "('s \<Rightarrow> 'a \<Rightarrow> ('e, 's) outcome) \<Rightarrow> 'a list \<Rightarrow> 's \<Rightarrow> ('e, 's) outcome" where
  "res_fold f [] s = ret s"
| "res_fold f (x # xs) s = res_bind (f s x) (res_fold f xs)"

lemma res_fold_append: "res_fold f (xs @ ys) s = res_bind (res_fold f xs s) (res_fold f ys)"
proof (induction xs arbitrary: s)
  case (Cons x xs)
  then have "res_fold f (xs @ ys) = (\<lambda>s. res_bind (res_fold f xs s) (res_fold f ys))" by blast
  then show ?case by (simp add: res_bind_assoc)
qed simp

end
