(* ===== verification/Orderer.thy ===== *)
theory Orderer
  imports Abft_Store Outcome
begin

text \<open>
  The orderer (\<^verbatim>\<open>abft/orderer.go\<close>, \<^verbatim>\<open>event_processing.go\<close>, \<^verbatim>\<open>frame_decide.go\<close>,
  \<^verbatim>\<open>bootstrap.go\<close>): frames of events, roots, the election of each frame and the
  switch of epochs. What the orderer is given is a record of functions over the
  state \<open>'a\<close> of the application and of the DAG index: the event source, forkless
  cause, the two callbacks and the producer of epoch databases. A callback that is
  nil in the code is the function that changes nothing.
\<close>

section \<open>State and environment\<close>

record 'a OrdererEnv =
  env_GetEvent :: "'a \<Rightarrow> hash_event \<Rightarrow> BaseEvent option"
  env_ForklessCause :: "'a \<Rightarrow> hash_event \<Rightarrow> hash_event \<Rightarrow> bool"
  env_ApplyAtropos :: "Frame \<Rightarrow> hash_event \<Rightarrow> 'a \<times> abft_store \<Rightarrow>
    (abft_error, ('a \<times> abft_store) \<times> Validators option) outcome"
  env_EpochDBLoaded :: "Epoch \<Rightarrow> 'a \<times> abft_store \<Rightarrow> (abft_error, 'a \<times> abft_store) outcome"
  env_getEpochDB :: EpochDBProducer

record 'a Orderer =
  or_app :: 'a
  or_store :: abft_store
  or_election :: "Election option"

definition NewOrderer :: "'a \<Rightarrow> abft_store \<Rightarrow> 'a Orderer" where
  "NewOrderer app s = \<lparr>or_app = app, or_store = s, or_election = None\<rparr>"

text \<open>Reads of the store go through its caches, so they return the store.\<close>

definition read_store ::
  "(abft_store \<Rightarrow> abft_error + ('b \<times> abft_store)) \<Rightarrow> 'a Orderer \<Rightarrow> (abft_error, 'b \<times> 'a Orderer) outcome" where
  "read_store get p =
    (case get (or_store p) of
       Inl err \<Rightarrow> fail err
     | Inr (x, s) \<Rightarrow> ret (x, p\<lparr>or_store := s\<rparr>))"

definition read_roots :: "'a Orderer \<Rightarrow> Frame \<Rightarrow> (abft_error, RootAndSlot list \<times> 'a Orderer) outcome" where
  "read_roots p f =
    res_bind (GetFrameRoots (or_store p) f) (\<lambda>(rr, s). ret (rr, p\<lparr>or_store := s\<rparr>))"

section \<open>Frames of events\<close>

fun quorumOn_loop ::
  "(hash_event \<Rightarrow> bool) \<Rightarrow> RootAndSlot list \<Rightarrow> WeightCounter \<Rightarrow> (abft_error, bool) outcome" where
  "quorumOn_loop observed [] counter = ret (HasQuorum counter)"
| "quorumOn_loop observed (it # rest) counter =
    (case (if observed (rs_ID it) then map_option fst (Count counter (rs_Validator it)) else Some counter) of
       None \<Rightarrow> fail PanicValidatorIdx
     | Some counter1 \<Rightarrow>
         if HasQuorum counter1 then ret (HasQuorum counter1)
         else quorumOn_loop observed rest counter1)"

definition forklessCausedByQuorumOn ::
  "'a OrdererEnv \<Rightarrow> 'a Orderer \<Rightarrow> BaseEvent \<Rightarrow> Frame \<Rightarrow> (abft_error, bool \<times> 'a Orderer) outcome" where
  "forklessCausedByQuorumOn env p e f =
    res_bind (read_store GetValidators p) (\<lambda>(validators, p1).
    res_bind (read_roots p1 f) (\<lambda>(roots, p2).
    res_bind (quorumOn_loop (env_ForklessCause env (or_app p2) (ev_id e)) roots (NewCounter validators))
      (\<lambda>res. ret (res, p2))))"

function calcFrame_loop ::
  "'a OrdererEnv \<Rightarrow> BaseEvent \<Rightarrow> Frame \<Rightarrow> 'a Orderer \<Rightarrow> Frame \<Rightarrow> (abft_error, Frame \<times> 'a Orderer) outcome" where
  "calcFrame_loop env e maxFrame p f =
    (if f < maxFrame
     then res_bind (forklessCausedByQuorumOn env p e f) (\<lambda>(caused, p1).
            if caused then calcFrame_loop env e maxFrame p1 (f + 1) else ret (f, p1))
     else ret (f, p))"
  by pat_completeness auto
termination
proof (relation "measure (\<lambda>(env, e, maxFrame, p, f). unat maxFrame - unat f)", goal_cases)
  case (2 env e maxFrame p f x caused p1)
  then have "unat (f + 1) = unat f + 1"
    using unat_less_pow [of maxFrame] by (intro unat_Suc_no_overflow) (simp add: word_less_nat_alt)
  with 2 show ?case by (simp add: word_less_nat_alt)
qed simp

declare calcFrame_loop.simps [simp del]

definition selfParentFrameOf :: "'a OrdererEnv \<Rightarrow> 'a Orderer \<Rightarrow> BaseEvent \<Rightarrow> (abft_error, Frame) outcome" where
  "selfParentFrameOf env p e =
    (case SelfParent e of
       None \<Rightarrow> ret 0
     | Some sp \<Rightarrow>
         (case env_GetEvent env (or_app p) sp of
            None \<Rightarrow> fail PanicNilEvent
          | Some parent \<Rightarrow> ret (ev_frame parent)))"

definition calcFrameIdx ::
  "'a OrdererEnv \<Rightarrow> 'a Orderer \<Rightarrow> BaseEvent \<Rightarrow> bool \<Rightarrow> (abft_error, (Frame \<times> Frame) \<times> 'a Orderer) outcome" where
  "calcFrameIdx env p e checkOnly =
    res_bind (selfParentFrameOf env p e) (\<lambda>selfParentFrame.
    res_bind (calcFrame_loop env e (if checkOnly then ev_frame e else selfParentFrame + 100) p selfParentFrame)
      (\<lambda>(f, p1). ret ((selfParentFrame, if f = 0 then 1 else f), p1)))"

section \<open>Building and checking events\<close>

definition Orderer_Build ::
  "'a OrdererEnv \<Rightarrow> 'a Orderer \<Rightarrow> BaseEvent \<Rightarrow> (abft_error, BaseEvent \<times> 'a Orderer) outcome" where
  "Orderer_Build env p e =
    res_bind (read_store GetEpoch p) (\<lambda>(epoch, p1).
    if ev_epoch e \<noteq> epoch then fail CritWrongEpoch
    else res_bind (read_store GetValidators p1) (\<lambda>(validators, p2).
      if \<not> Exists validators (ev_creator e) then fail CritWrongCreator
      else res_bind (calcFrameIdx env p2 e False) (\<lambda>((_, frame), p3).
        ret (e\<lparr>ev_frame := frame\<rparr>, p3))))"

definition checkAndSaveEvent ::
  "'a OrdererEnv \<Rightarrow> 'a Orderer \<Rightarrow> BaseEvent \<Rightarrow> (abft_error, Frame \<times> 'a Orderer) outcome" where
  "checkAndSaveEvent env p e =
    res_bind (calcFrameIdx env p e True) (\<lambda>((selfParentFrame, frameIdx), p1).
    if ev_frame e \<noteq> frameIdx then fail ErrWrongFrame
    else if selfParentFrame \<noteq> frameIdx
    then (case AddRoot (or_store p1) selfParentFrame e of
            None \<Rightarrow> None
          | Some s \<Rightarrow> ret (selfParentFrame, p1\<lparr>or_store := s\<rparr>))
    else ret (selfParentFrame, p1))"

section \<open>Deciding frames\<close>

definition resetEpochStore :: "'a OrdererEnv \<Rightarrow> 'a Orderer \<Rightarrow> Epoch \<Rightarrow> (abft_error, 'a Orderer) outcome" where
  "resetEpochStore env p newEpoch =
    res_bind (env_EpochDBLoaded env newEpoch
        (or_app p, openEpochDB (env_getEpochDB env) (or_store p) newEpoch))
      (\<lambda>(app, s). ret (p\<lparr>or_app := app, or_store := s\<rparr>))"

definition sealEpoch ::
  "'a OrdererEnv \<Rightarrow> 'a Orderer \<Rightarrow> Validators \<Rightarrow> (abft_error, 'a Orderer) outcome" where
  "sealEpoch env p newVals =
    res_bind (read_store GetEpochState p) (\<lambda>(epochState, p1).
    let epochState1 = \<lparr>es_Epoch = es_Epoch epochState + 1, es_Validators = newVals\<rparr>;
        p2 = p1\<lparr>or_store := SetEpochState (or_store p1) epochState1\<rparr>
    in resetEpochStore env p2 (es_Epoch epochState1))"

definition reset_election :: "'a Orderer \<Rightarrow> Validators \<Rightarrow> Frame \<Rightarrow> (abft_error, 'a Orderer) outcome" where
  "reset_election p validators frame =
    (case or_election p of
       None \<Rightarrow> fail PanicNilElection
     | Some _ \<Rightarrow> ret (p\<lparr>or_election := Some (Election_Reset validators frame)\<rparr>))"

definition onFrameDecided ::
  "'a OrdererEnv \<Rightarrow> 'a Orderer \<Rightarrow> Frame \<Rightarrow> hash_event \<Rightarrow> (abft_error, bool \<times> 'a Orderer) outcome" where
  "onFrameDecided env p frame atropos =
    res_bind (env_ApplyAtropos env frame atropos (or_app p, or_store p)) (\<lambda>((app, s), newVals).
    res_bind (read_store GetLastDecidedState (p\<lparr>or_app := app, or_store := s\<rparr>)) (\<lambda>(_, p1).
    case newVals of
      Some validators \<Rightarrow>
        res_bind (sealEpoch env p1 validators) (\<lambda>p2.
        res_bind (reset_election p2 validators FirstFrame) (\<lambda>p3.
        ret (True, p3\<lparr>or_store := SetLastDecidedState (or_store p3) \<lparr>lds_LastDecidedFrame = FirstFrame - 1\<rparr>\<rparr>)))
    | None \<Rightarrow>
        res_bind (read_store GetValidators p1) (\<lambda>(validators, p2).
        res_bind (reset_election p2 validators (frame + 1)) (\<lambda>p3.
        ret (False, p3\<lparr>or_store := SetLastDecidedState (or_store p3) \<lparr>lds_LastDecidedFrame = frame\<rparr>\<rparr>)))))"

section \<open>The election\<close>

text \<open>
  The election calls the store for the roots of one frame, and only when it votes.
\<close>

definition asks_roots :: "Election \<Rightarrow> RootAndSlot \<Rightarrow> bool" where
  "asks_roots el newRoot \<longleftrightarrow>
    chooseAtropos el = Inr None \<and> \<not> rs_Frame newRoot \<le> el_frameToDecide el \<and>
    rs_Frame newRoot - el_frameToDecide el \<noteq> 0 \<and> notDecidedRoots el \<noteq> None"

definition electRoot ::
  "'a OrdererEnv \<Rightarrow> 'a Orderer \<Rightarrow> RootAndSlot \<Rightarrow> (abft_error, Res option \<times> 'a Orderer) outcome" where
  "electRoot env p root =
    (case or_election p of
       None \<Rightarrow> fail PanicNilElection
     | Some el \<Rightarrow>
         res_bind (if asks_roots el root then read_roots p (rs_Frame root - 1) else ret ([], p)) (\<lambda>(roots, p1).
         case ProcessRoot (env_ForklessCause env (or_app p1)) (\<lambda>_. roots) el root of
           (el1, Inl err) \<Rightarrow> fail (CritElection err)
         | (el1, Inr res) \<Rightarrow> ret (res, p1\<lparr>or_election := Some el1\<rparr>)))"

fun electRoots ::
  "'a OrdererEnv \<Rightarrow> 'a Orderer \<Rightarrow> RootAndSlot list \<Rightarrow> (abft_error, Res option \<times> 'a Orderer) outcome" where
  "electRoots env p [] = ret (None, p)"
| "electRoots env p (it # rest) =
    res_bind (electRoot env p it) (\<lambda>(decided, p1).
      case decided of Some res \<Rightarrow> ret (Some res, p1) | None \<Rightarrow> electRoots env p1 rest)"

partial_function (option) knownRoots_loop ::
  "'a OrdererEnv \<Rightarrow> 'a Orderer \<Rightarrow> Frame \<Rightarrow> (abft_error, Res option \<times> 'a Orderer) outcome" where
  "knownRoots_loop env p f =
    res_bind (read_roots p f) (\<lambda>(frameRoots, p1).
    res_bind (electRoots env p1 frameRoots) (\<lambda>(decided, p2).
      if decided \<noteq> None then ret (decided, p2)
      else if frameRoots = [] then ret (None, p2)
      else knownRoots_loop env p2 (f + 1)))"

definition processKnownRoots ::
  "'a OrdererEnv \<Rightarrow> 'a Orderer \<Rightarrow> (abft_error, Res option \<times> 'a Orderer) outcome" where
  "processKnownRoots env p =
    res_bind (read_store GetLastDecidedFrame p) (\<lambda>(lastDecidedFrame, p1).
      knownRoots_loop env p1 (lastDecidedFrame + 1))"

partial_function (option) bootstrapElection ::
  "'a OrdererEnv \<Rightarrow> 'a Orderer \<Rightarrow> (abft_error, bool \<times> 'a Orderer) outcome" where
  "bootstrapElection env p =
    res_bind (processKnownRoots env p) (\<lambda>(decided, p1).
      if decided = None then ret (False, p1)
      else res_bind (onFrameDecided env p1 (res_Frame (the decided)) (res_Atropos (the decided))) (\<lambda>(sealed, p2).
        if sealed then ret (True, p2) else bootstrapElection env p2))"

partial_function (option) handleElection_loop ::
  "'a OrdererEnv \<Rightarrow> BaseEvent \<Rightarrow> 'a Orderer \<Rightarrow> Frame \<Rightarrow> (abft_error, 'a Orderer) outcome" where
  "handleElection_loop env root p f =
    (if f \<le> ev_frame root
     then res_bind (electRoot env p (root_at root f)) (\<lambda>(decided, p1).
            if decided = None then handleElection_loop env root p1 (f + 1)
            else res_bind (onFrameDecided env p1 (res_Frame (the decided)) (res_Atropos (the decided))) (\<lambda>(sealed, p2).
              if sealed then ret p2
              else res_bind (bootstrapElection env p2) (\<lambda>(sealed2, p3).
                if sealed2 then ret p3 else handleElection_loop env root p3 (f + 1))))
     else ret p)"

definition handleElection ::
  "'a OrdererEnv \<Rightarrow> 'a Orderer \<Rightarrow> Frame \<Rightarrow> BaseEvent \<Rightarrow> (abft_error, 'a Orderer) outcome" where
  "handleElection env p selfParentFrame root = handleElection_loop env root p (selfParentFrame + 1)"

definition Orderer_Process ::
  "'a OrdererEnv \<Rightarrow> 'a Orderer \<Rightarrow> BaseEvent \<Rightarrow> (abft_error, 'a Orderer) outcome" where
  "Orderer_Process env p e =
    res_bind (checkAndSaveEvent env p e) (\<lambda>(selfParentFrame, p1). handleElection env p1 selfParentFrame e)"

section \<open>Bootstrap and reset\<close>

definition loadEpochDB :: "'a OrdererEnv \<Rightarrow> 'a Orderer \<Rightarrow> (abft_error, 'a Orderer) outcome" where
  "loadEpochDB env p =
    res_bind (read_store GetEpoch p) (\<lambda>(epoch, p1).
      ret (p1\<lparr>or_store := openEpochDB (env_getEpochDB env) (or_store p1) epoch\<rparr>))"

definition Orderer_Bootstrap :: "'a OrdererEnv \<Rightarrow> 'a Orderer \<Rightarrow> (abft_error, 'a Orderer) outcome" where
  "Orderer_Bootstrap env p =
    (if or_election p \<noteq> None then fail ErrAlreadyBootstrapped
     else
       res_bind (loadEpochDB env p) (\<lambda>p1.
       res_bind (read_store GetEpoch p1) (\<lambda>(epoch, p2).
       res_bind (env_EpochDBLoaded env epoch (or_app p2, or_store p2)) (\<lambda>(app, s).
       res_bind (read_store GetValidators (p2\<lparr>or_app := app, or_store := s\<rparr>)) (\<lambda>(validators, p3).
       res_bind (read_store GetLastDecidedFrame p3) (\<lambda>(lastDecided, p4).
       res_bind (bootstrapElection env (p4\<lparr>or_election := Some (Election_New validators (lastDecided + 1))\<rparr>))
         (\<lambda>(_, p5). ret p5)))))))"

definition Orderer_Reset ::
  "'a OrdererEnv \<Rightarrow> 'a Orderer \<Rightarrow> Epoch \<Rightarrow> Validators \<Rightarrow> (abft_error, 'a Orderer) outcome" where
  "Orderer_Reset env p epoch validators =
    res_bind (resetEpochStore env (p\<lparr>or_store := applyGenesis (or_store p) epoch validators\<rparr>) epoch)
      (\<lambda>p1. reset_election p1 validators FirstFrame)"

end
