(* ===== verification/Election_Correct.thy ===== *)
theory Election_Correct
  imports Election
begin

text \<open>
  The election implements the voting of theory \<^verbatim>\<open>Voting\<close>: every vote that is
  stored is the vote of the abstract rounds, and every decided root was decided by
  a quorum. So no error is ever returned, and all nodes choose the same Atropos.
\<close>

section \<open>Candidates\<close>

definition is_candidate :: "Validators \<Rightarrow> election_world \<Rightarrow> nat \<Rightarrow> hash_event \<Rightarrow> bool" where
  "is_candidate vals w s h \<longleftrightarrow>
    (\<exists>a \<in> world_level w (Suc 0). \<exists>b \<in> world_level w 0.
      world_obs w a b \<and> root_creator vals b = s \<and> rs_ID b = h)"

lemma candidate_one: "good_world vals w \<Longrightarrow> is_candidate vals w s h \<Longrightarrow> is_candidate vals w s h' \<Longrightarrow> h = h'"
  unfolding is_candidate_def using vote.candidate_unique [of vals w] by (metis (no_types, lifting))

lemma candidate_ex:
  assumes "good_world vals w"
  shows "\<exists>H. \<forall>h. is_candidate vals w s h \<longrightarrow> h = H"
  using candidate_one [OF assms, of s] by blast

section \<open>Counting the votes\<close>

lemma Count_rep:
  assumes "counter_rep vals k A" and "root_creator vals r < Validators_Len vals"
  shows "\<exists>k'. Count k (rs_Validator r) = Some (k', root_creator vals r \<notin> A) \<and>
    counter_rep vals k' (insert (root_creator vals r) A)"
proof -
  have "wc_validators k = vals" using assms(1) by (simp add: counter_rep_def)
  then show ?thesis
    using counter.count [OF assms(1), of "root_creator vals r"] assms(2) by (simp add: Count_def root_creator_def)
qed

lemma tallyVotes_ok:
  assumes "counter_rep vals y Ay" and "counter_rep vals n An" and "counter_rep vals a Aa"
    and "distinct (map (root_creator vals) os)" and "\<forall>b \<in> set os. root_creator vals b < Validators_Len vals"
    and "Aa \<inter> root_creator vals ` set os = {}"
    and "\<forall>b \<in> set os. \<exists>v. el_votes el (b, subject) = Some v \<and> vt_yes v = Y b \<and>
      (Y b \<longrightarrow> vt_observedRoot v = H)"
    and "h = None \<or> h = Some H"
  shows "\<exists>y' n' a' h'. tallyVotes el subject os y n a h = Inr (y', n', a', h') \<and>
    counter_rep vals y' (Ay \<union> root_creator vals ` {b \<in> set os. Y b}) \<and>
    counter_rep vals n' (An \<union> root_creator vals ` {b \<in> set os. \<not> Y b}) \<and>
    counter_rep vals a' (Aa \<union> root_creator vals ` set os) \<and>
    (h' = Some H \<or> h' = h \<and> (\<forall>b \<in> set os. \<not> Y b))"
  using assms
proof (induction os arbitrary: y n a h Ay An Aa)
  case Nil
  then show ?case by simp
next
  case (Cons b os)
  let ?i = "root_creator vals b"
  obtain v where v: "el_votes el (b, subject) = Some v" "vt_yes v = Y b" "Y b \<Longrightarrow> vt_observedRoot v = H"
    using Cons.prems(7) by auto
  have i: "?i < Validators_Len vals" using Cons.prems(5) by simp
  obtain y1 where y1: "Count y (rs_Validator b) = Some (y1, ?i \<notin> Ay)" "counter_rep vals y1 (insert ?i Ay)"
    using Count_rep [OF Cons.prems(1) i] by blast
  obtain n1 where n1: "Count n (rs_Validator b) = Some (n1, ?i \<notin> An)" "counter_rep vals n1 (insert ?i An)"
    using Count_rep [OF Cons.prems(2) i] by blast
  obtain a1 where a1: "Count a (rs_Validator b) = Some (a1, ?i \<notin> Aa)" "counter_rep vals a1 (insert ?i Aa)"
    using Count_rep [OF Cons.prems(3) i] by blast
  have new: "?i \<notin> Aa" using Cons.prems(6) by auto
  have rest: "distinct (map (root_creator vals) os)" "\<forall>b \<in> set os. root_creator vals b < Validators_Len vals"
    "insert ?i Aa \<inter> root_creator vals ` set os = {}"
    "\<forall>b \<in> set os. \<exists>v. el_votes el (b, subject) = Some v \<and> vt_yes v = Y b \<and>
      (Y b \<longrightarrow> vt_observedRoot v = H)"
    using Cons.prems(4-7) by auto
  show ?case
  proof (cases "Y b")
    case True
    have step: "tallyVotes el subject (b # os) y n a h = tallyVotes el subject os y1 n a1 (Some H)"
      using v True y1(1) a1(1) new Cons.prems(8) by auto
    have sets: "insert ?i Ay \<union> root_creator vals ` {b \<in> set os. Y b} =
        Ay \<union> root_creator vals ` {b' \<in> set (b # os). Y b'}"
      "An \<union> root_creator vals ` {b \<in> set os. \<not> Y b} = An \<union> root_creator vals ` {b' \<in> set (b # os). \<not> Y b'}"
      "insert ?i Aa \<union> root_creator vals ` set os = Aa \<union> root_creator vals ` set (b # os)"
      using True by auto
    show ?thesis
      unfolding step using Cons.IH [OF y1(2) Cons.prems(2) a1(2) rest, of "Some H"] unfolding sets by auto
  next
    case False
    have step: "tallyVotes el subject (b # os) y n a h = tallyVotes el subject os y n1 a1 h"
      using v False n1(1) a1(1) new by auto
    have sets: "Ay \<union> root_creator vals ` {b \<in> set os. Y b} = Ay \<union> root_creator vals ` {b' \<in> set (b # os). Y b'}"
      "insert ?i An \<union> root_creator vals ` {b \<in> set os. \<not> Y b} =
        An \<union> root_creator vals ` {b' \<in> set (b # os). \<not> Y b'}"
      "insert ?i Aa \<union> root_creator vals ` set os = Aa \<union> root_creator vals ` set (b # os)"
      using False by auto
    show ?thesis
      unfolding step using Cons.IH [OF Cons.prems(1) n1(2) a1(2) rest Cons.prems(8)] False unfolding sets by auto
  qed
qed

section \<open>Invariant\<close>

definition vote_ok :: "Validators \<Rightarrow> election_world \<Rightarrow> RootAndSlot \<Rightarrow> ValidatorID \<Rightarrow> voteValue \<Rightarrow> bool" where
  "vote_ok vals w r v vt \<longleftrightarrow>
    (\<exists>n. r \<in> world_level w (Suc n) \<and> vt_yes vt = vote.yes vals w n (GetIdx vals v) r) \<and>
    (vt_yes vt \<longrightarrow> is_candidate vals w (GetIdx vals v) (vt_observedRoot vt))"

definition decision_ok ::
  "Validators \<Rightarrow> election_world \<Rightarrow> RootAndSlot set \<Rightarrow> ValidatorID \<Rightarrow> voteValue \<Rightarrow> bool" where
  "decision_ok vals w rs v vt \<longleftrightarrow>
    (\<exists>n. \<exists>r \<in> rs \<inter> world_level w (Suc (Suc n)). vote.decides vals w n (GetIdx vals v) (vt_yes vt) r) \<and>
    (vt_yes vt \<longrightarrow> is_candidate vals w (GetIdx vals v) (vt_observedRoot vt))"

definition votes_inv :: "Validators \<Rightarrow> election_world \<Rightarrow> Election \<Rightarrow> RootAndSlot set \<Rightarrow> bool" where
  "votes_inv vals w el rs \<longleftrightarrow>
    el_validators el = vals \<and> el_frameToDecide el = fst w \<and>
    distinct (map fst (el_decidedRoots el)) \<and>
    (\<forall>v vt. map_of (el_decidedRoots el) v = Some vt \<longrightarrow> Exists vals v \<and> decision_ok vals w rs v vt) \<and>
    (\<forall>r v vt. el_votes el (r, v) = Some vt \<longrightarrow> vote_ok vals w r v vt)"

definition votes_complete :: "Validators \<Rightarrow> election_world \<Rightarrow> Election \<Rightarrow> RootAndSlot set \<Rightarrow> bool" where
  "votes_complete vals w el rs \<longleftrightarrow>
    (\<forall>n. \<forall>r \<in> rs \<inter> world_level w (Suc n). \<forall>v.
      Exists vals v \<and> map_of (el_decidedRoots el) v = None \<longrightarrow> el_votes el (r, v) \<noteq> None)"

lemma level_unique: "r \<in> world_level w n \<Longrightarrow> r \<in> world_level w m \<Longrightarrow> n = m"
  by (simp add: world_level_def)

lemma decision_ok_mono: "decision_ok vals w rs v vt \<Longrightarrow> rs \<subseteq> rs' \<Longrightarrow> decision_ok vals w rs' v vt"
  unfolding decision_ok_def by blast

lemma laterVote_ok:
  assumes good: "good_world vals w" and inv: "votes_inv vals w el rs"
    and r: "r \<in> world_level w (Suc (Suc n))"
    and os: "distinct os" "set os = {b \<in> world_level w (Suc n). world_obs w r b}"
    and voted: "\<forall>b \<in> set os. el_votes el (b, v) \<noteq> None"
  shows "\<exists>vt. laterVote el os v = Inr vt \<and> vote_ok vals w r v vt \<and>
    (vt_decided vt \<longleftrightarrow> (\<exists>p. vote.decides vals w n (GetIdx vals v) p r)) \<and>
    (vt_decided vt \<longrightarrow> vote.decides vals w n (GetIdx vals v) (vt_yes vt) r)"
proof -
  let ?s = "GetIdx vals v" and ?c = "NewCounter (el_validators el)" and ?cr = "root_creator vals"
  let ?Y = "vote.yes vals w n ?s"
  have vals: "el_validators el = vals" using inv by (simp add: votes_inv_def)
  obtain H where H: "is_candidate vals w ?s h \<Longrightarrow> h = H" for h using candidate_ex [OF good, of ?s] by blast
  have rep: "counter_rep vals ?c {}"
    unfolding vals by (rule counter_rep_new [OF good_world_wf [OF good]])
  have inj: "inj_on ?cr (set os)"
    using vote.one_per_creator [OF good r r] by (auto simp: os(2) inj_on_def)
  have "distinct (map ?cr os)" using os(1) inj by (simp add: distinct_map)
  moreover have "\<forall>b \<in> set os. ?cr b < Validators_Len vals" using root_creator_less [OF good] os(2) by auto
  moreover have "\<exists>vt. el_votes el (b, v) = Some vt \<and> vt_yes vt = ?Y b \<and> (?Y b \<longrightarrow> vt_observedRoot vt = H)"
    if b: "b \<in> set os" for b
  proof -
    obtain vt where vt: "el_votes el (b, v) = Some vt" using voted b by auto
    have ok: "vote_ok vals w b v vt" using inv vt by (auto simp: votes_inv_def)
    then obtain m where m: "b \<in> world_level w (Suc m)" "vt_yes vt = vote.yes vals w m ?s b"
      by (auto simp: vote_ok_def)
    have "m = n" using level_unique [OF m(1), of "Suc n"] b os(2) by auto
    then show ?thesis using vt m(2) ok H by (auto simp: vote_ok_def)
  qed
  ultimately obtain y' n' a' h' where t: "tallyVotes el v os ?c ?c ?c None = Inr (y', n', a', h')"
    "counter_rep vals y' (?cr ` {b \<in> set os. ?Y b})" "counter_rep vals n' (?cr ` {b \<in> set os. \<not> ?Y b})"
    "counter_rep vals a' (?cr ` set os)" "h' = Some H \<or> h' = None \<and> (\<forall>b \<in> set os. \<not> ?Y b)"
    using tallyVotes_ok [OF rep rep rep, of os el v ?Y H None] by auto
  have sets: "?cr ` {b \<in> set os. ?Y b} = vote.voters vals w n ?s True r"
    "?cr ` {b \<in> set os. \<not> ?Y b} = vote.voters vals w n ?s False r"
    unfolding vote.voters_def os(2) by (auto intro!: arg_cong [where f = "image ?cr"])
  note t' = t(2,3) [unfolded sets]
  have all: "HasQuorum a'"
    using counter.has_quorum [OF t(4)] vote.observes_quorum [OF good r] by (simp add: os(2))
  have dec: "HasQuorum y' \<longleftrightarrow> vote.decides vals w n ?s True r" "HasQuorum n' \<longleftrightarrow> vote.decides vals w n ?s False r"
    using counter.has_quorum [OF t'(1)] counter.has_quorum [OF t'(2)] by (simp_all add: vote.decides_def)
  have yes: "Sum n' \<le> Sum y' \<longleftrightarrow> vote.yes vals w (Suc n) ?s r"
    using counter.total [OF t'(1)] counter.total [OF t'(2)]
    by (simp add: vote.yes_Suc_voters word_le_nat_alt del: vote.yes.simps)
  have hash: "\<exists>h. h' = Some h \<and> is_candidate vals w ?s h" if "vote.yes vals w (Suc n) ?s r"
  proof -
    have "vote.voters vals w n ?s True r \<noteq> {}"
    proof
      assume none: "vote.voters vals w n ?s True r = {}"
      have "sum (weight_at vals) (vote.voters vals w n ?s False r) \<le> 0"
        using that none unfolding vote.yes_Suc_voters by simp
      then show False
        using vote.voters_quorum [OF good r, of ?s True] none vote.quorum_pos [OF good_world_wf [OF good]] by simp
    qed
    then have "h' = Some H" using t(5) unfolding sets(1) [symmetric] by auto
    moreover have "is_candidate vals w ?s H"
      using vote.yes_has_candidate [OF good r that] H unfolding is_candidate_def by metis
    ultimately show ?thesis by blast
  qed
  define vt where "vt = \<lparr>vt_decided = HasQuorum y' \<or> HasQuorum n', vt_yes = (Sum n' \<le> Sum y'),
    vt_observedRoot = (case h' of Some h \<Rightarrow> if Sum n' \<le> Sum y' then h else 0 | None \<Rightarrow> 0)\<rparr>"
  have "laterVote el os v = Inr vt"
    using t(1) all by (simp add: laterVote_def vt_def Let_def)
  moreover have "vote_ok vals w r v vt"
    unfolding vote_ok_def using r yes hash by (auto simp: vt_def simp del: vote.yes.simps)
  moreover have "vt_decided vt \<longleftrightarrow> (\<exists>p. vote.decides vals w n ?s p r)"
    by (auto simp: vt_def dec) (metis (full_types))
  moreover have "vote.decides vals w n ?s (vt_yes vt) r" if d: "vt_decided vt"
  proof -
    obtain p where p: "vote.decides vals w n ?s p r" using d by (auto simp: vt_def dec)
    have "vt_yes vt = p" using vote.decides_binds_level [OF good r r p] yes by (simp add: vt_def)
    with p show ?thesis by simp
  qed
  ultimately show ?thesis by blast
qed

section \<open>One root\<close>

lemma observedRootsMap_fold:
  "fold (\<lambda>b m. if P b then m(k b \<mapsto> b) else m) bs m v = Some b \<Longrightarrow> (b \<in> set bs \<and> P b \<and> k b = v) \<or> m v = Some b"
  "fold (\<lambda>b m. if P b then m(k b \<mapsto> b) else m) bs m v = None \<Longrightarrow> m v = None \<and> (\<forall>b \<in> set bs. P b \<longrightarrow> k b \<noteq> v)"
proof (induction bs arbitrary: m)
  case (Cons c bs)
  {
    case 1
    then show ?case using Cons.IH(1) [of "if P c then m(k c \<mapsto> c) else m"] by (auto split: if_splits)
  next
    case 2
    then show ?case using Cons.IH(2) [of "if P c then m(k c \<mapsto> c) else m"] by (auto split: if_splits)
  }
qed simp_all

lemma firstVote_ok:
  assumes good: "good_world vals w" and r: "r \<in> world_level w (Suc 0)" and v: "Exists vals v"
    and roots: "{b \<in> set (getFrameRoots f). world_obs w r b} = {b \<in> world_level w 0. world_obs w r b}"
    and observe: "snd (snd w) = observe"
  shows "vote_ok vals w r v (firstVote (observedRootsMap observe getFrameRoots (rs_ID r) f) v)"
proof -
  let ?m = "observedRootsMap observe getFrameRoots (rs_ID r) f"
  have P: "observe (rs_ID r) (rs_ID b) \<longleftrightarrow> world_obs w r b" for b using observe by (simp add: world_obs_def)
  note fold = observedRootsMap_fold [of "world_obs w r" rs_Validator "getFrameRoots f" Map.empty,
      folded P, folded observedRootsMap_def, unfolded P]
  have creator: "root_creator vals b = GetIdx vals v \<longleftrightarrow> rs_Validator b = v" if "b \<in> world_level w 0" for b
    using that v good GetIdx_inj [OF good_world_wf [OF good]]
    by (auto simp: root_creator_def good_world_def world_level_def)
  show ?thesis
  proof (cases "?m v")
    case None
    have "\<not> vote.yes vals w 0 (GetIdx vals v) r"
    proof
      assume "vote.yes vals w 0 (GetIdx vals v) r"
      then obtain b where b: "b \<in> world_level w 0" "world_obs w r b" "root_creator vals b = GetIdx vals v" by auto
      then have "b \<in> set (getFrameRoots f)" using roots by blast
      with fold(2) [OF None] b creator show False by auto
    qed
    with None r show ?thesis by (auto simp: vote_ok_def firstVote_def intro!: exI [of _ 0])
  next
    case (Some b)
    then have b: "b \<in> set (getFrameRoots f)" "world_obs w r b" "rs_Validator b = v" using fold(1) by auto
    then have lvl: "b \<in> world_level w 0" using roots by blast
    have "is_candidate vals w (GetIdx vals v) (rs_ID b)"
      unfolding is_candidate_def using r lvl b creator by blast
    moreover have "vote.yes vals w 0 (GetIdx vals v) r" using lvl b creator by auto
    ultimately show ?thesis using Some r by (auto simp: vote_ok_def firstVote_def intro!: exI [of _ 0])
  qed
qed

lemma map_of_update: "map_of (AList.update k x xs) v = (if v = k then Some x else map_of xs v)"
  by (simp add: AList.update_conv')

lemma votes_inv_step:
  assumes inv: "votes_inv vals w el rs" and v: "Exists vals v" and vt: "vote_ok vals w r v vt"
    and dec: "vt_decided vt \<Longrightarrow> decision_ok vals w rs v vt"
  shows "votes_inv vals w
    ((if vt_decided vt then el\<lparr>el_decidedRoots := AList.update v vt (el_decidedRoots el)\<rparr> else el)
      \<lparr>el_votes := (el_votes el)((r, v) \<mapsto> vt)\<rparr>) rs"
  using assms by (auto simp: votes_inv_def map_of_update AList.distinct_update simp del: map_of_eq_Some_iff)

lemma voteSubjects_ok:
  assumes good: "good_world vals w" and r: "r \<in> world_level w (Suc n)" "r \<in> rs"
    and first: "n = 0 \<longrightarrow> (\<forall>v \<in> set subjects. vote_ok vals w r v (firstVote rootsMap v))"
    and later: "\<forall>m. n = Suc m \<longrightarrow> distinct os \<and> set os = {b \<in> world_level w (Suc m). world_obs w r b}"
    and inv: "votes_inv vals w el rs" and subjects: "\<forall>v \<in> set subjects. Exists vals v"
    and voted: "n \<noteq> 0 \<longrightarrow> (\<forall>b \<in> set os. \<forall>v \<in> set subjects. el_votes el (b, v) \<noteq> None)"
  shows "\<exists>el'. voteSubjects r (n = 0) rootsMap os subjects el = (el', None) \<and> votes_inv vals w el' rs \<and>
    dom (el_votes el) \<subseteq> dom (el_votes el') \<and> (\<forall>v \<in> set subjects. el_votes el' (r, v) \<noteq> None) \<and>
    dom (map_of (el_decidedRoots el)) \<subseteq> dom (map_of (el_decidedRoots el')) \<and>
    (\<forall>m p. \<forall>v \<in> set subjects. n = Suc m \<and> vote.decides vals w m (GetIdx vals v) p r \<longrightarrow>
      v \<in> dom (map_of (el_decidedRoots el')))"
  using first inv subjects voted
proof (induction subjects arbitrary: el)
  case Nil
  then show ?case by simp
next
  case (Cons v subjects)
  obtain vt where vt: "(if n = 0 then Inr (firstVote rootsMap v) else laterVote el os v) = Inr vt"
    "vote_ok vals w r v vt" "vt_decided vt \<Longrightarrow> decision_ok vals w rs v vt"
    "\<And>m p. n = Suc m \<Longrightarrow> vote.decides vals w m (GetIdx vals v) p r \<Longrightarrow> vt_decided vt"
  proof (cases n)
    case 0
    have "\<not> vt_decided (firstVote rootsMap v)" by (simp add: firstVote_def split: option.split)
    with 0 Cons.prems(1) that [of "firstVote rootsMap v"] show ?thesis by auto
  next
    case (Suc m)
    have "\<forall>b \<in> set os. el_votes el (b, v) \<noteq> None" using Cons.prems(4) Suc by simp
    from laterVote_ok [OF good Cons.prems(2) r(1) [unfolded Suc] _ _ this] later Suc
    obtain vt where vt: "laterVote el os v = Inr vt" "vote_ok vals w r v vt"
      "vt_decided vt \<longleftrightarrow> (\<exists>p. vote.decides vals w m (GetIdx vals v) p r)"
      "vt_decided vt \<Longrightarrow> vote.decides vals w m (GetIdx vals v) (vt_yes vt) r" by blast
    have "decision_ok vals w rs v vt" if "vt_decided vt"
      unfolding decision_ok_def using vt(4) [OF that] r Suc vt(2) by (auto simp: vote_ok_def)
    with vt Suc show ?thesis by (intro that [of vt]) auto
  qed
  let ?el = "(if vt_decided vt then el\<lparr>el_decidedRoots := AList.update v vt (el_decidedRoots el)\<rparr> else el)
    \<lparr>el_votes := (el_votes el)((r, v) \<mapsto> vt)\<rparr>"
  have step: "voteSubjects r (n = 0) rootsMap os (v # subjects) el = voteSubjects r (n = 0) rootsMap os subjects ?el"
    using vt(1) by (auto simp: Let_def)
  have inv: "votes_inv vals w ?el rs"
    by (rule votes_inv_step [OF Cons.prems(2) _ vt(2,3)]) (use Cons.prems(3) in auto)
  have voted: "n \<noteq> 0 \<longrightarrow> (\<forall>b \<in> set os. \<forall>v \<in> set subjects. el_votes ?el (b, v) \<noteq> None)"
    using Cons.prems(4) by auto
  have pr: "n = 0 \<longrightarrow> (\<forall>v \<in> set subjects. vote_ok vals w r v (firstVote rootsMap v))"
    using Cons.prems(1) by simp
  have ex: "\<forall>v \<in> set subjects. Exists vals v" using Cons.prems(3) by simp
  from Cons.IH [OF pr inv ex voted]
  obtain el' where el': "voteSubjects r (n = 0) rootsMap os subjects ?el = (el', None)" "votes_inv vals w el' rs"
    "dom (el_votes ?el) \<subseteq> dom (el_votes el')" "\<forall>v \<in> set subjects. el_votes el' (r, v) \<noteq> None"
    "dom (map_of (el_decidedRoots ?el)) \<subseteq> dom (map_of (el_decidedRoots el'))"
    "\<forall>m p. \<forall>v \<in> set subjects. n = Suc m \<and> vote.decides vals w m (GetIdx vals v) p r \<longrightarrow>
      v \<in> dom (map_of (el_decidedRoots el'))"
    by (elim exE conjE) (rule that)
  have domd: "dom (map_of (el_decidedRoots ?el)) =
      (if vt_decided vt then insert v (dom (map_of (el_decidedRoots el))) else dom (map_of (el_decidedRoots el)))"
    by (auto simp: map_of_update split: if_splits)
  have "(r, v) \<in> dom (el_votes el')" "dom (el_votes el) \<subseteq> dom (el_votes el')" using el'(3) by auto
  moreover have "dom (map_of (el_decidedRoots el)) \<subseteq> dom (map_of (el_decidedRoots el'))"
    using el'(5) unfolding domd by (auto split: if_splits)
  moreover have "v \<in> dom (map_of (el_decidedRoots el'))"
    if "n = Suc m" "vote.decides vals w m (GetIdx vals v) p r" for m p
    using el'(5) vt(4) [OF that] unfolding domd by simp
  ultimately show ?case
    unfolding step using el'(1,2,4,6)
    by (intro exI [of _ el'] conjI ballI allI impI) (simp_all del: dom_map_of_conv_image_fst, blast+)
qed

section \<open>Choosing the Atropos\<close>

lemma Exists_ids: "wf_validators vals \<Longrightarrow> Exists vals v \<longleftrightarrow> v \<in> set (ids (vv_cache vals))"
  by (simp add: Exists_iff)

lemma loop_error:
  "chooseAtropos_loop el vs = Inl err \<Longrightarrow> \<forall>v \<in> set vs. \<exists>vt. map_of (el_decidedRoots el) v = Some vt \<and> \<not> vt_yes vt"
  by (induction vs) (auto split: option.splits if_splits)

lemma choose_no_error:
  assumes good: "good_world vals w" and inv: "votes_inv vals w el rs" and ex: "Exists vals u"
  shows "chooseAtropos el \<noteq> Inl err"
proof
  assume "chooseAtropos el = Inl err"
  then have all: "\<exists>vt. map_of (el_decidedRoots el) v = Some vt \<and> \<not> vt_yes vt \<and> decision_ok vals w rs v vt"
    if "Exists vals v" for v
    using loop_error [of el "SortedIDs vals" err] that inv good_world_wf [OF good]
    by (auto simp: chooseAtropos_def votes_inv_def SortedIDs_def Exists_ids simp del: map_of_eq_Some_iff)
  obtain n r where r: "r \<in> world_level w (Suc (Suc n))" using all [OF ex] by (auto simp: decision_ok_def)
  obtain s where s: "s \<in> idxs_of vals" "\<forall>n. \<forall>r \<in> world_level w (Suc (Suc n)). \<not> vote.decides vals w n s False r"
    using vote.some_subject_not_rejected [OF good r] by blast
  let ?v = "ids (vv_cache vals) ! s"
  have "Exists vals ?v" "GetIdx vals ?v = s"
    using s(1) GetIdx_nth [OF good_world_wf [OF good], of s] good_world_wf [OF good]
    by (auto simp: Exists_ids length_ids)
  with all [of ?v] s(2) show False by (auto simp: decision_ok_def)
qed

lemma decisions_same:
  assumes good: "good_world vals w" and "decision_ok vals w rs1 v x" and "decision_ok vals w rs2 v y"
  shows "vt_yes x = vt_yes y" and "vt_yes x \<Longrightarrow> vt_observedRoot x = vt_observedRoot y"
proof -
  show eq: "vt_yes x = vt_yes y"
    using assms vote.decisions_agree [OF good] unfolding decision_ok_def by blast
  show "vt_yes x \<Longrightarrow> vt_observedRoot x = vt_observedRoot y"
    using assms eq candidate_one [OF good] unfolding decision_ok_def by blast
qed

lemma choose_loop_agree:
  assumes good: "good_world vals w" and inv: "votes_inv vals w el1 rs1" "votes_inv vals w el2 rs2"
    and "chooseAtropos_loop el1 vs = Inr (Some a)" and "chooseAtropos_loop el2 vs = Inr (Some b)"
  shows "a = b"
  using assms(4,5)
proof (induction vs)
  case (Cons v vs)
  obtain x where x: "map_of (el_decidedRoots el1) v = Some x" using Cons.prems(1) by (auto split: option.splits)
  obtain y where y: "map_of (el_decidedRoots el2) v = Some y" using Cons.prems(2) by (auto split: option.splits)
  have "decision_ok vals w rs1 v x" "decision_ok vals w rs2 v y"
    using inv x y unfolding votes_inv_def by blast+
  note same = decisions_same [OF good this]
  have "el_frameToDecide el1 = el_frameToDecide el2" using inv by (simp add: votes_inv_def)
  with Cons x y same show ?case by (auto split: if_splits)
qed simp

lemma choose_agree:
  assumes "good_world vals w" and "votes_inv vals w el1 rs1" and "votes_inv vals w el2 rs2"
    and "chooseAtropos el1 = Inr (Some a)" and "chooseAtropos el2 = Inr (Some b)"
  shows "a = b"
proof (rule choose_loop_agree [OF assms(1-3)])
  have "el_validators el1 = el_validators el2" using assms(2,3) by (simp add: votes_inv_def)
  then show "chooseAtropos_loop el1 (SortedIDs (el_validators el1)) = Inr (Some a)"
    "chooseAtropos_loop el2 (SortedIDs (el_validators el1)) = Inr (Some b)"
    using assms(4,5) by (simp_all add: chooseAtropos_def)
qed

text \<open>
  When one node has chosen, and every subject it decided is decided by another
  node, that node has chosen too.
\<close>

lemma choose_loop_spreads:
  assumes good: "good_world vals w" and inv: "votes_inv vals w el1 rs1" "votes_inv vals w el2 rs2"
    and dom: "dom (map_of (el_decidedRoots el1)) \<subseteq> dom (map_of (el_decidedRoots el2))"
    and "chooseAtropos_loop el1 vs = Inr (Some a)"
  shows "\<exists>b. chooseAtropos_loop el2 vs = Inr (Some b)"
  using assms(5)
proof (induction vs)
  case (Cons v vs)
  obtain x where x: "map_of (el_decidedRoots el1) v = Some x" using Cons.prems by (auto split: option.splits)
  then obtain y where y: "map_of (el_decidedRoots el2) v = Some y" using dom by blast
  have "decision_ok vals w rs1 v x" "decision_ok vals w rs2 v y"
    using inv x y unfolding votes_inv_def by blast+
  note same = decisions_same [OF good this]
  with Cons x y show ?case by (auto split: if_splits)
qed simp

section \<open>Processing a root\<close>

text \<open>
  What the caller of \<^verbatim>\<open>ProcessRoot\<close> provides: the store returns the roots of the
  frame before without repetition and with all those that forkless-cause the new
  root, and these were processed before it.
\<close>

definition feeds :: "election_world \<Rightarrow> GetFrameRootsFn \<Rightarrow> RootAndSlot set \<Rightarrow> RootAndSlot \<Rightarrow> bool" where
  "feeds w getFrameRoots rs r \<longleftrightarrow>
    r \<in> fst (snd w) \<and>
    (fst w < rs_Frame r \<longrightarrow>
      distinct (getFrameRoots (rs_Frame r - 1)) \<and>
      {b \<in> set (getFrameRoots (rs_Frame r - 1)). world_obs w r b} =
        {b \<in> fst (snd w). rs_Frame b = rs_Frame r - 1 \<and> world_obs w r b} \<and>
      {b \<in> fst (snd w). rs_Frame b = rs_Frame r - 1 \<and> fst w < rs_Frame b \<and> world_obs w r b} \<subseteq> rs)"

lemma frame_minus_1: "(f :: Frame) < g \<Longrightarrow> unat (g - 1) = unat g - 1"
  by (metis le_0_eq linorder_not_less unat_minus_one word_zero_le)

lemma level_pred:
  assumes "r \<in> world_level w (Suc n)" and "unat (rs_Frame r - 1) = unat (rs_Frame r) - 1"
  shows "world_level w n = {b \<in> fst (snd w). rs_Frame b = rs_Frame r - 1}"
proof -
  have "unat (rs_Frame b) = unat (fst w) + n \<longleftrightarrow> rs_Frame b = rs_Frame r - 1" for b
  proof -
    have "unat (rs_Frame r - 1) = unat (fst w) + n" using assms by (simp add: world_level_def)
    then show ?thesis by (metis unsigned_word_eqI)
  qed
  then show ?thesis by (simp add: world_level_def)
qed

lemma notDecidedRoots_ok:
  assumes "good_world vals w" and "votes_inv vals w el rs"
  shows "notDecidedRoots el =
    Some (filter (\<lambda>v. map_of (el_decidedRoots el) v = None) (ids (vv_cache vals)))"
proof -
  let ?ids = "ids (vv_cache vals)" and ?P = "\<lambda>v. map_of (el_decidedRoots el) v = None"
  have wf: "wf_validators vals" by (rule good_world_wf [OF assms(1)])
  have el: "el_validators el = vals" "distinct (map fst (el_decidedRoots el))" using assms(2) by (auto simp: votes_inv_def)
  have "set (map fst (el_decidedRoots el)) = set (filter (\<lambda>v. \<not> ?P v) ?ids)"
  proof -
    have "v \<in> set ?ids" if "map_of (el_decidedRoots el) v = Some vt" for v vt
      using assms(2) that wf unfolding votes_inv_def by (auto simp: Exists_ids simp del: map_of_eq_Some_iff)
    then show ?thesis by (auto simp: dom_map_of_conv_image_fst [symmetric] dom_def simp del: map_of_eq_Some_iff)
  qed
  then have "length (el_decidedRoots el) = length (filter (\<lambda>v. \<not> ?P v) ?ids)"
    using distinct_card [OF el(2)] distinct_card [OF distinct_filter [OF distinct_ids [OF wf]], of "\<lambda>v. \<not> ?P v"]
    by simp
  moreover have "length (filter ?P ?ids) + length (filter (\<lambda>v. \<not> ?P v) ?ids) = length ?ids"
    by (rule sum_length_filter_compl)
  ultimately show ?thesis
    using el(1) length_ids [OF wf] by (simp add: notDecidedRoots_def IDs_def)
qed

lemma votes_inv_mono: "votes_inv vals w el rs \<Longrightarrow> rs \<subseteq> rs' \<Longrightarrow> votes_inv vals w el rs'"
  unfolding votes_inv_def using decision_ok_mono by blast

lemma ProcessRoot_ok:
  assumes good: "good_world vals w" and inv: "votes_inv vals w el rs" and complete: "votes_complete vals w el rs"
    and feeds: "feeds w getFrameRoots rs r" and none: "chooseAtropos el = Inr None"
  shows "\<exists>el' res. ProcessRoot (snd (snd w)) getFrameRoots el r = (el', Inr res) \<and> chooseAtropos el' = Inr res \<and>
    votes_inv vals w el' (insert r rs) \<and> votes_complete vals w el' (insert r rs) \<and>
    dom (map_of (el_decidedRoots el)) \<subseteq> dom (map_of (el_decidedRoots el')) \<and>
    (\<forall>n v p. r \<in> world_level w (Suc (Suc n)) \<and> Exists vals v \<and> vote.decides vals w n (GetIdx vals v) p r \<longrightarrow>
      v \<in> dom (map_of (el_decidedRoots el')))"
proof -
  have inv': "votes_inv vals w el (insert r rs)" by (rule votes_inv_mono [OF inv]) blast
  have el: "el_validators el = vals" "el_frameToDecide el = fst w" using inv by (auto simp: votes_inv_def)
  have rR: "r \<in> fst (snd w)" using feeds by (simp add: feeds_def)
  show ?thesis
  proof (cases "rs_Frame r \<le> fst w")
    case True
    then have "r \<notin> world_level w (Suc n)" for n by (auto simp: world_level_def word_le_nat_alt)
    then have "votes_complete vals w el (insert r rs)" using complete by (auto simp: votes_complete_def)
    with True none inv' el \<open>\<And>n. r \<notin> world_level w (Suc n)\<close> show ?thesis
      by (intro exI [of _ el] exI [of _ None]) (auto simp: ProcessRoot_def)
  next
    case False
    then have lt: "fst w < rs_Frame r" by simp
    then obtain n where n: "unat (rs_Frame r) = unat (fst w) + Suc n"
      by (metis add_Suc_right less_imp_Suc_add word_less_nat_alt)
    then have lvl: "r \<in> world_level w (Suc n)" using rR by (simp add: world_level_def)
    note pred = level_pred [OF lvl frame_minus_1 [OF lt]]
    have diff: "unat (rs_Frame r - fst w) = Suc n"
      using n lt by (simp add: unat_sub_if' word_le_nat_alt)
    have round: "rs_Frame r - fst w \<noteq> 0" "rs_Frame r - fst w = 1 \<longleftrightarrow> n = 0"
      using diff by (force, metis One_nat_def Suc_inject unat_1 unsigned_word_eqI)
    let ?subjects = "filter (\<lambda>v. map_of (el_decidedRoots el) v = None) (ids (vv_cache vals))"
    let ?f = "rs_Frame r - 1" and ?observe = "snd (snd w)"
    let ?os = "if n = 0 then [] else observedRoots ?observe getFrameRoots (rs_ID r) ?f"
    let ?map = "if n = 0 then observedRootsMap ?observe getFrameRoots (rs_ID r) ?f else Map.empty"
    have known: "distinct (getFrameRoots ?f)"
      "{b \<in> set (getFrameRoots ?f). world_obs w r b} = {b \<in> world_level w n. world_obs w r b}"
      "{b \<in> fst (snd w). rs_Frame b = ?f \<and> fst w < rs_Frame b \<and> world_obs w r b} \<subseteq> rs"
      using feeds lt by (auto simp: feeds_def pred)
    have subj: "\<forall>v \<in> set ?subjects. Exists vals v"
      using good_world_wf [OF good] by (simp add: Exists_ids)
    have first: "n = 0 \<longrightarrow> (\<forall>v \<in> set ?subjects. vote_ok vals w r v (firstVote ?map v))"
    proof (intro impI ballI)
      fix v assume "n = 0" "v \<in> set ?subjects"
      then show "vote_ok vals w r v (firstVote ?map v)"
        using firstVote_ok [OF good, of r v getFrameRoots ?f ?observe] lvl subj known(2) by simp
    qed
    have later: "\<forall>m. n = Suc m \<longrightarrow> distinct ?os \<and> set ?os = {b \<in> world_level w (Suc m). world_obs w r b}"
      using known(1,2) by (auto simp: observedRoots_def world_obs_def)
    have voted: "n \<noteq> 0 \<longrightarrow> (\<forall>b \<in> set ?os. \<forall>v \<in> set ?subjects. el_votes el (b, v) \<noteq> None)"
    proof (intro impI ballI)
      fix b v assume "n \<noteq> 0" and b: "b \<in> set ?os" and v: "v \<in> set ?subjects"
      then obtain m where m: "n = Suc m" by (cases n) auto
      have bl: "b \<in> world_level w (Suc m)" "world_obs w r b" using b later m by auto
      then have "b \<in> rs"
        using known(3) m pred by (auto simp: world_level_def word_less_nat_alt)
      with bl v complete subj show "el_votes el (b, v) \<noteq> None" by (auto simp: votes_complete_def)
    qed
    from voteSubjects_ok [OF good lvl insertI1 first later inv' subj voted]
    obtain el' where el': "voteSubjects r (n = 0) ?map ?os ?subjects el = (el', None)"
      "votes_inv vals w el' (insert r rs)" "dom (el_votes el) \<subseteq> dom (el_votes el')"
      "\<forall>v \<in> set ?subjects. el_votes el' (r, v) \<noteq> None"
      "dom (map_of (el_decidedRoots el)) \<subseteq> dom (map_of (el_decidedRoots el'))"
      "\<forall>m p. \<forall>v \<in> set ?subjects. n = Suc m \<and> vote.decides vals w m (GetIdx vals v) p r \<longrightarrow>
        v \<in> dom (map_of (el_decidedRoots el'))"
      by (elim exE conjE) (rule that)
    have "Exists vals (rs_Validator r)" using good rR by (simp add: good_world_def)
    then obtain res where res: "chooseAtropos el' = Inr res"
      using choose_no_error [OF good el'(2)] by (metis sum.exhaust)
    have "ProcessRoot ?observe getFrameRoots el r = (el', Inr res)"
      using none False el notDecidedRoots_ok [OF good inv] round el'(1) res
      by (simp add: ProcessRoot_def Let_def)
    moreover have "votes_complete vals w el' (insert r rs)"
      unfolding votes_complete_def
    proof (intro allI ballI impI)
      fix k b v assume b: "b \<in> insert r rs \<inter> world_level w (Suc k)"
        and v: "Exists vals v \<and> map_of (el_decidedRoots el') v = None"
      have und: "map_of (el_decidedRoots el) v = None" using v el'(5) by (auto simp: dom_def)
      show "el_votes el' (b, v) \<noteq> None"
      proof (cases "b = r")
        case True
        then show ?thesis
          using el'(4) und v good_world_wf [OF good] by (simp add: Exists_ids)
      next
        case False
        then have "(b, v) \<in> dom (el_votes el)" using complete b v und by (auto simp: votes_complete_def)
        then show ?thesis using el'(3) by blast
      qed
    qed
    moreover have "v \<in> dom (map_of (el_decidedRoots el'))"
      if h: "r \<in> world_level w (Suc (Suc k))" "Exists vals v" "vote.decides vals w k (GetIdx vals v) p r" for k v p
    proof (cases "map_of (el_decidedRoots el) v")
      case None
      then have "v \<in> set ?subjects" using h(2) good_world_wf [OF good] by (simp add: Exists_ids)
      moreover have "n = Suc k" using level_unique [OF lvl h(1)] by simp
      ultimately show ?thesis using el'(6) h(3) by blast
    next
      case (Some vt)
      then show ?thesis using el'(5) by blast
    qed
    ultimately show ?thesis using res el'(2,5) by blast
  qed
qed

section \<open>Runs\<close>

inductive election_run :: "Validators \<Rightarrow> election_world \<Rightarrow> Election \<Rightarrow> RootAndSlot set \<Rightarrow> bool"
  for vals w where
  election_start: "election_run vals w (Election_New vals (fst w)) {}"
| election_step: "election_run vals w el rs \<Longrightarrow> feeds w getFrameRoots rs r \<Longrightarrow>
    ProcessRoot (snd (snd w)) getFrameRoots el r = (el', Inr res) \<Longrightarrow>
    election_run vals w el' (insert r rs)"

lemma start_inv: "votes_inv vals w (Election_New vals (fst w)) {}"
  by (simp add: votes_inv_def Election_New_def Election_Reset_def)

lemma start_undecided:
  assumes "wf_validators vals" and "Exists vals v"
  shows "chooseAtropos (Election_New vals f) = Inr None"
proof (cases "SortedIDs vals")
  case Nil
  then show ?thesis using assms by (simp add: Exists_ids SortedIDs_def)
qed (simp add: chooseAtropos_def Election_New_def Election_Reset_def)

lemma ProcessRoot_decided:
  "chooseAtropos el = Inr (Some res) \<Longrightarrow> ProcessRoot observe getFrameRoots el r = (el, Inr (Some res))"
  by (simp add: ProcessRoot_def)

lemma election_run_ok:
  assumes "election_run vals w el rs" and good: "good_world vals w" and "Exists vals v"
  shows "votes_inv vals w el rs \<and> (chooseAtropos el = Inr None \<longrightarrow> votes_complete vals w el rs)"
  using assms(1)
proof (induction rule: election_run.induct)
  case election_start
  then show ?case using start_inv by (simp add: votes_complete_def)
next
  case (election_step el rs getFrameRoots r el' res)
  then have inv: "votes_inv vals w el rs" by simp
  show ?case
  proof (cases "chooseAtropos el")
    case (Inl err)
    then show ?thesis using choose_no_error [OF good inv assms(3)] by simp
  next
    case (Inr o')
    show ?thesis
    proof (cases o')
      case None
      then show ?thesis using ProcessRoot_ok [OF good inv _ election_step.hyps(2)] election_step Inr by auto
    next
      case (Some res')
      then have "el' = el" using election_step.hyps(3) Inr ProcessRoot_decided by simp
      then show ?thesis using Inr Some votes_inv_mono [OF inv, of "insert r rs"] by auto
    qed
  qed
qed

lemma run_process:
  assumes run: "election_run vals w el rs" and good: "good_world vals w" and feeds: "feeds w getFrameRoots rs r"
  obtains el' res where "ProcessRoot (snd (snd w)) getFrameRoots el r = (el', Inr res)" "chooseAtropos el' = Inr res"
    "votes_inv vals w el' (insert r rs)"
    "res = None \<longrightarrow> (\<forall>n v p. r \<in> world_level w (Suc (Suc n)) \<and> Exists vals v \<and>
      vote.decides vals w n (GetIdx vals v) p r \<longrightarrow> v \<in> dom (map_of (el_decidedRoots el')))"
proof -
  have ex: "Exists vals (rs_Validator r)" using good feeds by (auto simp: good_world_def feeds_def)
  from election_run_ok [OF run good ex]
  have inv: "votes_inv vals w el rs" "chooseAtropos el = Inr None \<Longrightarrow> votes_complete vals w el rs" by auto
  show thesis
  proof (cases "chooseAtropos el")
    case (Inl err)
    then show ?thesis using choose_no_error [OF good inv(1) ex] by simp
  next
    case (Inr o')
    show ?thesis
    proof (cases o')
      case None
      with ProcessRoot_ok [OF good inv(1) inv(2) feeds] Inr that show ?thesis by blast
    next
      case (Some res)
      then show ?thesis
        using that [of el "Some res"] Inr ProcessRoot_decided votes_inv_mono [OF inv(1), of "insert r rs"] by auto
    qed
  qed
qed

section \<open>A small election\<close>

text \<open>One validator with one root in each of the frames 1 to 4; frame 1 is to be decided.\<close>

definition sample_root :: "Frame \<Rightarrow> hash_event \<Rightarrow> RootAndSlot" where
  "sample_root f i = \<lparr>rs_ID = i, rs_Slot = \<lparr>slot_Frame = f, slot_Validator = 1\<rparr>\<rparr>"

definition sample_world :: election_world where
  "sample_world = (1, {sample_root 1 1, sample_root 2 2, sample_root 3 3, sample_root 4 4}, \<lambda>a b. a = b + 1)"

definition sample_frames :: GetFrameRootsFn where
  "sample_frames f = (if f = 1 then [sample_root 1 1] else if f = 2 then [sample_root 2 2] else
    if f = 3 then [sample_root 3 3] else if f = 4 then [sample_root 4 4] else [])"

definition sample_el :: Election where
  "sample_el = fst (ProcessRoot (snd (snd sample_world)) sample_frames (Election_New sample_validators 1) (sample_root 2 2))"

lemma sample_level:
  "world_level sample_world n = (if n = 0 then {sample_root 1 1} else if n = 1 then {sample_root 2 2}
    else if n = 2 then {sample_root 3 3} else if n = 3 then {sample_root 4 4} else {})"
  by (auto simp: world_level_def sample_world_def sample_root_def)

lemma sample_good: "good_world sample_validators sample_world"
proof -
  have idx: "GetIdx sample_validators 1 = 0"
    using GetIdx_Exists [OF wf_sample_validators, of 1] by (simp add: sample_validators_simps)
  have wt: "weight_at sample_validators 0 = 1" by (simp add: weight_at_def sample_validators_simps)
  have obs: "world_obs sample_world (sample_root f i) (sample_root g j) \<longleftrightarrow> i = j + 1" for f i g j
    by (simp add: world_obs_def sample_world_def sample_root_def)
  have cr: "root_creator sample_validators (sample_root f i) = 0" for f i
    by (simp add: root_creator_def sample_root_def idx)
  have val: "rs_Validator (sample_root f i) = 1" for f i by (simp add: sample_root_def)
  show ?thesis
    unfolding good_world_def
  proof (intro conjI allI ballI)
    fix n r assume "r \<in> world_level sample_world (Suc n)"
    then have "r = sample_root 2 2 \<and> n = 0 \<or> r = sample_root 3 3 \<and> n = 1 \<or> r = sample_root 4 4 \<and> n = 2"
      by (auto simp: sample_level split: if_splits)
    then have "root_creator sample_validators ` {b \<in> world_level sample_world n. world_obs sample_world r b} = {0}"
      by (auto simp: sample_level obs cr image_iff)
    then show "unat (Quorum sample_validators) \<le>
        (\<Sum>i \<in> root_creator sample_validators ` {b \<in> world_level sample_world n. world_obs sample_world r b}.
          weight_at sample_validators i)"
      by (simp add: wt sample_validators_simps)
  next
    fix n a1 a2 b1 b2 assume "b1 \<in> world_level sample_world n" "b2 \<in> world_level sample_world n"
    then show "world_obs sample_world a1 b1 \<and> world_obs sample_world a2 b2 \<and> rs_Validator b1 = rs_Validator b2 \<longrightarrow> b1 = b2"
      by (auto simp: sample_level split: if_splits)
  qed (auto simp: wf_sample_validators sample_world_def val sample_validators_simps)
qed

lemma sample_el_vote:
  "ProcessRoot (snd (snd sample_world)) sample_frames (Election_New sample_validators 1) (sample_root 2 2) =
    (sample_el, Inr None)"
  "ProcessRoot (snd (snd sample_world)) sample_frames sample_el (sample_root 3 3) =
    (fst (ProcessRoot (snd (snd sample_world)) sample_frames sample_el (sample_root 3 3)),
     Inr (Some \<lparr>res_Frame = 1, res_Atropos = 1\<rparr>))"
proof -
  have ids: "IDs sample_validators = [1]" "SortedIDs sample_validators = [1]"
    by (simp_all add: IDs_def SortedIDs_def sample_validators_simps)
  have idx: "GetIdx sample_validators 1 = 0"
    using GetIdx_Exists [OF wf_sample_validators, of 1] by (simp add: sample_validators_simps)
  have le: "\<not> (2 :: Frame) \<le> 1" "\<not> (3 :: Frame) \<le> 1" by (simp_all add: word_le_nat_alt)
  have el: "sample_el = \<lparr>el_frameToDecide = 1, el_validators = sample_validators, el_decidedRoots = [],
      el_votes = Map.empty((sample_root 2 2, 1) \<mapsto> \<lparr>vt_decided = False, vt_yes = True, vt_observedRoot = 1\<rparr>)\<rparr>"
    "ProcessRoot (snd (snd sample_world)) sample_frames (Election_New sample_validators 1) (sample_root 2 2) =
      (sample_el, Inr None)"
    by (simp_all add: sample_el_def ProcessRoot_def chooseAtropos_def Election_New_def Election_Reset_def
        ids notDecidedRoots_def sample_validators_simps sample_root_def sample_world_def sample_frames_def
        observedRootsMap_def firstVote_def le)
  show "ProcessRoot (snd (snd sample_world)) sample_frames (Election_New sample_validators 1) (sample_root 2 2) =
    (sample_el, Inr None)" by (rule el(2))
  show "ProcessRoot (snd (snd sample_world)) sample_frames sample_el (sample_root 3 3) =
    (fst (ProcessRoot (snd (snd sample_world)) sample_frames sample_el (sample_root 3 3)),
     Inr (Some \<lparr>res_Frame = 1, res_Atropos = 1\<rparr>))"
    by (simp add: el(1) ProcessRoot_def chooseAtropos_def ids notDecidedRoots_def sample_validators_simps
        sample_root_def sample_world_def sample_frames_def observedRoots_def laterVote_def NewCounter_def
        newWeightCounter_def Count_def CountByIdx_def idx GetWeightByIdx_def HasQuorum_def Sum_def le)
qed

lemma sample_feeds:
  "feeds sample_world sample_frames {} (sample_root 2 2)"
  "feeds sample_world sample_frames {sample_root 2 2} (sample_root 3 3)"
  "feeds sample_world sample_frames {sample_root 3 3, sample_root 2 2} (sample_root 4 4)"
  by (auto simp: feeds_def sample_world_def sample_frames_def sample_root_def world_obs_def)

lemma sample_election_run: "election_run sample_validators sample_world sample_el {sample_root 2 2}"
proof -
  have "election_run sample_validators sample_world (Election_New sample_validators 1) {}"
    using election_start [of sample_validators sample_world] by (simp add: sample_world_def)
  from election_step [OF this sample_feeds(1) sample_el_vote(1)] show ?thesis by simp
qed

section \<open>Properties\<close>

text \<open>
  C5: agreement. In a world where forkless cause admits no two fork roots and
  every root is forkless-caused by a quorum of the frame before, all nodes elect
  the same Atropos, in whatever order each of them learns of the roots and
  whichever root completes its election.
\<close>

theorem election_agreement:
  assumes "good_world vals w"
    and "election_run vals w el1 rs1" and "feeds w getRoots1 rs1 r1"
    and "election_run vals w el2 rs2" and "feeds w getRoots2 rs2 r2"
    and "snd (ProcessRoot (snd (snd w)) getRoots1 el1 r1) = Inr (Some res1)"
    and "snd (ProcessRoot (snd (snd w)) getRoots2 el2 r2) = Inr (Some res2)"
  shows "res1 = res2"
proof -
  obtain el1' where 1: "chooseAtropos el1' = Inr (Some res1)" "votes_inv vals w el1' (insert r1 rs1)"
    by (rule run_process [OF assms(2,1,3)]) (use assms(6) in auto)
  obtain el2' where 2: "chooseAtropos el2' = Inr (Some res2)" "votes_inv vals w el2' (insert r2 rs2)"
    by (rule run_process [OF assms(4,1,5)]) (use assms(7) in auto)
  show ?thesis by (rule choose_agree [OF assms(1) 1(2) 2(2) 1(1) 2(1)])
qed

theorem election_agreement_witness:
  "\<lparr>res_Frame = 1, res_Atropos = 1\<rparr> =
    (case snd (ProcessRoot (snd (snd sample_world)) sample_frames sample_el (sample_root 3 3)) of
      Inr (Some res) \<Rightarrow> res | _ \<Rightarrow> \<lparr>res_Frame = 0, res_Atropos = 0\<rparr>)"
proof -
  have res: "snd (ProcessRoot (snd (snd sample_world)) sample_frames sample_el (sample_root 3 3)) =
      Inr (Some \<lparr>res_Frame = 1, res_Atropos = 1\<rparr>)"
    by (subst sample_el_vote(2)) simp
  from election_agreement [OF sample_good sample_election_run sample_feeds(2) sample_election_run sample_feeds(2) this]
  show ?thesis by (simp add: res)
qed

text \<open>
  C6: the election never fails. None of its errors and panics can occur: no votes
  for two roots of a fork, no missing votes, always a quorum of votes, and never
  all subjects decided as no.
\<close>

theorem election_never_fails:
  assumes "good_world vals w" and "election_run vals w el rs" and "feeds w getFrameRoots rs r"
  shows "\<exists>res. snd (ProcessRoot (snd (snd w)) getFrameRoots el r) = Inr res"
  by (rule run_process [OF assms(2,1,3)]) simp

theorem election_never_fails_witness:
  "\<exists>res. snd (ProcessRoot (snd (snd sample_world)) sample_frames sample_el (sample_root 3 3)) = Inr res"
  by (rule election_never_fails [OF sample_good sample_election_run sample_feeds(2)])

text \<open>
  C7: a decision reaches everyone one frame later. When a node has elected an
  Atropos from roots of frames below some frame, every other node elects the same
  Atropos as soon as it processes any root of that frame.
\<close>

theorem election_decides_next_frame:
  assumes "good_world vals w"
    and "election_run vals w el1 rs1" and "feeds w getRoots1 rs1 r1"
    and "snd (ProcessRoot (snd (snd w)) getRoots1 el1 r1) = Inr (Some res)"
    and "election_run vals w el2 rs2" and "feeds w getRoots2 rs2 r2"
    and "\<forall>r \<in> insert r1 rs1. rs_Frame r < rs_Frame r2"
  shows "snd (ProcessRoot (snd (snd w)) getRoots2 el2 r2) = Inr (Some res)"
proof -
  obtain el1' where 1: "chooseAtropos el1' = Inr (Some res)" "votes_inv vals w el1' (insert r1 rs1)"
    by (rule run_process [OF assms(2,1,3)]) (use assms(4) in auto)
  obtain el2' res2 where 2: "ProcessRoot (snd (snd w)) getRoots2 el2 r2 = (el2', Inr res2)"
    "chooseAtropos el2' = Inr res2" "votes_inv vals w el2' (insert r2 rs2)"
    "res2 = None \<longrightarrow> (\<forall>n v p. r2 \<in> world_level w (Suc (Suc n)) \<and> Exists vals v \<and>
      vote.decides vals w n (GetIdx vals v) p r2 \<longrightarrow> v \<in> dom (map_of (el_decidedRoots el2')))"
    by (rule run_process [OF assms(5,1,6)]) blast
  have "dom (map_of (el_decidedRoots el1')) \<subseteq> dom (map_of (el_decidedRoots el2'))" if none: "res2 = None"
  proof
    fix v assume "v \<in> dom (map_of (el_decidedRoots el1'))"
    then obtain x where "map_of (el_decidedRoots el1') v = Some x" by blast
    then have x: "Exists vals v" "decision_ok vals w (insert r1 rs1) v x"
      using 1(2) unfolding votes_inv_def by blast+
    then obtain n r where r: "r \<in> insert r1 rs1" "r \<in> world_level w (Suc (Suc n))"
      "vote.decides vals w n (GetIdx vals v) (vt_yes x) r" by (auto simp: decision_ok_def)
    have "unat (rs_Frame r) < unat (rs_Frame r2)" using assms(7) r(1) by (auto simp: word_less_nat_alt)
    then obtain m where m: "unat (rs_Frame r2) = unat (fst w) + Suc (Suc m)" "n < m"
      using r(2) by (auto simp: world_level_def dest!: less_imp_Suc_add)
    then have lvl: "r2 \<in> world_level w (Suc (Suc m))"
      using assms(6) by (simp add: world_level_def feeds_def)
    from vote.decides_spreads [OF assms(1) r(2,3) lvl m(2)] lvl x(1) 2(4) none
    show "v \<in> dom (map_of (el_decidedRoots el2'))" by blast
  qed
  note spread = choose_loop_spreads [OF assms(1) 1(2) 2(3) this]
  have eq: "el_validators el1' = vals" "el_validators el2' = vals" using 1(2) 2(3) by (simp_all add: votes_inv_def)
  have "res2 \<noteq> None"
    using spread [of "SortedIDs vals" res] 1(1) 2(2) by (auto simp: chooseAtropos_def eq)
  then obtain res' where "res2 = Some res'" by blast
  with choose_agree [OF assms(1) 1(2) 2(3) 1(1)] 2 show ?thesis by simp
qed

theorem election_decides_next_frame_witness:
  "\<exists>el. snd (ProcessRoot (snd (snd sample_world)) sample_frames el (sample_root 4 4)) =
    Inr (Some \<lparr>res_Frame = 1, res_Atropos = 1\<rparr>)"
proof -
  let ?res = "\<lparr>res_Frame = 1, res_Atropos = 1\<rparr>"
  have res: "snd (ProcessRoot (snd (snd sample_world)) sample_frames sample_el (sample_root 3 3)) = Inr (Some ?res)"
    by (subst sample_el_vote(2)) simp
  have "\<forall>r \<in> {sample_root 3 3, sample_root 2 2}. rs_Frame r < rs_Frame (sample_root 4 4)"
    by (simp add: sample_root_def word_less_nat_alt)
  from election_decides_next_frame [OF sample_good sample_election_run sample_feeds(2) res
      election_step [OF sample_election_run sample_feeds(2) sample_el_vote(2)] sample_feeds(3) this]
  show ?thesis by blast
qed

end
