(* ===== verification/Orderer_Frames.thy ===== *)
theory Orderer_Frames
  imports Orderer Election_Correct
begin

text \<open>
  What the orderer computes about frames: reads leave the tables alone, the
  quorum test counts the distinct validators of the stored roots that
  forkless-cause the event, and \<^verbatim>\<open>calcFrameIdx\<close> finds the first frame without a
  quorum.
\<close>

section \<open>Reads\<close>

definition tables :: "abft_store \<Rightarrow> LastDecidedState option \<times> EpochState option \<times> epoch_db" where
  "tables s = (st_LastDecidedState s, st_EpochState s, st_epochDB s)"

definition store_inv :: "abft_store \<Rightarrow> bool" where
  "store_inv s \<longleftrightarrow> roots_ok s \<and> states_ok s"

definition reads :: "'a Orderer \<Rightarrow> 'a Orderer \<Rightarrow> bool" where
  "reads p p' \<longleftrightarrow> or_app p' = or_app p \<and> or_election p' = or_election p \<and>
    tables (or_store p') = tables (or_store p) \<and> store_inv (or_store p')"

lemma stored_roots_tables: "tables s' = tables s \<Longrightarrow> stored_roots s' = stored_roots s"
  by (simp add: tables_def stored_roots_def)

lemma readsD:
  assumes "reads p p'"
  shows "or_app p' = or_app p" "or_election p' = or_election p" "store_inv (or_store p')"
    "stored_roots (or_store p') = stored_roots (or_store p)"
    "st_EpochState (or_store p') = st_EpochState (or_store p)"
    "st_LastDecidedState (or_store p') = st_LastDecidedState (or_store p)"
    "st_epochDB (or_store p') = st_epochDB (or_store p)"
  using assms stored_roots_tables [of "or_store p'" "or_store p"] by (simp_all add: reads_def tables_def)

lemma reads_refl: "store_inv (or_store p) \<Longrightarrow> reads p p"
  by (simp add: reads_def)

lemma reads_trans: "reads p p' \<Longrightarrow> reads p' p'' \<Longrightarrow> reads p p''"
  by (simp add: reads_def)

lemma roots_ok_states [simp]:
  "roots_ok (s\<lparr>st_cacheEpochState := x\<rparr>) = roots_ok s"
  "roots_ok (s\<lparr>st_cacheLastDecidedState := y\<rparr>) = roots_ok s"
  "roots_ok (s\<lparr>st_EpochState := x\<rparr>) = roots_ok s"
  "roots_ok (s\<lparr>st_LastDecidedState := y\<rparr>) = roots_ok s"
  by (simp_all add: roots_ok_def stored_roots_def)

lemma read_EpochState_ok:
  assumes "store_inv (or_store p)" and "st_EpochState (or_store p) = Some e"
  shows "\<exists>p'. read_store GetEpochState p = ret (e, p') \<and> reads p p'"
proof -
  let ?s = "or_store p"
  show ?thesis
  proof (cases "st_cacheEpochState ?s")
    case None
    with assms show ?thesis
      by (intro exI [of _ "p\<lparr>or_store := ?s\<lparr>st_cacheEpochState := Some e\<rparr>\<rparr>"])
        (simp add: read_store_def GetEpochState_def reads_def tables_def store_inv_def states_ok_def)
  next
    case (Some x)
    with assms have "x = e" by (simp add: store_inv_def states_ok_def)
    with Some assms(1) show ?thesis
      by (intro exI [of _ p]) (simp add: read_store_def GetEpochState_def reads_refl)
  qed
qed

lemma read_Epoch_ok:
  assumes "store_inv (or_store p)" and "st_EpochState (or_store p) = Some e"
  shows "\<exists>p'. read_store GetEpoch p = ret (es_Epoch e, p') \<and> reads p p'"
  using read_EpochState_ok [OF assms]
  by (auto simp: read_store_def GetEpoch_def split: sum.splits)

lemma read_Validators_ok:
  assumes "store_inv (or_store p)" and "st_EpochState (or_store p) = Some e"
  shows "\<exists>p'. read_store GetValidators p = ret (es_Validators e, p') \<and> reads p p'"
  using read_EpochState_ok [OF assms]
  by (auto simp: read_store_def GetValidators_def split: sum.splits)

lemma read_LastDecidedState_ok:
  assumes "store_inv (or_store p)" and "st_LastDecidedState (or_store p) = Some v"
  shows "\<exists>p'. read_store GetLastDecidedState p = ret (v, p') \<and> reads p p'"
proof -
  let ?s = "or_store p"
  show ?thesis
  proof (cases "st_cacheLastDecidedState ?s")
    case None
    with assms show ?thesis
      by (intro exI [of _ "p\<lparr>or_store := ?s\<lparr>st_cacheLastDecidedState := Some v\<rparr>\<rparr>"])
        (simp add: read_store_def GetLastDecidedState_def reads_def tables_def store_inv_def states_ok_def)
  next
    case (Some x)
    with assms have "x = v" by (simp add: store_inv_def states_ok_def)
    with Some assms(1) show ?thesis
      by (intro exI [of _ p]) (simp add: read_store_def GetLastDecidedState_def reads_refl)
  qed
qed

lemma read_LastDecidedFrame_ok:
  assumes "store_inv (or_store p)" and "st_LastDecidedState (or_store p) = Some v"
  shows "\<exists>p'. read_store GetLastDecidedFrame p = ret (lds_LastDecidedFrame v, p') \<and> reads p p'"
  using read_LastDecidedState_ok [OF assms]
  by (auto simp: read_store_def GetLastDecidedFrame_def split: sum.splits)

lemma read_roots_ok:
  assumes "store_inv (or_store p)"
  shows "\<exists>rr p'. read_roots p f = ret (rr, p') \<and> reads p p' \<and> distinct rr \<and>
    set rr = {r \<in> stored_roots (or_store p). rs_Frame r = f}"
proof -
  from assms have "roots_ok (or_store p)" "states_ok (or_store p)" by (simp_all add: store_inv_def)
  from GetFrameRoots_ok [OF this(1), of f] this(2) show ?thesis
    by (auto simp: read_roots_def reads_def tables_def store_inv_def states_ok_def)
qed

section \<open>Quorum on a frame\<close>

definition caused_by :: "Validators \<Rightarrow> (hash_event \<Rightarrow> bool) \<Rightarrow> RootAndSlot set \<Rightarrow> nat set" where
  "caused_by vals observed roots = root_creator vals ` {r \<in> roots. observed (rs_ID r)}"

definition quorum_on :: "Validators \<Rightarrow> (hash_event \<Rightarrow> bool) \<Rightarrow> RootAndSlot set \<Rightarrow> Frame \<Rightarrow> bool" where
  "quorum_on vals observed roots f \<longleftrightarrow>
    unat (Quorum vals) \<le> (\<Sum>i \<in> caused_by vals observed {r \<in> roots. rs_Frame r = f}. weight_at vals i)"

lemma quorumOn_loop_ok:
  assumes "counter_rep vals c A" and "\<forall>r \<in> set rr. Exists vals (rs_Validator r)"
    and "\<not> HasQuorum c \<or> rr = []"
  shows "quorumOn_loop observed rr c =
    ret (unat (Quorum vals) \<le> (\<Sum>i \<in> A \<union> caused_by vals observed (set rr). weight_at vals i))"
  using assms
proof (induction rr arbitrary: c A)
  case Nil
  then show ?case using counter.has_quorum [OF Nil(1)] by (simp add: caused_by_def)
next
  case (Cons r rr)
  have wf: "wf_validators vals" and sub: "A \<subseteq> idxs_of vals" using Cons.prems(1) by (auto simp: counter_rep_def)
  have lt: "root_creator vals x < Validators_Len vals" if "x \<in> set (r # rr)" for x
    using Cons.prems(2) that GetIdx_Exists(1) [OF wf] by (auto simp: root_creator_def)
  define B where "B = (if observed (rs_ID r) then insert (root_creator vals r) A else A)"
  obtain c1 where c1: "(if observed (rs_ID r) then map_option fst (Count c (rs_Validator r)) else Some c) = Some c1"
    "counter_rep vals c1 B"
    using Count_rep [OF Cons.prems(1) lt [of r]] Cons.prems(1)
    by (cases "observed (rs_ID r)") (auto simp: B_def)
  have eq: "A \<union> caused_by vals observed (set (r # rr)) = B \<union> caused_by vals observed (set rr)"
    by (auto simp: B_def caused_by_def)
  show ?case
  proof (cases "HasQuorum c1")
    case True
    have "finite (B \<union> caused_by vals observed (set rr))"
      using sub finite_subset [of A "idxs_of vals"] by (auto simp: B_def caused_by_def)
    then have "(\<Sum>i \<in> B. weight_at vals i) \<le> (\<Sum>i \<in> B \<union> caused_by vals observed (set rr). weight_at vals i)"
      by (intro sum_mono2) auto
    then show ?thesis
      using counter.has_quorum [OF c1(2)] True c1(1) unfolding eq by (simp split del: if_split)
  next
    case False
    then show ?thesis
      using Cons.IH [OF c1(2)] Cons.prems(2) c1(1) unfolding eq by (simp split del: if_split)
  qed
qed

lemma forklessCausedByQuorumOn_ok:
  assumes inv: "store_inv (or_store p)" and es: "st_EpochState (or_store p) = Some es"
    and wf: "wf_validators (es_Validators es)"
    and ex: "\<forall>r \<in> stored_roots (or_store p). Exists (es_Validators es) (rs_Validator r)"
  shows "\<exists>p'. forklessCausedByQuorumOn env p e f =
    ret (quorum_on (es_Validators es) (env_ForklessCause env (or_app p) (ev_id e)) (stored_roots (or_store p)) f, p') \<and>
    reads p p'"
proof -
  let ?vals = "es_Validators es" and ?obs = "env_ForklessCause env (or_app p) (ev_id e)"
  obtain p1 where p1: "read_store GetValidators p = ret (?vals, p1)" "reads p p1"
    using read_Validators_ok [OF inv es] by blast
  obtain rr p2 where p2: "read_roots p1 f = ret (rr, p2)" "reads p1 p2"
    "set rr = {r \<in> stored_roots (or_store p). rs_Frame r = f}"
    using read_roots_ok [OF readsD(3) [OF p1(2)], of f] readsD(4) [OF p1(2)] by auto
  have "\<not> HasQuorum (NewCounter ?vals)"
    using counter.has_quorum [OF counter_rep_new [OF wf]] unat_Quorum [OF wf] by simp
  then have "quorumOn_loop ?obs rr (NewCounter ?vals) = ret (quorum_on ?vals ?obs (stored_roots (or_store p)) f)"
    using quorumOn_loop_ok [OF counter_rep_new [OF wf], of rr ?obs] ex p2(3) by (simp add: quorum_on_def)
  then show ?thesis
    using p1 p2 reads_trans [OF p1(2) p2(2)] readsD(1) [OF p1(2)] readsD(1) [OF p2(2)]
    by (simp add: forklessCausedByQuorumOn_def)
qed

section \<open>The frame of an event\<close>

text \<open>The first frame from \<open>lo\<close> on, at most \<open>hi\<close>, where \<open>Q\<close> fails.\<close>

definition first_without :: "(Frame \<Rightarrow> bool) \<Rightarrow> Frame \<Rightarrow> Frame \<Rightarrow> Frame \<Rightarrow> bool" where
  "first_without Q lo hi f \<longleftrightarrow>
    lo \<le> f \<and> (\<forall>g. lo \<le> g \<and> g < f \<longrightarrow> Q g) \<and> (f < hi \<longrightarrow> \<not> Q f) \<and> (lo \<le> hi \<longrightarrow> f \<le> hi) \<and> (hi < lo \<longrightarrow> f = lo)"

lemma first_without_unique: "first_without Q lo hi f \<Longrightarrow> first_without Q lo hi g \<Longrightarrow> f = g"
  unfolding first_without_def by (metis antisym_conv3 not_le order.strict_trans2)

lemma calcFrame_loop_ok:
  assumes "store_inv (or_store p)" and "st_EpochState (or_store p) = Some es"
    and "wf_validators (es_Validators es)"
    and "\<forall>r \<in> stored_roots (or_store p). Exists (es_Validators es) (rs_Validator r)"
    and Q: "Q = quorum_on (es_Validators es) (env_ForklessCause env (or_app p) (ev_id e)) (stored_roots (or_store p))"
  shows "\<exists>f p'. calcFrame_loop env e hi p lo = ret (f, p') \<and> reads p p' \<and> first_without Q lo hi f"
  using assms
proof (induction "unat hi - unat lo" arbitrary: lo p rule: less_induct)
  case less
  show ?case
  proof (cases "lo < hi")
    case False
    then show ?thesis
      using reads_refl [OF less.prems(1)] by (auto simp: calcFrame_loop.simps [of env e hi p lo] first_without_def)
  next
    case True
    obtain p1 where p1: "forklessCausedByQuorumOn env p e lo = ret (Q lo, p1)" "reads p p1"
      using forklessCausedByQuorumOn_ok [OF less.prems(1-4), of env e lo] less.prems(5) by auto
    show ?thesis
    proof (cases "Q lo")
      case False
      then show ?thesis
        using p1 True by (auto simp: calcFrame_loop.simps [of env e hi p lo] first_without_def)
    next
      case q: True
      have un: "unat (lo + 1) = unat lo + 1"
        using True unat_less_pow [of hi] by (intro unat_Suc_no_overflow) (simp add: word_less_nat_alt)
      note r = readsD [OF p1(2)]
      have "\<exists>f p'. calcFrame_loop env e hi p1 (lo + 1) = ret (f, p') \<and> reads p1 p' \<and> first_without Q (lo + 1) hi f"
        by (rule less.hyps) (use less.prems True un r in \<open>auto simp: word_less_nat_alt\<close>)
      then obtain f p' where f: "calcFrame_loop env e hi p1 (lo + 1) = ret (f, p')" "reads p1 p'"
        "first_without Q (lo + 1) hi f" by blast
      have lo1: "lo + 1 \<le> x \<longleftrightarrow> lo < x" for x using un by (auto simp: word_le_nat_alt word_less_nat_alt)
      have le: "lo + 1 \<le> hi" using True lo1 by blast
      have ge: "lo < f" using f(3) lo1 unfolding first_without_def by blast
      have "Q g" if "lo \<le> g" "g < f" for g
        using f(3) q that lo1 [of g] le_less [of lo g] unfolding first_without_def by blast
      then have "first_without Q lo hi f"
        using f(3) le ge True unfolding first_without_def by (auto dest: less_imp_le)
      then show ?thesis
        using f p1 q True reads_trans [OF p1(2) f(2)] by (auto simp: calcFrame_loop.simps [of env e hi p lo])
    qed
  qed
qed

text \<open>An orderer whose store is coherent and holds the validators, with no root of frame 0.\<close>

definition ready :: "'a Orderer \<Rightarrow> EpochState \<Rightarrow> bool" where
  "ready p es \<longleftrightarrow> store_inv (or_store p) \<and> st_EpochState (or_store p) = Some es \<and>
    wf_validators (es_Validators es) \<and>
    (\<forall>r \<in> stored_roots (or_store p). Exists (es_Validators es) (rs_Validator r) \<and> rs_Frame r \<noteq> 0)"

definition quorum_of :: "'a OrdererEnv \<Rightarrow> 'a Orderer \<Rightarrow> EpochState \<Rightarrow> BaseEvent \<Rightarrow> Frame \<Rightarrow> bool" where
  "quorum_of env p es e =
    quorum_on (es_Validators es) (env_ForklessCause env (or_app p) (ev_id e)) (stored_roots (or_store p))"

text \<open>The frames that an event with a self-parent in frame \<open>spf\<close> may have.\<close>

definition frame_allowed :: "(Frame \<Rightarrow> bool) \<Rightarrow> Frame \<Rightarrow> Frame \<Rightarrow> bool" where
  "frame_allowed Q spf f \<longleftrightarrow> (if spf = 0 then f = 1 else spf \<le> f \<and> (\<forall>g. spf \<le> g \<and> g < f \<longrightarrow> Q g))"

lemma ready_reads: "ready p es \<Longrightarrow> reads p p' \<Longrightarrow> ready p' es"
  unfolding ready_def using readsD [of p p'] by simp

lemma quorum_of_reads: "reads p p' \<Longrightarrow> quorum_of env p' es e = quorum_of env p es e"
  using readsD [of p p'] by (simp add: quorum_of_def)

lemma no_quorum_on_0:
  assumes "ready p es"
  shows "\<not> quorum_of env p es e 0"
proof -
  have none: "{r \<in> stored_roots (or_store p). rs_Frame r = 0} = {}" using assms by (auto simp: ready_def)
  have "0 < unat (Quorum (es_Validators es))"
    using assms vote.quorum_pos by (simp add: ready_def)
  then show ?thesis unfolding quorum_of_def quorum_on_def none caused_by_def by simp
qed

lemma calcFrameIdx_ok:
  assumes "ready p es" and "selfParentFrameOf env p e = ret spf"
  shows "\<exists>f p'. calcFrameIdx env p e checkOnly = ret ((spf, if f = 0 then 1 else f), p') \<and> reads p p' \<and>
    first_without (quorum_of env p es e) spf (if checkOnly then ev_frame e else spf + 100) f"
proof -
  have "\<exists>f p'. calcFrame_loop env e (if checkOnly then ev_frame e else spf + 100) p spf = ret (f, p') \<and>
      reads p p' \<and> first_without (quorum_of env p es e) spf (if checkOnly then ev_frame e else spf + 100) f"
    by (rule calcFrame_loop_ok [of p es]) (use assms(1) in \<open>auto simp: ready_def quorum_of_def\<close>)
  with assms(2) show ?thesis by (auto simp: calcFrameIdx_def)
qed

lemma first_without_self:
  "lo \<le> f \<Longrightarrow> (\<forall>g. lo \<le> g \<and> g < f \<longrightarrow> Q g) \<Longrightarrow> first_without Q lo f f"
  by (auto simp: first_without_def)

lemma frame_check:
  assumes "\<not> Q 0" and "first_without Q spf F f"
  shows "F = (if f = 0 then 1 else f) \<longleftrightarrow> frame_allowed Q spf F"
proof (cases "spf = 0")
  case True
  show ?thesis
  proof (cases "F = 0")
    case True
    with assms \<open>spf = 0\<close> show ?thesis by (auto simp: first_without_def frame_allowed_def)
  next
    case False
    then have "first_without Q 0 F 0" using assms(1) by (simp add: first_without_def word_neq_0_conv)
    then have "f = 0" using first_without_unique assms(2) True by blast
    with True show ?thesis by (simp add: frame_allowed_def)
  qed
next
  case False
  then have f0: "f \<noteq> 0" using assms(2) by (auto simp: first_without_def)
  show ?thesis
  proof
    assume "F = (if f = 0 then 1 else f)"
    with f0 assms(2) False show "frame_allowed Q spf F" by (simp add: frame_allowed_def first_without_def)
  next
    assume "frame_allowed Q spf F"
    then have "first_without Q spf F F" using False by (simp add: frame_allowed_def first_without_self)
    with first_without_unique [OF assms(2)] f0 show "F = (if f = 0 then 1 else f)" by simp
  qed
qed

lemma word_Suc_le:
  fixes a b :: Frame
  assumes "a \<noteq> - 1"
  shows "a + 1 \<le> b \<longleftrightarrow> a < b"
proof -
  have "unat (a + 1) = Suc (unat a)"
    using assms by (metis add.commute unatSuc add_eq_0_iff2 eq_neg_iff_add_eq_0)
  then show ?thesis by (auto simp: word_le_nat_alt word_less_nat_alt)
qed

lemma checkAndSaveEvent_ok:
  assumes ready: "ready p es" and spf: "selfParentFrameOf env p e = ret spf" and max: "ev_frame e \<noteq> - 1"
    and new: "\<forall>f. root_at e f \<notin> stored_roots (or_store p)"
  shows "\<not> frame_allowed (quorum_of env p es e) spf (ev_frame e) \<Longrightarrow> checkAndSaveEvent env p e = fail ErrWrongFrame"
    and "frame_allowed (quorum_of env p es e) spf (ev_frame e) \<Longrightarrow>
      \<exists>p'. checkAndSaveEvent env p e = ret (spf, p') \<and> or_app p' = or_app p \<and> or_election p' = or_election p \<and>
        store_inv (or_store p') \<and> st_EpochState (or_store p') = Some es \<and>
        st_LastDecidedState (or_store p') = st_LastDecidedState (or_store p) \<and>
        ed_ConfirmedEvent (st_epochDB (or_store p')) = ed_ConfirmedEvent (st_epochDB (or_store p)) \<and>
        stored_roots (or_store p') = stored_roots (or_store p) \<union> root_at e ` {f. spf < f \<and> f \<le> ev_frame e}"
proof -
  let ?Q = "quorum_of env p es e"
  obtain f p1 where f: "calcFrameIdx env p e True = ret ((spf, if f = 0 then 1 else f), p1)" "reads p p1"
    "first_without ?Q spf (ev_frame e) f"
    using calcFrameIdx_ok [OF ready spf, of True] by auto
  note iff = frame_check [OF no_quorum_on_0 [OF ready] f(3)]
  show "\<not> frame_allowed ?Q spf (ev_frame e) \<Longrightarrow> checkAndSaveEvent env p e = fail ErrWrongFrame"
    using f(1) iff by (simp add: checkAndSaveEvent_def)
  assume allowed: "frame_allowed ?Q spf (ev_frame e)"
  have le: "spf \<le> ev_frame e" using allowed by (auto simp: frame_allowed_def split: if_splits)
  then have "spf \<noteq> - 1" using max by (metis word_order.extremum_unique)
  then have Suc: "spf + 1 \<le> g \<longleftrightarrow> spf < g" for g by (rule word_Suc_le)
  note r = readsD [OF f(2)]
  show "\<exists>p'. checkAndSaveEvent env p e = ret (spf, p') \<and> or_app p' = or_app p \<and> or_election p' = or_election p \<and>
      store_inv (or_store p') \<and> st_EpochState (or_store p') = Some es \<and>
      st_LastDecidedState (or_store p') = st_LastDecidedState (or_store p) \<and>
      ed_ConfirmedEvent (st_epochDB (or_store p')) = ed_ConfirmedEvent (st_epochDB (or_store p)) \<and>
      stored_roots (or_store p') = stored_roots (or_store p) \<union> root_at e ` {f. spf < f \<and> f \<le> ev_frame e}"
  proof (cases "spf = ev_frame e")
    case True
    then have none: "{f. spf < f \<and> f \<le> ev_frame e} = {}" by auto
    have "checkAndSaveEvent env p e = ret (spf, p1)"
      using True f(1) iff allowed by (simp add: checkAndSaveEvent_def)
    with r ready show ?thesis unfolding none by (intro exI [of _ p1]) (simp add: ready_def)
  next
    case False
    have "roots_ok (or_store p1)" "states_ok (or_store p1)" using r(3) by (simp_all add: store_inv_def)
    moreover have "\<forall>g. spf + 1 \<le> g \<and> g \<le> ev_frame e \<longrightarrow> root_at e g \<notin> stored_roots (or_store p1)"
      using new r(4) by simp
    ultimately obtain R c where add: "AddRoot (or_store p1) spf e = Some (with_roots (or_store p1) R c)"
      "roots_ok (with_roots (or_store p1) R c)"
      "stored_roots (with_roots (or_store p1) R c) =
        stored_roots (or_store p1) \<union> root_at e ` {f. spf < f \<and> f \<le> ev_frame e}"
      using AddRoot_ok [OF _ max, of "or_store p1" spf] unfolding Suc by blast
    have "store_inv (with_roots (or_store p1) R c)"
      using add(2) r(3) by (simp add: store_inv_def states_ok_def)
    moreover have "checkAndSaveEvent env p e = ret (spf, p1\<lparr>or_store := with_roots (or_store p1) R c\<rparr>)"
      using False f(1) iff allowed add(1) by (simp add: checkAndSaveEvent_def)
    ultimately show ?thesis
      using add(3) r ready
      by (intro exI [of _ "p1\<lparr>or_store := with_roots (or_store p1) R c\<rparr>"]) (simp add: ready_def)
  qed
qed

end
