(* ===== verification/Dag_Frames.thy ===== *)
theory Dag_Frames
  imports Orderer_Frames Vec_Branches
begin

text \<open>
  Frames and roots of a graph of events. When every event has a frame that the
  orderer accepts and the forking validators hold at most a third of the weight,
  the roots of the graph satisfy the laws of an election, for every frame to
  decide. So forkless cause, the frame rule and the election fit together.
\<close>

definition self_frame :: "dag \<Rightarrow> BaseEvent \<Rightarrow> Frame" where
  "self_frame G e =
    (case SelfParent e of
       None \<Rightarrow> 0
     | Some sp \<Rightarrow> (case G sp of None \<Rightarrow> 0 | Some parent \<Rightarrow> ev_frame parent))"

definition dag_roots :: "dag \<Rightarrow> RootAndSlot set" where
  "dag_roots G = {root_at e f | e f. G (ev_id e) = Some e \<and> self_frame G e < f \<and> f \<le> ev_frame e}"

definition other_roots :: "dag \<Rightarrow> BaseEvent \<Rightarrow> RootAndSlot set" where
  "other_roots G e = {r \<in> dag_roots G. rs_ID r \<noteq> ev_id e}"

definition frames_ok :: "Validators \<Rightarrow> dag \<Rightarrow> bool" where
  "frames_ok vals G \<longleftrightarrow>
    (\<forall>e. G (ev_id e) = Some e \<longrightarrow>
      frame_allowed (quorum_on vals (forkless_cause vals G (ev_id e)) (other_roots G e)) (self_frame G e) (ev_frame e))"

lemma root_at_simps [simp]:
  "rs_ID (root_at e f) = ev_id e" "rs_Frame (root_at e f) = f" "rs_Validator (root_at e f) = ev_creator e"
  by (simp_all add: root_at_def)

lemma dag_rootsI: "G (ev_id e) = Some e \<Longrightarrow> self_frame G e < f \<Longrightarrow> f \<le> ev_frame e \<Longrightarrow> root_at e f \<in> dag_roots G"
  by (auto simp: dag_roots_def)

lemma dag_rootsE:
  assumes "r \<in> dag_roots G"
  obtains e f where "r = root_at e f" "G (ev_id e) = Some e" "self_frame G e < f" "f \<le> ev_frame e"
  using assms by (auto simp: dag_roots_def)

lemma frame_allowed_bounds:
  assumes "frame_allowed Q spf f"
  shows "spf \<le> f" "0 < f"
  using assms by (auto simp: frame_allowed_def word_gt_0 split: if_splits)

section \<open>Frames grow along self-parents\<close>

lemma self_frame_le:
  assumes "valid_dag reader G" and "frames_ok vals G" and "G a = Some e"
  shows "self_frame G e \<le> ev_frame e" and "0 < ev_frame e"
  using assms valid_dag_event(1) [OF assms(1,3)] frame_allowed_bounds unfolding frames_ok_def by metis+

lemma self_ancestor_frame:
  assumes "valid_dag reader G" and "frames_ok vals G" and "self_ancestor G a b"
  shows "a = b \<or> (\<forall>e f. G a = Some e \<longrightarrow> G b = Some f \<longrightarrow> ev_frame f \<le> self_frame G e)"
  using assms(3)
proof (induction rule: self_ancestor.induct)
  case (self_parent a e p b)
  obtain pe where pe: "G p = Some pe" using SelfParent_Some(2) [OF assms(1) self_parent.hyps(1,2)] by blast
  have sf: "self_frame G e = ev_frame pe" using self_parent.hyps(2) pe by (simp add: self_frame_def)
  have "self_frame G pe \<le> ev_frame pe" by (rule self_frame_le [OF assms(1,2) pe])
  then show ?case
    using self_parent.IH self_parent.hyps(1) pe sf by (auto intro: order_trans)
qed simp

lemma roots_of_chain:
  assumes "valid_dag reader G" and "frames_ok vals G" and "self_ancestor G (ev_id x) (ev_id y)"
    and "root_at x f \<in> dag_roots G" and "root_at y f \<in> dag_roots G"
    and "G (ev_id x) = Some x" and "G (ev_id y) = Some y"
  shows "x = y"
proof (rule ccontr)
  assume "x \<noteq> y"
  then have "ev_id x \<noteq> ev_id y" using assms(6,7) by auto
  then have le: "ev_frame y \<le> self_frame G x" using self_ancestor_frame [OF assms(1-3)] assms(6,7) by auto
  obtain x' where x': "root_at x f = root_at x' f" "G (ev_id x') = Some x'" "self_frame G x' < f"
    using assms(4) by (auto elim!: dag_rootsE simp: root_at_def)
  obtain y' where y': "root_at y f = root_at y' f" "G (ev_id y') = Some y'" "f \<le> ev_frame y'"
    using assms(5) by (auto elim!: dag_rootsE simp: root_at_def)
  have "x' = x" "y' = y" using x'(1,2) y'(1,2) assms(6,7) by (auto simp: root_at_def)
  with x'(3) y'(3) le show False by simp
qed

section \<open>The laws of an election\<close>

lemma forkless_cause_observes:
  assumes "wf_validators vals" and "forkless_cause vals G a b"
  shows "observes G a b"
proof -
  have "0 < unat (Quorum vals)" using vote.quorum_pos [OF assms(1)] .
  then have "{i. i < Validators_Len vals \<and> confirms G a b (ids (vv_cache vals) ! i)} \<noteq> {}"
    using assms(2) unfolding forkless_cause_def by (metis le_zero_eq less_irrefl sum.empty)
  then show ?thesis by (auto simp: confirms_def intro: observes_trans)
qed

definition dag_world :: "Validators \<Rightarrow> dag \<Rightarrow> Frame \<Rightarrow> election_world" where
  "dag_world vals G f = (f, dag_roots G, forkless_cause vals G)"

lemma dag_world_simps [simp]:
  "fst (dag_world vals G f) = f" "fst (snd (dag_world vals G f)) = dag_roots G"
  "snd (snd (dag_world vals G f)) = forkless_cause vals G"
  "world_obs (dag_world vals G f) r b = forkless_cause vals G (rs_ID r) (rs_ID b)"
  by (simp_all add: dag_world_def world_obs_def)

lemma finite_dag_roots:
  assumes "finite (dom G)"
  shows "finite (dag_roots G)"
proof -
  have "dag_roots G \<subseteq> (\<lambda>(e, f). root_at e f) ` (ran G \<times> UNIV)" by (auto simp: dag_roots_def ran_def)
  moreover have "finite (ran G)" using assms by (rule finite_ran)
  ultimately show ?thesis by (meson finite_SigmaI finite_imageI finite finite_subset)
qed

lemma dag_world_good:
  assumes valid: "valid_dag (vals, ep) G" and wf: "wf_validators vals" and frames: "frames_ok vals G"
    and byz: "3 * sum (weight_at vals) (forking vals G) \<le> sum (weight_at vals) (idxs_of vals)"
    and first: "0 < ftd"
  shows "good_world vals (dag_world vals G ftd)"
  unfolding good_world_def
proof (intro conjI allI ballI impI)
  let ?w = "dag_world vals G ftd"
  show "wf_validators vals" by (rule wf)
  show "finite (fst (snd ?w))" using valid finite_dag_roots by (auto simp: valid_dag_def)
  show "Exists vals (rs_Validator r)" if "r \<in> fst (snd ?w)" for r
  proof -
    from that obtain e f where e: "r = root_at e f" "G (ev_id e) = Some e" by (auto elim: dag_rootsE)
    then show ?thesis using valid_dag_creator [OF valid, of "ev_id e"] by (auto simp: creator_of_def)
  qed
next
  fix n a1 a2 b1 b2
  let ?w = "dag_world vals G ftd"
  assume b: "b1 \<in> world_level ?w n" "b2 \<in> world_level ?w n"
    and obs: "world_obs ?w a1 b1 \<and> world_obs ?w a2 b2 \<and> rs_Validator b1 = rs_Validator b2"
  obtain x f where x: "b1 = root_at x f" "G (ev_id x) = Some x" using b(1) by (auto simp: world_level_def elim: dag_rootsE)
  obtain y g where y: "b2 = root_at y g" "G (ev_id y) = Some y" using b(2) by (auto simp: world_level_def elim: dag_rootsE)
  have fg: "g = f" using b x y by (auto simp: world_level_def word_unat_eq_iff)
  have roots: "root_at x f \<in> dag_roots G" "root_at y f \<in> dag_roots G" using b x y fg by (auto simp: world_level_def)
  have "self_ancestor G (ev_id x) (ev_id y) \<or> self_ancestor G (ev_id y) (ev_id x)"
    by (rule fork_exclusion [OF valid wf byz, of "rs_ID a1" _ "rs_ID a2"])
      (use obs x y in \<open>auto simp: creator_of_def\<close>)
  then have "x = y" using roots_of_chain [OF valid frames _ roots] roots_of_chain [OF valid frames _ roots(2,1)] x y by auto
  then show "b1 = b2" using x y fg by simp
next
  fix n r
  let ?w = "dag_world vals G ftd"
  assume r: "r \<in> world_level ?w (Suc n)"
  obtain e f where e: "r = root_at e f" "G (ev_id e) = Some e" "self_frame G e < f" "f \<le> ev_frame e"
    using r by (auto simp: world_level_def elim: dag_rootsE)
  have f: "unat f = unat ftd + Suc n" using r e by (simp add: world_level_def)
  then have f1: "unat (f - 1) = unat ftd + n" "f - 1 < f"
    using frame_minus_1 [of 0 f] first by (auto simp: word_less_nat_alt)
  have gt: "0 < unat (f - 1)" using f1 first by (simp add: word_less_nat_alt)
  have allowed: "frame_allowed (quorum_on vals (forkless_cause vals G (ev_id e)) (other_roots G e)) (self_frame G e) (ev_frame e)"
    using frames e(2) by (simp add: frames_ok_def)
  have "self_frame G e \<noteq> 0"
  proof
    assume "self_frame G e = 0"
    then have "ev_frame e = 1" using allowed by (simp add: frame_allowed_def)
    then have "unat f \<le> 1" using e(4) by (simp add: word_le_nat_alt)
    then show False using f first by (simp add: word_less_nat_alt)
  qed
  moreover have "self_frame G e \<le> f - 1" "f - 1 < ev_frame e"
    using e(3,4) f1 f by (auto simp: word_le_nat_alt word_less_nat_alt)
  ultimately have "quorum_on vals (forkless_cause vals G (ev_id e)) (other_roots G e) (f - 1)"
    using allowed by (simp add: frame_allowed_def)
  moreover have "{b \<in> {b \<in> other_roots G e. rs_Frame b = f - 1}. forkless_cause vals G (ev_id e) (rs_ID b)} \<subseteq>
      {b \<in> world_level ?w n. world_obs ?w r b}"
    using f1(1) e(1) by (auto simp: world_level_def word_unat_eq_iff other_roots_def)
  moreover have "finite {b \<in> world_level ?w n. world_obs ?w r b}"
    using valid finite_dag_roots [of G] by (auto simp: world_level_def valid_dag_def)
  ultimately show "unat (Quorum vals) \<le>
      (\<Sum>i \<in> root_creator vals ` {b \<in> world_level ?w n. world_obs ?w r b}. weight_at vals i)"
    unfolding quorum_on_def caused_by_def by (meson finite_imageI image_mono order_trans sum_mono2 zero_le)
qed

end
