(* ===== verification/Orderer_Run.thy ===== *)
theory Orderer_Run
  imports Dag_Frames
begin

text \<open>
  Total correctness of the orderer within an epoch. The locale states what the
  orderer relies on: an event source, an index that answers forkless cause, and a
  callback that applies an Atropos and leaves the consensus state alone. From it
  follow that processing an event of the graph ends without error and that the
  frames are decided one after the other, each with the Atropos that the
  election over the whole graph elects.
\<close>

section \<open>Parts of a graph\<close>

definition network :: "Validators \<times> Epoch \<Rightarrow> dag \<Rightarrow> bool" where
  "network reader G \<longleftrightarrow>
    valid_dag reader G \<and> wf_validators (fst reader) \<and> frames_ok (fst reader) G \<and>
    3 * sum (weight_at (fst reader)) (forking (fst reader) G) \<le> sum (weight_at (fst reader)) (idxs_of (fst reader))"

definition part :: "Validators \<times> Epoch \<Rightarrow> dag \<Rightarrow> dag \<Rightarrow> bool" where
  "part reader H G \<longleftrightarrow> valid_dag reader H \<and> H \<subseteq>\<^sub>m G"

lemma network_good: "network reader G \<Longrightarrow> 0 < f \<Longrightarrow> good_world (fst reader) (dag_world (fst reader) G f)"
  using dag_world_good [of "fst reader" "snd reader" G f] by (simp add: network_def)

lemma part_self_frame:
  assumes "part reader H G" and "H a = Some e"
  shows "self_frame G e = self_frame H e"
proof (cases "SelfParent e")
  case (Some p)
  have "valid_dag reader H" "H \<subseteq>\<^sub>m G" using assms(1) by (auto simp: part_def)
  then have "p \<in> dom H" using SelfParent_Some(2) [of reader H a e p] assms(2) Some by auto
  then have "G p = H p" using extend_eq(1) \<open>H \<subseteq>\<^sub>m G\<close> by auto
  then show ?thesis using Some by (simp add: self_frame_def)
qed (simp add: self_frame_def)

lemma part_get: "part reader H G \<Longrightarrow> H a = Some e \<Longrightarrow> G a = Some e"
  using extend_eq(1) [of H G a] by (auto simp: part_def)

lemma part_roots:
  assumes "part reader H G"
  shows "dag_roots H = {r \<in> dag_roots G. rs_ID r \<in> dom H}"
proof (intro equalityI subsetI)
  fix r assume "r \<in> dag_roots H"
  then show "r \<in> {r \<in> dag_roots G. rs_ID r \<in> dom H}"
    using part_get [OF assms] part_self_frame [OF assms] by (auto simp: dag_roots_def) metis
next
  fix r assume r: "r \<in> {r \<in> dag_roots G. rs_ID r \<in> dom H}"
  then obtain e f where e: "r = root_at e f" "G (ev_id e) = Some e" "self_frame G e < f" "f \<le> ev_frame e"
    by (auto elim: dag_rootsE)
  then have "H (ev_id e) = Some e" using r part_get [OF assms, of "ev_id e"] by auto
  then show "r \<in> dag_roots H" using e part_self_frame [OF assms] dag_rootsI by metis
qed

lemma part_forkless_cause:
  assumes "part reader H G" and "a \<in> dom H" and "b \<in> dom H"
  shows "forkless_cause vals H a b = forkless_cause vals G a b"
  using forkless_cause_extend assms by (metis part_def)

lemma part_closed:
  assumes "part reader H G" and "wf_validators vals" and "forkless_cause vals G a b" and "a \<in> dom H"
  shows "b \<in> dom H"
proof -
  have "observes G a b" by (rule forkless_cause_observes [OF assms(2,3)])
  then have "observes H a b" using observes_extend_iff assms by (metis part_def)
  then show ?thesis using observes_dom by blast
qed

lemma network_frames_below:
  assumes net: "network reader G" and part: "part reader H G" and r: "r \<in> dag_roots H"
    and f: "0 < f" "f \<le> rs_Frame r"
  shows "\<exists>b \<in> dag_roots H. rs_Frame b = f"
  using r f(2)
proof (induction "unat (rs_Frame r) - unat f" arbitrary: r)
  case 0
  then show ?case by (auto simp: word_le_nat_alt word_unat_eq_iff intro!: bexI [of _ r])
next
  case (Suc n)
  let ?w = "dag_world (fst reader) G f"
  have good: "good_world (fst reader) ?w" by (rule network_good [OF net f(1)])
  have level: "r \<in> world_level ?w (Suc n)" using Suc part_roots [OF part] by (simp add: world_level_def)
  have "{b \<in> world_level ?w n. world_obs ?w r b} \<noteq> {}"
    using vote.observes_quorum [OF good level] vote.quorum_pos [OF good_world_wf [OF good]]
    by (metis image_empty le_zero_eq less_irrefl sum.empty)
  then obtain b where b: "b \<in> dag_roots G" "unat (rs_Frame b) = unat f + n" "forkless_cause (fst reader) G (rs_ID r) (rs_ID b)"
    by (auto simp: world_level_def)
  have "b \<in> dag_roots H"
    using part_roots [OF part] part_closed [OF part good_world_wf [OF good] b(3)] Suc.prems(1) b(1) by auto
  then show ?case using Suc.hyps(1) [of b] b(2) by (simp add: word_le_nat_alt)
qed

lemma root_frame_bound:
  assumes "valid_dag reader G" and "r \<in> dag_roots G"
  shows "0 < rs_Frame r" and "unat (rs_Frame r) < 2147483646"
proof -
  obtain e f where e: "r = root_at e f" "G (ev_id e) = Some e" "self_frame G e < f" "f \<le> ev_frame e"
    using assms(2) by (rule dag_rootsE)
  show "0 < rs_Frame r" using e by (metis root_at_simps(2) word_gt_0 word_not_simps(1))
  have "unat (ev_frame e) < 2147483646" using valid_dag_event(3) [OF assms(1) e(2)] by (simp add: event_ok_def)
  then show "unat (rs_Frame r) < 2147483646" using e(1,4) by (simp add: word_le_nat_alt)
qed

section \<open>What is elected\<close>

definition elected :: "Validators \<Rightarrow> dag \<Rightarrow> Frame \<Rightarrow> hash_event \<Rightarrow> bool" where
  "elected vals G f a \<longleftrightarrow>
    (\<exists>el rs. election_run vals (dag_world vals G f) el rs \<and>
      chooseAtropos el = Inr (Some \<lparr>res_Frame = f, res_Atropos = a\<rparr>))"

lemma chosen_someone:
  "chooseAtropos el = Inr (Some res) \<Longrightarrow> \<exists>v vt. v \<in> set (SortedIDs (el_validators el)) \<and>
    map_of (el_decidedRoots el) v = Some vt \<and> vt_yes vt \<and>
    res = \<lparr>res_Frame = el_frameToDecide el, res_Atropos = vt_observedRoot vt\<rparr>"
proof -
  have "chooseAtropos_loop el vs = Inr (Some res) \<Longrightarrow> \<exists>v vt. v \<in> set vs \<and>
    map_of (el_decidedRoots el) v = Some vt \<and> vt_yes vt \<and>
    res = \<lparr>res_Frame = el_frameToDecide el, res_Atropos = vt_observedRoot vt\<rparr>" for vs
    by (induction vs) (auto split: option.splits if_splits simp del: map_of_eq_Some_iff)
  then show "chooseAtropos el = Inr (Some res) \<Longrightarrow> ?thesis" by (simp add: chooseAtropos_def)
qed

lemma chosen_inv:
  assumes "good_world vals w" and "election_run vals w el rs" and "chooseAtropos el = Inr (Some res)"
  shows "votes_inv vals w el rs"
proof (cases "\<exists>v. Exists vals v")
  case True
  then show ?thesis using election_run_ok [OF assms(2,1)] by blast
next
  case False
  have no: "\<not> feeds w g rs' r" for g rs' r
    using False assms(1) by (auto simp: feeds_def good_world_def)
  from assms(2) have "el = Election_New vals (fst w)" by (cases rule: election_run.cases) (auto simp: no)
  then show ?thesis using start_inv votes_inv_mono by (metis empty_subsetI)
qed

lemma elected_unique:
  assumes "network reader G" and "0 < f" and "elected (fst reader) G f a" and "elected (fst reader) G f b"
  shows "a = b"
proof -
  note good = network_good [OF assms(1,2)]
  obtain el1 rs1 where 1: "election_run (fst reader) (dag_world (fst reader) G f) el1 rs1"
    "chooseAtropos el1 = Inr (Some \<lparr>res_Frame = f, res_Atropos = a\<rparr>)" using assms(3) by (auto simp: elected_def)
  obtain el2 rs2 where 2: "election_run (fst reader) (dag_world (fst reader) G f) el2 rs2"
    "chooseAtropos el2 = Inr (Some \<lparr>res_Frame = f, res_Atropos = b\<rparr>)" using assms(4) by (auto simp: elected_def)
  show ?thesis
    using choose_agree [OF good chosen_inv [OF good 1] chosen_inv [OF good 2] 1(2) 2(2)] by simp
qed

text \<open>A decision within a part of the graph: the Atropos and the deciding root are in the part.\<close>

definition decides_in :: "Validators \<Rightarrow> dag \<Rightarrow> dag \<Rightarrow> Frame \<Rightarrow> Res \<Rightarrow> bool" where
  "decides_in vals G H f res \<longleftrightarrow>
    res_Frame res = f \<and> elected vals G f (res_Atropos res) \<and> res_Atropos res \<in> dom H \<and>
    (\<exists>b \<in> dag_roots H. unat f + 2 \<le> unat (rs_Frame b))"

lemma run_decides_in:
  assumes net: "network reader G" and part: "part reader H G" and f: "0 < f"
    and run: "election_run (fst reader) (dag_world (fst reader) G f) el rs" and rs: "rs \<subseteq> dag_roots H"
    and chosen: "chooseAtropos el = Inr (Some res)"
  shows "decides_in (fst reader) G H f res"
proof -
  let ?vals = "fst reader" and ?w = "dag_world (fst reader) G f"
  note good = network_good [OF net f]
  note inv = chosen_inv [OF good run chosen]
  obtain v vt where v: "map_of (el_decidedRoots el) v = Some vt" "vt_yes vt"
    "res = \<lparr>res_Frame = f, res_Atropos = vt_observedRoot vt\<rparr>"
    using chosen_someone [OF chosen] inv by (auto simp: votes_inv_def simp del: map_of_eq_Some_iff)
  have "decision_ok ?vals ?w rs v vt" using inv v(1) by (simp add: votes_inv_def)
  then obtain n r where r: "r \<in> rs" "r \<in> world_level ?w (Suc (Suc n))" "vote.decides ?vals ?w n (GetIdx ?vals v) True r"
    and cand: "is_candidate ?vals ?w (GetIdx ?vals v) (vt_observedRoot vt)"
    using v(2) by (auto simp: decision_ok_def)
  have closed: "\<forall>a \<in> dag_roots H. \<forall>n. \<forall>b \<in> world_level ?w n. world_obs ?w a b \<longrightarrow> b \<in> dag_roots H"
    using part_roots [OF part] part_closed [OF part good_world_wf [OF good]] by (auto simp: world_level_def)
  obtain a b where ab: "a \<in> world_level ?w (Suc 0)" "b \<in> dag_roots H \<inter> world_level ?w 0" "world_obs ?w a b"
      "root_creator ?vals b = GetIdx ?vals v"
    using vote.decides_has_candidate [OF good closed r(2) _ r(3)] r(1) rs by blast
  then have "is_candidate ?vals ?w (GetIdx ?vals v) (rs_ID b)" by (auto simp: is_candidate_def)
  then have "vt_observedRoot vt = rs_ID b" using candidate_one [OF good cand] by simp
  moreover have "rs_ID b \<in> dom H" using ab(2) part_roots [OF part] by auto
  moreover have "unat f + 2 \<le> unat (rs_Frame r)" using r(2) by (simp add: world_level_def)
  ultimately show ?thesis
    using v(3) r(1) rs run chosen by (auto simp: decides_in_def elected_def)
qed

section \<open>Feeding the election\<close>

lemma feeds_part:
  assumes net: "network reader G" and part: "part reader H G" and r: "r \<in> dag_roots H"
    and rr: "distinct rr" "set rr = {b \<in> dag_roots H. rs_Frame b = rs_Frame r - 1}"
    and rs: "{b \<in> dag_roots H. rs_Frame b = rs_Frame r - 1 \<and> f < rs_Frame b} \<subseteq> rs"
  shows "feeds (dag_world (fst reader) G f) (\<lambda>_. rr) rs r"
proof -
  let ?w = "dag_world (fst reader) G f"
  have sub: "dag_roots H \<subseteq> dag_roots G" using part_roots [OF part] by auto
  have "wf_validators (fst reader)" using net by (simp add: network_def)
  then have closed: "b \<in> dag_roots H" if "b \<in> dag_roots G" "world_obs ?w r b" for b
    using that part_roots [OF part] part_closed [OF part, of "fst reader" "rs_ID r" "rs_ID b"] r by auto
  show ?thesis
    using sub closed r rr rs unfolding feeds_def by auto
qed

section \<open>The next event\<close>

definition next_event :: "Validators \<times> Epoch \<Rightarrow> dag \<Rightarrow> dag \<Rightarrow> BaseEvent \<Rightarrow> bool" where
  "next_event reader G H e \<longleftrightarrow>
    part reader H G \<and> G (ev_id e) = Some e \<and> ev_id e \<notin> dom H \<and> set (ev_parents e) \<subseteq> dom H"

lemma next_event_addable:
  assumes "valid_dag reader G" and "next_event reader G H e"
  shows "addable reader H e"
proof -
  have H: "H \<subseteq>\<^sub>m G" "set (ev_parents e) \<subseteq> dom H" "G (ev_id e) = Some e" "ev_id e \<notin> dom H"
    using assms(2) by (simp_all add: next_event_def part_def)
  then have "parents_of H (ev_parents e) = parents_of G (ev_parents e)"
    using extend_eq(1) [OF H(1)] unfolding parents_of_def by (metis (mono_tags, lifting) map_eq_conv subsetD)
  moreover have "Checkers_Validate reader e (parents_of G (ev_parents e)) = None"
    using assms(1) H(3) by (simp add: valid_dag_def)
  ultimately show ?thesis using H by (simp add: addable_def)
qed

lemma next_event_part:
  assumes "valid_dag reader G" and "next_event reader G H e"
  shows "part reader (add_event H e) G"
proof -
  have H: "valid_dag reader H" "H \<subseteq>\<^sub>m G" "G (ev_id e) = Some e" using assms(2) by (simp_all add: next_event_def part_def)
  then have "add_event H e \<subseteq>\<^sub>m G" by (simp add: add_event_def map_le_def)
  then show ?thesis using valid_dag_add_event [OF H(1) next_event_addable [OF assms]] by (simp add: part_def)
qed

lemma next_event_self_frame:
  assumes "valid_dag reader G" and "next_event reader G H e"
  shows "self_frame H e = self_frame G e" and "self_frame (add_event H e) e = self_frame G e"
proof -
  have e: "G (ev_id e) = Some e" "H \<subseteq>\<^sub>m G" using assms(2) by (auto simp: next_event_def part_def)
  show "self_frame H e = self_frame G e"
  proof (cases "SelfParent e")
    case (Some p)
    then have "p \<in> dom H" using SelfParent_Some(1) [OF assms(1) e(1) Some] assms(2) by (auto simp: next_event_def)
    then show ?thesis using Some extend_eq(1) [OF e(2)] by (simp add: self_frame_def)
  qed (simp add: self_frame_def)
  show "self_frame (add_event H e) e = self_frame G e"
    using part_self_frame [OF next_event_part [OF assms], of "ev_id e" e] by simp
qed

lemma next_event_roots:
  assumes "valid_dag reader G" and "next_event reader G H e"
  shows "dag_roots (add_event H e) = dag_roots H \<union> root_at e ` {f. self_frame G e < f \<and> f \<le> ev_frame e}"
proof -
  have part: "part reader H G" and e: "G (ev_id e) = Some e" using assms(2) by (auto simp: next_event_def)
  have "{r \<in> dag_roots G. rs_ID r = ev_id e} = root_at e ` {f. self_frame G e < f \<and> f \<le> ev_frame e}"
  proof (intro equalityI subsetI)
    fix r assume r: "r \<in> {r \<in> dag_roots G. rs_ID r = ev_id e}"
    then obtain e' f where e': "r = root_at e' f" "G (ev_id e') = Some e'" "self_frame G e' < f" "f \<le> ev_frame e'"
      by (auto elim: dag_rootsE)
    have "e' = e" using r e' e by (metis (mono_tags) mem_Collect_eq option.inject root_at_simps(1))
    then show "r \<in> root_at e ` {f. self_frame G e < f \<and> f \<le> ev_frame e}" using e' by simp
  next
    fix r assume "r \<in> root_at e ` {f. self_frame G e < f \<and> f \<le> ev_frame e}"
    then show "r \<in> {r \<in> dag_roots G. rs_ID r = ev_id e}" using dag_rootsI [of G e, OF e] by auto
  qed
  moreover have "dag_roots (add_event H e) = dag_roots H \<union> {r \<in> dag_roots G. rs_ID r = ev_id e}"
    unfolding part_roots [OF part] part_roots [OF next_event_part [OF assms]] by auto
  ultimately show ?thesis by simp
qed

lemma next_event_quorum:
  assumes "valid_dag reader G" and "wf_validators vals" and "next_event reader G H e"
    and fc: "\<forall>b \<in> dom H. observed b = forkless_cause vals (add_event H e) (ev_id e) b"
  shows "quorum_on vals observed (dag_roots H) = quorum_on vals (forkless_cause vals G (ev_id e)) (other_roots G e)"
proof -
  note part' = next_event_part [OF assms(1,3)]
  have part: "part reader H G" and new: "ev_id e \<notin> dom H" using assms(3) by (auto simp: next_event_def)
  have obs: "observed b = forkless_cause vals G (ev_id e) b" if "b \<in> dom H" for b
    using fc that part_forkless_cause [OF part', of "ev_id e" b] by simp
  have dom: "b \<in> dom H" if "forkless_cause vals G (ev_id e) b" "b \<noteq> ev_id e" for b
    using part_closed [OF part' assms(2) that(1)] that(2) by simp
  have iff: "r \<in> dag_roots H \<and> observed (rs_ID r) \<longleftrightarrow>
      r \<in> other_roots G e \<and> forkless_cause vals G (ev_id e) (rs_ID r)" for r
  proof (cases "rs_ID r \<in> dom H")
    case True
    then have "rs_ID r \<noteq> ev_id e" using new by metis
    then show ?thesis using True obs [OF True] by (simp add: part_roots [OF part] other_roots_def)
  next
    case False
    then show ?thesis using dom by (auto simp: part_roots [OF part] other_roots_def)
  qed
  have "{r \<in> {r \<in> dag_roots H. rs_Frame r = f}. observed (rs_ID r)} =
      {r \<in> {r \<in> other_roots G e. rs_Frame r = f}. forkless_cause vals G (ev_id e) (rs_ID r)}" for f
    using iff by blast
  then show ?thesis by (simp add: quorum_on_def caused_by_def fun_eq_iff)
qed

end
