(* ===== verification/Orderer_Correct.thy ===== *)
theory Orderer_Correct
  imports Orderer_Run
begin

text \<open>
  What the orderer relies on, as an interface, and its total correctness over any
  provider of it: the election is fed rightly, frames are decided in order, and
  the loops of \<^verbatim>\<open>processKnownRoots\<close>, \<^verbatim>\<open>bootstrapElection\<close> and \<^verbatim>\<open>handleElection\<close> end.
\<close>

section \<open>State of a node\<close>

definition confirmed_table :: "abft_store \<Rightarrow> hash_event \<rightharpoonup> Frame" where
  "confirmed_table s = ed_ConfirmedEvent (st_epochDB s)"

text \<open>An application callback may confirm events, and touches nothing else of the store.\<close>

definition consensus_kept :: "abft_store \<Rightarrow> abft_store \<Rightarrow> bool" where
  "consensus_kept s s' \<longleftrightarrow>
    store_inv s' \<and> st_EpochState s' = st_EpochState s \<and> st_LastDecidedState s' = st_LastDecidedState s \<and>
    stored_roots s' = stored_roots s"

definition electing ::
  "Validators \<times> Epoch \<Rightarrow> dag \<Rightarrow> dag \<Rightarrow> Frame \<Rightarrow> RootAndSlot set \<Rightarrow> 'a Orderer \<Rightarrow> bool" where
  "electing reader G H final rs p \<longleftrightarrow>
    store_inv (or_store p) \<and>
    st_EpochState (or_store p) = Some \<lparr>es_Epoch = snd reader, es_Validators = fst reader\<rparr> \<and>
    st_LastDecidedState (or_store p) = Some \<lparr>lds_LastDecidedFrame = final\<rparr> \<and>
    stored_roots (or_store p) = dag_roots H \<and> rs \<subseteq> dag_roots H \<and> unat final < 2147483646 \<and>
    (\<exists>el. or_election p = Some el \<and> election_run (fst reader) (dag_world (fst reader) G (final + 1)) el rs)"

text \<open>The decisions of an epoch: frame 1, 2 and so on, each with its elected Atropos.\<close>

definition decisions :: "Validators \<Rightarrow> dag \<Rightarrow> (Frame \<times> hash_event) list \<Rightarrow> bool" where
  "decisions vals G L \<longleftrightarrow>
    length L < 2147483646 \<and>
    (\<forall>i < length L. fst (L ! i) = of_nat (Suc i) \<and> elected vals G (fst (L ! i)) (snd (L ! i)))"

lemma decisions_nth:
  assumes "decisions vals G L" and "i < length L"
  shows "fst (L ! i) = of_nat (Suc i)" and "elected vals G (of_nat (Suc i)) (snd (L ! i))"
proof -
  show "fst (L ! i) = of_nat (Suc i)" using assms by (simp add: decisions_def del: of_nat_Suc)
  then show "elected vals G (of_nat (Suc i)) (snd (L ! i))" using assms by (metis decisions_def)
qed

lemma decisions_Nil: "decisions vals G []"
  by (simp add: decisions_def)

lemma decisions_snoc:
  assumes "decisions vals G L" and "length L = unat (final :: Frame)" and "elected vals G (final + 1) a"
    and "Suc (length L) < 2147483646"
  shows "decisions vals G (L @ [(final + 1, a)])"
proof -
  have "(of_nat (Suc (length L)) :: Frame) = final + 1" using assms(2) by simp
  then show ?thesis using assms by (auto simp: decisions_def nth_append less_Suc_eq)
qed

lemma decisions_prefix:
  assumes "network reader G" and "decisions (fst reader) G L" and "decisions (fst reader) G L'" and "length L \<le> length L'"
  shows "L = take (length L) L'"
proof (rule nth_equalityI)
  show "length L = length (take (length L) L')" using assms(4) by simp
  fix i assume i: "i < length L"
  have "unat (of_nat (Suc i) :: Frame) = Suc i"
    using i assms(2) by (simp add: decisions_def unsigned_of_nat take_bit_nat_eq_self_iff del: of_nat_Suc)
  then have "(0::Frame) < of_nat (Suc i)" by (simp add: word_less_nat_alt)
  moreover have "fst (L ! i) = of_nat (Suc i)" "elected (fst reader) G (of_nat (Suc i)) (snd (L ! i))"
    "fst (L' ! i) = of_nat (Suc i)" "elected (fst reader) G (of_nat (Suc i)) (snd (L' ! i))"
    using i assms(4) decisions_nth [OF assms(2)] decisions_nth [OF assms(3)] less_le_trans by blast+
  ultimately have "snd (L ! i) = snd (L' ! i)" "fst (L ! i) = fst (L' ! i)"
    using elected_unique [OF assms(1)] by simp_all
  then show "L ! i = take (length L) L' ! i" using i by (simp add: prod_eq_iff)
qed

lemma final_Suc: "unat (final :: Frame) < 2147483646 \<Longrightarrow> unat (final + 1) = Suc (unat final) \<and> 0 < final + 1"
proof -
  assume "unat final < 2147483646"
  then have "unat (final + 1) = unat final + 1" by (intro unat_Suc_no_overflow) simp
  then show ?thesis by (simp add: word_less_nat_alt)
qed

lemma final_not_max: "unat (final :: Frame) < 2147483646 \<Longrightarrow> final + 1 \<noteq> - 1"
proof
  assume "unat final < 2147483646" and eq: "final + 1 = - 1"
  then have "unat (final + 1) < 4294967295" using final_Suc by simp
  moreover have "unat (- 1 :: Frame) = 4294967295" by (simp add: unsigned_minus_1_eq_mask mask_eq_exp_minus_1)
  ultimately show False unfolding eq by simp
qed

lemma electing_reads: "electing reader G H final rs p \<Longrightarrow> reads p p' \<Longrightarrow> electing reader G H final rs p'"
  by (simp add: electing_def readsD)

section \<open>The interface\<close>

lemma ProcessRoot_cong:
  assumes "asks_roots el r \<longrightarrow> g' (rs_Frame r - 1) = g (rs_Frame r - 1)"
    and "\<forall>b \<in> set (g (rs_Frame r - 1)). observe' (rs_ID r) (rs_ID b) = observe (rs_ID r) (rs_ID b)"
  shows "ProcessRoot observe' g' el r = ProcessRoot observe g el r"
proof (cases "asks_roots el r")
  case True
  have "observedRoots observe' g' (rs_ID r) (rs_Frame r - 1) = observedRoots observe g (rs_ID r) (rs_Frame r - 1)"
    using True assms by (simp add: observedRoots_def cong: filter_cong)
  moreover have "observedRootsMap observe' g' (rs_ID r) (rs_Frame r - 1) =
      observedRootsMap observe g (rs_ID r) (rs_Frame r - 1)"
    using True assms unfolding observedRootsMap_def by (intro fold_cong) auto
  ultimately show ?thesis by (simp only: ProcessRoot_def)
next
  case False
  then show ?thesis
    by (auto simp: ProcessRoot_def asks_roots_def Let_def split: sum.splits option.splits)
qed

locale orderer_client =
  fixes env :: "'a OrdererEnv"
    and applied :: "'a \<Rightarrow> (Frame \<times> hash_event) list"
    and follows :: "Validators \<times> Epoch \<Rightarrow> dag \<Rightarrow> 'a \<Rightarrow> (hash_event \<rightharpoonup> Frame) \<Rightarrow> bool"
  assumes source: "follows reader H app c \<Longrightarrow> H x = Some e \<Longrightarrow> env_GetEvent env app x = Some e"
    and index: "follows reader H app c \<Longrightarrow> a \<in> dom H \<Longrightarrow> b \<in> dom H \<Longrightarrow>
      env_ForklessCause env app a b = forkless_cause (fst reader) H a b"
    and apply_atropos: "follows reader H app (confirmed_table s) \<Longrightarrow> valid_dag reader H \<Longrightarrow> a \<in> dom H \<Longrightarrow> 0 < f \<Longrightarrow>
      store_inv s \<Longrightarrow> st_EpochState s = Some es \<Longrightarrow> es_Validators es = fst reader \<Longrightarrow>
      \<exists>app' s' newVals. env_ApplyAtropos env f a (app, s) = ret ((app', s'), newVals) \<and>
        follows reader H app' (confirmed_table s') \<and> applied app' = applied app @ [(f, a)] \<and> consensus_kept s s'"
    and epoch_loaded: "states_ok s \<Longrightarrow> st_EpochState s = Some es \<Longrightarrow>
      \<exists>app' s'. env_EpochDBLoaded env ep (app, s) = ret (app', s') \<and> applied app' = applied app \<and>
        st_EpochState s' = st_EpochState s"
begin

definition node where
  "node reader G H L0 final rs p \<longleftrightarrow>
    electing reader G H final rs p \<and> follows reader H (or_app p) (confirmed_table (or_store p)) \<and>
    (\<exists>L. applied (or_app p) = L0 @ L \<and> decisions (fst reader) G L \<and> length L = unat final)"

definition sealed where
  "sealed reader G L0 p \<longleftrightarrow>
    (\<exists>L. applied (or_app p) = L0 @ L \<and> decisions (fst reader) G L) \<and>
    (\<exists>es. st_EpochState (or_store p) = Some es \<and> es_Epoch es = snd reader + 1)"

lemma node_reads:
  assumes "node reader G H L0 final rs p" and "reads p p'"
  shows "node reader G H L0 final rs p'"
  using assms electing_reads [OF _ assms(2)] by (simp add: node_def readsD confirmed_table_def)

lemma electRoot_ok:
  assumes net: "network reader G" and part: "part reader H G" and node: "node reader G H L0 final rs p"
    and r: "r \<in> dag_roots H"
    and rs: "{b \<in> dag_roots H. rs_Frame b = rs_Frame r - 1 \<and> final + 1 < rs_Frame b} \<subseteq> rs"
  shows "\<exists>res p'. electRoot env p r = ret (res, p') \<and> node reader G H L0 final (insert r rs) p' \<and>
    (\<forall>x. res = Some x \<longrightarrow> decides_in (fst reader) G H (final + 1) x)"
proof -
  let ?w = "dag_world (fst reader) G (final + 1)"
  have el: "electing reader G H final rs p" using node by (simp add: node_def)
  then obtain el where el': "or_election p = Some el" "election_run (fst reader) ?w el rs"
    and inv: "store_inv (or_store p)" "stored_roots (or_store p) = dag_roots H" "rs \<subseteq> dag_roots H"
    and fin: "unat final < 2147483646"
    by (auto simp: electing_def)
  note pos = conjunct2 [OF final_Suc [OF fin]]
  note good = network_good [OF net pos]
  obtain rr q where q: "read_roots p (rs_Frame r - 1) = ret (rr, q)" "reads p q" "distinct rr"
    "set rr = {b \<in> dag_roots H. rs_Frame b = rs_Frame r - 1}"
    using read_roots_ok [OF inv(1), of "rs_Frame r - 1"] inv(2) by auto
  note feeds = feeds_part [OF net part r q(3,4) rs]
  obtain el1 res where res: "ProcessRoot (forkless_cause (fst reader) G) (\<lambda>_. rr) el r = (el1, Inr res)"
    "chooseAtropos el1 = Inr res"
    by (rule run_process [OF el'(2) good feeds]) simp
  have run: "election_run (fst reader) ?w el1 (insert r rs)"
    using election_step [OF el'(2) feeds] res(1) by simp
  obtain roots q1 where q': "(if asks_roots el r then read_roots p (rs_Frame r - 1) else ret ([], p)) = ret (roots, q1)"
    "reads p q1" "asks_roots el r \<longrightarrow> roots = rr"
    using q reads_refl [OF inv(1)] by (cases "asks_roots el r") auto
  have "env_ForklessCause env (or_app q1) (rs_ID r) (rs_ID b) = forkless_cause (fst reader) G (rs_ID r) (rs_ID b)"
    if "b \<in> set rr" for b
  proof -
    have "rs_ID r \<in> dom H" "rs_ID b \<in> dom H" using r that q(4) part_roots [OF part] by auto
    moreover have "follows reader H (or_app p) (confirmed_table (or_store p))" using node by (simp add: node_def)
    ultimately show ?thesis
      using index [of reader H] part_forkless_cause [OF part] readsD(1) [OF q'(2)] by metis
  qed
  then have "ProcessRoot (env_ForklessCause env (or_app q1)) (\<lambda>_. roots) el r = (el1, Inr res)"
    using res(1) q'(3) by (subst ProcessRoot_cong [where g = "\<lambda>_. rr" and observe = "forkless_cause (fst reader) G"]) simp_all
  then have eq: "electRoot env p r = ret (res, q1\<lparr>or_election := Some el1\<rparr>)"
    using el'(1) q'(1) by (simp add: electRoot_def)
  have "electing reader G H final (insert r rs) (q1\<lparr>or_election := Some el1\<rparr>)"
    using electing_reads [OF el q'(2)] run r by (simp add: electing_def)
  then have "node reader G H L0 final (insert r rs) (q1\<lparr>or_election := Some el1\<rparr>)"
    using node_reads [OF node q'(2)] by (simp add: node_def)
  moreover have "decides_in (fst reader) G H (final + 1) x" if "res = Some x" for x
    using run_decides_in [OF net part pos run] r inv(3) res(2) that by simp
  ultimately show ?thesis using eq by blast
qed

section \<open>Applying a decision\<close>

lemma sealEpoch_ok:
  assumes "store_inv (or_store p)" and "st_EpochState (or_store p) = Some es"
  shows "\<exists>p'. sealEpoch env p newVals = ret p' \<and> applied (or_app p') = applied (or_app p) \<and> or_election p' = or_election p \<and>
    st_EpochState (or_store p') = Some \<lparr>es_Epoch = es_Epoch es + 1, es_Validators = newVals\<rparr>"
proof -
  obtain q where q: "read_store GetEpochState p = ret (es, q)" "reads p q"
    using read_EpochState_ok [OF assms] by blast
  let ?es = "\<lparr>es_Epoch = es_Epoch es + 1, es_Validators = newVals\<rparr>"
  let ?s = "openEpochDB (env_getEpochDB env) (SetEpochState (or_store q) ?es) (es_Epoch es + 1)"
  have "states_ok ?s" "st_EpochState ?s = Some ?es"
    using readsD(3) [OF q(2)] by (simp_all add: openEpochDB_def SetEpochState_def store_inv_def states_ok_def)
  then obtain app s where "env_EpochDBLoaded env (es_Epoch es + 1) (or_app q, ?s) = ret (app, s)" "applied app = applied (or_app q)"
    "st_EpochState s = Some ?es"
    using epoch_loaded by metis
  then show ?thesis
    using q(1) readsD(1,2) [OF q(2)]
    by (intro exI [of _ "q\<lparr>or_app := app, or_store := s\<rparr>"]) (simp add: sealEpoch_def resetEpochStore_def Let_def)
qed

lemma onFrameDecided_ok:
  assumes net: "network reader G" and part: "part reader H G" and node: "node reader G H L0 final rs p"
    and dec: "decides_in (fst reader) G H (final + 1) res"
  shows "\<exists>b p'. onFrameDecided env p (res_Frame res) (res_Atropos res) = ret (b, p') \<and>
    (if b then sealed reader G L0 p' else node reader G H L0 (final + 1) {} p')"
proof -
  let ?a = "res_Atropos res"
  obtain es el L where el: "store_inv (or_store p)" "st_EpochState (or_store p) = Some es" "es_Validators es = fst reader"
    "st_LastDecidedState (or_store p) = Some \<lparr>lds_LastDecidedFrame = final\<rparr>" "stored_roots (or_store p) = dag_roots H"
    "or_election p = Some el" "es = \<lparr>es_Epoch = snd reader, es_Validators = fst reader\<rparr>"
    and fin: "unat final < 2147483646"
    and fol: "follows reader H (or_app p) (confirmed_table (or_store p))"
    and L: "applied (or_app p) = L0 @ L" "decisions (fst reader) G L" "length L = unat final"
    using node by (auto simp: node_def electing_def)
  have valid: "valid_dag reader H" using part by (simp add: part_def)
  note Suc = final_Suc [OF fin]
  have dec': "res_Frame res = final + 1" "elected (fst reader) G (final + 1) ?a" "?a \<in> dom H"
    using dec by (auto simp: decides_in_def)
  obtain b where "b \<in> dag_roots H" "unat (final + 1) + 2 \<le> unat (rs_Frame b)" using dec by (auto simp: decides_in_def)
  then have bound: "Suc (unat final) < 2147483646" using root_frame_bound(2) [OF valid] Suc by fastforce
  have log: "decisions (fst reader) G (L @ [(final + 1, ?a)])" "length (L @ [(final + 1, ?a)]) = unat (final + 1)"
    using decisions_snoc [OF L(2,3) dec'(2)] bound L(3) Suc by auto
  obtain app s nv where app: "env_ApplyAtropos env (final + 1) ?a (or_app p, or_store p) = ret ((app, s), nv)"
    "follows reader H app (confirmed_table s)" "applied app = L0 @ L @ [(final + 1, ?a)]" "consensus_kept (or_store p) s"
    using apply_atropos [OF fol valid dec'(3) conjunct2 [OF Suc] el(1-3)] L(1) by auto
  let ?p = "p\<lparr>or_app := app, or_store := s\<rparr>"
  have inv: "store_inv (or_store ?p)" "st_EpochState (or_store ?p) = Some es"
    "st_LastDecidedState (or_store ?p) = Some \<lparr>lds_LastDecidedFrame = final\<rparr>"
    using app(4) el by (simp_all add: consensus_kept_def)
  obtain p1 where p1: "read_store GetLastDecidedState ?p = ret (\<lparr>lds_LastDecidedFrame = final\<rparr>, p1)" "reads ?p p1"
    using read_LastDecidedState_ok [OF inv(1,3)] by blast
  note r1 = readsD [OF p1(2)]
  show ?thesis
  proof (cases nv)
    case (Some validators)
    obtain p2 where p2: "sealEpoch env p1 validators = ret p2" "applied (or_app p2) = applied app" "or_election p2 = Some el"
      "st_EpochState (or_store p2) = Some \<lparr>es_Epoch = snd reader + 1, es_Validators = validators\<rparr>"
      using sealEpoch_ok [of p1 es validators] r1 inv el(6,7) by auto
    have "reset_election p2 validators FirstFrame = ret (p2\<lparr>or_election := Some (Election_Reset validators FirstFrame)\<rparr>)"
      using p2(3) by (simp add: reset_election_def)
    then show ?thesis
      using app(1,3) p1(1) p2 Some log(1) dec'(1)
      by (simp add: onFrameDecided_def sealed_def SetLastDecidedState_def) blast
  next
    case None
    obtain p2 where p2: "read_store GetValidators p1 = ret (fst reader, p2)" "reads p1 p2"
      using read_Validators_ok [of p1 es] r1 inv el(3) by auto
    note r2 = readsD [OF p2(2)]
    let ?p3 = "p2\<lparr>or_election := Some (Election_Reset (fst reader) (final + 1 + 1))\<rparr>"
    let ?p4 = "?p3\<lparr>or_store := SetLastDecidedState (or_store ?p3) \<lparr>lds_LastDecidedFrame = final + 1\<rparr>\<rparr>"
    have "reset_election p2 (fst reader) (final + 1 + 1) = ret ?p3"
      using r2(2) r1(2) el(6) by (simp add: reset_election_def)
    then have eq: "onFrameDecided env p (res_Frame res) ?a = ret (False, ?p4)"
      using app(1) p1(1) p2(1) None dec'(1) by (simp add: onFrameDecided_def)
    have store: "store_inv (SetLastDecidedState (or_store p2) v)" for v
      using r2(3) by (simp add: store_inv_def SetLastDecidedState_def states_ok_def)
    have "election_run (fst reader) (dag_world (fst reader) G (final + 1 + 1)) (Election_Reset (fst reader) (final + 1 + 1)) {}"
      using election_start [of "fst reader" "dag_world (fst reader) G (final + 1 + 1)"] by (simp add: Election_New_def)
    then have "electing reader G H (final + 1) {} ?p4"
      using store r2(4,5) r1(4,5) inv(2) el(2,3,5,7) app(4) bound Suc
      by (simp add: electing_def consensus_kept_def SetLastDecidedState_def stored_roots_def)
    moreover have "confirmed_table (or_store ?p4) = confirmed_table s"
      using r2(7) r1(7) by (simp add: confirmed_table_def SetLastDecidedState_def)
    ultimately have "node reader G H L0 (final + 1) {} ?p4"
      using app(2,3) log r2(1) r1(1) by (simp add: node_def)
    then show ?thesis using eq by (intro exI [of _ False] exI [of _ ?p4]) simp
  qed
qed

section \<open>The known roots\<close>

lemma electRoots_ok:
  assumes net: "network reader G" and part: "part reader H G"
    and "node reader G H L0 final rs p" and "\<forall>r \<in> set rr. r \<in> dag_roots H \<and> rs_Frame r = f"
    and "{b \<in> dag_roots H. final + 1 < rs_Frame b \<and> rs_Frame b = f - 1} \<subseteq> rs"
  shows "\<exists>res p' rs'. electRoots env p rr = ret (res, p') \<and> node reader G H L0 final rs' p' \<and> rs \<subseteq> rs' \<and>
    (\<forall>x. res = Some x \<longrightarrow> decides_in (fst reader) G H (final + 1) x) \<and> (res = None \<longrightarrow> set rr \<subseteq> rs')"
  using assms(3-5)
proof (induction rr arbitrary: p rs)
  case Nil
  then show ?case by (auto intro!: exI [of _ p] exI [of _ rs])
next
  case (Cons r rr)
  have r: "r \<in> dag_roots H" "rs_Frame r = f" using Cons.prems(2) by auto
  obtain res p1 where 1: "electRoot env p r = ret (res, p1)" "node reader G H L0 final (insert r rs) p1"
    "\<forall>x. res = Some x \<longrightarrow> decides_in (fst reader) G H (final + 1) x"
    using electRoot_ok [OF net part Cons.prems(1) r(1)] Cons.prems(3) r(2) by auto
  show ?case
  proof (cases res)
    case (Some x)
    then show ?thesis using 1 by (intro exI [of _ res] exI [of _ p1] exI [of _ "insert r rs"]) auto
  next
    case None
    have "\<forall>r \<in> set rr. r \<in> dag_roots H \<and> rs_Frame r = f"
      "{b \<in> dag_roots H. final + 1 < rs_Frame b \<and> rs_Frame b = f - 1} \<subseteq> insert r rs"
      using Cons.prems(2,3) by auto
    from Cons.IH [OF 1(2) this] obtain res' p2 rs' where 2: "electRoots env p1 rr = ret (res', p2)" "node reader G H L0 final rs' p2"
      "insert r rs \<subseteq> rs'" "\<forall>x. res' = Some x \<longrightarrow> decides_in (fst reader) G H (final + 1) x"
      "res' = None \<longrightarrow> set rr \<subseteq> rs'"
      by blast
    then show ?thesis using 1(1) None by (intro exI [of _ res'] exI [of _ p2] exI [of _ rs']) auto
  qed
qed

definition knows where
  "knows H final rs \<longleftrightarrow> {b \<in> dag_roots H. final + 1 < rs_Frame b} \<subseteq> rs"

lemma knownRoots_loop_ok:
  assumes net: "network reader G" and part: "part reader H G"
    and "node reader G H L0 final rs p" and "0 < f" and "f \<noteq> - 1"
    and "{b \<in> dag_roots H. final + 1 < rs_Frame b \<and> rs_Frame b < f} \<subseteq> rs"
  shows "\<exists>res p' rs'. knownRoots_loop env p f = ret (res, p') \<and> node reader G H L0 final rs' p' \<and>
    (\<forall>x. res = Some x \<longrightarrow> decides_in (fst reader) G H (final + 1) x) \<and> (res = None \<longrightarrow> knows H final rs')"
  using assms(3-6)
proof (induction "2147483646 - unat f" arbitrary: f p rs rule: less_induct)
  case less
  have valid: "valid_dag reader H" using part by (simp add: part_def)
  have inv: "store_inv (or_store p)" "stored_roots (or_store p) = dag_roots H"
    using less.prems(1) by (auto simp: node_def electing_def)
  obtain rr p1 where 1: "read_roots p f = ret (rr, p1)" "reads p p1" "set rr = {b \<in> dag_roots H. rs_Frame b = f}"
    using read_roots_ok [OF inv(1), of f] inv(2) by auto
  have f1: "rs_Frame b = f - 1 \<longrightarrow> rs_Frame b < f" for b
    using less.prems(2) by (metis frame_minus_1 diff_less less_numeral_extra(1) unat_gt_0 word_gt_0 word_less_nat_alt)
  obtain res p2 rs2 where 2: "electRoots env p1 rr = ret (res, p2)" "node reader G H L0 final rs2 p2" "rs \<subseteq> rs2"
    "\<forall>x. res = Some x \<longrightarrow> decides_in (fst reader) G H (final + 1) x" "res = None \<longrightarrow> set rr \<subseteq> rs2"
    using electRoots_ok [OF net part node_reads [OF less.prems(1) 1(2)], of rr f] 1(3) less.prems(4) f1 by blast
  show ?case
  proof (cases "res \<noteq> None")
    case True
    then show ?thesis
      using 1(1) 2 by (intro exI [of _ res] exI [of _ p2] exI [of _ rs2]) (auto simp: knownRoots_loop.simps)
  next
    case False
    show ?thesis
    proof (cases "rr = []")
      case True
      have "\<not> f \<le> rs_Frame b" if "b \<in> dag_roots H" for b
        using network_frames_below [OF net part that less.prems(2)] 1(3) True by auto
      then have "rs_Frame b < f" if "b \<in> dag_roots H" for b using that by (simp add: not_le)
      then have "knows H final rs2" using less.prems(4) 2(3) by (auto simp: knows_def)
      then show ?thesis
        using 1(1) 2 False True
        by (intro exI [of _ None] exI [of _ p2] exI [of _ rs2]) (auto simp: knownRoots_loop.simps)
    next
      case ne: False
      then have "set rr \<noteq> {}" by simp
      then obtain b where b: "b \<in> dag_roots H" "rs_Frame b = f" unfolding 1(3) by blast
      have bound: "unat f < 2147483646" using root_frame_bound(2) [OF valid b(1)] b(2) by simp
      note Suc = final_Suc [OF bound]
      note max = final_not_max [OF bound]
      moreover have "rs_Frame b < f + 1 \<longleftrightarrow> rs_Frame b < f \<or> rs_Frame b = f" for b
        using Suc by (auto simp: word_less_nat_alt word_unat_eq_iff)
      then have "{b \<in> dag_roots H. final + 1 < rs_Frame b \<and> rs_Frame b < f + 1} \<subseteq> rs2"
        using less.prems(4) 2(3,5) False 1(3) by auto
      moreover have "2147483646 - unat (f + 1) < 2147483646 - unat f" using Suc bound by linarith
      ultimately obtain res' p3 rs3 where 3: "knownRoots_loop env p2 (f + 1) = ret (res', p3)"
        "node reader G H L0 final rs3 p3" "\<forall>x. res' = Some x \<longrightarrow> decides_in (fst reader) G H (final + 1) x"
        "res' = None \<longrightarrow> knows H final rs3"
        using less.hyps [OF _ 2(2), of "f + 1"] conjunct2 [OF Suc] by blast
      have "knownRoots_loop env p f = ret (res', p3)"
        using 1(1) 2(1) 3(1) False ne by (subst knownRoots_loop.simps) simp
      then show ?thesis using 3 by blast
    qed
  qed
qed

section \<open>Deciding frames after frames\<close>

lemma processKnownRoots_ok:
  assumes net: "network reader G" and part: "part reader H G" and node: "node reader G H L0 final rs p"
  shows "\<exists>res p' rs'. processKnownRoots env p = ret (res, p') \<and> node reader G H L0 final rs' p' \<and>
    (\<forall>x. res = Some x \<longrightarrow> decides_in (fst reader) G H (final + 1) x) \<and> (res = None \<longrightarrow> knows H final rs')"
proof -
  have inv: "store_inv (or_store p)" "st_LastDecidedState (or_store p) = Some \<lparr>lds_LastDecidedFrame = final\<rparr>"
    and fin: "unat final < 2147483646"
    using node by (auto simp: node_def electing_def)
  obtain p1 where 1: "read_store GetLastDecidedFrame p = ret (final, p1)" "reads p p1"
    using read_LastDecidedFrame_ok [OF inv] by auto
  note Suc = final_Suc [OF fin]
  have "{b \<in> dag_roots H. final + 1 < rs_Frame b \<and> rs_Frame b < final + 1} \<subseteq> rs" by auto
  note knownRoots_loop_ok [OF net part node_reads [OF node 1(2)] conjunct2 [OF Suc] final_not_max [OF fin] this]
  then show ?thesis using 1(1) by (auto simp: processKnownRoots_def)
qed

lemma decides_in_bound:
  assumes "part reader H G" and "decides_in vals G H f res"
  shows "unat f < 2147483644"
  using assms root_frame_bound(2) [of reader H] by (fastforce simp: decides_in_def part_def)

lemma bootstrapElection_ok:
  assumes net: "network reader G" and part: "part reader H G" and "node reader G H L0 final rs p"
  shows "\<exists>b p'. bootstrapElection env p = ret (b, p') \<and>
    (if b then sealed reader G L0 p'
     else \<exists>final' rs'. final \<le> final' \<and> node reader G H L0 final' rs' p' \<and> knows H final' rs')"
  using assms(3)
proof (induction "2147483646 - unat final" arbitrary: final p rs rule: less_induct)
  case less
  have fin: "unat final < 2147483646" using less.prems by (auto simp: node_def electing_def)
  note Suc = final_Suc [OF fin]
  obtain res p1 rs1 where 1: "processKnownRoots env p = ret (res, p1)" "node reader G H L0 final rs1 p1"
    "\<forall>x. res = Some x \<longrightarrow> decides_in (fst reader) G H (final + 1) x" "res = None \<longrightarrow> knows H final rs1"
    using processKnownRoots_ok [OF net part less.prems] by blast
  show ?case
  proof (cases res)
    case None
    then have "bootstrapElection env p = ret (False, p1)" using 1(1) by (subst bootstrapElection.simps) simp
    then show ?thesis using 1(2,4) None by auto
  next
    case (Some x)
    note dec = 1(3) [rule_format, OF Some]
    obtain b p2 where 2: "onFrameDecided env p1 (res_Frame x) (res_Atropos x) = ret (b, p2)"
      "if b then sealed reader G L0 p2 else node reader G H L0 (final + 1) {} p2"
      using onFrameDecided_ok [OF net part 1(2) dec] by blast
    show ?thesis
    proof (cases b)
      case True
      then have "bootstrapElection env p = ret (True, p2)" using 1(1) 2(1) Some by (subst bootstrapElection.simps) simp
      then show ?thesis using 2(2) True by auto
    next
      case False
      have eq: "bootstrapElection env p = bootstrapElection env p2"
        using 1(1) 2(1) Some False by (subst bootstrapElection.simps) simp
      have le: "final \<le> final + 1" using Suc by (simp add: word_le_nat_alt)
      have "2147483646 - unat (final + 1) < 2147483646 - unat final" using Suc fin by simp
      from less.hyps [OF this] 2(2) False obtain b' p' where 3: "bootstrapElection env p2 = ret (b', p')"
        "if b' then sealed reader G L0 p'
         else \<exists>final' rs'. final + 1 \<le> final' \<and> node reader G H L0 final' rs' p' \<and> knows H final' rs'"
        by (metis (full_types))
      then show ?thesis
        using eq order_trans [OF le] by (intro exI [of _ b'] exI [of _ p']) (cases b', simp, simp, blast)
    qed
  qed
qed

lemma bootstrapElection_idle:
  assumes node: "node reader G H L0 final rs p" and none: "dag_roots H = {}"
  shows "\<exists>p'. bootstrapElection env p = ret (False, p') \<and> reads p p'"
proof -
  have inv: "store_inv (or_store p)" "st_LastDecidedState (or_store p) = Some \<lparr>lds_LastDecidedFrame = final\<rparr>"
    and roots: "stored_roots (or_store p) = {}"
    using node none by (auto simp: node_def electing_def)
  obtain p1 where 1: "read_store GetLastDecidedFrame p = ret (final, p1)" "reads p p1"
    using read_LastDecidedFrame_ok [OF inv] by auto
  obtain rr p2 where 2: "read_roots p1 (final + 1) = ret (rr, p2)" "reads p1 p2" "set rr = {}"
    using read_roots_ok [of p1 "final + 1"] readsD(3,4) [OF 1(2)] roots by auto
  have "knownRoots_loop env p1 (final + 1) = ret (None, p2)" using 2 by (subst knownRoots_loop.simps) simp
  then have "bootstrapElection env p = ret (False, p2)"
    using 1(1) by (subst bootstrapElection.simps) (simp add: processKnownRoots_def)
  then show ?thesis using reads_trans [OF 1(2) 2(2)] by blast
qed

lemma decided_ok:
  assumes net: "network reader G" and part: "part reader H G" and node: "node reader G H L0 final rs p"
    and dec: "decides_in (fst reader) G H (final + 1) x"
  obtains p1 where "onFrameDecided env p (res_Frame x) (res_Atropos x) = ret (True, p1)" "sealed reader G L0 p1"
  | p1 p2 where "onFrameDecided env p (res_Frame x) (res_Atropos x) = ret (False, p1)"
    "bootstrapElection env p1 = ret (True, p2)" "sealed reader G L0 p2"
  | p1 p2 final' rs' where "onFrameDecided env p (res_Frame x) (res_Atropos x) = ret (False, p1)"
    "bootstrapElection env p1 = ret (False, p2)" "node reader G H L0 final' rs' p2" "knows H final' rs'"
proof -
  obtain b p1 where 1: "onFrameDecided env p (res_Frame x) (res_Atropos x) = ret (b, p1)"
    "if b then sealed reader G L0 p1 else node reader G H L0 (final + 1) {} p1"
    using onFrameDecided_ok [OF net part node dec] by blast
  show thesis
  proof (cases b)
    case True
    then show ?thesis using 1 that(1) by simp
  next
    case False
    then have n: "node reader G H L0 (final + 1) {} p1" using 1(2) by simp
    from bootstrapElection_ok [OF net part n] obtain c p2 where 2: "bootstrapElection env p1 = ret (c, p2)"
      "if c then sealed reader G L0 p2
       else \<exists>final' rs'. final + 1 \<le> final' \<and> node reader G H L0 final' rs' p2 \<and> knows H final' rs'" by blast
    then show ?thesis using 1(1) False that(2,3) by (cases c) auto
  qed
qed

section \<open>Processing an event\<close>

definition settled where
  "settled reader G H L0 p \<longleftrightarrow>
    sealed reader G L0 p \<or> (\<exists>final rs. node reader G H L0 final rs p \<and> knows H final rs)"

lemma handleElection_loop_ok:
  assumes net: "network reader G" and part: "part reader H G" and e: "H (ev_id e) = Some e"
    and "node reader G H L0 final rs p" and "self_frame H e < f"
    and "{b \<in> dag_roots H. final + 1 < rs_Frame b \<and> \<not> (\<exists>g. f \<le> g \<and> b = root_at e g)} \<subseteq> rs"
  shows "\<exists>p'. handleElection_loop env e p f = ret p' \<and> settled reader G H L0 p'"
  using assms(4-6)
proof (induction "Suc (unat (ev_frame e)) - unat f" arbitrary: f p rs final rule: less_induct)
  case less
  have valid: "valid_dag reader H" using part by (simp add: part_def)
  show ?case
  proof (cases "f \<le> ev_frame e")
    case False
    have "\<not> (\<exists>g. f \<le> g \<and> b = root_at e g)" if b: "b \<in> dag_roots H" for b
    proof
      assume "\<exists>g. f \<le> g \<and> b = root_at e g"
      then obtain g where g: "f \<le> g" "b = root_at e g" by blast
      obtain e' where "root_at e' g = root_at e g" "H (ev_id e') = Some e'" "g \<le> ev_frame e'"
        using b g(2) by (auto elim!: dag_rootsE simp: root_at_def)
      then have "g \<le> ev_frame e" using e by (metis option.inject root_at_simps(1))
      then show False using g(1) False by simp
    qed
    then have "knows H final rs" using less.prems(3) by (auto simp: knows_def)
    moreover have "handleElection_loop env e p f = ret p" using False by (subst handleElection_loop.simps) simp
    ultimately show ?thesis using less.prems(1) by (auto simp: settled_def)
  next
    case True
    have "unat (ev_frame e) < 2147483646" using valid_dag_event(3) [OF valid e] by (simp add: event_ok_def)
    then have bound: "unat f < 2147483646" using True by (simp add: word_le_nat_alt)
    note Suc = final_Suc [OF bound]
    have dec: "Suc (unat (ev_frame e)) - unat (f + 1) < Suc (unat (ev_frame e)) - unat f"
      using Suc True by (simp add: word_le_nat_alt)
    have gt: "self_frame H e < f + 1" using less.prems(2) Suc by (simp add: word_less_nat_alt)
    have f1: "f + 1 \<le> g \<longleftrightarrow> f < g" for g using Suc by (auto simp: word_le_nat_alt word_less_nat_alt)
    have "unat (f - 1) = unat f - 1" using frame_minus_1 [OF less.prems(2)] .
    moreover have "0 < unat f" using less.prems(2) by (simp add: word_less_nat_alt)
    ultimately have "\<not> f \<le> f - 1" by (simp add: word_le_nat_alt)
    then have rs: "{b \<in> dag_roots H. rs_Frame b = rs_Frame (root_at e f) - 1 \<and> final + 1 < rs_Frame b} \<subseteq> rs"
      using less.prems(3) by auto
    obtain res p1 where 1: "electRoot env p (root_at e f) = ret (res, p1)"
      "node reader G H L0 final (insert (root_at e f) rs) p1"
      "\<forall>x. res = Some x \<longrightarrow> decides_in (fst reader) G H (final + 1) x"
      using electRoot_ok [OF net part less.prems(1) _ rs] dag_rootsI [OF e less.prems(2) True] by auto
    show ?thesis
    proof (cases res)
      case None
      have "{b \<in> dag_roots H. final + 1 < rs_Frame b \<and> \<not> (\<exists>g. f + 1 \<le> g \<and> b = root_at e g)}
          \<subseteq> insert (root_at e f) rs"
        using less.prems(3) unfolding f1 by (auto simp: order.order_iff_strict)
      from less.hyps [OF dec 1(2) gt this]
      show ?thesis using 1(1) None True by (subst handleElection_loop.simps) simp
    next
      case (Some x)
      from net part 1(2) 1(3) [rule_format, OF Some] show ?thesis
      proof (cases rule: decided_ok)
        case (1 p2)
        then show ?thesis
          using \<open>electRoot env p (root_at e f) = ret (res, p1)\<close> Some True
          by (subst handleElection_loop.simps) (simp add: settled_def)
      next
        case (2 p2 p3)
        then show ?thesis
          using \<open>electRoot env p (root_at e f) = ret (res, p1)\<close> Some True
          by (subst handleElection_loop.simps) (simp add: settled_def)
      next
        case (3 p2 p3 final' rs')
        have "{b \<in> dag_roots H. final' + 1 < rs_Frame b \<and> \<not> (\<exists>g. f + 1 \<le> g \<and> b = root_at e g)} \<subseteq> rs'"
          using 3(4) by (auto simp: knows_def)
        from less.hyps [OF dec 3(3) gt this]
        show ?thesis
          using \<open>electRoot env p (root_at e f) = ret (res, p1)\<close> 3(1,2) Some True
          by (subst handleElection_loop.simps) simp
      qed
    qed
  qed
qed

text \<open>Between the index and the orderer: the application knows the next event, the store does not.\<close>

definition indexed where
  "indexed reader G H e L0 final rs p \<longleftrightarrow>
    electing reader G H final rs p \<and> knows H final rs \<and>
    follows reader (add_event H e) (or_app p) (confirmed_table (or_store p)) \<and>
    (\<exists>L. applied (or_app p) = L0 @ L \<and> decisions (fst reader) G L \<and> length L = unat final)"

lemma electing_ready:
  assumes "network reader G" and "part reader H G" and "electing reader G H final rs p"
  obtains es where "ready p es" "es_Validators es = fst reader" "st_EpochState (or_store p) = Some es"
proof -
  obtain es where es: "st_EpochState (or_store p) = Some es" "es_Validators es = fst reader"
    using assms(3) by (auto simp: electing_def)
  have "good_world (fst reader) (dag_world (fst reader) G 1)" by (rule network_good [OF assms(1)]) simp
  then have "Exists (fst reader) (rs_Validator r)" if "r \<in> dag_roots H" for r
    using that part_roots [OF assms(2)] by (auto simp: good_world_def)
  moreover have "rs_Frame r \<noteq> 0" if "r \<in> dag_roots H" for r
    using root_frame_bound(1) [of reader H r] assms(2) that by (auto simp: part_def)
  ultimately have "ready p es" using assms(1,3) es by (auto simp: ready_def electing_def network_def)
  then show thesis using that es by blast
qed

lemma Orderer_Process_ok:
  assumes net: "network reader G" and e: "next_event reader G H e" and p: "indexed reader G H e L0 final rs p"
  shows "\<exists>p'. Orderer_Process env p e = ret p' \<and> settled reader G (add_event H e) L0 p'"
proof -
  let ?H = "add_event H e" and ?spf = "self_frame G e"
  have valid: "valid_dag reader G" and wf: "wf_validators (fst reader)" using net by (auto simp: network_def)
  have part: "part reader H G" and eG: "G (ev_id e) = Some e" and new: "ev_id e \<notin> dom H"
    using e by (auto simp: next_event_def)
  note part' = next_event_part [OF valid e]
  have el: "electing reader G H final rs p" and fol: "follows reader ?H (or_app p) (confirmed_table (or_store p))"
    using p by (auto simp: indexed_def)
  obtain es where es: "ready p es" "es_Validators es = fst reader" "st_EpochState (or_store p) = Some es"
    using electing_ready [OF net part el] .
  have spf: "selfParentFrameOf env p e = ret ?spf"
  proof (cases "SelfParent e")
    case (Some sp)
    have "sp \<in> dom H" using SelfParent_Some(1) [OF valid eG Some] e by (auto simp: next_event_def)
    then obtain pe where pe: "H sp = Some pe" by auto
    then have "?H sp = Some pe" using new by (auto simp: add_event_def)
    then have "env_GetEvent env (or_app p) sp = Some pe" by (rule source [OF fol])
    moreover have "G sp = Some pe" using part_get [OF part pe] .
    ultimately show ?thesis using Some by (simp add: selfParentFrameOf_def self_frame_def)
  qed (simp add: selfParentFrameOf_def self_frame_def)
  have roots: "stored_roots (or_store p) = dag_roots H" using el by (simp add: electing_def)
  have "\<forall>b \<in> dom H. env_ForklessCause env (or_app p) (ev_id e) b = forkless_cause (fst reader) ?H (ev_id e) b"
    using index [OF fol] by simp
  then have Q: "quorum_of env p es e = quorum_on (fst reader) (forkless_cause (fst reader) G (ev_id e)) (other_roots G e)"
    using next_event_quorum [OF valid wf e] roots es(2) by (simp add: quorum_of_def)
  have allowed: "frame_allowed (quorum_of env p es e) ?spf (ev_frame e)"
    using net eG unfolding Q network_def frames_ok_def by blast
  have "unat (ev_frame e) < 2147483646" using valid_dag_event(3) [OF valid eG] by (simp add: event_ok_def)
  then have max: "ev_frame e \<noteq> - 1" by (auto simp: unsigned_minus_1_eq_mask mask_eq_exp_minus_1)
  have "\<forall>f. root_at e f \<notin> stored_roots (or_store p)" using roots part_roots [OF part] new by auto
  then obtain p1 where p1: "checkAndSaveEvent env p e = ret (?spf, p1)" "or_app p1 = or_app p" "or_election p1 = or_election p"
    "store_inv (or_store p1)" "st_EpochState (or_store p1) = Some es"
    "st_LastDecidedState (or_store p1) = st_LastDecidedState (or_store p)"
    "ed_ConfirmedEvent (st_epochDB (or_store p1)) = ed_ConfirmedEvent (st_epochDB (or_store p))"
    "stored_roots (or_store p1) = dag_roots ?H"
    using checkAndSaveEvent_ok(2) [OF es(1) spf max _ allowed] roots next_event_roots [OF valid e] by auto
  have "dag_roots H \<subseteq> dag_roots ?H" using next_event_roots [OF valid e] by auto
  then have "electing reader G ?H final rs p1" using el p1 es by (auto simp: electing_def)
  then have node: "node reader G ?H L0 final rs p1"
    using p p1(2,7) by (simp add: node_def indexed_def confirmed_table_def)
  have "?spf \<le> ev_frame e" using frame_allowed_bounds(1) [OF allowed] .
  then have "?spf \<noteq> - 1" using max by (metis word_order.extremum_unique)
  then have Suc: "?spf + 1 \<le> g \<longleftrightarrow> ?spf < g" for g by (rule word_Suc_le)
  then have lt: "self_frame ?H e < ?spf + 1" using next_event_self_frame(2) [OF valid e] by (metis order_refl)
  have "{b \<in> dag_roots ?H. final + 1 < rs_Frame b \<and> \<not> (\<exists>g. ?spf + 1 \<le> g \<and> b = root_at e g)} \<subseteq> rs"
    using p unfolding next_event_roots [OF valid e] Suc by (auto simp: indexed_def knows_def)
  from handleElection_loop_ok [OF net part' _ node lt this]
  show ?thesis using p1(1) by (simp add: Orderer_Process_def handleElection_def)
qed

section \<open>Bootstrap\<close>

text \<open>
  A node that starts, or restarts, with the tables of an epoch. The callback for a
  loaded database makes the application follow the events of the epoch; the
  election is rebuilt from the stored roots.
\<close>

definition loads where
  "loads reader H es app \<longleftrightarrow>
    (\<forall>s. store_inv s \<and> st_EpochState s = Some es \<and> st_epochDB s = env_getEpochDB env (es_Epoch es) \<longrightarrow>
      (\<exists>app' s'. env_EpochDBLoaded env (es_Epoch es) (app, s) = ret (app', s') \<and> consensus_kept s s' \<and>
        follows reader H app' (confirmed_table s')))"

lemma openEpochDB_inv:
  assumes "store_inv s" and "finite (ed_Roots (getEpochDB n))" and "ed_Roots (getEpochDB n) \<subseteq> range rootRecordKey"
  shows "store_inv (openEpochDB getEpochDB s n)"
  using assms Purge_inv [of "st_cacheFrameRoots s"]
  by (auto simp: store_inv_def openEpochDB_def roots_ok_def states_ok_def)

lemma Orderer_Bootstrap_ok:
  assumes net: "network reader G" and part: "part reader H G" and p: "or_election p = None" "store_inv (or_store p)"
    and es: "st_EpochState (or_store p) = Some es" "es = \<lparr>es_Epoch = snd reader, es_Validators = fst reader\<rparr>"
    and lds: "st_LastDecidedState (or_store p) = Some \<lparr>lds_LastDecidedFrame = final\<rparr>"
    and db: "finite (ed_Roots (env_getEpochDB env (es_Epoch es)))"
      "ed_Roots (env_getEpochDB env (es_Epoch es)) = rootRecordKey ` dag_roots H"
    and loads: "loads reader H es (or_app p)"
    and L: "applied (or_app p) = L0 @ L" "decisions (fst reader) G L" "length L = unat final"
  shows "\<exists>p'. Orderer_Bootstrap env p = ret p' \<and> settled reader G H L0 p' \<and>
    (dag_roots H = {} \<longrightarrow> (\<exists>rs. node reader G H L0 final rs p' \<and> knows H final rs) \<and>
      (\<exists>s s'. env_EpochDBLoaded env (es_Epoch es) (or_app p, s) = ret (or_app p', s') \<and> states_ok s \<and>
        st_EpochState s = Some es \<and> st_epochDB s = env_getEpochDB env (es_Epoch es)))"
proof -
  obtain p1 where 1: "read_store GetEpoch p = ret (es_Epoch es, p1)" "reads p p1"
    using read_Epoch_ok [OF p(2) es(1)] by blast
  note r1 = readsD [OF 1(2)]
  let ?p1 = "p1\<lparr>or_store := openEpochDB (env_getEpochDB env) (or_store p1) (es_Epoch es)\<rparr>"
  have load: "loadEpochDB env p = ret ?p1" using 1(1) by (simp add: loadEpochDB_def)
  have inv1: "store_inv (or_store ?p1)" using r1(3) db by (auto intro!: openEpochDB_inv)
  have t1: "st_EpochState (or_store ?p1) = Some es"
    "st_LastDecidedState (or_store ?p1) = Some \<lparr>lds_LastDecidedFrame = final\<rparr>"
    "st_epochDB (or_store ?p1) = env_getEpochDB env (es_Epoch es)"
    using r1 es lds by (simp_all add: openEpochDB_def)
  obtain p2 where 2: "read_store GetEpoch ?p1 = ret (es_Epoch es, p2)" "reads ?p1 p2"
    using read_Epoch_ok [OF inv1 t1(1)] by blast
  note r2 = readsD [OF 2(2)]
  have roots2: "stored_roots (or_store p2) = dag_roots H"
    using r2(7) t1(3) db(2) rootRecordKey_inj by (auto simp: stored_roots_def inj_def)
  obtain app s where app: "env_EpochDBLoaded env (es_Epoch es) (or_app p2, or_store p2) = ret (app, s)"
    "consensus_kept (or_store p2) s" "follows reader H app (confirmed_table s)"
    using loads r2 r1(1) t1 by (auto simp: loads_def)
  have "states_ok (or_store p2)" "st_EpochState (or_store p2) = Some es" using r2 t1 by (simp_all add: store_inv_def)
  from epoch_loaded [OF this, of "es_Epoch es" "or_app p2"]
  have log: "applied app = L0 @ L" using app(1) r2(1) r1(1) L(1) by auto
  let ?p2 = "p2\<lparr>or_app := app, or_store := s\<rparr>"
  have k: "store_inv (or_store ?p2)" "st_EpochState (or_store ?p2) = Some es"
    "st_LastDecidedState (or_store ?p2) = Some \<lparr>lds_LastDecidedFrame = final\<rparr>" "stored_roots (or_store ?p2) = dag_roots H"
    using app(2) r2 t1 roots2 by (simp_all add: consensus_kept_def)
  obtain p3 where 3: "read_store GetValidators ?p2 = ret (fst reader, p3)" "reads ?p2 p3"
    using read_Validators_ok [OF k(1,2)] es(2) by auto
  note r3 = readsD [OF 3(2)]
  obtain p4 where 4: "read_store GetLastDecidedFrame p3 = ret (final, p4)" "reads p3 p4"
    using read_LastDecidedFrame_ok [of p3 "\<lparr>lds_LastDecidedFrame = final\<rparr>"] r3 k by auto
  note r4 = readsD [OF 4(2)]
  let ?p5 = "p4\<lparr>or_election := Some (Election_New (fst reader) (final + 1))\<rparr>"
  have "election_run (fst reader) (dag_world (fst reader) G (final + 1)) (Election_New (fst reader) (final + 1)) {}"
    using election_start [of "fst reader" "dag_world (fst reader) G (final + 1)"] by simp
  then have "electing reader G H final {} ?p5"
    using r4 r3 k es(2) L(2,3) by (simp add: electing_def decisions_def)
  moreover have "confirmed_table (or_store ?p5) = confirmed_table s" using r3(7) r4(7) by (simp add: confirmed_table_def)
  ultimately have n5: "node reader G H L0 final {} ?p5" using app(3) log L(2,3) r3(1) r4(1) by (simp add: node_def)
  from bootstrapElection_ok [OF net part n5] obtain b p' where
    b: "bootstrapElection env ?p5 = ret (b, p')" "settled reader G H L0 p'"
    by (auto simp: settled_def split: if_splits)
  have "Orderer_Bootstrap env p = ret p'"
    using p(1) load 2(1) app(1) 3(1) 4(1) b(1) by (simp add: Orderer_Bootstrap_def)
  moreover have "(\<exists>rs. node reader G H L0 final rs p' \<and> knows H final rs) \<and> or_app p' = app" if none: "dag_roots H = {}"
  proof -
    have "reads ?p5 p'" using bootstrapElection_idle [OF n5 none] b(1) by auto
    then show ?thesis
      using node_reads [OF n5] readsD(1) [of ?p5 p'] r4(1) r3(1) none by (auto simp: knows_def intro!: exI [of _ "{}"])
  qed
  moreover have "env_EpochDBLoaded env (es_Epoch es) (or_app p, or_store p2) = ret (app, s)" using app(1) r2(1) r1(1) by simp
  moreover have "states_ok (or_store p2)" "st_EpochState (or_store p2) = Some es"
    "st_epochDB (or_store p2) = env_getEpochDB env (es_Epoch es)"
    using r2 t1 by (simp_all add: store_inv_def)
  ultimately show ?thesis using b(2) by blast
qed

end

end
