(* ===== verification/Lachesis.thy ===== *)
theory Lachesis
  imports Orderer_Correct Vec_Correct
begin

text \<open>
  The consensus over the orderer (\<^verbatim>\<open>abft/lachesis.go\<close>, \<^verbatim>\<open>traversal.go\<close>,
  \<^verbatim>\<open>indexed_lachesis.go\<close>) and its blocks (\<^verbatim>\<open>lachesis/\<close>): an Atropos becomes a block
  with the cheaters that it observes and with the events that it confirms. The
  state of the application is a type variable, its callbacks are functions on it.
  The index is the vector engine; its vector table is shared with the epoch
  database, so a flush writes it there. The field \<^verbatim>\<open>lch_applied\<close> is a history
  variable: the frames and Atropoi that were applied.
\<close>

section \<open>Blocks and callbacks\<close>

type_synonym Cheaters = "ValidatorID list"

record Block =
  bl_Atropos :: hash_event
  bl_Cheaters :: Cheaters

datatype cheaters_error = ErrZeroID | ErrOutOfRangeID | ErrDuplicateID

fun Cheaters_Validate_loop :: "ValidatorID \<Rightarrow> ValidatorID set \<Rightarrow> Cheaters \<Rightarrow> cheaters_error option" where
  "Cheaters_Validate_loop maxValidatorID seen [] = None"
| "Cheaters_Validate_loop maxValidatorID seen (i # rest) =
    (if i = 0 then Some ErrZeroID
     else if maxValidatorID > 0 \<and> i > maxValidatorID then Some ErrOutOfRangeID
     else if i \<in> seen then Some ErrDuplicateID
     else Cheaters_Validate_loop maxValidatorID (insert i seen) rest)"

definition Cheaters_Validate :: "Cheaters \<Rightarrow> ValidatorID \<Rightarrow> cheaters_error option" where
  "Cheaters_Validate s maxValidatorID = Cheaters_Validate_loop maxValidatorID {} s"

definition Cheaters_Set :: "Cheaters \<Rightarrow> ValidatorID set" where
  "Cheaters_Set s = fold insert s {}"

record 'c BlockCallbacks =
  cb_ApplyEvent :: "('c \<Rightarrow> BaseEvent \<Rightarrow> 'c) option"
  cb_EndBlock :: "('c \<Rightarrow> 'c \<times> Validators option) option"

record 'c ConsensusCallbacks =
  cb_BeginBlock :: "('c \<Rightarrow> Block \<Rightarrow> 'c \<times> 'c BlockCallbacks) option"

definition no_callbacks :: "'c ConsensusCallbacks" where
  "no_callbacks = \<lparr>cb_BeginBlock = None\<rparr>"

record 'c Lachesis =
  lch_input :: EventSource
  lch_index :: Engine
  lch_callback :: "'c ConsensusCallbacks"
  lch_app :: 'c
  lch_uniqueDirtyID :: nat
  lch_applied :: "(Frame \<times> hash_event) list"

section \<open>Confirming events\<close>

definition dfsSubgraph_body ::
  "EventSource \<Rightarrow> (BaseEvent \<Rightarrow> 's \<Rightarrow> bool \<times> 's) \<Rightarrow> 's \<Rightarrow> hash_event \<Rightarrow> abft_error + ('s \<times> hash_event list)" where
  "dfsSubgraph_body input filterFn s walk =
    (case input walk of
       None \<Rightarrow> Inl ErrEventNotFound
     | Some event \<Rightarrow>
         (case filterFn event s of
            (False, s1) \<Rightarrow> Inr (s1, [])
          | (True, s1) \<Rightarrow> Inr (s1, ev_parents event)))"

definition dfsSubgraph ::
  "EventSource \<Rightarrow> hash_event \<Rightarrow> (BaseEvent \<Rightarrow> 's \<Rightarrow> bool \<times> 's) \<Rightarrow> 's \<Rightarrow> (abft_error, 's) outcome" where
  "dfsSubgraph input head filterFn s = walk_stack (dfsSubgraph_body input filterFn) [head] s"

definition confirm_filter ::
  "Frame \<Rightarrow> ('c \<Rightarrow> BaseEvent \<Rightarrow> 'c) option \<Rightarrow> BaseEvent \<Rightarrow> abft_store \<times> 'c \<Rightarrow> bool \<times> (abft_store \<times> 'c)" where
  "confirm_filter frame onEventConfirmed e sc =
    (case sc of (s, c) \<Rightarrow>
       if GetEventConfirmedOn s (ev_id e) \<noteq> 0 then (False, (s, c))
       else (True, (SetEventConfirmedOn s (ev_id e) frame,
                    case onEventConfirmed of None \<Rightarrow> c | Some f \<Rightarrow> f c e)))"

definition confirmEvents ::
  "EventSource \<Rightarrow> Frame \<Rightarrow> hash_event \<Rightarrow> ('c \<Rightarrow> BaseEvent \<Rightarrow> 'c) option \<Rightarrow> abft_store \<times> 'c \<Rightarrow>
    (abft_error, abft_store \<times> 'c) outcome" where
  "confirmEvents input frame atropos onEventConfirmed sc =
    dfsSubgraph input atropos (confirm_filter frame onEventConfirmed) sc"

section \<open>Applying an Atropos\<close>

definition cheaters_of :: "Validators \<Rightarrow> HighestBeforeSeq option \<Rightarrow> Cheaters option" where
  "cheaters_of validators atroposVecClock =
    (case atroposVecClock of
       None \<Rightarrow> if SortedIDs validators = [] then Some [] else None
     | Some clock \<Rightarrow>
         Some (map snd (filter (\<lambda>(creatorIdx, creator). HB_IsForkDetected clock creatorIdx)
           (zip [0..<length (SortedIDs validators)] (SortedIDs validators)))))"

definition applyAtropos ::
  "Frame \<Rightarrow> hash_event \<Rightarrow> 'c Lachesis \<times> abft_store \<Rightarrow>
    (abft_error, ('c Lachesis \<times> abft_store) \<times> Validators option) outcome" where
  "applyAtropos decidedFrame atropos ls =
    (case ls of (p, s) \<Rightarrow>
     case GetMergedHighestBefore (lch_index p) atropos of (vi, atroposVecClock) \<Rightarrow>
     let p1 = p\<lparr>lch_index := vi, lch_applied := lch_applied p @ [(decidedFrame, atropos)]\<rparr> in
     case GetValidators s of
       Inl err \<Rightarrow> fail err
     | Inr (validators, s1) \<Rightarrow>
         (case cheaters_of validators atroposVecClock of
            None \<Rightarrow> fail PanicNilClock
          | Some cheaters \<Rightarrow>
              (case cb_BeginBlock (lch_callback p1) of
                 None \<Rightarrow> ret ((p1, s1), None)
               | Some beginBlock \<Rightarrow>
                   (case beginBlock (lch_app p1) \<lparr>bl_Atropos = atropos, bl_Cheaters = cheaters\<rparr> of (c1, blockCallback) \<Rightarrow>
                    res_bind (confirmEvents (lch_input p1) decidedFrame atropos (cb_ApplyEvent blockCallback) (s1, c1))
                      (\<lambda>(s2, c2).
                         case cb_EndBlock blockCallback of
                           None \<Rightarrow> ret ((p1\<lparr>lch_app := c2\<rparr>, s2), None)
                         | Some endBlock \<Rightarrow>
                             (case endBlock c2 of (c3, newVals) \<Rightarrow> ret ((p1\<lparr>lch_app := c3\<rparr>, s2), newVals)))))))"

definition lachesis_ForklessCause :: "'c Lachesis \<Rightarrow> hash_event \<Rightarrow> hash_event \<Rightarrow> bool" where
  "lachesis_ForklessCause p a b = (forklessCause (InitBranchesInfo (lch_index p)) a b = Inr True)"

definition NewLachesis :: "EventSource \<Rightarrow> Engine \<Rightarrow> 'c \<Rightarrow> 'c Lachesis" where
  "NewLachesis input dagIndex app =
    \<lparr>lch_input = input, lch_index = dagIndex, lch_callback = no_callbacks, lch_app = app, lch_uniqueDirtyID = 0,
     lch_applied = []\<rparr>"

definition lachesis_env :: "EpochDBProducer \<Rightarrow> 'c Lachesis OrdererEnv" where
  "lachesis_env getEpochDB =
    \<lparr>env_GetEvent = lch_input, env_ForklessCause = lachesis_ForklessCause, env_ApplyAtropos = applyAtropos,
     env_EpochDBLoaded = (\<lambda>_ ps. ret ps), env_getEpochDB = getEpochDB\<rparr>"

definition BootstrapWithOrderer ::
  "'c Lachesis OrdererEnv \<Rightarrow> 'c ConsensusCallbacks \<Rightarrow> 'c Lachesis Orderer \<Rightarrow> (abft_error, 'c Lachesis Orderer) outcome" where
  "BootstrapWithOrderer env callback p =
    res_bind (Orderer_Bootstrap env p) (\<lambda>p1. ret (p1\<lparr>or_app := (or_app p1)\<lparr>lch_callback := callback\<rparr>\<rparr>))"

definition Lachesis_Bootstrap ::
  "EpochDBProducer \<Rightarrow> 'c ConsensusCallbacks \<Rightarrow> 'c Lachesis Orderer \<Rightarrow> (abft_error, 'c Lachesis Orderer) outcome" where
  "Lachesis_Bootstrap getEpochDB callback p = BootstrapWithOrderer (lachesis_env getEpochDB) callback p"

section \<open>Indexed consensus\<close>

definition copy_24 :: "bytes \<Rightarrow> bytes" where
  "copy_24 bs = take 24 bs @ replicate (24 - length bs) 0"

definition sample :: "nat \<Rightarrow> nat \<times> bytes" where
  "sample counter = (counter + 1, copy_24 (big_Bytes (counter + 1)))"

definition indexed_EpochDBLoaded ::
  "Epoch \<Rightarrow> 'c Lachesis \<times> abft_store \<Rightarrow> (abft_error, 'c Lachesis \<times> abft_store) outcome" where
  "indexed_EpochDBLoaded epoch ps =
    (case ps of (p, s) \<Rightarrow>
     case GetValidators s of
       Inl err \<Rightarrow> fail err
     | Inr (validators, s1) \<Rightarrow>
         ret (p\<lparr>lch_index := Engine_Reset validators (ed_VectorIndex (st_epochDB s1))\<rparr>, s1))"

definition indexed_env :: "EpochDBProducer \<Rightarrow> 'c Lachesis OrdererEnv" where
  "indexed_env getEpochDB = (lachesis_env getEpochDB)\<lparr>env_EpochDBLoaded := indexed_EpochDBLoaded\<rparr>"

definition set_index :: "'c Lachesis Orderer \<Rightarrow> Engine \<Rightarrow> 'c Lachesis Orderer" where
  "set_index p vi = p\<lparr>or_app := (or_app p)\<lparr>lch_index := vi\<rparr>\<rparr>"

definition dropNotFlushed :: "'c Lachesis Orderer \<Rightarrow> 'c Lachesis Orderer" where
  "dropNotFlushed p = set_index p (Engine_DropNotFlushed (lch_index (or_app p)))"

definition flush :: "'c Lachesis Orderer \<Rightarrow> 'c Lachesis Orderer" where
  "flush p =
    (let vi = Engine_Flush (lch_index (or_app p)); s = or_store p in
     (set_index p vi)\<lparr>or_store := s\<lparr>st_epochDB := (st_epochDB s)\<lparr>ed_VectorIndex := flushedDb vi\<rparr>\<rparr>\<rparr>)"

definition indexed_Build ::
  "EpochDBProducer \<Rightarrow> 'c Lachesis Orderer \<Rightarrow> BaseEvent \<Rightarrow> (abft_error, BaseEvent \<times> 'c Lachesis Orderer) outcome" where
  "indexed_Build getEpochDB p e =
    (case sample (lch_uniqueDirtyID (or_app p)) of (counter, rID) \<Rightarrow>
     let e1 = SetID e rID; p1 = p\<lparr>or_app := (or_app p)\<lparr>lch_uniqueDirtyID := counter\<rparr>\<rparr> in
     case Engine_Add (lch_input (or_app p1)) (lch_index (or_app p1)) e1 of
       None \<Rightarrow> None
     | Some (Inl err) \<Rightarrow> fail (CritIndex err)
     | Some (Inr vi) \<Rightarrow>
         res_bind (Orderer_Build (indexed_env getEpochDB) (set_index p1 vi) e1)
           (\<lambda>(e2, p2). ret (e2, dropNotFlushed p2)))"

text \<open>
  The first component is the error that \<^verbatim>\<open>Process\<close> returns to a caller that goes
  on: a wrong frame, found before anything but read caches has changed.
\<close>

definition indexed_Process ::
  "EpochDBProducer \<Rightarrow> 'c Lachesis Orderer \<Rightarrow> BaseEvent \<Rightarrow>
    (abft_error, abft_error option \<times> 'c Lachesis Orderer) outcome" where
  "indexed_Process getEpochDB p e =
    (case Engine_Add (lch_input (or_app p)) (lch_index (or_app p)) e of
       None \<Rightarrow> None
     | Some (Inl err) \<Rightarrow> fail (CritIndex err)
     | Some (Inr vi) \<Rightarrow>
         (case Orderer_Process (indexed_env getEpochDB) (set_index p vi) e of
            None \<Rightarrow> None
          | Some (Inl ErrWrongFrame) \<Rightarrow> ret (Some ErrWrongFrame, dropNotFlushed (set_index p vi))
          | Some (Inl err) \<Rightarrow> fail err
          | Some (Inr p1) \<Rightarrow> ret (None, dropNotFlushed (flush p1))))"

definition indexed_Bootstrap ::
  "EpochDBProducer \<Rightarrow> 'c ConsensusCallbacks \<Rightarrow> 'c Lachesis Orderer \<Rightarrow> (abft_error, 'c Lachesis Orderer) outcome" where
  "indexed_Bootstrap getEpochDB callback p = BootstrapWithOrderer (indexed_env getEpochDB) callback p"

end
