(* ===== verification/Lachesis_Correct.thy ===== *)
theory Lachesis_Correct
  imports Lachesis
begin

text \<open>
  The consensus provides what the orderer relies on: the traversal that confirms
  events ends and confirms every new ancestor of the Atropos once, and the vector
  engine answers forkless cause. So the locale of the orderer is interpreted here,
  and the nodes of a network agree on their blocks.
\<close>

section \<open>Confirming events\<close>

type_synonym 'c walk = "EventSource \<times> (Validators \<times> Epoch) \<times> dag \<times> Frame \<times> ('c \<Rightarrow> BaseEvent \<Rightarrow> 'c) option"

definition walk_good :: "'c walk \<Rightarrow> bool" where
  "walk_good w = (case w of (input, reader, H, frame, f) \<Rightarrow>
    valid_dag reader H \<and> (\<forall>x e. H x = Some e \<longrightarrow> input x = Some e) \<and> frame \<noteq> 0)"

definition walk_nodes :: "'c walk \<Rightarrow> hash_event set" where
  "walk_nodes w = (case w of (input, reader, H, frame, f) \<Rightarrow> dom H)"

definition walk_parents :: "'c walk \<Rightarrow> hash_event \<Rightarrow> hash_event list" where
  "walk_parents w x = (case w of (input, reader, H, frame, f) \<Rightarrow> ev_parents (the (H x)))"

definition walk_body where
  "walk_body w = (case w of (input, reader, H, frame, f) \<Rightarrow> dfsSubgraph_body input (confirm_filter frame f))"

definition confirmed :: "abft_store \<Rightarrow> hash_event set" where
  "confirmed s = {x. GetEventConfirmedOn s x \<noteq> 0}"

definition walk_mark :: "'c walk \<Rightarrow> abft_store \<times> 'c \<Rightarrow> hash_event \<Rightarrow> abft_store \<times> 'c" where
  "walk_mark w sc x = (case w of (input, reader, H, frame, f) \<Rightarrow>
    (SetEventConfirmedOn (fst sc) x frame, case f of None \<Rightarrow> snd sc | Some f \<Rightarrow> f (snd sc) (the (H x))))"

lemma GetEventConfirmedOn_Set:
  "GetEventConfirmedOn (SetEventConfirmedOn s x f) y = (if y = x then f else GetEventConfirmedOn s y)"
  by (simp add: GetEventConfirmedOn_def SetEventConfirmedOn_def)

interpretation confirming: marking_walk walk_good walk_nodes walk_parents walk_body
  "\<lambda>_ _. True" "\<lambda>_ sc. confirmed (fst sc)" walk_mark
proof
  fix w :: "'c walk" and n :: hash_event and sc :: "abft_store \<times> 'c"
  obtain input reader H frame f where w: "w = (input, reader, H, frame, f)" by (cases w) auto
  obtain s c where sc: "sc = (s, c)" by (cases sc)
  assume good: "walk_good w"
  then have valid: "valid_dag reader H" and input: "\<forall>x e. H x = Some e \<longrightarrow> input x = Some e" and frame: "frame \<noteq> 0"
    by (auto simp: walk_good_def w)
  show "finite (walk_nodes w)" using valid by (simp add: walk_nodes_def w valid_dag_def)
  assume n: "n \<in> walk_nodes w"
  then obtain e where e: "H n = Some e" by (auto simp: walk_nodes_def w)
  have en: "ev_id e = n" "input n = Some e" using valid_dag_event(1) [OF valid e] input e by auto
  show "set (walk_parents w n) \<subseteq> walk_nodes w"
    using valid_dag_event(2) [OF valid e] e by (auto simp: walk_nodes_def walk_parents_def w)
  show "walk_body w sc n = Inr (sc, [])" if "n \<in> confirmed (fst sc)"
    using that en by (simp add: walk_body_def w dfsSubgraph_body_def confirm_filter_def sc confirmed_def)
  assume "n \<notin> confirmed (fst sc)"
  then show "walk_body w sc n = Inr (walk_mark w sc n, walk_parents w n)"
    using en e by (simp add: walk_body_def w dfsSubgraph_body_def confirm_filter_def sc confirmed_def
        walk_mark_def walk_parents_def split: option.split)
  show "confirmed (fst (walk_mark w sc n)) = insert n (confirmed (fst sc))"
    using frame by (auto simp: confirmed_def walk_mark_def w GetEventConfirmedOn_Set)
qed simp_all

lemma reach_observes:
  assumes "valid_dag reader H" and "a \<in> dom H"
  shows "reach (\<lambda>x. ev_parents (the (H x))) {a} n \<longleftrightarrow> observes H a n"
proof
  assume "reach (\<lambda>x. ev_parents (the (H x))) {a} n"
  then show "observes H a n"
  proof (induction rule: reach.induct)
    case (reach_start n)
    then show ?case using assms(2) by (auto intro: observes_refl)
  next
    case (reach_step n m)
    then obtain e where e: "H n = Some e" using observes_dom by blast
    then have "m \<in> set (ev_parents e)" "m \<in> dom H" using reach_step valid_dag_event(2) [OF assms(1) e] by auto
    then have "observes H n m" using e by (auto intro: observes_parent observes_refl)
    then show ?case using reach_step.IH observes_trans by blast
  qed
next
  assume "observes H a n"
  then show "reach (\<lambda>x. ev_parents (the (H x))) {a} n"
  proof (induction rule: observes.induct)
    case (observes_parent a e p b)
    then have "reach (\<lambda>x. ev_parents (the (H x))) {a} p" by (intro reach_step [OF reach_start, of a]) simp_all
    then show ?case by (rule reach_trans [OF observes_parent.IH])
  qed (auto intro: reach.intros)
qed

text \<open>The events that are confirmed are closed under parents.\<close>

definition confirmed_closed :: "dag \<Rightarrow> abft_store \<Rightarrow> bool" where
  "confirmed_closed H s \<longleftrightarrow>
    confirmed s \<subseteq> dom H \<and>
    (\<forall>x e. x \<in> confirmed s \<and> H x = Some e \<longrightarrow> set (ev_parents e) \<subseteq> confirmed s)"

definition confirm_all :: "Frame \<Rightarrow> hash_event list \<Rightarrow> abft_store \<Rightarrow> abft_store" where
  "confirm_all f L s = fold (\<lambda>x s. SetEventConfirmedOn s x f) L s"

definition apply_all :: "('c \<Rightarrow> BaseEvent \<Rightarrow> 'c) option \<Rightarrow> dag \<Rightarrow> hash_event list \<Rightarrow> 'c \<Rightarrow> 'c" where
  "apply_all f H L c = (case f of None \<Rightarrow> c | Some f \<Rightarrow> fold (\<lambda>x c. f c (the (H x))) L c)"

lemma fold_confirm_mark:
  "fold (\<lambda>x sc. walk_mark (input, reader, H, frame, f) sc x) L (s, c) = (confirm_all frame L s, apply_all f H L c)"
  by (induction L arbitrary: s c) (auto simp: confirm_all_def apply_all_def walk_mark_def split: option.split)

lemma confirmEvents_ok:
  assumes "valid_dag reader H" and "\<forall>x e. H x = Some e \<longrightarrow> input x = Some e" and "frame \<noteq> 0"
    and "a \<in> dom H" and "confirmed_closed H s"
  obtains L where "confirmEvents input frame a f (s, c) = ret (confirm_all frame L s, apply_all f H L c)"
    and "distinct L" and "set L = {x. observes H a x} - confirmed s"
    and "confirmed (confirm_all frame L s) = confirmed s \<union> {x. observes H a x}"
proof -
  let ?w = "(input, reader, H, frame, f)"
  have good: "walk_good ?w" using assms(1-3) by (simp add: walk_good_def)
  have closed: "\<forall>n \<in> confirmed (fst (s, c)) \<inter> walk_nodes ?w. set (walk_parents ?w n) \<subseteq> confirmed (fst (s, c))"
    using assms(5) unfolding confirmed_closed_def walk_nodes_def walk_parents_def by fastforce
  have start: "set [a] \<subseteq> walk_nodes ?w" using assms(4) by (simp add: walk_nodes_def)
  obtain L where L: "walk_stack (walk_body ?w) [a] (s, c) = Some (Inr (fold (\<lambda>n sc. walk_mark ?w sc n) L (s, c)))"
    "confirmed (fst (fold (\<lambda>n sc. walk_mark ?w sc n) L (s, c))) = confirmed (fst (s, c)) \<union> set L"
    "distinct L" "set L = {n. reach (walk_parents ?w) (set [a]) n \<and> n \<notin> confirmed (fst (s, c))}"
    by (rule confirming.walk_reachable [OF good _ start closed]) simp
  have "walk_parents ?w = (\<lambda>x. ev_parents (the (H x)))" by (simp add: walk_parents_def fun_eq_iff)
  then have "reach (walk_parents ?w) (set [a]) n \<longleftrightarrow> observes H a n" for n
    using reach_observes [OF assms(1,4), of n] by simp
  then have set: "set L = {x. observes H a x} - confirmed s" using L(4) by auto
  show thesis
  proof (rule that [OF _ L(3) set])
    show "confirmEvents input frame a f (s, c) = ret (confirm_all frame L s, apply_all f H L c)"
      using L(1) by (simp add: confirmEvents_def dfsSubgraph_def walk_body_def fold_confirm_mark)
    show "confirmed (confirm_all frame L s) = confirmed s \<union> {x. observes H a x}"
      using L(2) set by (auto simp: fold_confirm_mark)
  qed
qed

section \<open>The interface of the orderer\<close>

definition lachesis_follows ::
  "Validators \<times> Epoch \<Rightarrow> dag \<Rightarrow> 'c Lachesis \<Rightarrow> (hash_event \<rightharpoonup> Frame) \<Rightarrow> bool" where
  "lachesis_follows reader H p t \<longleftrightarrow>
    (\<exists>F. engine_ok reader (lch_index p) H F \<and> F \<subseteq>\<^sub>m H) \<and>
    (\<forall>x e. H x = Some e \<longrightarrow> lch_input p x = Some e) \<and>
    (\<forall>s. confirmed_table s = t \<longrightarrow> confirmed_closed H s)"

lemma confirmed_table_cong: "confirmed_table s = confirmed_table s' \<Longrightarrow> confirmed s = confirmed s'"
  by (simp add: confirmed_table_def confirmed_def GetEventConfirmedOn_def)

lemma confirmed_closed_cong:
  "confirmed_table s = confirmed_table s' \<Longrightarrow> confirmed_closed H s = confirmed_closed H s'"
  using confirmed_table_cong [of s s'] by (simp add: confirmed_closed_def)

lemma GetValidators_ok:
  assumes "states_ok s" and "st_EpochState s = Some es"
  shows "\<exists>x. GetValidators s = Inr (es_Validators es, s\<lparr>st_cacheEpochState := x\<rparr>) \<and> (x = None \<or> x = Some es)"
proof (cases "st_cacheEpochState s")
  case None
  then show ?thesis
    using assms by (intro exI [of _ "Some es"]) (simp add: GetValidators_def GetEpochState_def)
next
  case (Some x)
  then have "x = es" "s\<lparr>st_cacheEpochState := Some es\<rparr> = s" using assms by (auto simp: states_ok_def)
  then show ?thesis using Some by (intro exI [of _ "Some es"]) (simp add: GetValidators_def GetEpochState_def)
qed

lemma SetEventConfirmedOn_simps [simp]:
  "st_EpochState (SetEventConfirmedOn s x f) = st_EpochState s"
  "st_LastDecidedState (SetEventConfirmedOn s x f) = st_LastDecidedState s"
  "stored_roots (SetEventConfirmedOn s x f) = stored_roots s"
  "store_inv (SetEventConfirmedOn s x f) = store_inv s"
  by (simp_all add: SetEventConfirmedOn_def stored_roots_def store_inv_def roots_ok_def states_ok_def)

lemma confirm_all_Cons [simp]:
  "confirm_all f [] s = s" "confirm_all f (x # L) s = confirm_all f L (SetEventConfirmedOn s x f)"
  by (simp_all add: confirm_all_def)

lemma confirm_all_simps [simp]:
  "st_EpochState (confirm_all f L s) = st_EpochState s"
  "st_LastDecidedState (confirm_all f L s) = st_LastDecidedState s"
  "stored_roots (confirm_all f L s) = stored_roots s"
  "store_inv (confirm_all f L s) = store_inv s"
  by (induction L arbitrary: s) simp_all

lemma kept_cache:
  assumes "store_inv s" and "st_EpochState s = Some es" and "x = None \<or> x = Some es"
  shows "consensus_kept s (s\<lparr>st_cacheEpochState := x\<rparr>)" and "confirmed_table (s\<lparr>st_cacheEpochState := x\<rparr>) = confirmed_table s"
  using assms by (auto simp: consensus_kept_def store_inv_def states_ok_def stored_roots_def confirmed_table_def)

lemma cheaters_of_Some: "\<exists>cheaters. cheaters_of vals (Some clock) = Some cheaters"
  by (simp add: cheaters_of_def)

text \<open>The cheaters of a block are the validators whose fork the Atropos observes.\<close>

definition cheaters_at :: "Validators \<Rightarrow> dag \<Rightarrow> hash_event \<Rightarrow> Cheaters" where
  "cheaters_at vals H a = filter (fork_seen H a) (ids (vv_cache vals))"

lemma filter_zip_snd:
  assumes "\<forall>i < length xs. P i = Q (xs ! i)"
  shows "map snd (filter (\<lambda>(i, x). P i) (zip [0..<length xs] xs)) = filter Q xs"
  using assms
proof (induction xs rule: rev_induct)
  case (snoc x xs)
  have "\<forall>i < length xs. P i = Q (xs ! i)" using snoc.prems by (auto simp: nth_append split: if_splits)
  moreover have "P (length xs) = Q x" using snoc.prems by (metis length_append_singleton lessI nth_append_length)
  ultimately show ?case using snoc.IH by simp
qed simp

lemma merged_cheaters:
  assumes ok: "engine_ok (vals, ep) vi H F" and a: "a \<in> dom H"
  shows "\<exists>m. GetMergedHighestBefore vi a = (InitBranchesInfo vi, Some m) \<and>
    cheaters_of vals (Some m) = Some (cheaters_at vals H a)"
proof -
  obtain m where m: "GetMergedHighestBefore vi a = (InitBranchesInfo vi, Some m)"
    "\<forall>v < Validators_Len vals. HB_IsForkDetected m v \<longleftrightarrow> fork_seen H a (ids (vv_cache vals) ! v)"
    using GetMergedHighestBefore_correct [OF ok a] by blast
  have "wf_validators vals" using ok by (simp add: engine_ok_def)
  then have "map snd (filter (\<lambda>(i, v). HB_IsForkDetected m i) (zip [0..<length (SortedIDs vals)] (SortedIDs vals))) =
      cheaters_at vals H a"
    unfolding cheaters_at_def SortedIDs_def using m(2) by (intro filter_zip_snd) (simp add: length_ids)
  then show ?thesis using m(1) by (simp add: cheaters_of_def)
qed

text \<open>
  Applying an Atropos: the cheaters are those that it observes, and exactly the new
  ancestors are confirmed and given to the application, each once.
\<close>

lemma applyAtropos_ok:
  assumes fol: "lachesis_follows reader H p (confirmed_table s)" and valid: "valid_dag reader H" and a: "a \<in> dom H"
    and f: "0 < f" and inv: "store_inv s" and es: "st_EpochState s = Some es" "es_Validators es = fst reader"
  obtains x m where "GetMergedHighestBefore (lch_index p) a = (InitBranchesInfo (lch_index p), Some m)"
    and "cheaters_of (fst reader) (Some m) = Some (cheaters_at (fst reader) H a)"
    and "GetValidators s = Inr (fst reader, s\<lparr>st_cacheEpochState := x\<rparr>)"
    and "consensus_kept s (s\<lparr>st_cacheEpochState := x\<rparr>)"
    and "confirmed_table (s\<lparr>st_cacheEpochState := x\<rparr>) = confirmed_table s"
    and "confirmed_closed H (s\<lparr>st_cacheEpochState := x\<rparr>)"
proof -
  obtain F where "engine_ok (fst reader, snd reader) (lch_index p) H F" using fol by (auto simp: lachesis_follows_def)
  from merged_cheaters [OF this a] obtain m where
    m: "GetMergedHighestBefore (lch_index p) a = (InitBranchesInfo (lch_index p), Some m)"
    "cheaters_of (fst reader) (Some m) = Some (cheaters_at (fst reader) H a)" by blast
  obtain x where x: "GetValidators s = Inr (fst reader, s\<lparr>st_cacheEpochState := x\<rparr>)" "x = None \<or> x = Some es"
    using GetValidators_ok [of s es] inv es by (auto simp: store_inv_def)
  note kept = kept_cache [OF inv es(1) x(2)]
  have "confirmed_closed H (s\<lparr>st_cacheEpochState := x\<rparr>)"
    using fol kept(2) by (auto simp: lachesis_follows_def)
  then show thesis using that m x(1) kept by blast
qed

lemma confirmed_closed_observed:
  assumes "valid_dag reader H" and "confirmed_closed H s" and "confirmed s' = confirmed s \<union> {x. observes H a x}"
  shows "confirmed_closed H s'"
  unfolding confirmed_closed_def
proof (intro conjI allI impI)
  show "confirmed s' \<subseteq> dom H" using assms(2,3) observes_dom [of H a] unfolding confirmed_closed_def by blast
  fix x e assume "x \<in> confirmed s' \<and> H x = Some e"
  then consider "x \<in> confirmed s" "H x = Some e" | "observes H a x" "H x = Some e" using assms(3) by auto
  then show "set (ev_parents e) \<subseteq> confirmed s'"
  proof cases
    case 1
    then show ?thesis using assms(2,3) unfolding confirmed_closed_def by blast
  next
    case 2
    have "observes H x q" if "q \<in> set (ev_parents e)" for q
    proof -
      have "observes H q q" using that valid_dag_event(2) [OF assms(1) 2(2)] by (intro observes_refl) blast
      then show ?thesis using that 2(2) by (simp add: observes_iff) blast
    qed
    then show ?thesis using assms(3) observes_trans [OF 2(1)] by auto
  qed
qed

lemma lachesis_apply_atropos:
  assumes fol: "lachesis_follows reader H p (confirmed_table s)" and valid: "valid_dag reader H" and a: "a \<in> dom H"
    and f: "0 < f" and inv: "store_inv s" and es: "st_EpochState s = Some es" "es_Validators es = fst reader"
  shows "\<exists>p' s' newVals. applyAtropos f a (p, s) = ret ((p', s'), newVals) \<and>
    lachesis_follows reader H p' (confirmed_table s') \<and> lch_applied p' = lch_applied p @ [(f, a)] \<and> consensus_kept s s'"
proof -
  obtain x m where m: "GetMergedHighestBefore (lch_index p) a = (InitBranchesInfo (lch_index p), Some m)"
    "cheaters_of (fst reader) (Some m) = Some (cheaters_at (fst reader) H a)"
    and s: "GetValidators s = Inr (fst reader, s\<lparr>st_cacheEpochState := x\<rparr>)"
    "consensus_kept s (s\<lparr>st_cacheEpochState := x\<rparr>)" "confirmed_table (s\<lparr>st_cacheEpochState := x\<rparr>) = confirmed_table s"
    "confirmed_closed H (s\<lparr>st_cacheEpochState := x\<rparr>)"
    by (rule applyAtropos_ok [OF assms])
  let ?s = "s\<lparr>st_cacheEpochState := x\<rparr>"
  let ?p = "p\<lparr>lch_index := InitBranchesInfo (lch_index p), lch_applied := lch_applied p @ [(f, a)]\<rparr>"
  have fol': "lachesis_follows reader H (?p\<lparr>lch_app := c\<rparr>) t"
    if "\<forall>s'. confirmed_table s' = t \<longrightarrow> confirmed_closed H s'" for c t
    using fol that engine_ok_init [of reader "lch_index p" H] by (auto simp: lachesis_follows_def)
  have input: "\<forall>x e. H x = Some e \<longrightarrow> lch_input p x = Some e" using fol by (simp add: lachesis_follows_def)
  show ?thesis
  proof (cases "cb_BeginBlock (lch_callback p)")
    case None
    have "\<forall>s'. confirmed_table s' = confirmed_table ?s \<longrightarrow> confirmed_closed H s'"
      using s(4) confirmed_closed_cong by blast
    from fol' [OF this, of "lch_app p"] have "lachesis_follows reader H ?p (confirmed_table ?s)"
      by (simp add: lachesis_follows_def)
    then show ?thesis using None m s by (simp add: applyAtropos_def Let_def)
  next
    case (Some beginBlock)
    obtain c1 bcb where b: "beginBlock (lch_app p) \<lparr>bl_Atropos = a, bl_Cheaters = cheaters_at (fst reader) H a\<rparr> = (c1, bcb)"
      by fastforce
    obtain L where L: "confirmEvents (lch_input p) f a (cb_ApplyEvent bcb) (?s, c1) =
        ret (confirm_all f L ?s, apply_all (cb_ApplyEvent bcb) H L c1)"
      "confirmed (confirm_all f L ?s) = confirmed ?s \<union> {x. observes H a x}"
      using confirmEvents_ok [OF valid input _ a s(4), of f] f by (metis word_gt_0)
    let ?s2 = "confirm_all f L ?s"
    have kept: "consensus_kept s ?s2" using s(2) by (simp add: consensus_kept_def)
    have "confirmed_closed H ?s2" by (rule confirmed_closed_observed [OF valid s(4) L(2)])
    then have fol2: "lachesis_follows reader H (?p\<lparr>lch_app := c\<rparr>) (confirmed_table ?s2)" for c
      using fol' confirmed_closed_cong by blast
    show ?thesis
    proof (cases "cb_EndBlock bcb")
      case None
      then show ?thesis using Some m s b L(1) kept fol2 [of "apply_all (cb_ApplyEvent bcb) H L c1"]
        by (simp add: applyAtropos_def Let_def)
    next
      case fin: (Some endBlock)
      obtain c3 nv where "endBlock (apply_all (cb_ApplyEvent bcb) H L c1) = (c3, nv)" by fastforce
      then show ?thesis using Some m s b L(1) kept fol2 [of c3] fin by (simp add: applyAtropos_def Let_def)
    qed
  qed
qed

lemma engine_InitBranchesInfo:
  assumes "engine_ok reader vi H F" and "a \<in> dom H" and "b \<in> dom H"
  shows "forklessCause (InitBranchesInfo vi) a b = Inr (forkless_cause (fst reader) H a b)"
  using forklessCause_correct [of "fst reader" "snd reader" "InitBranchesInfo vi" H F "current_bi vi" a b]
    engine_ok_init [OF assms(1)] assms(2,3) vi_bi_InitBranchesInfo by simp

lemma indexed_epoch_loaded:
  assumes "states_ok s" and "st_EpochState s = Some es"
  shows "\<exists>p' s'. indexed_EpochDBLoaded ep (p, s) = ret (p', s') \<and> lch_applied p' = lch_applied p \<and>
    st_EpochState s' = st_EpochState s"
  using GetValidators_ok [OF assms] by (auto simp: indexed_EpochDBLoaded_def)

interpretation lachesis: orderer_client "indexed_env getEpochDB" lch_applied lachesis_follows for getEpochDB
proof
  fix reader :: "Validators \<times> Epoch" and H and p :: "'c Lachesis" and t
  assume fol: "lachesis_follows reader H p t"
  show "env_GetEvent (indexed_env getEpochDB) p x = Some e" if "H x = Some e" for x e
    using fol that by (simp add: indexed_env_def lachesis_env_def lachesis_follows_def)
  show "env_ForklessCause (indexed_env getEpochDB) p a b = forkless_cause (fst reader) H a b"
    if "a \<in> dom H" "b \<in> dom H" for a b
    using fol engine_InitBranchesInfo [of reader, OF _ that]
    by (auto simp: indexed_env_def lachesis_env_def lachesis_follows_def lachesis_ForklessCause_def)
next
  fix reader :: "Validators \<times> Epoch" and H and p :: "'c Lachesis" and s :: abft_store and a and f :: Frame and es :: EpochState
  assume "lachesis_follows reader H p (confirmed_table s)" "valid_dag reader H" "a \<in> dom H" "0 < f"
    "store_inv s" "st_EpochState s = Some es" "es_Validators es = fst reader"
  from lachesis_apply_atropos [OF this]
  show "\<exists>app' s' newVals. env_ApplyAtropos (indexed_env getEpochDB) f a (p, s) = ret ((app', s'), newVals) \<and>
      lachesis_follows reader H app' (confirmed_table s') \<and> lch_applied app' = lch_applied p @ [(f, a)] \<and> consensus_kept s s'"
    by (simp add: indexed_env_def lachesis_env_def)
next
  fix s es ep and p :: "'c Lachesis"
  assume "states_ok s" "st_EpochState s = Some es"
  from indexed_epoch_loaded [OF this]
  show "\<exists>app' s'. env_EpochDBLoaded (indexed_env getEpochDB) ep (p, s) = ret (app', s') \<and> lch_applied app' = lch_applied p \<and>
      st_EpochState s' = st_EpochState s"
    by (simp add: indexed_env_def lachesis_env_def)
qed

end
