(* ===== verification/Consensus.thy ===== *)
theory Consensus
  imports Lachesis_Correct
begin

text \<open>
  Whole nodes: a node starts from the genesis, receives the events of an epoch in
  some order with parents first, and processes them through the vector index, the
  orderer, the election and the confirmation of events. The properties relate
  nodes that see parts of one graph.
\<close>

section \<open>A node and its runs\<close>

text \<open>The application stores an event before it gives it to the consensus.\<close>

definition feed :: "'c Lachesis Orderer \<Rightarrow> BaseEvent \<Rightarrow> 'c Lachesis Orderer" where
  "feed p e = p\<lparr>or_app := (or_app p)\<lparr>lch_input := (lch_input (or_app p))(ev_id e \<mapsto> e)\<rparr>\<rparr>"

definition epoch_open :: "Validators \<times> Epoch \<Rightarrow> 'c Lachesis Orderer \<Rightarrow> bool" where
  "epoch_open reader p \<longleftrightarrow> (\<exists>es. st_EpochState (or_store p) = Some es \<and> es_Epoch es = snd reader)"

definition node_ok :: "Validators \<times> Epoch \<Rightarrow> dag \<Rightarrow> dag \<Rightarrow> 'c Lachesis Orderer \<Rightarrow> bool" where
  "node_ok reader G H p \<longleftrightarrow>
    engine_ok reader (lch_index (or_app p)) H H \<and>
    (\<exists>final rs. lachesis.node reader G H [] final rs p \<and> lachesis.knows H final rs)"

lemma node_ok_open: "node_ok reader G H p \<Longrightarrow> epoch_open reader p"
  by (auto simp: node_ok_def epoch_open_def lachesis.node_def electing_def)

lemma follows_flushed:
  assumes "lachesis_follows reader H (or_app p) (confirmed_table (or_store p))"
  shows "engine_ok reader (lch_index (or_app (dropNotFlushed (flush p)))) H H"
    and "lachesis_follows reader H (or_app (dropNotFlushed (flush p))) (confirmed_table (or_store (dropNotFlushed (flush p))))"
proof -
  obtain F where "engine_ok reader (lch_index (or_app p)) H F" using assms by (auto simp: lachesis_follows_def)
  then show ok: "engine_ok reader (lch_index (or_app (dropNotFlushed (flush p)))) H H"
    using engine_ok_drop [OF engine_ok_flush] by (simp add: dropNotFlushed_def flush_def set_index_def Let_def)
  show "lachesis_follows reader H (or_app (dropNotFlushed (flush p))) (confirmed_table (or_store (dropNotFlushed (flush p))))"
    using assms ok
    by (auto simp: lachesis_follows_def dropNotFlushed_def flush_def set_index_def Let_def confirmed_table_def)
qed

lemma flush_simps [simp]:
  "lch_applied (or_app (dropNotFlushed (flush p))) = lch_applied (or_app p)"
  "or_election (dropNotFlushed (flush p)) = or_election p"
  "st_EpochState (or_store (dropNotFlushed (flush p))) = st_EpochState (or_store p)"
  "st_LastDecidedState (or_store (dropNotFlushed (flush p))) = st_LastDecidedState (or_store p)"
  "stored_roots (or_store (dropNotFlushed (flush p))) = stored_roots (or_store p)"
  "store_inv (or_store (dropNotFlushed (flush p))) = store_inv (or_store p)"
  by (simp_all add: dropNotFlushed_def flush_def set_index_def Let_def stored_roots_def store_inv_def roots_ok_def states_ok_def)

lemma node_flushed:
  assumes "lachesis.node reader G H L0 final rs p"
  shows "lachesis.node reader G H L0 final rs (dropNotFlushed (flush p))"
  using assms follows_flushed(2) [of reader H p] by (simp add: lachesis.node_def electing_def)

lemma set_index_simps [simp]:
  "or_store (set_index p vi) = or_store p" "or_election (set_index p vi) = or_election p"
  "lch_index (or_app (set_index p vi)) = vi" "lch_input (or_app (set_index p vi)) = lch_input (or_app p)"
  "lch_applied (or_app (set_index p vi)) = lch_applied (or_app p)"
  by (simp_all add: set_index_def)

lemma feed_simps [simp]:
  "or_store (feed p e) = or_store p" "or_election (feed p e) = or_election p"
  "lch_index (or_app (feed p e)) = lch_index (or_app p)" "lch_applied (or_app (feed p e)) = lch_applied (or_app p)"
  "lch_input (or_app (feed p e)) = (lch_input (or_app p))(ev_id e \<mapsto> e)"
  by (simp_all add: feed_def)

lemma indexed_Process_ok:
  assumes net: "network reader G" and ok: "node_ok reader G H p" and e: "next_event reader G H e"
    and cap: "below_cap (lch_index (or_app p)) e"
  shows "\<exists>p'. indexed_Process getEpochDB (feed p e) e = ret (None, p') \<and>
    decisions (fst reader) G (lch_applied (or_app p')) \<and>
    (epoch_open reader p' \<longrightarrow> node_ok reader G (add_event H e) p')"
proof -
  let ?H = "add_event H e"
  have valid: "valid_dag reader G" using net by (simp add: network_def)
  have new: "ev_id e \<notin> dom H" and part: "part reader H G" using e by (auto simp: next_event_def)
  have eng: "engine_ok reader (lch_index (or_app p)) H H" using ok by (simp add: node_ok_def)
  obtain final rs where node: "lachesis.node reader G H [] final rs p" "lachesis.knows H final rs"
    using ok by (auto simp: node_ok_def)
  have fol: "lachesis_follows reader H (or_app p) (confirmed_table (or_store p))" using node(1) by (simp add: lachesis.node_def)
  have input: "lch_input (or_app (feed p e)) x = H x" if "x \<in> dom H" for x
    using fol that new by (auto simp: lachesis_follows_def)
  obtain vi where vi: "Engine_Add (lch_input (or_app (feed p e))) (lch_index (or_app (feed p e))) e = Some (Inr vi)"
    "engine_ok reader vi ?H H"
    using Engine_Add_ok [OF eng next_event_addable [OF valid e] _ cap, of "lch_input (or_app (feed p e))"] input by auto
  let ?p = "set_index (feed p e) vi"
  have closed: "confirmed_closed ?H s" if "confirmed_closed H s" for s
    using that new by (auto simp: confirmed_closed_def add_event_def split: if_splits)
  have "lachesis_follows reader ?H (or_app ?p) (confirmed_table (or_store ?p))"
    using fol vi(2) closed add_event_le [OF new] by (auto simp: lachesis_follows_def add_event_def)
  then have "lachesis.indexed reader G H e [] final rs ?p"
    using node by (simp add: lachesis.indexed_def lachesis.node_def electing_def)
  then obtain p1 where p1: "Orderer_Process (indexed_env getEpochDB) ?p e = ret p1" "lachesis.settled reader G ?H [] p1"
    using lachesis.Orderer_Process_ok [OF net e] by blast
  let ?p' = "dropNotFlushed (flush p1)"
  have eq: "indexed_Process getEpochDB (feed p e) e = ret (None, ?p')"
    using vi(1) p1(1) by (simp add: indexed_Process_def)
  from p1(2) consider "lachesis.sealed reader G [] p1" | final' rs' where
    "lachesis.node reader G ?H [] final' rs' p1" "lachesis.knows ?H final' rs'"
    by (auto simp: lachesis.settled_def)
  then have "decisions (fst reader) G (lch_applied (or_app ?p')) \<and> (epoch_open reader ?p' \<longrightarrow> node_ok reader G ?H ?p')"
  proof cases
    case 1
    then have "\<not> epoch_open reader ?p'" by (auto simp: lachesis.sealed_def epoch_open_def)
    then show ?thesis using 1 by (simp add: lachesis.sealed_def)
  next
    case 2
    then have "engine_ok reader (lch_index (or_app ?p')) ?H ?H"
      using follows_flushed(1) [of reader ?H p1] by (simp add: lachesis.node_def)
    then have "node_ok reader G ?H ?p'" using node_flushed [OF 2(1)] 2(2) unfolding node_ok_def by blast
    then show ?thesis using 2(1) by (auto simp: lachesis.node_def)
  qed
  then show ?thesis using eq by blast
qed

section \<open>Start\<close>

lemma NewStore_genesis:
  assumes "NewStore None None n m = Inr s0" and "ApplyGenesis s0 (Some (ep, vals)) = Inr s1"
  shows "store_inv s1" and "st_EpochState s1 = Some \<lparr>es_Epoch = ep, es_Validators = vals\<rparr>"
    and "st_LastDecidedState s1 = Some \<lparr>lds_LastDecidedFrame = 0\<rparr>"
proof -
  obtain c where c: "lru_New n m = Some c" "s0 = \<lparr>st_LastDecidedState = None, st_EpochState = None,
      st_cacheLastDecidedState = None, st_cacheEpochState = None, st_cacheFrameRoots = c, st_epochDB = empty_epoch_db\<rparr>"
    using assms(1) by (auto simp: NewStore_def split: option.splits)
  have s1: "s1 = applyGenesis s0 ep vals" using assms(2) by (simp add: ApplyGenesis_def split: if_splits)
  show "store_inv s1"
    using New_inv [OF c(1)]
    by (simp add: s1 c(2) applyGenesis_def SetLastDecidedState_def SetEpochState_def store_inv_def roots_ok_def
        states_ok_def stored_roots_def empty_epoch_db_def)
  show "st_EpochState s1 = Some \<lparr>es_Epoch = ep, es_Validators = vals\<rparr>"
    "st_LastDecidedState s1 = Some \<lparr>lds_LastDecidedFrame = 0\<rparr>"
    by (simp_all add: s1 applyGenesis_def SetLastDecidedState_def SetEpochState_def FirstFrame_def)
qed

lemma loads_empty:
  assumes "wf_validators (fst reader)" and "getEpochDB (snd reader) = empty_epoch_db"
  shows "lachesis.loads getEpochDB reader Map.empty \<lparr>es_Epoch = snd reader, es_Validators = fst reader\<rparr> p"
  unfolding lachesis.loads_def
proof (intro allI impI)
  let ?es = "\<lparr>es_Epoch = snd reader, es_Validators = fst reader\<rparr>"
  fix s assume s: "store_inv s \<and> st_EpochState s = Some ?es \<and>
    st_epochDB s = env_getEpochDB (indexed_env getEpochDB) (es_Epoch ?es)"
  then have db: "st_epochDB s = empty_epoch_db" using assms(2) by (simp add: indexed_env_def lachesis_env_def)
  obtain x where x: "GetValidators s = Inr (fst reader, s\<lparr>st_cacheEpochState := x\<rparr>)" "x = None \<or> x = Some ?es"
    using GetValidators_ok [of s ?es] s by (auto simp: store_inv_def)
  have load: "env_EpochDBLoaded (indexed_env getEpochDB) (es_Epoch ?es) (p, s) =
      ret (p\<lparr>lch_index := Engine_Reset (fst reader) empty_vec_db\<rparr>, s\<lparr>st_cacheEpochState := x\<rparr>)"
    using x(1) db by (simp add: indexed_env_def indexed_EpochDBLoaded_def empty_epoch_db_def)
  have "lachesis_follows reader Map.empty (p\<lparr>lch_index := Engine_Reset (fst reader) empty_vec_db\<rparr>)
      (confirmed_table (s\<lparr>st_cacheEpochState := x\<rparr>))"
    using engine_ok_reset [OF assms(1)] db
    by (auto simp: lachesis_follows_def confirmed_table_def empty_epoch_db_def confirmed_closed_def confirmed_def
        GetEventConfirmedOn_def)
  moreover have "consensus_kept s (s\<lparr>st_cacheEpochState := x\<rparr>)" using kept_cache(1) [of s ?es x] s x(2) by auto
  ultimately show "\<exists>p' s'. env_EpochDBLoaded (indexed_env getEpochDB) (es_Epoch ?es) (p, s) = ret (p', s') \<and>
      consensus_kept s s' \<and> lachesis_follows reader Map.empty p' (confirmed_table s')"
    using load by blast
qed

lemma indexed_Bootstrap_ok:
  fixes app :: 'c
  assumes net: "network reader G" and new: "NewStore None None n m = Inr s0"
    and gen: "ApplyGenesis s0 (Some (snd reader, fst reader)) = Inr s1" and db: "getEpochDB (snd reader) = empty_epoch_db"
  shows "\<exists>p. indexed_Bootstrap getEpochDB callback (NewOrderer (NewLachesis Map.empty vi app) s1) = ret p \<and>
    node_ok reader G Map.empty p \<and> lch_index (or_app p) = Engine_Reset (fst reader) empty_vec_db"
proof -
  let ?env = "indexed_env getEpochDB :: 'c Lachesis OrdererEnv" and ?p = "NewOrderer (NewLachesis Map.empty vi app) s1"
  let ?es = "\<lparr>es_Epoch = snd reader, es_Validators = fst reader\<rparr>"
  have wf: "wf_validators (fst reader)" using net by (simp add: network_def)
  have part: "part reader Map.empty G" by (simp add: part_def valid_dag_def map_le_def)
  note s1 = NewStore_genesis [OF new gen]
  have "\<exists>p. Orderer_Bootstrap ?env ?p = ret p \<and> lachesis.settled reader G Map.empty [] p \<and>
    (dag_roots Map.empty = {} \<longrightarrow> (\<exists>rs. lachesis.node reader G Map.empty [] 0 rs p \<and> lachesis.knows Map.empty 0 rs) \<and>
      (\<exists>s s'. env_EpochDBLoaded ?env (es_Epoch ?es) (or_app ?p, s) = ret (or_app p, s') \<and> states_ok s \<and>
        st_EpochState s = Some ?es \<and> st_epochDB s = env_getEpochDB ?env (es_Epoch ?es)))"
  proof (rule lachesis.Orderer_Bootstrap_ok [OF net part, where es = ?es and final = 0 and L = "[]"])
    show "ed_Roots (env_getEpochDB ?env (es_Epoch ?es)) = rootRecordKey ` dag_roots Map.empty"
      "finite (ed_Roots (env_getEpochDB ?env (es_Epoch ?es)))"
      using db by (simp_all add: indexed_env_def lachesis_env_def empty_epoch_db_def dag_roots_def)
    show "lachesis.loads getEpochDB reader Map.empty ?es (or_app ?p)" using wf db by (rule loads_empty)
  qed (use s1 in \<open>simp_all add: NewOrderer_def NewLachesis_def decisions_Nil\<close>)
  moreover have "dag_roots Map.empty = {}" by (simp add: dag_roots_def)
  ultimately obtain p rs s s' where p: "Orderer_Bootstrap ?env ?p = ret p" "lachesis.node reader G Map.empty [] 0 rs p"
    "lachesis.knows Map.empty 0 rs" and load: "env_EpochDBLoaded ?env (es_Epoch ?es) (or_app ?p, s) = ret (or_app p, s')"
    "states_ok s" "st_EpochState s = Some ?es" "st_epochDB s = env_getEpochDB ?env (es_Epoch ?es)" by blast
  have "or_app p = (or_app ?p)\<lparr>lch_index := Engine_Reset (fst reader) empty_vec_db\<rparr>"
    using load(1,4) GetValidators_ok [OF load(2,3)] db
    by (auto simp: indexed_env_def lachesis_env_def indexed_EpochDBLoaded_def empty_epoch_db_def)
  then have index: "lch_index (or_app p) = Engine_Reset (fst reader) empty_vec_db" by simp
  let ?q = "p\<lparr>or_app := (or_app p)\<lparr>lch_callback := callback\<rparr>\<rparr>"
  have eq: "indexed_Bootstrap getEpochDB callback ?p = ret ?q"
    using p(1) by (simp add: indexed_Bootstrap_def BootstrapWithOrderer_def)
  have fol: "lachesis_follows reader Map.empty (or_app p) (confirmed_table (or_store p))"
    using p(2) by (simp add: lachesis.node_def)
  then have "engine_ok reader (lch_index (or_app p)) Map.empty Map.empty"
    using map_le_implies_dom_le [of _ Map.empty] by (auto simp: lachesis_follows_def)
  moreover have "lachesis_follows reader Map.empty (or_app ?q) (confirmed_table (or_store p))"
    using fol by (simp add: lachesis_follows_def)
  ultimately have "node_ok reader G Map.empty ?q" using p(2,3) by (auto simp: node_ok_def lachesis.node_def electing_def)
  then show ?thesis using eq index by simp
qed

section \<open>Building events in between\<close>

lemma Engine_Add_flushed:
  assumes "Engine_Add getEvent vi e = Some (Inr vi')"
  shows "vi_validators vi' = vi_validators vi \<and> flushedDb vi' = flushedDb vi"
proof -
  have "vi_validators (InitBranchesInfo vi) = vi_validators vi \<and> flushedDb (InitBranchesInfo vi) = flushedDb vi" by simp
  then show ?thesis
    using assms
    by (auto simp: Engine_Add_def fillEventVectors_def Let_def split: option.splits sum.splits prod.splits)
qed

lemma engine_ok_dropped:
  assumes "engine_ok reader vi H F" and "vi_validators vi' = vi_validators vi" and "flushedDb vi' = flushedDb vi"
  shows "engine_ok reader (Engine_DropNotFlushed vi') F F"
  using assms by (simp add: engine_ok_def Engine_DropNotFlushed_def current_bi_def)

lemma Orderer_Build_reads:
  assumes "ready p es" and "Orderer_Build env p e = ret (e', p')"
  shows "reads p p'" and "\<exists>f. e' = e\<lparr>ev_frame := f\<rparr>"
proof -
  have inv: "store_inv (or_store p)" "st_EpochState (or_store p) = Some es" using assms(1) by (auto simp: ready_def)
  obtain p1 where 1: "read_store GetEpoch p = ret (es_Epoch es, p1)" "reads p p1" using read_Epoch_ok [OF inv] by blast
  note r1 = readsD [OF 1(2)]
  obtain p2 where 2: "read_store GetValidators p1 = ret (es_Validators es, p2)" "reads p1 p2"
    using read_Validators_ok [of p1 es] r1 inv by auto
  have ready: "ready p2 es" by (rule ready_reads [OF ready_reads [OF assms(1) 1(2)] 2(2)])
  from assms(2) 1(1) 2(1) obtain spf f p3 where 3: "calcFrameIdx env p2 e False = ret ((spf, f), p3)"
    "e' = e\<lparr>ev_frame := f\<rparr>" "p' = p3"
    by (auto simp: Orderer_Build_def res_bind_eq_ret split: if_splits)
  obtain spf' where "selfParentFrameOf env p2 e = ret spf'" using 3(1) by (auto simp: calcFrameIdx_def res_bind_eq_ret)
  from calcFrameIdx_ok [OF ready this, of False] have "reads p2 p3" using 3(1) by auto
  then show "reads p p'" using reads_trans 1(2) 2(2) 3(3) by blast
  show "\<exists>f. e' = e\<lparr>ev_frame := f\<rparr>" using 3(2) by blast
qed

end
