(* ===== verification/Consensus_Properties.thy ===== *)
theory Consensus_Properties
  imports Consensus Vec_Index
begin

text \<open>
  The properties of whole nodes, of the orderer, of the confirmation of events and
  of the store, with witnesses on a network of one validator.
\<close>

section \<open>Runs of a node\<close>

inductive node_run ::
  "EpochDBProducer \<Rightarrow> Validators \<times> Epoch \<Rightarrow> dag \<Rightarrow> dag \<Rightarrow> 'c Lachesis Orderer \<Rightarrow> bool"
  for getEpochDB reader G where
  node_boot: "NewStore None None rootsNum rootsFrames = Inr s0 \<Longrightarrow>
    ApplyGenesis s0 (Some (snd reader, fst reader)) = Inr s1 \<Longrightarrow> getEpochDB (snd reader) = empty_epoch_db \<Longrightarrow>
    indexed_Bootstrap getEpochDB callback (NewOrderer (NewLachesis Map.empty vi app) s1) = ret p \<Longrightarrow>
    node_run getEpochDB reader G Map.empty p"
| node_build: "node_run getEpochDB reader G H p \<Longrightarrow> epoch_open reader p \<Longrightarrow>
    indexed_Build getEpochDB p e = ret (e', p') \<Longrightarrow> node_run getEpochDB reader G H p'"
| node_process: "node_run getEpochDB reader G H p \<Longrightarrow> epoch_open reader p \<Longrightarrow> next_event reader G H e \<Longrightarrow>
    below_cap (lch_index (or_app p)) e \<Longrightarrow> indexed_Process getEpochDB (feed p e) e = ret (err, p') \<Longrightarrow>
    node_run getEpochDB reader G (add_event H e) p'"

lemma node_ok_part: "node_ok reader G H p \<Longrightarrow> H \<subseteq>\<^sub>m G \<Longrightarrow> part reader H G"
  by (simp add: part_def node_ok_def engine_ok_def)

lemma node_ok_build:
  assumes net: "network reader G" and part: "H \<subseteq>\<^sub>m G" and ok: "node_ok reader G H p"
    and build: "indexed_Build getEpochDB p e = ret (e', p')"
  shows "node_ok reader G H p' \<and> lch_applied (or_app p') = lch_applied (or_app p)"
proof -
  let ?c = "fst (sample (lch_uniqueDirtyID (or_app p)))"
  let ?e1 = "SetID e (snd (sample (lch_uniqueDirtyID (or_app p))))"
  let ?p1 = "p\<lparr>or_app := (or_app p)\<lparr>lch_uniqueDirtyID := ?c\<rparr>\<rparr>"
  from build obtain vi p2 where vi: "Engine_Add (lch_input (or_app ?p1)) (lch_index (or_app ?p1)) ?e1 = Some (Inr vi)"
    "Orderer_Build (indexed_env getEpochDB) (set_index ?p1 vi) ?e1 = ret (e', p2)" "p' = dropNotFlushed p2"
    by (auto simp: indexed_Build_def Let_def res_bind_eq_ret split: prod.splits option.splits sum.splits)
  obtain final rs where node: "lachesis.node reader G H [] final rs p" "lachesis.knows H final rs"
    and eng: "engine_ok reader (lch_index (or_app p)) H H" using ok by (auto simp: node_ok_def)
  have el: "electing reader G H final rs (set_index ?p1 vi)" using node(1) by (simp add: lachesis.node_def electing_def)
  obtain es where "ready (set_index ?p1 vi) es"
    using lachesis.electing_ready [OF net node_ok_part [OF ok part] el] .
  note reads = Orderer_Build_reads(1) [OF this vi(2)]
  note r = readsD [OF reads]
  have flushed: "engine_ok reader (Engine_DropNotFlushed vi) H H"
    using engine_ok_dropped [OF eng] Engine_Add_flushed [OF vi(1)] by simp
  have p': "or_store p' = or_store p2" "or_election p' = or_election p2" "lch_index (or_app p') = Engine_DropNotFlushed vi"
    "lch_input (or_app p') = lch_input (or_app p)" "lch_applied (or_app p') = lch_applied (or_app p)"
    using r(1) by (simp_all add: vi(3) dropNotFlushed_def set_index_def)
  have "electing reader G H final rs p'" using electing_reads [OF el reads] p'(1,2) by (simp add: electing_def)
  moreover have "confirmed_table (or_store p') = confirmed_table (or_store p)"
    using p'(1) r(7) by (simp add: confirmed_table_def)
  ultimately have "lachesis.node reader G H [] final rs p'"
    using node(1) p'(3-5) flushed by (auto simp: lachesis.node_def lachesis_follows_def)
  then show ?thesis using flushed p'(3,5) node(2) unfolding node_ok_def by auto
qed

lemma node_run_ok:
  assumes "network reader G" and "node_run getEpochDB reader G H p"
  shows "H \<subseteq>\<^sub>m G \<and> decisions (fst reader) G (lch_applied (or_app p)) \<and> (epoch_open reader p \<longrightarrow> node_ok reader G H p)"
  using assms(2)
proof (induction rule: node_run.induct)
  case (node_boot rootsNum rootsFrames s0 s1 callback vi app p)
  then have "node_ok reader G Map.empty p"
    using indexed_Bootstrap_ok [OF assms(1) node_boot.hyps(1,2), of getEpochDB callback vi app] by auto
  then show ?case by (auto simp: node_ok_def lachesis.node_def)
next
  case (node_build H p e e' p')
  then show ?case using node_ok_build [OF assms(1), of H p getEpochDB e e' p'] by auto
next
  case (node_process H p e err p')
  then obtain q where q: "indexed_Process getEpochDB (feed p e) e = ret (None, q)"
    "decisions (fst reader) G (lch_applied (or_app q))" "epoch_open reader q \<longrightarrow> node_ok reader G (add_event H e) q"
    using indexed_Process_ok [OF assms(1), of H p e getEpochDB] by auto
  have "part reader (add_event H e) G"
    using assms(1) node_process.hyps(3) by (intro next_event_part) (auto simp: network_def)
  then show ?case using q node_process.hyps(5) by (auto simp: part_def)
qed

section \<open>A network of one validator\<close>

lemma distinct_singleton:
  assumes "distinct L" and "set L = {x}"
  shows "L = [x]"
proof (cases L)
  case (Cons y ys)
  then have "y = x" "set ys \<subseteq> {x}" "x \<notin> set ys" using assms by auto
  then have "set ys = {}" using subset_singletonD [of "set ys" x] by blast
  then show ?thesis using Cons \<open>y = x\<close> by simp
qed (use assms in simp)

abbreviation sample_reader :: "Validators \<times> Epoch" where
  "sample_reader \<equiv> (sample_validators, 1)"

abbreviation sample_dbs :: EpochDBProducer where
  "sample_dbs \<equiv> \<lambda>_. empty_epoch_db"

definition sample_callbacks :: "hash_event list ConsensusCallbacks" where
  "sample_callbacks = \<lparr>cb_BeginBlock = Some (\<lambda>c block. (c,
    \<lparr>cb_ApplyEvent = Some (\<lambda>c e. c @ [ev_id e]), cb_EndBlock = Some (\<lambda>c. (c, None))\<rparr>))\<rparr>"

lemma sample_valid: "valid_dag sample_reader sample_graph"
  using valid_dag_add_event [OF _ sample_addable] by (simp add: sample_graph_def valid_dag_def)

lemma sample_network: "network sample_reader sample_graph"
proof -
  have "\<not> has_fork sample_graph v" for v by (auto simp: has_fork_def sample_graph_def add_event_def)
  then have "forking sample_validators sample_graph = {}" by (simp add: forking_def)
  moreover have "frames_ok sample_validators sample_graph"
    by (auto simp: frames_ok_def sample_graph_def add_event_def sample_event_def self_frame_def SelfParent_def
        frame_allowed_def split: if_splits)
  ultimately show ?thesis using sample_valid wf_sample_validators by (simp add: network_def)
qed

lemma sample_next: "next_event sample_reader sample_graph Map.empty (sample_event 1 1)"
  by (simp add: next_event_def part_def valid_dag_def map_le_def sample_graph_def add_event_def sample_event_def)

definition sample_store :: abft_store where
  "sample_store = \<lparr>st_LastDecidedState = Some \<lparr>lds_LastDecidedFrame = 0\<rparr>,
    st_EpochState = Some \<lparr>es_Epoch = 1, es_Validators = sample_validators\<rparr>,
    st_cacheLastDecidedState = Some \<lparr>lds_LastDecidedFrame = 0\<rparr>,
    st_cacheEpochState = Some \<lparr>es_Epoch = 1, es_Validators = sample_validators\<rparr>,
    st_cacheFrameRoots = empty_cache 10 10, st_epochDB = empty_epoch_db\<rparr>"

lemma sample_genesis:
  "\<exists>s0. NewStore None None 10 10 = Inr s0 \<and> ApplyGenesis s0 (Some (1, sample_validators)) = Inr sample_store"
  by (simp add: NewStore_def lru_New_def lru_NewWithEvict_def ApplyGenesis_def applyGenesis_def SetLastDecidedState_def
      SetEpochState_def FirstFrame_def sample_store_def empty_cache_def sample_validators_simps)

definition sample_start :: "hash_event list Lachesis Orderer" where
  "sample_start = NewOrderer (NewLachesis Map.empty (Engine_Reset sample_validators empty_vec_db) []) sample_store"

lemma sample_boot:
  obtains p where "indexed_Bootstrap sample_dbs sample_callbacks sample_start = ret p"
    and "node_run sample_dbs sample_reader sample_graph Map.empty p" and "epoch_open sample_reader p"
    and "below_cap (lch_index (or_app p)) (sample_event 1 1)"
proof -
  obtain s0 where s0: "NewStore None None 10 10 = Inr s0" "ApplyGenesis s0 (Some (1, sample_validators)) = Inr sample_store"
    using sample_genesis by blast
  obtain p where p: "indexed_Bootstrap sample_dbs sample_callbacks sample_start = ret p" "node_ok sample_reader sample_graph Map.empty p"
    "lch_index (or_app p) = Engine_Reset sample_validators empty_vec_db"
    using indexed_Bootstrap_ok [OF sample_network s0(1), of sample_store sample_dbs sample_callbacks
        "Engine_Reset sample_validators empty_vec_db" "[]"] s0(2) unfolding sample_start_def by auto
  have "below_cap (lch_index (or_app p)) (sample_event 1 1)" using p(3) sample_cap by simp
  moreover have "node_run sample_dbs sample_reader sample_graph Map.empty p"
    by (rule node_boot [OF s0(1)]) (use s0(2) p(1) in \<open>simp_all add: sample_start_def\<close>)
  ultimately show ?thesis using that p(1) node_ok_open [OF p(2)] by simp
qed

section \<open>Properties of nodes\<close>

text \<open>
  C1: agreement of nodes. Two nodes that start from the genesis and process events
  of one graph, each its own part in its own order, with events built in between,
  apply the same Atropoi: the sequence of one is a prefix of the sequence of the
  other, as long as validators with forks hold at most a third of the weight and
  all events have frames that the rule of frames allows.
\<close>

theorem nodes_agree:
  assumes "network reader G" and "node_run getEpochDB1 reader G H1 p1" and "node_run getEpochDB2 reader G H2 p2"
  shows "prefix (lch_applied (or_app p1)) (lch_applied (or_app p2)) \<or>
    prefix (lch_applied (or_app p2)) (lch_applied (or_app p1))"
proof -
  have "decisions (fst reader) G (lch_applied (or_app p1))" "decisions (fst reader) G (lch_applied (or_app p2))"
    using node_run_ok [OF assms(1,2)] node_run_ok [OF assms(1,3)] by auto
  then show ?thesis
    using decisions_prefix [OF assms(1)] take_is_prefix by (metis nat_le_linear)
qed

theorem nodes_agree_witness:
  "\<exists>p q. indexed_Bootstrap sample_dbs sample_callbacks sample_start = ret p \<and>
    indexed_Process sample_dbs (feed p (sample_event 1 1)) (sample_event 1 1) = ret (None, q) \<and>
    (prefix (lch_applied (or_app p)) (lch_applied (or_app q)) \<or> prefix (lch_applied (or_app q)) (lch_applied (or_app p)))"
proof -
  obtain p where p: "indexed_Bootstrap sample_dbs sample_callbacks sample_start = ret p"
    "node_run sample_dbs sample_reader sample_graph Map.empty p" "epoch_open sample_reader p"
    "below_cap (lch_index (or_app p)) (sample_event 1 1)" by (rule sample_boot)
  have "node_ok sample_reader sample_graph Map.empty p" using node_run_ok [OF sample_network p(2)] p(3) by simp
  from indexed_Process_ok [OF sample_network this sample_next p(4), of sample_dbs]
  obtain q where q: "indexed_Process sample_dbs (feed p (sample_event 1 1)) (sample_event 1 1) = ret (None, q)" by blast
  from nodes_agree [OF sample_network p(2) node_process [OF p(2,3) sample_next p(4) q]] p(1) q
  show ?thesis by blast
qed



text \<open>
  C3: frames are decided in order. The Atropoi that a node has applied belong to the
  frames 1, 2, 3 and so on without a gap, and each is the one that the election
  over the whole graph elects for its frame.
\<close>

theorem frames_decided_in_order:
  assumes "network reader G" and "node_run getEpochDB reader G H p"
  shows "map fst (lch_applied (or_app p)) = map of_nat [1..<Suc (length (lch_applied (or_app p)))] \<and>
    list_all (\<lambda>(f, a). elected (fst reader) G f a) (lch_applied (or_app p))"
proof -
  let ?L = "lch_applied (or_app p)"
  have dec: "decisions (fst reader) G ?L" using node_run_ok [OF assms] by simp
  have "map fst ?L = map of_nat [1..<Suc (length ?L)]"
    using decisions_nth(1) [OF dec] by (intro nth_equalityI) (simp_all del: upt_Suc)
  moreover have "elected (fst reader) G (fst x) (snd x)" if "x \<in> set ?L" for x
    using that dec by (auto simp: in_set_conv_nth decisions_def)
  ultimately show ?thesis by (auto simp: list_all_iff)
qed

theorem frames_decided_in_order_witness:
  "\<exists>p. indexed_Bootstrap sample_dbs sample_callbacks sample_start = ret p \<and>
    map fst (lch_applied (or_app p)) = map of_nat [1..<Suc (length (lch_applied (or_app p)))]"
proof -
  obtain p where p: "indexed_Bootstrap sample_dbs sample_callbacks sample_start = ret p"
    "node_run sample_dbs sample_reader sample_graph Map.empty p" by (rule sample_boot)
  then show ?thesis using frames_decided_in_order [OF sample_network p(2)] by blast
qed

section \<open>Properties of the orderer\<close>

text \<open>
  C15: the check of frames is exact. In a coherent store, \<^verbatim>\<open>checkAndSaveEvent\<close>
  accepts a new event if and only if its frame is allowed: 1 without a self-parent
  frame, else any frame from that of the self-parent up such that the event is
  forkless-caused by a quorum of roots on every frame in between. Acceptance adds
  exactly the roots of the frames above that of the self-parent; otherwise the
  result is \<^verbatim>\<open>ErrWrongFrame\<close>.
\<close>

theorem checkAndSaveEvent_exact:
  assumes "ready p es" and "selfParentFrameOf env p e = ret spf" and "ev_frame e \<noteq> - 1"
    and "\<forall>f. root_at e f \<notin> stored_roots (or_store p)"
  shows "if frame_allowed (quorum_of env p es e) spf (ev_frame e)
    then \<exists>p'. checkAndSaveEvent env p e = ret (spf, p') \<and>
      stored_roots (or_store p') = stored_roots (or_store p) \<union> root_at e ` {f. spf < f \<and> f \<le> ev_frame e}
    else checkAndSaveEvent env p e = fail ErrWrongFrame"
  using checkAndSaveEvent_ok [OF assms] by auto

lemma sample_store_inv: "store_inv sample_store" "stored_roots sample_store = {}"
  "st_EpochState sample_store = Some \<lparr>es_Epoch = 1, es_Validators = sample_validators\<rparr>"
  using sample_genesis NewStore_genesis(1) by (auto simp: sample_store_def stored_roots_def empty_epoch_db_def)

lemma sample_ready: "ready sample_start \<lparr>es_Epoch = 1, es_Validators = sample_validators\<rparr>"
  using sample_store_inv wf_sample_validators by (simp add: ready_def sample_start_def NewOrderer_def)

lemma sample_self_frame: "selfParentFrameOf env p (sample_event 1 1) = ret 0"
  by (simp add: selfParentFrameOf_def SelfParent_def sample_event_def)

theorem checkAndSaveEvent_exact_witness:
  "\<exists>p'. checkAndSaveEvent (indexed_env sample_dbs) sample_start (sample_event 1 1) = ret (0, p') \<and>
    stored_roots (or_store p') = {root_at (sample_event 1 1) 1}"
proof -
  have one: "{f :: Frame. 0 < f \<and> f \<le> 1} = {1}" by (auto simp: word_le_nat_alt word_less_nat_alt word_unat_eq_iff)
  have "frame_allowed (quorum_of (indexed_env sample_dbs) sample_start \<lparr>es_Epoch = 1, es_Validators = sample_validators\<rparr>
      (sample_event 1 1)) 0 (ev_frame (sample_event 1 1))" by (simp add: frame_allowed_def sample_event_def)
  then show ?thesis
    using checkAndSaveEvent_exact [OF sample_ready sample_self_frame, of "indexed_env sample_dbs"]
      sample_store_inv(2) one by (auto simp: sample_event_def sample_start_def NewOrderer_def)
qed

lemma Orderer_Build_frame:
  assumes ready: "ready p es" and build: "Orderer_Build env p e = ret (e', p')"
  obtains spf where "selfParentFrameOf env p' e' = ret spf" and "ready p' es"
    and "frame_allowed (quorum_of env p' es e') spf (ev_frame e')"
proof -
  have inv: "store_inv (or_store p)" "st_EpochState (or_store p) = Some es" using ready by (auto simp: ready_def)
  obtain p1 where 1: "read_store GetEpoch p = ret (es_Epoch es, p1)" "reads p p1" using read_Epoch_ok [OF inv] by blast
  obtain p2 where 2: "read_store GetValidators p1 = ret (es_Validators es, p2)" "reads p1 p2"
    using read_Validators_ok [of p1 es] readsD [OF 1(2)] inv by auto
  have r2: "ready p2 es" by (rule ready_reads [OF ready_reads [OF ready 1(2)] 2(2)])
  from build 1(1) 2(1) obtain spf F where 3: "calcFrameIdx env p2 e False = ret ((spf, F), p')" "e' = e\<lparr>ev_frame := F\<rparr>"
    by (auto simp: Orderer_Build_def res_bind_eq_ret split: if_splits)
  have spf: "selfParentFrameOf env p2 e = ret spf" using 3(1) by (auto simp: calcFrameIdx_def res_bind_eq_ret)
  obtain f where f: "F = (if f = 0 then 1 else f)" "reads p2 p'" "first_without (quorum_of env p2 es e) spf (spf + 100) f"
    using calcFrameIdx_ok [OF r2 spf, of False] 3(1) by auto
  have allowed: "frame_allowed (quorum_of env p2 es e) spf F"
  proof (cases "spf = 0")
    case True
    then have "f = 0" using f(3) no_quorum_on_0 [OF r2] unfolding first_without_def
      by (metis (no_types) add_0 word_gt_0 zero_neq_numeral word_zero_le)
    then show ?thesis using True f(1) by (simp add: frame_allowed_def)
  next
    case False
    then show ?thesis using f by (auto simp: frame_allowed_def first_without_def)
  qed
  have "quorum_of env p' es e' = quorum_of env p2 es e" using quorum_of_reads [OF f(2)] 3(2) by (simp add: quorum_of_def)
  moreover have "SelfParent e' = SelfParent e" using 3(2) by (simp add: SelfParent_def)
  then have "selfParentFrameOf env p' e' = ret spf" using spf readsD(1) [OF f(2)]
    by (auto simp: selfParentFrameOf_def split: option.splits)
  ultimately show thesis using that ready_reads [OF r2 f(2)] allowed 3(2) by simp
qed

text \<open>
  C16: what \<^verbatim>\<open>Build\<close> fills in is accepted. The frame that \<^verbatim>\<open>Build\<close> computes for an
  event passes the check of the frame in the state after it, so a validator never
  creates an event that the others reject for its frame.
\<close>

theorem Build_frame_accepted:
  assumes "ready p es" and "Orderer_Build env p e = ret (e', p')" and "ev_frame e' \<noteq> - 1"
    and "\<forall>f. root_at e' f \<notin> stored_roots (or_store p')"
  shows "\<exists>spf p''. checkAndSaveEvent env p' e' = ret (spf, p'')"
proof -
  obtain spf where b: "selfParentFrameOf env p' e' = ret spf" "ready p' es"
    "frame_allowed (quorum_of env p' es e') spf (ev_frame e')"
    using Orderer_Build_frame [OF assms(1,2)] .
  show ?thesis using checkAndSaveEvent_ok(2) [OF b(2,1) assms(3,4) b(3)] by blast
qed

lemma sample_Build:
  "\<exists>p'. Orderer_Build (indexed_env sample_dbs) sample_start (sample_event 1 1) = ret (sample_event 1 1, p') \<and>
    stored_roots (or_store p') = {}"
proof -
  let ?env = "indexed_env sample_dbs" and ?p = sample_start and ?e = "sample_event 1 1"
  let ?es = "\<lparr>es_Epoch = 1, es_Validators = sample_validators\<rparr>"
  have inv: "store_inv (or_store ?p)" "st_EpochState (or_store ?p) = Some ?es"
    using sample_store_inv by (simp_all add: sample_start_def NewOrderer_def)
  obtain p1 where 1: "read_store GetEpoch ?p = ret (1, p1)" "reads ?p p1" using read_Epoch_ok [OF inv] by auto
  obtain p2 where 2: "read_store GetValidators p1 = ret (sample_validators, p2)" "reads p1 p2"
    using read_Validators_ok [of p1 ?es] readsD [OF 1(2)] inv by auto
  have r2: "ready p2 ?es" by (rule ready_reads [OF ready_reads [OF sample_ready 1(2)] 2(2)])
  obtain f p3 where 3: "calcFrameIdx ?env p2 ?e False = ret ((0, if f = 0 then 1 else f), p3)" "reads p2 p3"
    "first_without (quorum_of ?env p2 ?es ?e) 0 (0 + 100) f"
    using calcFrameIdx_ok [OF r2 sample_self_frame, of ?env False] by auto
  have "f = 0" using 3(3) no_quorum_on_0 [OF r2] unfolding first_without_def
    by (metis (no_types) add_0 word_gt_0 zero_neq_numeral word_zero_le)
  then have "Orderer_Build ?env ?p ?e = ret (?e, p3)"
    using 1(1) 2(1) 3(1) by (simp add: Orderer_Build_def sample_event_def sample_validators_simps)
  moreover have "stored_roots (or_store p3) = {}"
    using readsD(4) [OF 3(2)] readsD(4) [OF 2(2)] readsD(4) [OF 1(2)] sample_store_inv(2)
    by (simp add: sample_start_def NewOrderer_def)
  ultimately show ?thesis by blast
qed

theorem Build_frame_accepted_witness:
  "\<exists>p' spf p''. Orderer_Build (indexed_env sample_dbs) sample_start (sample_event 1 1) = ret (sample_event 1 1, p') \<and>
    checkAndSaveEvent (indexed_env sample_dbs) p' (sample_event 1 1) = ret (spf, p'')"
proof -
  obtain p' where p': "Orderer_Build (indexed_env sample_dbs) sample_start (sample_event 1 1) = ret (sample_event 1 1, p')"
    "stored_roots (or_store p') = {}" using sample_Build by blast
  then show ?thesis using Build_frame_accepted [OF sample_ready p'(1)] by (auto simp: sample_event_def)
qed

section \<open>Properties of blocks\<close>

text \<open>
  C13: events are confirmed exactly once. Confirming an Atropos ends, marks exactly
  the events that it observes and that no earlier Atropos confirmed, calls the
  application once for each of them, and leaves all events that it observes
  confirmed.
\<close>

theorem confirmEvents_once:
  assumes "valid_dag reader H" and "\<forall>x e. H x = Some e \<longrightarrow> input x = Some e" and "frame \<noteq> 0"
    and "a \<in> dom H" and "confirmed_closed H s"
  shows "\<exists>L. confirmEvents input frame a (Some f) (s, c) = ret (confirm_all frame L s, fold (\<lambda>x c. f c (the (H x))) L c) \<and>
    distinct L \<and> set L = {x. observes H a x} - confirmed s \<and>
    confirmed (confirm_all frame L s) = confirmed s \<union> {x. observes H a x}"
  by (rule confirmEvents_ok [OF assms, of "Some f" c]) (auto simp: apply_all_def)

theorem confirmEvents_once_witness:
  "\<exists>s'. confirmEvents sample_graph 1 0 (Some (\<lambda>c e. c @ [ev_id e])) (sample_store, []) = ret (s', [0]) \<and> confirmed s' = {0}"
proof -
  have none: "confirmed sample_store = {}"
    by (simp add: confirmed_def GetEventConfirmedOn_def sample_store_def empty_epoch_db_def)
  have "observes sample_graph 0 0" by (rule observes_refl) (simp add: sample_graph_dom)
  then have obs: "{x. observes sample_graph 0 x} = {0}" using observes_dom [of sample_graph 0] by (auto simp: sample_graph_dom(1))
  have "confirmed_closed sample_graph sample_store" using none by (simp add: confirmed_closed_def)
  from confirmEvents_once [OF sample_valid _ _ _ this, of sample_graph 1 0 "\<lambda>c e. c @ [ev_id e]" "[]"]
  obtain L where L: "confirmEvents sample_graph 1 0 (Some (\<lambda>c e. c @ [ev_id e])) (sample_store, []) =
      ret (confirm_all 1 L sample_store, fold (\<lambda>x c. c @ [ev_id (the (sample_graph x))]) L [])"
    "distinct L" "set L = {0}" "confirmed (confirm_all 1 L sample_store) = {0}"
    using obs none by (auto simp: sample_graph_dom)
  have "L = [0]" by (rule distinct_singleton [OF L(2,3)])
  then show ?thesis using L(1,4) by (simp add: sample_graph_dom(2) sample_event_def)
qed

text \<open>
  C14: blocks. An Atropos of a decided frame becomes a block whose cheaters are, in
  the order of validators, exactly those whose forks the Atropos observes; the
  events it newly confirms are given to the application once each, then the end
  of the block decides on new validators.
\<close>

theorem block_of_Atropos:
  assumes "lachesis_follows reader H p (confirmed_table s)" and "valid_dag reader H" and "a \<in> dom H" and "0 < f"
    and "store_inv s" and "st_EpochState s = Some es" and "es_Validators es = fst reader"
    and "cb_BeginBlock (lch_callback p) = Some beginBlock"
    and "beginBlock (lch_app p) \<lparr>bl_Atropos = a, bl_Cheaters = filter (fork_seen H a) (ids (vv_cache (fst reader)))\<rparr> =
      (c1, \<lparr>cb_ApplyEvent = Some applyEvent, cb_EndBlock = Some endBlock\<rparr>)"
  shows "\<exists>p' s' L. applyAtropos f a (p, s) =
      ret ((p'\<lparr>lch_app := fst (endBlock (fold (\<lambda>x c. applyEvent c (the (H x))) L c1))\<rparr>, s'),
        snd (endBlock (fold (\<lambda>x c. applyEvent c (the (H x))) L c1))) \<and>
    distinct L \<and> set L = {x. observes H a x} - confirmed s"
proof -
  obtain x m where m: "GetMergedHighestBefore (lch_index p) a = (InitBranchesInfo (lch_index p), Some m)"
    "cheaters_of (fst reader) (Some m) = Some (cheaters_at (fst reader) H a)"
    and s: "GetValidators s = Inr (fst reader, s\<lparr>st_cacheEpochState := x\<rparr>)"
    "confirmed_table (s\<lparr>st_cacheEpochState := x\<rparr>) = confirmed_table s" "confirmed_closed H (s\<lparr>st_cacheEpochState := x\<rparr>)"
    by (rule applyAtropos_ok [OF assms(1-7)])
  have input: "\<forall>x e. H x = Some e \<longrightarrow> lch_input p x = Some e" using assms(1) by (simp add: lachesis_follows_def)
  obtain L where L: "confirmEvents (lch_input p) f a (Some applyEvent) (s\<lparr>st_cacheEpochState := x\<rparr>, c1) =
      ret (confirm_all f L (s\<lparr>st_cacheEpochState := x\<rparr>), apply_all (Some applyEvent) H L c1)"
    "distinct L" "set L = {x. observes H a x} - confirmed (s\<lparr>st_cacheEpochState := x\<rparr>)"
    using confirmEvents_ok [OF assms(2) input _ assms(3) s(3), of f] assms(4) by (metis word_gt_0)
  have "set L = {x. observes H a x} - confirmed s" using L(3) confirmed_table_cong [OF s(2)] by simp
  moreover obtain c3 nv where "endBlock (apply_all (Some applyEvent) H L c1) = (c3, nv)" by fastforce
  ultimately show ?thesis
    using m s(1) L(1,2) assms(8,9)
    by (intro exI [of _ "p\<lparr>lch_index := InitBranchesInfo (lch_index p), lch_applied := lch_applied p @ [(f, a)]\<rparr>"]
        exI [of _ "confirm_all f L (s\<lparr>st_cacheEpochState := x\<rparr>)"] exI [of _ L])
      (simp add: applyAtropos_def Let_def cheaters_at_def apply_all_def)
qed

lemma sample_indexed:
  obtains p where "lachesis_follows sample_reader sample_graph p (confirmed_table sample_store)"
    and "lch_callback p = sample_callbacks" and "lch_app p = []"
proof -
  obtain vi where vi: "engine_run sample_reader vi sample_graph Map.empty" by (rule sample_run)
  let ?p = "\<lparr>lch_input = sample_graph, lch_index = vi, lch_callback = sample_callbacks, lch_app = [],
    lch_uniqueDirtyID = 0, lch_applied = []\<rparr>"
  have "lachesis_follows sample_reader sample_graph ?p (confirmed_table sample_store)"
    using engine_run_ok [OF vi]
    by (auto simp: lachesis_follows_def confirmed_closed_def confirmed_def GetEventConfirmedOn_def confirmed_table_def
        sample_store_def empty_epoch_db_def)
  then show ?thesis using that by simp
qed

theorem block_of_Atropos_witness:
  "\<exists>p p' s'. lch_app p = [] \<and> applyAtropos 1 0 (p, sample_store) = ret ((p', s'), None) \<and> lch_app p' = [0 :: hash_event]"
proof -
  obtain p where p: "lachesis_follows sample_reader sample_graph p (confirmed_table sample_store)"
    "lch_callback p = sample_callbacks" "lch_app p = []" by (rule sample_indexed)
  have "\<exists>p' s' L. applyAtropos 1 0 (p, sample_store) =
      ret ((p'\<lparr>lch_app := fold (\<lambda>x c. c @ [ev_id (the (sample_graph x))]) L []\<rparr>, s'), None) \<and>
      distinct L \<and> set L = {x. observes sample_graph 0 x} - confirmed sample_store"
    using block_of_Atropos [OF p(1) sample_valid, of 0 1 "\<lparr>es_Epoch = 1, es_Validators = sample_validators\<rparr>"
        "\<lambda>c block. (c, \<lparr>cb_ApplyEvent = Some (\<lambda>c e. c @ [ev_id e]), cb_EndBlock = Some (\<lambda>c. (c, None))\<rparr>)" "[]"
        "\<lambda>c e. c @ [ev_id e]" "\<lambda>c. (c, None)"]
      p(2,3) sample_store_inv by (simp add: sample_graph_dom sample_callbacks_def)
  then obtain p' s' L where a: "applyAtropos 1 0 (p, sample_store) =
      ret ((p'\<lparr>lch_app := fold (\<lambda>x c. c @ [ev_id (the (sample_graph x))]) L []\<rparr>, s'), None)"
    "distinct L" "set L = {x. observes sample_graph 0 x} - confirmed sample_store" by blast
  have "confirmed sample_store = {}"
    by (simp add: confirmed_def GetEventConfirmedOn_def sample_store_def empty_epoch_db_def)
  moreover have "observes sample_graph 0 0" by (rule observes_refl) (simp add: sample_graph_dom)
  ultimately have "set L = {0}" using a(3) observes_dom [of sample_graph 0] by (auto simp: sample_graph_dom(1))
  then have "L = [0]" by (rule distinct_singleton [OF a(2)])
  then have "fold (\<lambda>x c. c @ [ev_id (the (sample_graph x))]) L [] = [0]" by (simp add: sample_graph_dom(2) sample_event_def)
  then show ?thesis using a(1) p(3) by (intro exI [of _ p] exI [of _ "p'\<lparr>lch_app := [0]\<rparr>"] exI [of _ s']) simp
qed

section \<open>Properties of the store and of temporary identifiers\<close>

text \<open>
  The table of roots, read through its cache, is exact. After \<^verbatim>\<open>AddRoot\<close> of a
  new root, \<^verbatim>\<open>GetFrameRoots\<close> of any frame returns, without repetition, the roots
  stored before for that frame, and the new root for every frame above that of
  its self-parent up to its own; keys are encoded to bytes, iterated by prefix and
  decoded on the way.
\<close>

theorem AddRoot_GetFrameRoots:
  assumes "roots_ok s" and "ev_frame root \<noteq> - 1"
    and "\<forall>f. spf + 1 \<le> f \<and> f \<le> ev_frame root \<longrightarrow> root_at root f \<notin> stored_roots s"
  shows "\<exists>s' rr s''. AddRoot s spf root = Some s' \<and> GetFrameRoots s' f = Some (Inr (rr, s'')) \<and> distinct rr \<and>
    set rr = {r \<in> stored_roots s. rs_Frame r = f} \<union> (if spf + 1 \<le> f \<and> f \<le> ev_frame root then {root_at root f} else {})"
proof -
  obtain R c where R: "AddRoot s spf root = Some (with_roots s R c)" "roots_ok (with_roots s R c)"
    "stored_roots (with_roots s R c) = stored_roots s \<union> root_at root ` {f. spf + 1 \<le> f \<and> f \<le> ev_frame root}"
    using AddRoot_ok [OF assms] by blast
  obtain rr d where rr: "GetFrameRoots (with_roots s R c) f = Some (Inr (rr, (with_roots s R c)\<lparr>st_cacheFrameRoots := d\<rparr>))"
    "distinct rr" "set rr = {r \<in> stored_roots (with_roots s R c). rs_Frame r = f}"
    using GetFrameRoots_ok [OF R(2), of f] by blast
  have "set rr = {r \<in> stored_roots s. rs_Frame r = f} \<union>
      (if spf + 1 \<le> f \<and> f \<le> ev_frame root then {root_at root f} else {})"
    unfolding rr(3) R(3) by auto
  then show ?thesis using R(1) rr(1,2) by blast
qed

theorem AddRoot_GetFrameRoots_witness:
  "\<exists>s' s''. AddRoot sample_store 0 (sample_event 1 1) = Some s' \<and>
    GetFrameRoots s' 1 = Some (Inr ([root_at (sample_event 1 1) 1], s''))"
proof -
  have "roots_ok sample_store" using sample_store_inv(1) by (simp add: store_inv_def)
  from AddRoot_GetFrameRoots [OF this, of "sample_event 1 1" 0 1] sample_store_inv(2)
  obtain s' rr s'' where r: "AddRoot sample_store 0 (sample_event 1 1) = Some s'" "GetFrameRoots s' 1 = Some (Inr (rr, s''))"
    "distinct rr" "set rr = {root_at (sample_event 1 1) 1}" by (auto simp: sample_event_def)
  then show ?thesis using distinct_singleton [OF r(3,4)] by blast
qed

lemma big_Bytes_256: "0 < n \<Longrightarrow> big_Bytes (256 * n) = big_Bytes n @ [0]"
  by (subst big_Bytes.simps) simp

text \<open>
  C17: temporary identifiers are not unique. \<^verbatim>\<open>sample\<close> copies the bytes of its counter
  to the front of the identifier, so a counter and its 256-fold give one
  identifier, as long as the counter has at most 23 bytes.
\<close>

theorem sample_collides:
  assumes "0 < n" and "n < 256 ^ 23"
  shows "snd (sample (n - 1)) = snd (sample (256 * n - 1))"
proof -
  have len: "length (big_Bytes n) \<le> 23" using assms(2) by (simp add: length_big_Bytes)
  have "snd (sample (256 * n - 1)) = copy_24 (big_Bytes n @ [0])"
    using assms(1) big_Bytes_256 [OF assms(1)] by (simp add: sample_def)
  also have "\<dots> = copy_24 (big_Bytes n)"
    using len by (simp add: copy_24_def Suc_diff_le flip: replicate_Suc)
  finally show ?thesis using assms(1) by (simp add: sample_def)
qed

theorem sample_collides_witness:
  "snd (sample 0) = snd (sample 255)"
  using sample_collides [of 1] by simp

lemma Cheaters_Validate_loop_iff:
  "Cheaters_Validate_loop m seen s = None \<longleftrightarrow>
    0 \<notin> set s \<and> (m > 0 \<longrightarrow> (\<forall>i \<in> set s. i \<le> m)) \<and> distinct s \<and> set s \<inter> seen = {}"
proof (induction s arbitrary: seen)
  case (Cons i s)
  have "m > 0 \<and> i > m \<longleftrightarrow> \<not> (m > 0 \<longrightarrow> i \<le> m)" by (simp add: not_le)
  then show ?case using Cons.IH [of "insert i seen"] by simp blast
qed simp

text \<open>
  The list of cheaters of a block is validated exactly: it is accepted if and
  only if it holds no zero, no identifier above a given maximum, and no duplicate.
\<close>

theorem Cheaters_Validate_exact:
  "Cheaters_Validate s maxValidatorID = None \<longleftrightarrow>
    0 \<notin> set s \<and> (maxValidatorID = 0 \<or> (set s \<subseteq> {i. i \<le> maxValidatorID})) \<and> distinct s"
  by (auto simp: Cheaters_Validate_def Cheaters_Validate_loop_iff word_gt_0)

end
