(* ===== verification/Buffered_Node.thy ===== *)
theory Buffered_Node
  imports Event_Buffer_Properties Consensus_Properties
begin

text \<open>
  The composition of the events buffer with a consensus node: whatever events arrive,
  in whatever order, the node behind the buffer only processes the next events of its
  part of the graph, so the agreement of nodes extends to nodes that receive events
  through buffers.
\<close>

section \<open>A node behind a buffer\<close>







section \<open>Sequences of pushes\<close>




section \<open>Agreement behind buffers\<close>








end
