(* ===== verification/Kvdb.thy ===== *)
theory Kvdb
  imports Prelude "HOL-Library.List_Lexorder" "HOL-Library.Sublist"
begin

text \<open>
  The interface of key-value stores (\<^verbatim>\<open>kvdb/interface.go\<close>): readers, iterators, batches and stores as
  records of operations over the state of an implementation, so that a wrapper is a function
  from the record of the wrapped store to a record of its own. A byte slice is an
  optional byte list, \<^const>\<open>None\<close> being \<^verbatim>\<open>nil\<close>, and byte strings are ordered
  lexicographically as by \<^verbatim>\<open>bytes.Compare\<close>. The contract of a reader is a locale: it answers
  like a finite map, and its iterators list a range of that map in order.
\<close>

section \<open>Slices\<close>

type_synonym slice = "bytes option"

definition bytes_of :: "slice \<Rightarrow> bytes" where
  "bytes_of s = (case s of None \<Rightarrow> [] | Some b \<Rightarrow> b)"

lemma bytes_of_simps [simp]: "bytes_of None = []" "bytes_of (Some b) = b"
  by (simp_all add: bytes_of_def)

section \<open>Operations\<close>

text \<open>
  \<^verbatim>\<open>Panic\<close> stands for a run-time panic; the other errors are returned values. Creating and moving
  an iterator may take a loop of a wrapper that does not end; the result is then \<^const>\<open>None\<close>.
\<close>

datatype kv_error = errClosed | errNilKeyOrValue | ErrUnsupportedOp | errNotFound | errWriteLimit | errNotSynced
  | Panic string | OtherError string

datatype write_op = PutOp slice slice | DeleteOp slice

record ('r, 'i) IteratedReader =
  rd_Has :: "'r \<Rightarrow> slice \<Rightarrow> kv_error + bool"
  rd_Get :: "'r \<Rightarrow> slice \<Rightarrow> kv_error + slice"
  rd_NewIterator :: "'r \<Rightarrow> slice \<Rightarrow> slice \<Rightarrow> 'i option"
  it_Next :: "'i \<Rightarrow> (bool \<times> 'i) option"
  it_Error :: "'i \<Rightarrow> kv_error option"
  it_Key :: "'i \<Rightarrow> slice"
  it_Value :: "'i \<Rightarrow> slice"

text \<open>\<^verbatim>\<open>Replay\<close> of a batch is given by the sequence of calls that it makes to the writer.\<close>

record ('d, 'b) Batch =
  bt_Put :: "'b \<Rightarrow> slice \<Rightarrow> slice \<Rightarrow> kv_error option \<times> 'b"
  bt_Delete :: "'b \<Rightarrow> slice \<Rightarrow> kv_error option \<times> 'b"
  bt_ValueSize :: "'b \<Rightarrow> int"
  bt_Write :: "'b \<Rightarrow> 'd \<Rightarrow> kv_error option \<times> 'd"
  bt_Reset :: "'b \<Rightarrow> 'b"
  bt_Replay :: "'b \<Rightarrow> write_op list"

record ('d, 'i, 'b, 's, 'j) Store =
  kv_reader_ops :: "('d, 'i) IteratedReader"
  kv_snapshot_ops :: "('s, 'j) IteratedReader"
  kv_GetSnapshot :: "'d \<Rightarrow> kv_error + 's"
  kv_Put :: "'d \<Rightarrow> slice \<Rightarrow> slice \<Rightarrow> kv_error option \<times> 'd"
  kv_Delete :: "'d \<Rightarrow> slice \<Rightarrow> kv_error option \<times> 'd"
  kv_NewBatch :: "'d \<Rightarrow> 'b"
  kv_batch_ops :: "('d, 'b) Batch"
  kv_Stat :: "'d \<Rightarrow> string \<Rightarrow> kv_error + string"
  kv_Compact :: "'d \<Rightarrow> slice \<Rightarrow> slice \<Rightarrow> kv_error option \<times> 'd"
  kv_Close :: "'d \<Rightarrow> kv_error option \<times> 'd"
  kv_Drop :: "'d \<Rightarrow> kv_error option \<times> 'd"

definition IdealBatchSize :: int where
  "IdealBatchSize = 100 * 1024"

text \<open>Applying the calls of \<^verbatim>\<open>Replay\<close> to a writer, up to the first error.\<close>

fun replay :: "('w \<Rightarrow> slice \<Rightarrow> slice \<Rightarrow> kv_error option \<times> 'w) \<Rightarrow> ('w \<Rightarrow> slice \<Rightarrow> kv_error option \<times> 'w) \<Rightarrow>
    write_op list \<Rightarrow> 'w \<Rightarrow> kv_error option \<times> 'w" where
  "replay put del [] w = (None, w)"
| "replay put del (PutOp k v # ops) w =
    (case put w k v of (None, w1) \<Rightarrow> replay put del ops w1 | (Some err, w1) \<Rightarrow> (Some err, w1))"
| "replay put del (DeleteOp k # ops) w =
    (case del w k of (None, w1) \<Rightarrow> replay put del ops w1 | (Some err, w1) \<Rightarrow> (Some err, w1))"

section \<open>Ranges of a map\<close>

definition range_keys :: "(bytes \<rightharpoonup> bytes) \<Rightarrow> bytes \<Rightarrow> bytes \<Rightarrow> bytes set" where
  "range_keys m pre st = {k \<in> dom m. prefix pre k \<and> pre @ st \<le> k}"

definition range_list :: "(bytes \<rightharpoonup> bytes) \<Rightarrow> bytes \<Rightarrow> bytes \<Rightarrow> (bytes \<times> bytes) list" where
  "range_list m pre st = map (\<lambda>k. (k, the (m k))) (sorted_list_of_set (range_keys m pre st))"

definition sorted_pairs :: "(bytes \<times> 'v) list \<Rightarrow> bool" where
  "sorted_pairs xs \<longleftrightarrow> sorted_wrt (<) (map fst xs)"

lemma sorted_pairs_simps [simp]:
  "sorted_pairs []" "sorted_pairs ((k, v) # xs) \<longleftrightarrow> (\<forall>x \<in> set xs. k < fst x) \<and> sorted_pairs xs"
  by (auto simp: sorted_pairs_def)

lemma sorted_pairs_append:
  "sorted_pairs (xs @ ys) \<longleftrightarrow> sorted_pairs xs \<and> sorted_pairs ys \<and> (\<forall>x \<in> set xs. \<forall>y \<in> set ys. fst x < fst y)"
  by (auto simp: sorted_pairs_def sorted_wrt_append)

lemma sorted_pairs_filter: "sorted_pairs xs \<Longrightarrow> sorted_pairs (filter P xs)"
  unfolding sorted_pairs_def by (induction xs) auto

lemma sorted_pairs_distinct: "sorted_pairs xs \<Longrightarrow> distinct (map fst xs)"
  unfolding sorted_pairs_def by (induction xs) auto

lemma sorted_pairs_range_list: "sorted_pairs (range_list m pre st)"
  using strict_sorted_list_of_set [of "range_keys m pre st"] by (simp add: sorted_pairs_def range_list_def comp_def)

lemma sorted_pairs_unique:
  assumes "sorted_pairs xs" "sorted_pairs ys" "map_of xs = map_of ys"
  shows "xs = ys"
proof -
  have set: "set zs = {(k, v). map_of zs k = Some v}" if "sorted_pairs zs" for zs :: "(bytes \<times> 'a) list"
    using sorted_pairs_distinct [OF that] by (auto simp: map_of_eq_Some_iff)
  have eq: "set xs = set ys" using set [OF assms(1)] set [OF assms(2)] assms(3) by simp
  have "map fst xs = map fst ys"
    using assms(1,2) eq strict_sorted_equal [of "map fst xs" "map fst ys"] by (simp add: sorted_pairs_def)
  then show ?thesis using eq sorted_pairs_distinct [OF assms(1)] 
    by (intro map_inj_on [of fst xs ys]) (simp_all add: distinct_map)
qed

lemma map_of_range_list:
  assumes "finite (dom m)"
  shows "map_of (range_list m pre st) k = (if prefix pre k \<and> pre @ st \<le> k then m k else None)"
proof -
  have fin: "finite (range_keys m pre st)" using assms by (simp add: range_keys_def)
  have "map_of (map (\<lambda>k. (k, the (m k))) ks) k = (if k \<in> set ks then Some (the (m k)) else None)" for ks
    by (induction ks) auto
  then show ?thesis using fin by (auto simp: range_list_def range_keys_def)
qed

lemma set_range_list:
  assumes "finite (dom m)"
  shows "set (range_list m pre st) = {(k, v). m k = Some v \<and> prefix pre k \<and> pre @ st \<le> k}"
  using assms by (force simp: range_list_def range_keys_def)

lemma range_list_eqI:
  assumes "finite (dom m)" "sorted_pairs xs"
    "\<And>k. map_of xs k = (if prefix pre k \<and> pre @ st \<le> k then m k else None)"
  shows "range_list m pre st = xs"
  using assms map_of_range_list [OF assms(1)] by (intro sorted_pairs_unique sorted_pairs_range_list) auto

lemma prefix_le: "prefix p k \<Longrightarrow> p \<le> (k :: bytes)"
proof (induction p arbitrary: k)
  case (Cons a p)
  then show ?case by (cases k) auto
qed simp

lemma prefix_between: "p \<le> k \<Longrightarrow> k \<le> k' \<Longrightarrow> prefix p k' \<Longrightarrow> prefix p (k :: bytes)"
proof (induction p arbitrary: k k')
  case (Cons a p)
  then show ?case by (cases k; cases k') auto
qed simp

section \<open>Contract of readers\<close>

fun iterates :: "('r, 'i) IteratedReader \<Rightarrow> 'i \<Rightarrow> (bytes \<times> bytes) list \<Rightarrow> bool" where
  "iterates R it [] \<longleftrightarrow> it_Error R it = None \<and> (\<exists>it'. it_Next R it = Some (False, it') \<and> it_Error R it' = None)"
| "iterates R it ((k, v) # xs) \<longleftrightarrow> it_Error R it = None \<and>
    (\<exists>it'. it_Next R it = Some (True, it') \<and> it_Key R it' = Some k \<and> it_Value R it' = Some v \<and> iterates R it' xs)"

lemma iterates_Error: "iterates R it xs \<Longrightarrow> it_Error R it = None"
  by (cases xs) auto

lemma iterates_Next:
  assumes "iterates R it xs"
  obtains ok it' where "it_Next R it = Some (ok, it')" "it_Error R it' = None"
    "if ok then xs \<noteq> [] \<and> it_Key R it' = Some (fst (hd xs)) \<and> it_Value R it' = Some (snd (hd xs)) \<and> iterates R it' (tl xs)
     else xs = []"
proof (cases xs)
  case Nil
  then show thesis using assms that [of False] by auto
next
  case (Cons y ys)
  obtain k v where y: "y = (k, v)" by (cases y)
  then obtain i where i: "it_Next R it = Some (True, i)" "it_Key R i = Some k" "it_Value R i = Some v" "iterates R i ys"
    using assms Cons by auto
  then show thesis using that [of True i] iterates_Error [OF i(4)] Cons y by simp
qed

locale kv_reader =
  fixes R :: "('r, 'i) IteratedReader" and content :: "'r \<Rightarrow> bytes \<rightharpoonup> bytes" and readable :: "'r \<Rightarrow> bool"
  assumes finite_content: "readable r \<Longrightarrow> finite (dom (content r))"
    and Has_content: "readable r \<Longrightarrow> rd_Has R r k = Inr (content r (bytes_of k) \<noteq> None)"
    and Get_content: "readable r \<Longrightarrow> rd_Get R r k = Inr (content r (bytes_of k))"
    and iterates_content: "readable r \<Longrightarrow> \<exists>it. rd_NewIterator R r pre st = Some it \<and>
      iterates R it (range_list (content r) (bytes_of pre) (bytes_of st))"

section \<open>Contracts of stores\<close>

text \<open>
  A write of a batch is a key with its value, or with \<^const>\<open>None\<close> for a deletion.
  A store that may fail either makes a write or returns an error; a batch that fails
  may have been written in part, but changes only keys that it writes.
\<close>

definition apply_write :: "bytes \<times> slice \<Rightarrow> (bytes \<rightharpoonup> bytes) \<Rightarrow> bytes \<rightharpoonup> bytes" where
  "apply_write w m = m(fst w := snd w)"

definition apply_writes :: "(bytes \<times> slice) list \<Rightarrow> (bytes \<rightharpoonup> bytes) \<Rightarrow> bytes \<rightharpoonup> bytes" where
  "apply_writes ws m = fold apply_write ws m"

lemma apply_writes_simps [simp]:
  "apply_writes [] m = m" "apply_writes (w # ws) m = apply_writes ws (m(fst w := snd w))"
  "apply_writes (ws @ vs) m = apply_writes vs (apply_writes ws m)"
  by (simp_all add: apply_writes_def apply_write_def)

lemma apply_writes_other: "k \<notin> fst ` set ws \<Longrightarrow> apply_writes ws m k = m k"
  by (induction ws arbitrary: m) auto

lemma finite_apply_writes: "finite (dom m) \<Longrightarrow> finite (dom (apply_writes ws m))"
proof (induction ws arbitrary: m)
  case (Cons w ws)
  have "dom (m(fst w := snd w)) \<subseteq> insert (fst w) (dom m)" by (auto split: if_splits)
  then have "finite (dom (m(fst w := snd w)))" using Cons.prems finite_subset by blast
  then show ?case unfolding apply_writes_simps by (rule Cons.IH)
qed simp

fun write_of :: "write_op \<Rightarrow> bytes \<times> slice" where
  "write_of (PutOp k v) = (bytes_of k, v)"
| "write_of (DeleteOp k) = (bytes_of k, None)"

definition batch_ok :: "('d, 'b) Batch \<Rightarrow> ('b \<Rightarrow> (bytes \<times> slice) list) \<Rightarrow> bool" where
  "batch_ok B writes \<longleftrightarrow>
    (\<forall>b k v. \<exists>b'. bt_Put B b (Some k) (Some v) = (None, b') \<and> writes b' = writes b @ [(k, Some v)]) \<and>
    (\<forall>b k. \<exists>b'. bt_Delete B b (Some k) = (None, b') \<and> writes b' = writes b @ [(k, None)]) \<and>
    (\<forall>b. writes (bt_Reset B b) = [])"

locale kv_faulty =
  fixes S :: "('d, 'i, 'b, 's, 'j) Store" and content :: "'d \<Rightarrow> bytes \<rightharpoonup> bytes" and live :: "'d \<Rightarrow> bool"
    and writes :: "'b \<Rightarrow> (bytes \<times> slice) list"
  assumes new_batch: "writes (kv_NewBatch S d) = []"
    and batch_writes: "batch_ok (kv_batch_ops S) writes"
    and Put_outcome: "live d \<Longrightarrow> kv_Put S d (Some k) (Some v) = (err, d') \<Longrightarrow>
      live d' \<and> content d' = (if err = None then (content d)(k \<mapsto> v) else content d)"
    and Write_outcome: "live d \<Longrightarrow> bt_Write (kv_batch_ops S) b d = (err, d') \<Longrightarrow>
      live d' \<and> (err = None \<longrightarrow> content d' = apply_writes (writes b) (content d)) \<and>
      (\<forall>k. k \<notin> fst ` set (writes b) \<longrightarrow> content d' k = content d k)"

locale kv_snapshots = kv_reader "kv_reader_ops S" content usable
  for S :: "('d, 'i, 'b, 's, 'j) Store" and content :: "'d \<Rightarrow> bytes \<rightharpoonup> bytes" and usable :: "'d \<Rightarrow> bool" +
  fixes snap_content :: "'s \<Rightarrow> bytes \<rightharpoonup> bytes" and snap_usable :: "'s \<Rightarrow> bool"
  assumes snapshot_reader: "kv_reader (kv_snapshot_ops S) snap_content snap_usable"
    and snapshot: "usable d \<Longrightarrow> \<exists>s. kv_GetSnapshot S d = Inr s \<and> snap_usable s \<and> snap_content s = content d"

locale kv_store = kv_snapshots S content usable snap_content snap_usable
  for S :: "('d, 'i, 'b, 's, 'j) Store" and content :: "'d \<Rightarrow> bytes \<rightharpoonup> bytes" and usable :: "'d \<Rightarrow> bool"
    and snap_content :: "'s \<Rightarrow> bytes \<rightharpoonup> bytes" and snap_usable :: "'s \<Rightarrow> bool" +
  fixes writes :: "'b \<Rightarrow> (bytes \<times> slice) list"
  assumes no_writes: "writes (kv_NewBatch S d) = []"
    and batch: "batch_ok (kv_batch_ops S) writes"
    and Put_ok: "usable d \<Longrightarrow> \<exists>d'. kv_Put S d (Some k) (Some v) = (None, d') \<and> usable d' \<and> content d' = (content d)(k \<mapsto> v)"
    and Delete_ok: "usable d \<Longrightarrow> \<exists>d'. kv_Delete S d k' = (None, d') \<and> usable d' \<and> content d' = (content d)(bytes_of k' := None)"
    and Write_ok: "usable d \<Longrightarrow> \<exists>d'. bt_Write (kv_batch_ops S) b d = (None, d') \<and> usable d' \<and>
      content d' = apply_writes (writes b) (content d)"

sublocale kv_store \<subseteq> faulty: kv_faulty S content usable writes
proof
  fix d k v err d' b
  show "writes (kv_NewBatch S d) = []" "batch_ok (kv_batch_ops S) writes" by (rule no_writes batch)+
  show "usable d' \<and> content d' = (if err = None then (content d)(k \<mapsto> v) else content d)"
    if "usable d" "kv_Put S d (Some k) (Some v) = (err, d')"
    using Put_ok [OF that(1), of k v] that(2) by auto
  show "usable d' \<and> (err = None \<longrightarrow> content d' = apply_writes (writes b) (content d)) \<and>
      (\<forall>k. k \<notin> fst ` set (writes b) \<longrightarrow> content d' k = content d k)"
    if "usable d" "bt_Write (kv_batch_ops S) b d = (err, d')"
    using Write_ok [OF that(1), of b] that(2) apply_writes_other by auto
qed

context kv_store
begin

lemma store_is_faulty: "kv_faulty S content usable writes"
  by (rule faulty.kv_faulty_axioms)

end

end
