(* ===== verification/Flushable.thy ===== *)
theory Flushable
  imports Kvdb "HOL-Library.Tree"
begin

text \<open>
  The store that collects writes in memory until they are flushed
  (\<^verbatim>\<open>kvdb/flushable/flushable.go\<close>). The red-black tree of the unflushed pairs belongs to another
  package: its nodes are those of a binary tree, as the code walks over them, and its
  operations are the parameter \<^verbatim>\<open>T\<close>. A pointer to a node is the subtree at the node followed by
  the subtrees at its parents up to the root; the empty list is \<^verbatim>\<open>nil\<close>.
\<close>

section \<open>The tree\<close>

type_synonym rbt = "(bytes \<times> slice) tree"
type_synonym rbt_node = "rbt list"

record RbtOps =
  rbt_Put :: "rbt \<Rightarrow> bytes \<Rightarrow> slice \<Rightarrow> rbt"
  rbt_Get :: "rbt \<Rightarrow> bytes \<Rightarrow> slice option"
  rbt_Ceiling :: "rbt \<Rightarrow> bytes \<Rightarrow> rbt_node"
  rbt_Left :: "rbt \<Rightarrow> rbt_node"
  rbt_Pairs :: "rbt \<Rightarrow> (bytes \<times> slice) list"

definition node_key :: "rbt \<Rightarrow> bytes" where
  "node_key n = fst (value n)"

fun descend_left :: "rbt \<Rightarrow> rbt_node \<Rightarrow> rbt_node" where
  "descend_left Leaf parents = Leaf # parents"
| "descend_left (Node l x r) parents =
    (if l = Leaf then Node l x r # parents else descend_left l (Node l x r # parents))"

fun nextNode :: "rbt_node \<Rightarrow> rbt_node" where
  "nextNode [] = []"
| "nextNode (n # parents) =
    (if right n \<noteq> Leaf then descend_left (right n) (n # parents)
     else dropWhile (\<lambda>a. \<not> node_key n \<le> node_key a) parents)"

definition castToPair :: "rbt_node \<Rightarrow> slice \<times> slice" where
  "castToPair node = (case node of [] \<Rightarrow> (None, None) | n # _ \<Rightarrow> (Some (node_key n), snd (value n)))"

section \<open>State\<close>

text \<open>\<^verbatim>\<open>modified\<close> is \<^verbatim>\<open>nil\<close> when the store is closed.\<close>

record 'u flushableReader =
  fr_underlying :: 'u
  fr_modified :: "rbt option"

record 'u Flushable =
  fl_reader :: "'u flushableReader"
  fl_onDrop :: "('u \<Rightarrow> kv_error option \<times> 'u) option"
  fl_sizeEstimation :: int

definition WrapWithDrop :: "'u \<Rightarrow> ('u \<Rightarrow> kv_error option \<times> 'u) option \<Rightarrow> 'u Flushable" where
  "WrapWithDrop parent onDrop =
    \<lparr>fl_reader = \<lparr>fr_underlying = parent, fr_modified = Some Leaf\<rparr>, fl_onDrop = onDrop, fl_sizeEstimation = 0\<rparr>"

definition Wrap :: "('u, 'i, 'b, 's, 'j) Store \<Rightarrow> 'u \<Rightarrow> 'u Flushable" where
  "Wrap S parent = WrapWithDrop parent (Some (kv_Drop S))"

definition set_modified :: "'u Flushable \<Rightarrow> rbt option \<Rightarrow> int \<Rightarrow> 'u Flushable" where
  "set_modified w t n = w\<lparr>fl_reader := (fl_reader w)\<lparr>fr_modified := t\<rparr>, fl_sizeEstimation := n\<rparr>"

definition set_underlying :: "'u Flushable \<Rightarrow> 'u \<Rightarrow> 'u Flushable" where
  "set_underlying w d = w\<lparr>fl_reader := (fl_reader w)\<lparr>fr_underlying := d\<rparr>\<rparr>"

section \<open>Reading and writing\<close>

definition flushable_put :: "RbtOps \<Rightarrow> 'u Flushable \<Rightarrow> slice \<Rightarrow> slice \<Rightarrow> kv_error option \<times> 'u Flushable" where
  "flushable_put T w key val =
    (case fr_modified (fl_reader w) of
       None \<Rightarrow> (Some (Panic ''nil tree''), w)
     | Some t \<Rightarrow> (None, set_modified w (Some (rbt_Put T t (bytes_of key) val))
         (fl_sizeEstimation w + int (length (bytes_of key)) + int (length (bytes_of val)) + 128)))"

definition flushable_Put :: "RbtOps \<Rightarrow> 'u Flushable \<Rightarrow> slice \<Rightarrow> slice \<Rightarrow> kv_error option \<times> 'u Flushable" where
  "flushable_Put T w key val =
    (if val = None \<or> key = None then (Some errNilKeyOrValue, w) else flushable_put T w key val)"

definition flushable_Has :: "RbtOps \<Rightarrow> ('u, 'i) IteratedReader \<Rightarrow> 'u flushableReader \<Rightarrow> slice \<Rightarrow> kv_error + bool" where
  "flushable_Has T R w key =
    (case fr_modified w of
       None \<Rightarrow> Inl errClosed
     | Some t \<Rightarrow>
         (case rbt_Get T t (bytes_of key) of
            Some val \<Rightarrow> Inr (val \<noteq> None)
          | None \<Rightarrow> rd_Has R (fr_underlying w) key))"

definition flushable_Get :: "RbtOps \<Rightarrow> ('u, 'i) IteratedReader \<Rightarrow> 'u flushableReader \<Rightarrow> slice \<Rightarrow> kv_error + slice" where
  "flushable_Get T R w key =
    (case fr_modified w of
       None \<Rightarrow> Inl errClosed
     | Some t \<Rightarrow>
         (case rbt_Get T t (bytes_of key) of
            Some entry \<Rightarrow> Inr entry
          | None \<Rightarrow> rd_Get R (fr_underlying w) key))"

definition flushable_Delete :: "RbtOps \<Rightarrow> 'u Flushable \<Rightarrow> slice \<Rightarrow> kv_error option \<times> 'u Flushable" where
  "flushable_Delete T w key =
    (case fr_modified (fl_reader w) of
       None \<Rightarrow> (Some (Panic ''nil tree''), w)
     | Some t \<Rightarrow> (None, set_modified w (Some (rbt_Put T t (bytes_of key) None))
         (fl_sizeEstimation w + int (length (bytes_of key)) + 128)))"

definition flushable_DropNotFlushed :: "'u Flushable \<Rightarrow> kv_error option \<times> 'u Flushable" where
  "flushable_DropNotFlushed w =
    (case fr_modified (fl_reader w) of
       None \<Rightarrow> (Some (Panic ''nil tree''), w)
     | Some _ \<Rightarrow> (None, set_modified w (Some Leaf) 0))"

definition flushable_Close :: "('u, 'i, 'b, 's, 'j) Store \<Rightarrow> 'u Flushable \<Rightarrow> kv_error option \<times> 'u Flushable" where
  "flushable_Close S w =
    (case fr_modified (fl_reader w) of
       None \<Rightarrow> (Some errClosed, w)
     | Some _ \<Rightarrow>
         let w1 = set_modified w None 0 in
         case kv_Close S (fr_underlying (fl_reader w1)) of (err, d) \<Rightarrow> (err, set_underlying w1 d))"

definition flushable_Drop :: "'u Flushable \<Rightarrow> kv_error option \<times> 'u Flushable" where
  "flushable_Drop w =
    (if fr_modified (fl_reader w) \<noteq> None then (Some (Panic ''close db first''), w)
     else case fl_onDrop w of
       None \<Rightarrow> (None, w)
     | Some onDrop \<Rightarrow> (case onDrop (fr_underlying (fl_reader w)) of (err, d) \<Rightarrow> (err, set_underlying w d)))"

definition NotFlushedPairs :: "RbtOps \<Rightarrow> 'u Flushable \<Rightarrow> int option" where
  "NotFlushedPairs T w = map_option (\<lambda>t. int (length (rbt_Pairs T t))) (fr_modified (fl_reader w))"

definition NotFlushedSizeEst :: "'u Flushable \<Rightarrow> int" where
  "NotFlushedSizeEst w = fl_sizeEstimation w"

section \<open>Flushing\<close>

fun flush_loop :: "('u, 'i, 'b, 's, 'j) Store \<Rightarrow> (bytes \<times> slice) list \<Rightarrow> 'b \<Rightarrow> 'u \<Rightarrow> kv_error option \<times> 'u" where
  "flush_loop S [] batch d = bt_Write (kv_batch_ops S) batch d"
| "flush_loop S ((key, val) # pairs) batch d =
    (let B = kv_batch_ops S in
     case (if val = None then bt_Delete B batch (Some key) else bt_Put B batch (Some key) val) of
       (Some err, _) \<Rightarrow> (Some err, d)
     | (None, batch1) \<Rightarrow>
         if bt_ValueSize B batch1 > IdealBatchSize then
           (case bt_Write B batch1 d of
              (Some err, d1) \<Rightarrow> (Some err, d1)
            | (None, d1) \<Rightarrow> flush_loop S pairs (bt_Reset B batch1) d1)
         else flush_loop S pairs batch1 d)"

definition flushable_Flush ::
  "RbtOps \<Rightarrow> ('u, 'i, 'b, 's, 'j) Store \<Rightarrow> 'u Flushable \<Rightarrow> kv_error option \<times> 'u Flushable" where
  "flushable_Flush T S w =
    (case fr_modified (fl_reader w) of
       None \<Rightarrow> (Some errClosed, w)
     | Some t \<Rightarrow>
         let d = fr_underlying (fl_reader w) in
         case flush_loop S (rbt_Pairs T t) (kv_NewBatch S d) d of
           (Some err, d1) \<Rightarrow> (Some err, set_underlying w d1)
         | (None, d1) \<Rightarrow> (None, set_modified (set_underlying w d1) (Some Leaf) 0))"

definition flushable_Stat :: "('u, 'i, 'b, 's, 'j) Store \<Rightarrow> 'u Flushable \<Rightarrow> string \<Rightarrow> kv_error + string" where
  "flushable_Stat S w property = kv_Stat S (fr_underlying (fl_reader w)) property"

definition flushable_Compact ::
  "('u, 'i, 'b, 's, 'j) Store \<Rightarrow> 'u Flushable \<Rightarrow> slice \<Rightarrow> slice \<Rightarrow> kv_error option \<times> 'u Flushable" where
  "flushable_Compact S w start limit =
    (case kv_Compact S (fr_underlying (fl_reader w)) start limit of (err, d) \<Rightarrow> (err, set_underlying w d))"


section \<open>Iterating\<close>

record 'i flushableIterator =
  fi_key :: slice
  fi_val :: slice
  fi_prevKey :: slice
  fi_parentIt :: 'i
  fi_parentOk :: bool
  fi_treeNode :: rbt_node
  fi_treeOk :: bool
  fi_start :: slice
  fi_prefix :: slice

text \<open>An iterator of a closed store has the error of the closed store and no pairs.\<close>

datatype 'i flush_iterator = FlushIt "'i flushableIterator" | ErrIt kv_error

definition isSuitable :: "'i flushableIterator \<Rightarrow> slice \<Rightarrow> bool \<times> bool" where
  "isSuitable it key =
    (if fi_prefix it \<noteq> None \<and> \<not> prefix (bytes_of (fi_prefix it)) (bytes_of key) then (False, False)
     else (fi_prevKey it = None \<or> bytes_of key > bytes_of (fi_prevKey it), True))"

definition iterator_init :: "RbtOps \<Rightarrow> ('u, 'i) IteratedReader \<Rightarrow> rbt \<Rightarrow> 'i flushableIterator \<Rightarrow> 'i flushableIterator option" where
  "iterator_init T R tree it =
    (case it_Next R (fi_parentIt it) of
       None \<Rightarrow> None
     | Some (parentOk, parentIt) \<Rightarrow>
         let node = (if length (bytes_of (fi_start it)) \<noteq> 0 then rbt_Ceiling T tree (bytes_of (fi_start it)) else rbt_Left T tree)
         in Some (it\<lparr>fi_parentIt := parentIt, fi_parentOk := parentOk, fi_treeNode := node, fi_treeOk := node \<noteq> []\<rparr>))"

text \<open>One round of the inner loop: whether it has found a pair, and the iterator after it.\<close>

definition tree_step :: "'i flushableIterator \<Rightarrow> bool \<times> 'i flushableIterator" where
  "tree_step it =
    (case castToPair (fi_treeNode it) of (treeKey, treeVal) \<Rightarrow>
      case (if treeVal \<noteq> None
            then (case isSuitable it treeKey of (ok, cont) \<Rightarrow> (ok, it\<lparr>fi_treeOk := cont\<rparr>))
            else (False, it\<lparr>fi_prevKey := treeKey\<rparr>)) of (ok, it1) \<Rightarrow>
      let it2 = (if ok then it1\<lparr>fi_key := treeKey, fi_val := treeVal, fi_prevKey := treeKey\<rparr> else it1);
          it3 = (if fi_treeOk it2
                 then it2\<lparr>fi_treeNode := nextNode (fi_treeNode it2), fi_treeOk := nextNode (fi_treeNode it2) \<noteq> []\<rparr>
                 else it2)
      in (ok, it3))"

partial_function (option) tree_loop ::
  "('u, 'i) IteratedReader \<Rightarrow> 'i flushableIterator \<Rightarrow> (bool \<times> 'i flushableIterator) option" where
  "tree_loop R it =
    (if fi_treeOk it \<and> (\<not> fi_parentOk it \<or>
        bytes_of (fst (castToPair (fi_treeNode it))) \<le> bytes_of (it_Key R (fi_parentIt it)))
     then if fst (tree_step it) then Some (True, snd (tree_step it)) else tree_loop R (snd (tree_step it))
     else Some (False, it))"

definition parent_step ::
  "('u, 'i) IteratedReader \<Rightarrow> 'i flushableIterator \<Rightarrow> (bool \<times> 'i flushableIterator) option" where
  "parent_step R it =
    (case isSuitable it (it_Key R (fi_parentIt it)) of (ok, cont) \<Rightarrow>
      let it1 = it\<lparr>fi_parentOk := cont\<rparr>;
          it2 = (if ok then it1\<lparr>fi_key := it_Key R (fi_parentIt it1), fi_val := it_Value R (fi_parentIt it1),
                              fi_prevKey := it_Key R (fi_parentIt it1)\<rparr> else it1)
      in if fi_parentOk it2
         then map_option (\<lambda>(parentOk, parentIt). (ok, it2\<lparr>fi_parentOk := parentOk, fi_parentIt := parentIt\<rparr>))
           (it_Next R (fi_parentIt it2))
         else Some (ok, it2))"

partial_function (option) next_loop ::
  "('u, 'i) IteratedReader \<Rightarrow> 'i flushableIterator \<Rightarrow> (bool \<times> 'i flushableIterator) option" where
  "next_loop R it =
    (if fi_treeOk it \<or> fi_parentOk it
     then Option.bind (if fi_treeOk it then tree_loop R it else Some (False, it)) (\<lambda>(found, it1).
       if found then Some (True, it1)
       else if fi_parentOk it1
       then Option.bind (parent_step R it1) (\<lambda>(found, it2). if found then Some (True, it2) else next_loop R it2)
       else next_loop R it1)
     else Some (False, it))"

definition flush_it_Error :: "('u, 'i) IteratedReader \<Rightarrow> 'i flush_iterator \<Rightarrow> kv_error option" where
  "flush_it_Error R it = (case it of ErrIt err \<Rightarrow> Some err | FlushIt it \<Rightarrow> it_Error R (fi_parentIt it))"

definition flush_it_Next :: "('u, 'i) IteratedReader \<Rightarrow> 'i flush_iterator \<Rightarrow> (bool \<times> 'i flush_iterator) option" where
  "flush_it_Next R it =
    (case it of
       ErrIt err \<Rightarrow> Some (False, it)
     | FlushIt i \<Rightarrow>
         if flush_it_Error R it \<noteq> None then Some (False, it)
         else map_option (\<lambda>(ok, i1). (ok, FlushIt i1)) (next_loop R i))"

definition flush_it_Key :: "'i flush_iterator \<Rightarrow> slice" where
  "flush_it_Key it = (case it of ErrIt _ \<Rightarrow> None | FlushIt i \<Rightarrow> fi_key i)"

definition flush_it_Value :: "'i flush_iterator \<Rightarrow> slice" where
  "flush_it_Value it = (case it of ErrIt _ \<Rightarrow> None | FlushIt i \<Rightarrow> fi_val i)"

definition flushable_NewIterator ::
  "RbtOps \<Rightarrow> ('u, 'i) IteratedReader \<Rightarrow> 'u flushableReader \<Rightarrow> slice \<Rightarrow> slice \<Rightarrow> 'i flush_iterator option" where
  "flushable_NewIterator T R w pre start =
    (case fr_modified w of
       None \<Rightarrow> Some (ErrIt errClosed)
     | Some t \<Rightarrow> Option.bind (rd_NewIterator R (fr_underlying w) pre start) (\<lambda>parentIt.
         map_option FlushIt (iterator_init T R t
           \<lparr>fi_key = None, fi_val = None, fi_prevKey = None, fi_parentIt = parentIt, fi_parentOk = False,
            fi_treeNode = [], fi_treeOk = False, fi_start = Some (bytes_of pre @ bytes_of start), fi_prefix = pre\<rparr>)))"

definition flushable_reader :: "RbtOps \<Rightarrow> ('u, 'i) IteratedReader \<Rightarrow> ('u flushableReader, 'i flush_iterator) IteratedReader" where
  "flushable_reader T R = \<lparr>rd_Has = flushable_Has T R, rd_Get = flushable_Get T R,
    rd_NewIterator = flushable_NewIterator T R, it_Next = flush_it_Next R, it_Error = flush_it_Error R,
    it_Key = flush_it_Key, it_Value = flush_it_Value\<rparr>"

text \<open>The reader of a structure that embeds a reader.\<close>

definition embed_reader :: "('w \<Rightarrow> 'r) \<Rightarrow> ('r, 'i) IteratedReader \<Rightarrow> ('w, 'i) IteratedReader" where
  "embed_reader f R = \<lparr>rd_Has = (\<lambda>w. rd_Has R (f w)), rd_Get = (\<lambda>w. rd_Get R (f w)),
    rd_NewIterator = (\<lambda>w. rd_NewIterator R (f w)), it_Next = it_Next R, it_Error = it_Error R,
    it_Key = it_Key R, it_Value = it_Value R\<rparr>"

section \<open>Snapshots\<close>

definition flushable_GetSnapshot ::
  "RbtOps \<Rightarrow> ('u, 'i, 'b, 's, 'j) Store \<Rightarrow> 'u Flushable \<Rightarrow> kv_error + 's flushableReader" where
  "flushable_GetSnapshot T S w =
    (case kv_GetSnapshot S (fr_underlying (fl_reader w)) of
       Inl err \<Rightarrow> Inl err
     | Inr parentSnap \<Rightarrow>
         (case fr_modified (fl_reader w) of
            None \<Rightarrow> Inl (Panic ''nil tree'')
          | Some t \<Rightarrow> Inr \<lparr>fr_underlying = parentSnap,
              fr_modified = Some (fold (\<lambda>(k, v) c. rbt_Put T c k v) (rbt_Pairs T t) Leaf)\<rparr>))"

definition snapshot_Release :: "'s flushableReader \<Rightarrow> 's flushableReader" where
  "snapshot_Release s = s\<lparr>fr_modified := None\<rparr>"

section \<open>Batches\<close>

record cacheBatch =
  cb_writes :: "(slice \<times> slice) list"
  cb_size :: int

definition cacheBatch_Put :: "cacheBatch \<Rightarrow> slice \<Rightarrow> slice \<Rightarrow> kv_error option \<times> cacheBatch" where
  "cacheBatch_Put b key val = (None, b\<lparr>cb_writes := cb_writes b @ [(key, val)],
    cb_size := cb_size b + int (length (bytes_of val)) + int (length (bytes_of key))\<rparr>)"

definition cacheBatch_Delete :: "cacheBatch \<Rightarrow> slice \<Rightarrow> kv_error option \<times> cacheBatch" where
  "cacheBatch_Delete b key = (None, b\<lparr>cb_writes := cb_writes b @ [(key, None)],
    cb_size := cb_size b + int (length (bytes_of key))\<rparr>)"

fun cacheBatch_write_loop :: "RbtOps \<Rightarrow> (slice \<times> slice) list \<Rightarrow> 'u Flushable \<Rightarrow> 'u Flushable" where
  "cacheBatch_write_loop T [] w = w"
| "cacheBatch_write_loop T ((k, v) # writes) w =
    cacheBatch_write_loop T writes (snd (if v = None then flushable_Delete T w k else flushable_put T w k v))"

definition cacheBatch_Write :: "RbtOps \<Rightarrow> cacheBatch \<Rightarrow> 'u Flushable \<Rightarrow> kv_error option \<times> 'u Flushable" where
  "cacheBatch_Write T b w =
    (if fr_modified (fl_reader w) = None then (Some errClosed, w)
     else (None, cacheBatch_write_loop T (cb_writes b) w))"

definition cacheBatch_Reset :: "cacheBatch \<Rightarrow> cacheBatch" where
  "cacheBatch_Reset b = b\<lparr>cb_writes := [], cb_size := 0\<rparr>"

definition cacheBatch_Replay :: "cacheBatch \<Rightarrow> write_op list" where
  "cacheBatch_Replay b = map (\<lambda>(k, v). if v = None then DeleteOp k else PutOp k v) (cb_writes b)"

section \<open>The store\<close>

definition flushable_Store :: "RbtOps \<Rightarrow> ('u, 'i, 'b, 's, 'j) Store \<Rightarrow>
    ('u Flushable, 'i flush_iterator, cacheBatch, 's flushableReader, 'j flush_iterator) Store" where
  "flushable_Store T S = \<lparr>
    kv_reader_ops = embed_reader fl_reader (flushable_reader T (kv_reader_ops S)),
    kv_snapshot_ops = flushable_reader T (kv_snapshot_ops S),
    kv_GetSnapshot = flushable_GetSnapshot T S, kv_Put = flushable_Put T, kv_Delete = flushable_Delete T,
    kv_NewBatch = (\<lambda>_. \<lparr>cb_writes = [], cb_size = 0\<rparr>),
    kv_batch_ops = \<lparr>bt_Put = cacheBatch_Put, bt_Delete = cacheBatch_Delete, bt_ValueSize = cb_size,
      bt_Write = cacheBatch_Write T, bt_Reset = cacheBatch_Reset, bt_Replay = cacheBatch_Replay\<rparr>,
    kv_Stat = flushable_Stat S, kv_Compact = flushable_Compact S, kv_Close = flushable_Close S,
    kv_Drop = flushable_Drop\<rparr>"

end
