(* ===== verification/Flushable_Tree.thy ===== *)
theory Flushable_Tree
  imports Flushable
begin

text \<open>
  Walking over the nodes of the tree of unflushed pairs: from a node, \<^const>\<open>nextNode\<close> leads to its
  successor in the order of keys, so that following it lists the rest of the tree. What the
  package of the tree promises is \<^verbatim>\<open>rbt_ok\<close>; trees that are never rebalanced satisfy it.
\<close>

section \<open>Pointers into a tree\<close>

fun is_path :: "rbt \<Rightarrow> rbt_node \<Rightarrow> bool" where
  "is_path t [] = False"
| "is_path t [n] = (n = t \<and> n \<noteq> Leaf)"
| "is_path t (n # m # parents) = (n \<noteq> Leaf \<and> (n = left m \<or> n = right m) \<and> is_path t (m # parents))"

text \<open>The pairs after a subtree, and those from a node on.\<close>

fun after_subtree :: "rbt \<Rightarrow> rbt_node \<Rightarrow> (bytes \<times> slice) list" where
  "after_subtree n [] = []"
| "after_subtree n (m # parents) = (if n = left m then value m # inorder (right m) else []) @ after_subtree m parents"

definition pending :: "rbt_node \<Rightarrow> (bytes \<times> slice) list" where
  "pending p = (case p of [] \<Rightarrow> [] | n # parents \<Rightarrow> value n # inorder (right n) @ after_subtree n parents)"

lemma pending_simps [simp]:
  "pending [] = []" "pending (n # parents) = value n # inorder (right n) @ after_subtree n parents"
  by (simp_all add: pending_def)

lemma is_path_nonempty: "is_path t (n # parents) \<Longrightarrow> n \<noteq> Leaf"
  by (cases parents) auto

lemma inorder_unfold: "n \<noteq> Leaf \<Longrightarrow> inorder n = inorder (left n) @ value n # inorder (right n)"
  by (cases n) auto

lemma path_inorder: "is_path t (n # parents) \<Longrightarrow> \<exists>pre. inorder t = pre @ inorder n @ after_subtree n parents"
proof (induction parents arbitrary: n)
  case Nil
  then show ?case by (intro exI [of _ "[]"]) simp
next
  case (Cons m parents)
  then obtain pre where pre: "inorder t = pre @ inorder m @ after_subtree m parents" by auto
  have m: "inorder m = inorder (left m) @ value m # inorder (right m)"
    using Cons.prems is_path_nonempty by (intro inorder_unfold) auto
  show ?case
  proof (cases "n = left m")
    case True
    then show ?thesis using pre m by (intro exI [of _ pre]) simp
  next
    case False
    then have "n = right m" using Cons.prems by auto
    then show ?thesis using pre m False by (intro exI [of _ "pre @ inorder (left m) @ [value m]"]) simp
  qed
qed

lemma pending_suffix: "is_path t p \<Longrightarrow> \<exists>pre. inorder t = pre @ pending p"
proof (cases p)
  case (Cons n parents)
  assume "is_path t p"
  then obtain pre where "inorder t = pre @ inorder n @ after_subtree n parents" using path_inorder Cons by blast
  moreover have "inorder n = inorder (left n) @ value n # inorder (right n)"
    using \<open>is_path t p\<close> Cons is_path_nonempty inorder_unfold by blast
  ultimately show ?thesis using Cons by (intro exI [of _ "pre @ inorder (left n)"]) simp
qed simp

lemma descend_left_path:
  "is_path t (n # parents) \<Longrightarrow>
    is_path t (descend_left n parents) \<and> pending (descend_left n parents) = inorder n @ after_subtree n parents"
proof (induction n arbitrary: parents)
  case Leaf
  then show ?case using is_path_nonempty by blast
next
  case (Node l x r)
  show ?case
  proof (cases "l = Leaf")
    case False
    then have "is_path t (l # Node l x r # parents)" using Node.prems by simp
    from Node.IH(1) [OF this] show ?thesis using False by simp
  qed (use Node.prems in simp)
qed

lemma subtree_sorted: "sorted_pairs (inorder t) \<Longrightarrow> is_path t (n # parents) \<Longrightarrow> sorted_pairs (inorder n)"
  using path_inorder [of t n parents] by (auto simp: sorted_pairs_append)

lemma climb:
  assumes "sorted_pairs (inorder t)"
  shows "is_path t (n # parents) \<Longrightarrow> k \<in> fst ` set (inorder n) \<Longrightarrow>
    let q = dropWhile (\<lambda>a. \<not> k \<le> node_key a) parents in pending q = after_subtree n parents \<and> (q = [] \<or> is_path t q)"
proof (induction parents arbitrary: n)
  case (Cons m parents)
  have m: "inorder m = inorder (left m) @ value m # inorder (right m)"
    using Cons.prems(1) is_path_nonempty by (intro inorder_unfold) auto
  have s: "sorted_pairs (inorder m)" using subtree_sorted [OF assms] Cons.prems(1) by auto
  show ?case
  proof (cases "n = left m")
    case True
    then have "k < node_key m" using s Cons.prems(2) m by (auto simp: sorted_pairs_append node_key_def)
    then have "k \<le> node_key m" by (rule less_imp_le)
    then show ?thesis using True Cons.prems(1) by simp
  next
    case False
    then have n: "n = right m" using Cons.prems(1) by auto
    have "\<forall>x \<in> set (inorder (right m)). node_key m < fst x"
      using s m unfolding node_key_def by (cases "value m") (auto simp: sorted_pairs_append)
    then have "node_key m < k" using Cons.prems(2) n by auto
    moreover have "k \<in> fst ` set (inorder m)" using Cons.prems(2) n m by auto
    ultimately show ?thesis using Cons.IH [of m] Cons.prems(1) False by (simp add: Let_def not_le)
  qed
qed simp

lemma nextNode_pending:
  assumes "sorted_pairs (inorder t)" "is_path t p"
  shows "pending (nextNode p) = tl (pending p)" "nextNode p = [] \<or> is_path t (nextNode p)"
proof -
  obtain n parents where p: "p = n # parents" using assms(2) by (cases p) auto
  have n: "inorder n = inorder (left n) @ value n # inorder (right n)" "n \<noteq> Leaf"
    using assms(2) p is_path_nonempty inorder_unfold by blast+
  have "pending (nextNode p) = tl (pending p) \<and> (nextNode p = [] \<or> is_path t (nextNode p))"
  proof (cases "right n = Leaf")
    case True
    have "node_key n \<in> fst ` set (inorder n)" using n by (simp add: node_key_def)
    from climb [OF assms(1) _ this] show ?thesis using assms(2) p True by (simp add: Let_def)
  next
    case False
    have "left n \<noteq> right n"
    proof
      assume eq: "left n = right n"
      then obtain x where "x \<in> set (inorder (left n))" "x \<in> set (inorder (right n))" using False by (cases "right n") auto
      then show False
        using subtree_sorted [OF assms(1)] assms(2) p n(1) by (fastforce simp: sorted_pairs_append)
    qed
    moreover have "is_path t (right n # n # parents)" using assms(2) p False by simp
    ultimately show ?thesis using descend_left_path [of t "right n" "n # parents"] p False by simp
  qed
  then show "pending (nextNode p) = tl (pending p)" "nextNode p = [] \<or> is_path t (nextNode p)" by blast+
qed


lemma pending_filter:
  assumes "sorted_pairs (inorder t)" "is_path t p"
  shows "pending p = filter (\<lambda>x. node_key (hd p) \<le> fst x) (inorder t)"
proof -
  obtain n parents where p: "p = n # parents" using assms(2) by (cases p) auto
  obtain pre where pre: "inorder t = pre @ pending p" using pending_suffix [OF assms(2)] by blast
  let ?rest = "inorder (right n) @ after_subtree n parents"
  have s: "sorted_pairs (pre @ value n # ?rest)" using assms(1) pre p by simp
  have "\<not> node_key n \<le> fst x" if "x \<in> set pre" for x
    using s that by (auto simp: sorted_pairs_append node_key_def)
  then have "filter (\<lambda>x. node_key n \<le> fst x) pre = []" by (auto simp: filter_empty_conv)
  moreover have "\<forall>x \<in> set ?rest. node_key n < fst x"
    using s unfolding node_key_def by (cases "value n") (auto simp: sorted_pairs_append)
  then have "filter (\<lambda>x. node_key n \<le> fst x) (pending p) = pending p"
    unfolding p pending_simps by (intro filter_True) (auto simp: node_key_def less_imp_le)
  ultimately show ?thesis using pre p by simp
qed

section \<open>What the package promises\<close>

definition rbt_ok :: "RbtOps \<Rightarrow> bool" where
  "rbt_ok T \<longleftrightarrow> (\<forall>t. sorted_pairs (inorder t) \<longrightarrow>
    (\<forall>k v. sorted_pairs (inorder (rbt_Put T t k v)) \<and> map_of (inorder (rbt_Put T t k v)) = (map_of (inorder t))(k \<mapsto> v)) \<and>
    (\<forall>k. rbt_Get T t k = map_of (inorder t) k) \<and>
    rbt_Pairs T t = inorder t \<and>
    (case rbt_Left T t of [] \<Rightarrow> t = Leaf
     | n # parents \<Rightarrow> is_path t (n # parents) \<and> (\<forall>x \<in> set (inorder t). node_key n \<le> fst x)) \<and>
    (\<forall>k. case rbt_Ceiling T t k of [] \<Rightarrow> \<forall>x \<in> set (inorder t). fst x < k
     | n # parents \<Rightarrow> is_path t (n # parents) \<and> k \<le> node_key n \<and>
         (\<forall>x \<in> set (inorder t). k \<le> fst x \<longrightarrow> node_key n \<le> fst x)))"

lemma rbt_okD:
  assumes "rbt_ok T" "sorted_pairs (inorder t)"
  shows "sorted_pairs (inorder (rbt_Put T t k v))" "map_of (inorder (rbt_Put T t k v)) = (map_of (inorder t))(k \<mapsto> v)"
    "rbt_Get T t k = map_of (inorder t) k" "rbt_Pairs T t = inorder t"
  using assms unfolding rbt_ok_def by blast+

lemma rbt_Left_pending:
  assumes "rbt_ok T" "sorted_pairs (inorder t)"
  shows "pending (rbt_Left T t) = inorder t" "rbt_Left T t = [] \<or> is_path t (rbt_Left T t)"
proof -
  have l: "case rbt_Left T t of [] \<Rightarrow> t = Leaf
     | n # parents \<Rightarrow> is_path t (n # parents) \<and> (\<forall>x \<in> set (inorder t). node_key n \<le> fst x)"
    using assms unfolding rbt_ok_def by blast
  have "pending (rbt_Left T t) = inorder t \<and> (rbt_Left T t = [] \<or> is_path t (rbt_Left T t))"
  proof (cases "rbt_Left T t")
    case (Cons n parents)
    then have path: "is_path t (rbt_Left T t)" "\<forall>x \<in> set (inorder t). node_key n \<le> fst x" using l by auto
    then show ?thesis using pending_filter [OF assms(2) path(1)] Cons by simp
  qed (use l in simp)
  then show "pending (rbt_Left T t) = inorder t" "rbt_Left T t = [] \<or> is_path t (rbt_Left T t)" by blast+
qed

lemma rbt_Ceiling_pending:
  assumes "rbt_ok T" "sorted_pairs (inorder t)"
  shows "pending (rbt_Ceiling T t k) = filter (\<lambda>x. k \<le> fst x) (inorder t)"
    "rbt_Ceiling T t k = [] \<or> is_path t (rbt_Ceiling T t k)"
proof -
  have l: "case rbt_Ceiling T t k of [] \<Rightarrow> \<forall>x \<in> set (inorder t). fst x < k
     | n # parents \<Rightarrow> is_path t (n # parents) \<and> k \<le> node_key n \<and>
         (\<forall>x \<in> set (inorder t). k \<le> fst x \<longrightarrow> node_key n \<le> fst x)"
    using assms unfolding rbt_ok_def by blast
  have "pending (rbt_Ceiling T t k) = filter (\<lambda>x. k \<le> fst x) (inorder t) \<and>
      (rbt_Ceiling T t k = [] \<or> is_path t (rbt_Ceiling T t k))"
  proof (cases "rbt_Ceiling T t k")
    case Nil
    then show ?thesis using l by (auto simp: filter_empty_conv not_le)
  next
    case (Cons n parents)
    then have path: "is_path t (rbt_Ceiling T t k)" "k \<le> node_key n"
      "\<forall>x \<in> set (inorder t). k \<le> fst x \<longrightarrow> node_key n \<le> fst x" using l by auto
    have "filter (\<lambda>x. node_key n \<le> fst x) (inorder t) = filter (\<lambda>x. k \<le> fst x) (inorder t)"
      using path(2,3) by (intro filter_cong) auto
    then show ?thesis using pending_filter [OF assms(2) path(1)] Cons path(1) by simp
  qed
  then show "pending (rbt_Ceiling T t k) = filter (\<lambda>x. k \<le> fst x) (inorder t)"
    "rbt_Ceiling T t k = [] \<or> is_path t (rbt_Ceiling T t k)" by blast+
qed

section \<open>Trees without rebalancing\<close>

fun bst_put :: "rbt \<Rightarrow> bytes \<Rightarrow> slice \<Rightarrow> rbt" where
  "bst_put Leaf k v = Node Leaf (k, v) Leaf"
| "bst_put (Node l (a, w) r) k v =
    (if k < a then Node (bst_put l k v) (a, w) r else if a < k then Node l (a, w) (bst_put r k v) else Node l (k, v) r)"

fun bst_ceiling :: "rbt \<Rightarrow> rbt_node \<Rightarrow> bytes \<Rightarrow> rbt_node" where
  "bst_ceiling Leaf parents k = []"
| "bst_ceiling (Node l x r) parents k =
    (if k \<le> fst x
     then case bst_ceiling l (Node l x r # parents) k of [] \<Rightarrow> Node l x r # parents | p # ps \<Rightarrow> p # ps
     else bst_ceiling r (Node l x r # parents) k)"

definition bst_ops :: RbtOps where
  "bst_ops = \<lparr>rbt_Put = bst_put, rbt_Get = (\<lambda>t. map_of (inorder t)), rbt_Ceiling = (\<lambda>t. bst_ceiling t []),
    rbt_Left = (\<lambda>t. if t = Leaf then [] else descend_left t []), rbt_Pairs = inorder\<rparr>"

lemma map_of_sorted_middle:
  "sorted_pairs (xs @ (a, w) # ys) \<Longrightarrow> map_of (xs @ (a, w) # ys) k =
    (if k < a then map_of xs k else if a < k then map_of ys k else Some w)"
  by (induction xs) (auto simp: map_of_eq_None_iff sorted_pairs_append dest!: map_of_SomeD split: option.splits)


lemma bst_put_keys: "fst ` set (inorder (bst_put t k v)) = insert k (fst ` set (inorder t))"
proof (induction t k v rule: bst_put.induct)
  case (2 l a w r k v)
  consider "k < a" | "\<not> k < a" "a < k" | "k = a" by fastforce
  then show ?case using 2 by cases (simp_all add: image_Un insert_commute)
qed simp

lemma bst_put_sorted: "sorted_pairs (inorder t) \<Longrightarrow> sorted_pairs (inorder (bst_put t k v))"
proof (induction t k v rule: bst_put.induct)
  case (2 l a w r k v)
  have "fst x \<in> insert k (fst ` set (inorder l))" if "x \<in> set (inorder (bst_put l k v))" for x
    using that bst_put_keys [of l k v] 2(3) by (auto simp: sorted_pairs_append)
  moreover have "fst x \<in> insert k (fst ` set (inorder r))" if "x \<in> set (inorder (bst_put r k v))" for x
    using that bst_put_keys [of r k v] 2(3) by (auto simp: sorted_pairs_append)
  ultimately show ?case using 2 by (fastforce simp: sorted_pairs_append)
qed simp

lemma bst_put_map: "sorted_pairs (inorder t) \<Longrightarrow> map_of (inorder (bst_put t k v)) = (map_of (inorder t))(k \<mapsto> v)"
proof (induction t k v rule: bst_put.induct)
  case (2 l a w r k v)
  have s: "sorted_pairs (inorder l @ (a, w) # inorder r)" using 2(3) by simp
  have s': "sorted_pairs (inorder (bst_put (Node l (a, w) r) k v))" using 2(3) by (rule bst_put_sorted)
  have lr: "sorted_pairs (inorder l)" "sorted_pairs (inorder r)" using s by (auto simp: sorted_pairs_append)
  show ?case
  proof
    fix h
    consider "k < a" | "a < k" | "k = a" by fastforce
    then show "map_of (inorder (bst_put (Node l (a, w) r) k v)) h = ((map_of (inorder (Node l (a, w) r)))(k \<mapsto> v)) h"
    proof cases
      case 1
      then show ?thesis
        using 2(1) [OF 1 lr(1)] s' map_of_sorted_middle [OF s, of h] map_of_sorted_middle [of "inorder (bst_put l k v)" a w "inorder r" h]
        by (auto simp del: map_of_append)
    next
      case 2
      then show ?thesis
        using "2.IH"(2) [OF _ 2 lr(2)] s' map_of_sorted_middle [OF s, of h] map_of_sorted_middle [of "inorder l" a w "inorder (bst_put r k v)" h]
        by (auto simp del: map_of_append)
    next
      case 3
      then show ?thesis
        using s' map_of_sorted_middle [OF s, of h] map_of_sorted_middle [of "inorder l" a v "inorder r" h]
        by (auto simp del: map_of_append)
    qed
  qed
qed auto

lemma bst_ceiling_least:
  "sorted_pairs (inorder t) \<Longrightarrow> t \<noteq> Leaf \<longrightarrow> is_path t0 (t # parents) \<Longrightarrow>
    (case bst_ceiling t parents k of [] \<Rightarrow> \<forall>x \<in> set (inorder t). fst x < k
     | n # ps \<Rightarrow> is_path t0 (n # ps) \<and> k \<le> node_key n \<and> (\<forall>x \<in> set (inorder t). k \<le> fst x \<longrightarrow> node_key n \<le> fst x) \<and>
         (\<exists>y \<in> set (inorder t). fst y = node_key n))"
proof (induction t parents k rule: bst_ceiling.induct)
  case (2 l x r parents k)
  obtain a w where x: "x = (a, w)" by (cases x)
  have s: "sorted_pairs (inorder l)" "sorted_pairs (inorder r)"
    "\<forall>y \<in> set (inorder l). fst y < a" "\<forall>y \<in> set (inorder r). a < fst y"
    using 2(3) x by (auto simp: sorted_pairs_append)
  show ?case
  proof (cases "k \<le> fst x")
    case True
    have IH: "case bst_ceiling l (Node l x r # parents) k of [] \<Rightarrow> \<forall>x \<in> set (inorder l). fst x < k
     | n # ps \<Rightarrow> is_path t0 (n # ps) \<and> k \<le> node_key n \<and> (\<forall>x \<in> set (inorder l). k \<le> fst x \<longrightarrow> node_key n \<le> fst x) \<and>
         (\<exists>y \<in> set (inorder l). fst y = node_key n)"
      using 2(1) [OF True s(1)] 2(4) by simp
    show ?thesis
    proof (cases "bst_ceiling l (Node l x r # parents) k")
      case Nil
      then show ?thesis using IH True s 2(4) x by (auto simp: node_key_def less_imp_le)
    next
      case (Cons n ps)
      then have least: "node_key n < a" using IH s(3) by auto
      moreover have "node_key n < fst y" if "y \<in> set (inorder r)" for y
        using least s(4) that less_trans by blast
      ultimately show ?thesis using IH Cons True x by (auto intro: less_imp_le)
    qed
  next
    case False
    then have "case bst_ceiling r (Node l x r # parents) k of [] \<Rightarrow> \<forall>x \<in> set (inorder r). fst x < k
     | n # ps \<Rightarrow> is_path t0 (n # ps) \<and> k \<le> node_key n \<and> (\<forall>x \<in> set (inorder r). k \<le> fst x \<longrightarrow> node_key n \<le> fst x) \<and>
         (\<exists>y \<in> set (inorder r). fst y = node_key n)"
      using 2(2) [OF False s(2)] 2(4) by simp
    then show ?thesis using False s x by (auto simp: not_le split: list.splits)
  qed
qed simp

lemma bst_ops_ok: "rbt_ok bst_ops"
  unfolding rbt_ok_def
proof (intro allI impI conjI)
  fix t :: rbt and k v
  assume s: "sorted_pairs (inorder t)"
  show "sorted_pairs (inorder (rbt_Put bst_ops t k v))" "map_of (inorder (rbt_Put bst_ops t k v)) = (map_of (inorder t))(k \<mapsto> v)"
    "rbt_Get bst_ops t k = map_of (inorder t) k" "rbt_Pairs bst_ops t = inorder t"
    using bst_put_sorted [OF s] bst_put_map [OF s] by (simp_all add: bst_ops_def)
  show "case rbt_Ceiling bst_ops t k of [] \<Rightarrow> \<forall>x \<in> set (inorder t). fst x < k
     | n # parents \<Rightarrow> is_path t (n # parents) \<and> k \<le> node_key n \<and>
         (\<forall>x \<in> set (inorder t). k \<le> fst x \<longrightarrow> node_key n \<le> fst x)"
    using bst_ceiling_least [OF s, of t "[]" k] by (auto simp: bst_ops_def split: list.splits)
  show "case rbt_Left bst_ops t of [] \<Rightarrow> t = Leaf
     | n # parents \<Rightarrow> is_path t (n # parents) \<and> (\<forall>x \<in> set (inorder t). node_key n \<le> fst x)"
  proof (cases "t = Leaf")
    case False
    then have p: "is_path t (descend_left t [])" "pending (descend_left t []) = inorder t"
      using descend_left_path [of t t "[]"] by auto
    obtain n ps where np: "descend_left t [] = n # ps" using p(1) by (cases "descend_left t []") auto
    have "\<forall>x \<in> set (inorder t). node_key n \<le> fst x"
    proof
      fix x assume "x \<in> set (inorder t)"
      then have "x \<in> set (filter (\<lambda>x. node_key n \<le> fst x) (inorder t))" using pending_filter [OF s p(1)] p(2) np by simp
      then show "node_key n \<le> fst x" by simp
    qed
    then show ?thesis using False p(1) np by (simp add: bst_ops_def)
  qed (simp add: bst_ops_def)
qed

end
