(* ===== verification/Flushable_Iterator.thy ===== *)
theory Flushable_Iterator
  imports Flushable_Tree
begin

text \<open>
  The iterator of the flushable store merges the unflushed pairs with those of the
  parent. It ends, and lists the pairs that a reader sees, in order and each once:
  unflushed values hide those of the parent, and deleted keys hide them altogether.
\<close>

section \<open>Merging\<close>

definition overlay_map :: "(bytes \<rightharpoonup> slice) \<Rightarrow> (bytes \<rightharpoonup> bytes) \<Rightarrow> bytes \<rightharpoonup> bytes" where
  "overlay_map mm m k = (case mm k of Some v \<Rightarrow> v | None \<Rightarrow> m k)"

definition emit :: "bytes \<Rightarrow> slice \<Rightarrow> (bytes \<times> bytes) list" where
  "emit k v = (case v of None \<Rightarrow> [] | Some x \<Rightarrow> [(k, x)])"

function overlay_list :: "(bytes \<times> slice) list \<Rightarrow> (bytes \<times> bytes) list \<Rightarrow> (bytes \<times> bytes) list" where
  "overlay_list [] P = P"
| "overlay_list ((k, v) # T) [] = emit k v @ overlay_list T []"
| "overlay_list ((k, v) # T) ((k', v') # P) =
    (if k < k' then emit k v @ overlay_list T ((k', v') # P)
     else if k = k' then emit k v @ overlay_list T P
     else (k', v') # overlay_list ((k, v) # T) P)"
  by pat_completeness auto
termination by (relation "measure (\<lambda>(T, P). length T + length P)") auto

lemma emit_simps [simp]: "emit k None = []" "emit k (Some v) = [(k, v)]"
  by (simp_all add: emit_def)

lemma overlay_list_keys: "x \<in> set (overlay_list T P) \<Longrightarrow> fst x \<in> fst ` set T \<union> fst ` set P"
  by (induction T P rule: overlay_list.induct) (auto simp: emit_def split: if_splits option.splits)

lemma overlay_list_sorted: "sorted_pairs T \<Longrightarrow> sorted_pairs P \<Longrightarrow> sorted_pairs (overlay_list T P)"
proof (induction T P rule: overlay_list.induct)
  case (2 k v T)
  then show ?case using overlay_list_keys [of _ T "[]"] by (cases v) fastforce+
next
  case (3 k v T k' v' P)
  consider "k < k'" | "k = k'" | "k' < k" by fastforce
  then show ?case
  proof cases
    case 1
    have "k < fst x" if "x \<in> set (overlay_list T ((k', v') # P))" for x
      using overlay_list_keys [OF that] 3(4,5) 1 by auto
    then show ?thesis using 3 1 by (cases v) auto
  next
    case 2
    have "k < fst x" if "x \<in> set (overlay_list T P)" for x
      using overlay_list_keys [OF that] 3(4,5) 2 by auto
    then show ?thesis using 3 2 by (cases v) auto
  next
    case less: 3
    have "k' < fst x" if "x \<in> set (overlay_list ((k, v) # T) P)" for x
      using overlay_list_keys [OF that] 3(4,5) less by auto
    then show ?thesis using 3 less by auto
  qed
qed simp

lemma map_of_less: "sorted_pairs ((k', v') # P) \<Longrightarrow> k \<le> k' \<Longrightarrow> map_of P k = None"
  by (force simp: map_of_eq_None_iff)

lemma map_of_overlay_list:
  "sorted_pairs T \<Longrightarrow> sorted_pairs P \<Longrightarrow> map_of (overlay_list T P) = overlay_map (map_of T) (map_of P)"
proof (induction T P rule: overlay_list.induct)
  case (1 P)
  then show ?case by (auto simp: overlay_map_def)
next
  case (2 k v T)
  have "map_of T k = None" using 2(2) by (force simp: map_of_eq_None_iff)
  then show ?case using 2 by (cases v) (auto simp: overlay_map_def fun_eq_iff)
next
  case (3 k v T k' v' P)
  have none: "map_of T k = None" "map_of P k' = None" using 3(4,5) by (force simp: map_of_eq_None_iff)+
  have sorted: "sorted_pairs T" "sorted_pairs P" using 3(4,5) by simp_all
  consider "k < k'" | "\<not> k < k'" "k = k'" | "\<not> k < k'" "k \<noteq> k'" by fastforce
  then show ?case
  proof cases
    case 1
    then have "map_of P k = None" using map_of_less [OF 3(5)] by simp
    then show ?thesis
      using 3(1) [OF 1 sorted(1) 3(5)] 1 none by (cases v) (simp_all add: overlay_map_def fun_eq_iff)
  next
    case 2
    then show ?thesis
      using 3(2) [OF 2 sorted] none by (cases v) (simp_all add: overlay_map_def fun_eq_iff)
  next
    case less: 3
    then have "map_of T k' = None" using 3(4) by (force simp: map_of_eq_None_iff)
    then show ?thesis using 3(3) [OF less 3(4) sorted(2)] less none by (simp add: overlay_map_def fun_eq_iff)
  qed
qed

text \<open>Taking the head of the tree's list when it is not above the parent's.\<close>

definition later :: "slice \<Rightarrow> bytes \<Rightarrow> bool" where
  "later prev k \<longleftrightarrow> prev = None \<or> bytes_of prev < k"

lemma overlay_list_head:
  assumes "sorted_pairs P" "\<forall>x \<in> set P. k \<le> fst x" "later prev k"
  shows "overlay_list ((k, v) # T) (filter (\<lambda>x. later prev (fst x)) P) =
    emit k v @ overlay_list T (filter (\<lambda>x. later (Some k) (fst x)) P)"
proof -
  have all: "later prev (fst x)" if "x \<in> set P" for x
    using assms(2,3) that less_le_trans by (auto simp: later_def)
  then have P: "filter (\<lambda>x. later prev (fst x)) P = P" by simp
  show ?thesis
  proof (cases P)
    case (Cons x P')
    obtain k' v' where x: "x = (k', v')" by (cases x)
    have tail: "filter (\<lambda>x. k < fst x) P' = P'"
      using assms(1,2) Cons x by (intro filter_True) (auto intro: le_less_trans)
    show ?thesis
      using assms(2) Cons x P tail by (auto simp: later_def less_le_not_le)
  qed simp
qed


section \<open>The position of an iterator\<close>

text \<open>
  The pairs \<^verbatim>\<open>Q\<close> of the tree and \<^verbatim>\<open>P\<close> of the parent are those that the iterator has not yet
  passed; the parent's iterator already stands on the first of \<^verbatim>\<open>P\<close>.
\<close>

definition positioned :: "('u, 'i) IteratedReader \<Rightarrow> rbt \<Rightarrow> 'i flushableIterator \<Rightarrow>
    (bytes \<times> slice) list \<Rightarrow> (bytes \<times> bytes) list \<Rightarrow> bool" where
  "positioned R t it Q P \<longleftrightarrow> it_Error R (fi_parentIt it) = None \<and>
    (if fi_treeOk it then is_path t (fi_treeNode it) \<and> Q = pending (fi_treeNode it) else Q = []) \<and>
    (if fi_parentOk it
     then P \<noteq> [] \<and> it_Key R (fi_parentIt it) = Some (fst (hd P)) \<and> it_Value R (fi_parentIt it) = Some (snd (hd P)) \<and>
       iterates R (fi_parentIt it) (tl P)
     else P = []) \<and>
    sorted_pairs Q \<and> sorted_pairs P \<and> (\<forall>x \<in> set Q. later (fi_prevKey it) (fst x) \<and> bytes_of (fi_prefix it) \<le> fst x) \<and>
    (\<forall>x \<in> set P. prefix (bytes_of (fi_prefix it)) (fst x))"

definition listing :: "'i flushableIterator \<Rightarrow> (bytes \<times> slice) list \<Rightarrow> (bytes \<times> bytes) list \<Rightarrow> (bytes \<times> bytes) list" where
  "listing it Q P = overlay_list (filter (\<lambda>x. prefix (bytes_of (fi_prefix it)) (fst x)) Q)
    (filter (\<lambda>x. later (fi_prevKey it) (fst x)) P)"

lemma isSuitable_eq:
  "isSuitable it (Some k) = (if prefix (bytes_of (fi_prefix it)) k then (later (fi_prevKey it) k, True) else (False, False))"
  by (cases "fi_prefix it") (auto simp: isSuitable_def later_def)

lemma positioned_pending:
  assumes "positioned R t it Q P" "fi_treeOk it" "Q = (k, v) # Q'"
  shows "castToPair (fi_treeNode it) = (Some k, v)" "is_path t (fi_treeNode it)" "pending (fi_treeNode it) = (k, v) # Q'"
proof -
  have p: "is_path t (fi_treeNode it)" "pending (fi_treeNode it) = (k, v) # Q'"
    using assms by (simp_all add: positioned_def)
  then show "is_path t (fi_treeNode it)" "pending (fi_treeNode it) = (k, v) # Q'" by blast+
  obtain n parents where "fi_treeNode it = n # parents" using p(1) by (cases "fi_treeNode it") auto
  then show "castToPair (fi_treeNode it) = (Some k, v)" using p(2) by (simp add: castToPair_def node_key_def)
qed

text \<open>Past the prefix there is nothing more to list.\<close>

lemma past_prefix:
  assumes "sorted_pairs ((k, v) # Q')" "pre \<le> k" "\<not> prefix pre k"
  shows "filter (\<lambda>x. prefix pre (fst x)) ((k, v) # Q') = []"
proof -
  have "\<not> prefix pre (fst x)" if "x \<in> set Q'" for x
    using prefix_between [of pre k "fst x"] assms that less_imp_le [of k "fst x"] by auto
  then show ?thesis using assms(3) by (auto simp: filter_empty_conv)
qed

lemma tree_step_listing:
  assumes sorted: "sorted_pairs (inorder t)" and pos: "positioned R t it Q P" and ok: "fi_treeOk it"
    and Q: "Q = (k, v) # Q'" and le: "\<forall>x \<in> set P. k \<le> fst x"
  obtains found it' Q'' where "tree_step it = (found, it')" "positioned R t it' Q'' P" "length Q'' < length Q"
    "fi_prefix it' = fi_prefix it" "fi_parentOk it' = fi_parentOk it" "fi_parentIt it' = fi_parentIt it"
    "if found then \<exists>w. listing it Q P = (k, w) # listing it' Q'' P \<and> fi_key it' = Some k \<and> fi_val it' = Some w
     else listing it Q P = listing it' Q'' P"
proof -
  let ?pre = "bytes_of (fi_prefix it)"
  note node = positioned_pending [OF pos ok Q]
  note next_node = nextNode_pending [OF sorted node(2)]
  have s: "sorted_pairs Q" "sorted_pairs P" "later (fi_prevKey it) k" "?pre \<le> k" "\<forall>x \<in> set Q'. k < fst x"
    using pos Q by (auto simp: positioned_def)
  have gt: "\<forall>x \<in> set Q'. later (Some k) (fst x)" using s(5) by (simp add: later_def)
  let ?adv = "it\<lparr>fi_prevKey := Some k, fi_treeNode := nextNode (fi_treeNode it), fi_treeOk := nextNode (fi_treeNode it) \<noteq> []\<rparr>"
  have adv: "positioned R t ?adv Q' P"
    using pos Q node(3) next_node gt by (auto simp: positioned_def)
  have head: "listing it Q P = emit k v @ listing ?adv Q' P" if "prefix ?pre k"
    using overlay_list_head [OF s(2) le s(3)] that Q by (simp add: listing_def)
  show thesis
  proof (cases v)
    case (Some w)
    show thesis
    proof (cases "prefix ?pre k")
      case True
      let ?it = "it\<lparr>fi_key := Some k, fi_val := Some w, fi_prevKey := Some k, fi_treeNode := nextNode (fi_treeNode it),
        fi_treeOk := nextNode (fi_treeNode it) \<noteq> []\<rparr>"
      have "tree_step it = (True, ?it)" using node(1) Some s(3) True ok by (simp add: tree_step_def isSuitable_eq)
      moreover have "positioned R t ?it Q' P" using adv by (simp add: positioned_def cong: if_cong)
      moreover have "listing it Q P = (k, w) # listing ?it Q' P" using head True Some by (simp add: listing_def)
      ultimately show thesis using that [of True ?it Q'] Q by simp
    next
      case False
      have empty: "filter (\<lambda>x. prefix ?pre (fst x)) Q = []" using past_prefix [of k v Q' ?pre] s False Q by simp
      let ?it = "it\<lparr>fi_treeOk := False\<rparr>"
      have "tree_step it = (False, ?it)" using node(1) Some False ok by (simp add: tree_step_def isSuitable_eq)
      moreover have "positioned R t ?it [] P" using pos by (simp add: positioned_def)
      moreover have "listing it Q P = listing ?it [] P" using empty by (simp add: listing_def)
      ultimately show thesis using that [of False ?it "[]"] Q by simp
    qed
  next
    case None
    have "tree_step it = (False, ?adv)" using node(1) None ok by (simp add: tree_step_def)
    moreover have "listing it Q P = listing ?adv Q' P"
    proof (cases "prefix ?pre k")
      case True
      then show ?thesis using head None by simp
    next
      case False
      then have "P = []" using pos le s(4) prefix_between [of ?pre k] by (cases P) (auto simp: positioned_def)
      moreover have "filter (\<lambda>x. prefix ?pre (fst x)) Q = []" using past_prefix [of k v Q' ?pre] s False Q by simp
      ultimately show ?thesis using Q False by (simp add: listing_def)
    qed
    ultimately show thesis using that [of False ?adv Q'] adv Q by simp
  qed
qed

lemma tree_loop_listing:
  assumes sorted: "sorted_pairs (inorder t)"
  shows "positioned R t it Q P \<Longrightarrow> \<exists>found it' Q'. tree_loop R it = Some (found, it') \<and> positioned R t it' Q' P \<and>
    fi_prefix it' = fi_prefix it \<and> fi_parentOk it' = fi_parentOk it \<and> length Q' \<le> length Q \<and>
    (if found then \<exists>k w. listing it Q P = (k, w) # listing it' Q' P \<and> fi_key it' = Some k \<and> fi_val it' = Some w
     else listing it Q P = listing it' Q' P \<and> (Q' = [] \<or> (P \<noteq> [] \<and> fst (hd P) < fst (hd Q'))))"
proof (induction "length Q" arbitrary: it Q rule: less_induct)
  case less
  show ?case
  proof (cases "fi_treeOk it \<and> (\<not> fi_parentOk it \<or>
      bytes_of (fst (castToPair (fi_treeNode it))) \<le> bytes_of (it_Key R (fi_parentIt it)))")
    case True
    have "Q \<noteq> []" using True less.prems by (cases "fi_treeNode it") (auto simp: positioned_def)
    then obtain k v Q' where Q: "Q = (k, v) # Q'" by (metis list.exhaust surj_pair)
    have le: "\<forall>x \<in> set P. k \<le> fst x"
    proof (cases P)
      case (Cons y P')
      then have "k \<le> fst y" using True less.prems positioned_pending(1) [OF less.prems _ Q]
        by (auto simp: positioned_def split: if_splits)
      moreover have "\<forall>x \<in> set P'. fst y < fst x" using less.prems Cons by (cases y) (auto simp: positioned_def)
      ultimately show ?thesis using Cons by (auto intro: less_imp_le le_less_trans)
    qed simp
    obtain found it1 Q1 where step: "tree_step it = (found, it1)" "positioned R t it1 Q1 P" "length Q1 < length Q"
      "fi_prefix it1 = fi_prefix it" "fi_parentOk it1 = fi_parentOk it"
      "if found then \<exists>w. listing it Q P = (k, w) # listing it1 Q1 P \<and> fi_key it1 = Some k \<and> fi_val it1 = Some w
       else listing it Q P = listing it1 Q1 P"
      using tree_step_listing [OF sorted less.prems _ Q le] True by metis
    have unfold: "tree_loop R it = (if found then Some (True, it1) else tree_loop R it1)"
      using True step(1) by (subst tree_loop.simps) simp
    show ?thesis
    proof (cases found)
      case True
      then show ?thesis using step unfold by (intro exI [of _ True] exI [of _ it1] exI [of _ Q1]) auto
    next
      case False
      then show ?thesis using less.hyps [OF step(3,2)] step unfold by (fastforce split: if_splits)
    qed
  next
    case False
    then have "tree_loop R it = Some (False, it)" by (subst tree_loop.simps) (rule if_not_P)
    moreover have "Q = [] \<or> (P \<noteq> [] \<and> fst (hd P) < fst (hd Q))"
    proof (cases Q)
      case (Cons y Q')
      obtain k v where y: "y = (k, v)" by (cases y)
      have treeOk: "fi_treeOk it" using less.prems Cons by (auto simp: positioned_def split: if_splits)
      have "castToPair (fi_treeNode it) = (Some k, v)" using positioned_pending(1) [OF less.prems treeOk] Cons y by simp
      moreover have "fi_parentOk it \<longrightarrow> P \<noteq> [] \<and> it_Key R (fi_parentIt it) = Some (fst (hd P))"
        using less.prems by (simp add: positioned_def)
      ultimately show ?thesis using False treeOk Cons y by (auto simp: not_le)
    qed simp
    ultimately show ?thesis using less.prems by (intro exI [of _ False] exI [of _ it] exI [of _ Q]) simp
  qed
qed


lemma parent_step_listing:
  assumes pos: "positioned R t it Q P" and P: "P = (k, w) # P'" and Q: "Q = [] \<or> k < fst (hd Q)"
  obtains found it' where "parent_step R it = Some (found, it')" "positioned R t it' Q P'" "fi_prefix it' = fi_prefix it"
    "if found then listing it Q P = (k, w) # listing it' Q P' \<and> fi_key it' = Some k \<and> fi_val it' = Some w
     else listing it Q P = listing it' Q P'"
proof -
  have ok: "fi_parentOk it" and key: "it_Key R (fi_parentIt it) = Some k" "it_Value R (fi_parentIt it) = Some w"
    and its: "iterates R (fi_parentIt it) P'" and pre: "prefix (bytes_of (fi_prefix it)) k"
    using pos P by (auto simp: positioned_def split: if_splits)
  have sorted: "sorted_pairs Q" "sorted_pairs P'" "\<forall>x \<in> set P'. k < fst x" using pos P by (auto simp: positioned_def)
  obtain pok pit where nxt: "it_Next R (fi_parentIt it) = Some (pok, pit)"
    and pit: "it_Error R pit = None" "if pok then P' \<noteq> [] \<and> it_Key R pit = Some (fst (hd P')) \<and>
      it_Value R pit = Some (snd (hd P')) \<and> iterates R pit (tl P') else P' = []"
    by (rule iterates_Next [OF its])
  have gtQ: "\<forall>x \<in> set Q. k < fst x"
  proof (cases Q)
    case (Cons y ys)
    then have "k < fst y" "\<forall>x \<in> set ys. fst y < fst x" using Q sorted(1) by (cases y; auto)+
    then show ?thesis using Cons by (auto intro: less_trans)
  qed simp
  let ?later = "later (fi_prevKey it) k"
  let ?it1 = "if ?later then it\<lparr>fi_parentOk := pok, fi_key := Some k, fi_val := Some w, fi_prevKey := Some k, fi_parentIt := pit\<rparr>
    else it\<lparr>fi_parentOk := pok, fi_parentIt := pit\<rparr>"
  have step: "parent_step R it = Some (?later, ?it1)"
    using key nxt pre by (simp add: parent_step_def isSuitable_eq)
  have pos1: "positioned R t ?it1 Q P'"
    using pos P pit sorted gtQ by (auto simp: positioned_def later_def)
  show thesis
  proof (cases ?later)
    case True
    let ?F = "filter (\<lambda>x. prefix (bytes_of (fi_prefix it)) (fst x)) Q"
    have all: "filter (\<lambda>x. later (fi_prevKey it) (fst x)) P' = P'" "filter (\<lambda>x. later (Some k) (fst x)) P' = P'"
      using True sorted(3) by (auto intro!: filter_True simp: later_def intro: less_trans)
    have "overlay_list ?F ((k, w) # P') = (k, w) # overlay_list ?F P'"
    proof (cases ?F)
      case (Cons y ys)
      then have "y \<in> set ?F" by simp
      then have "k < fst y" using gtQ by simp
      then show ?thesis unfolding Cons by (cases y) auto
    qed simp
    then have "listing it Q P = (k, w) # listing ?it1 Q P'" using True all P by (simp add: listing_def)
    then show thesis using that [OF step pos1] True by simp
  next
    case False
    then show thesis using that [OF step pos1] P by (simp add: listing_def)
  qed
qed

lemma next_loop_listing:
  assumes sorted: "sorted_pairs (inorder t)"
  shows "positioned R t it Q P \<Longrightarrow> \<exists>found it' Q' P'. next_loop R it = Some (found, it') \<and> positioned R t it' Q' P' \<and>
    fi_prefix it' = fi_prefix it \<and>
    (if found then \<exists>k w. listing it Q P = (k, w) # listing it' Q' P' \<and> fi_key it' = Some k \<and> fi_val it' = Some w
     else listing it Q P = [])"
proof (induction "length P" arbitrary: it Q P rule: less_induct)
  case less
  show ?case
  proof (cases "fi_treeOk it \<or> fi_parentOk it")
    case False
    then have "next_loop R it = Some (False, it)" by (subst next_loop.simps) simp
    moreover have "Q = []" "P = []" using False less.prems by (auto simp: positioned_def)
    ultimately show ?thesis
      using less.prems by (intro exI [of _ False] exI [of _ it] exI [of _ Q] exI [of _ P]) (simp add: listing_def)
  next
    case True
    obtain found it1 Q1 where t1: "tree_loop R it = Some (found, it1)" "positioned R t it1 Q1 P"
      "fi_prefix it1 = fi_prefix it" "fi_parentOk it1 = fi_parentOk it"
      "if found then \<exists>k w. listing it Q P = (k, w) # listing it1 Q1 P \<and> fi_key it1 = Some k \<and> fi_val it1 = Some w
       else listing it Q P = listing it1 Q1 P \<and> (Q1 = [] \<or> (P \<noteq> [] \<and> fst (hd P) < fst (hd Q1)))"
      using tree_loop_listing [OF sorted less.prems] by blast
    have skip: "(if fi_treeOk it then tree_loop R it else Some (False, it)) = tree_loop R it"
      using tree_loop.simps [of R it] by simp
    have unfold: "next_loop R it = (if found then Some (True, it1)
       else if fi_parentOk it1
       then Option.bind (parent_step R it1) (\<lambda>(found, it2). if found then Some (True, it2) else next_loop R it2)
       else next_loop R it1)"
      using True t1(1) skip by (subst next_loop.simps) simp
    show ?thesis
    proof (cases found)
      case True
      then show ?thesis using t1 unfold by (intro exI [of _ True] exI [of _ it1] exI [of _ Q1] exI [of _ P]) auto
    next
      case nf: False
      show ?thesis
      proof (cases P)
        case Nil
        have "\<not> fi_parentOk it1" "\<not> fi_treeOk it1" using t1(2,5) nf Nil by (auto simp: positioned_def pending_def split: list.splits)
        then have "next_loop R it1 = Some (False, it1)" by (subst next_loop.simps) simp
        then show ?thesis
          using unfold nf \<open>\<not> fi_parentOk it1\<close> t1 Nil
          by (intro exI [of _ False] exI [of _ it1] exI [of _ Q1] exI [of _ P]) (auto simp: listing_def)
      next
        case (Cons y P')
        obtain k w where y: "y = (k, w)" by (cases y)
        have pok: "fi_parentOk it1" using t1(2) Cons by (auto simp: positioned_def split: if_splits)
        obtain found2 it2 where p: "parent_step R it1 = Some (found2, it2)" "positioned R t it2 Q1 P'" "fi_prefix it2 = fi_prefix it1"
          "if found2 then listing it1 Q1 P = (k, w) # listing it2 Q1 P' \<and> fi_key it2 = Some k \<and> fi_val it2 = Some w
           else listing it1 Q1 P = listing it2 Q1 P'"
          using parent_step_listing [OF t1(2), of k w P'] Cons y t1(5) nf by auto
        have unfold2: "next_loop R it = (if found2 then Some (True, it2) else next_loop R it2)"
          using unfold nf pok p(1) by simp
        have eq: "listing it Q P = listing it1 Q1 P" using t1(5) nf by simp
        show ?thesis
        proof (cases found2)
          case True
          then show ?thesis
            using unfold2 p t1(3) eq by (intro exI [of _ True] exI [of _ it2] exI [of _ Q1] exI [of _ P']) simp
        next
          case False
          have "length P' < length P" using Cons by simp
          note IH = less.hyps [OF this p(2)]
          have same: "listing it Q P = listing it2 Q1 P'" "next_loop R it = next_loop R it2" "fi_prefix it2 = fi_prefix it"
            using False p(3,4) t1(3) eq unfold2 by simp_all
          show ?thesis unfolding same using IH unfolding same .
        qed
      qed
    qed
  qed
qed


lemma flush_iterates:
  assumes "sorted_pairs (inorder t)"
  shows "positioned R t it Q P \<Longrightarrow> iterates (flushable_reader T R) (FlushIt it) (listing it Q P)"
proof (induction "listing it Q P" arbitrary: it Q P)
  case Nil
  obtain found it' Q' P' where n: "next_loop R it = Some (found, it')" "positioned R t it' Q' P'"
    "if found then \<exists>k w. listing it Q P = (k, w) # listing it' Q' P' \<and> fi_key it' = Some k \<and> fi_val it' = Some w
     else listing it Q P = []"
    using next_loop_listing [OF assms Nil(2)] by blast
  then have "\<not> found" using Nil(1) by auto
  moreover have "it_Error R (fi_parentIt it) = None" "it_Error R (fi_parentIt it') = None"
    using Nil(2) n(2) by (simp_all add: positioned_def)
  ultimately show ?case
    using n(1) Nil(1) [symmetric] by (simp add: flushable_reader_def flush_it_Next_def flush_it_Error_def)
next
  case (Cons x xs)
  obtain found it' Q' P' where n: "next_loop R it = Some (found, it')" "positioned R t it' Q' P'"
    "if found then \<exists>k w. listing it Q P = (k, w) # listing it' Q' P' \<and> fi_key it' = Some k \<and> fi_val it' = Some w
     else listing it Q P = []"
    using next_loop_listing [OF assms Cons(3)] by blast
  have found: "found" using n(3) Cons(2) by (cases found) auto
  then obtain k w where kw: "listing it Q P = (k, w) # listing it' Q' P'" "fi_key it' = Some k" "fi_val it' = Some w"
    using n(3) by auto
  have "it_Error R (fi_parentIt it) = None" using Cons(3) by (simp add: positioned_def)
  moreover have "iterates (flushable_reader T R) (FlushIt it') (listing it' Q' P')"
    using Cons(1) [OF _ n(2)] Cons(2) kw(1) by simp
  ultimately show ?case
    using n(1) found kw
    by (simp add: flushable_reader_def flush_it_Next_def flush_it_Error_def flush_it_Key_def flush_it_Value_def)
qed

section \<open>The reader\<close>

definition flushable_content :: "('u \<Rightarrow> bytes \<rightharpoonup> bytes) \<Rightarrow> 'u flushableReader \<Rightarrow> bytes \<rightharpoonup> bytes" where
  "flushable_content content w =
    overlay_map (case fr_modified w of None \<Rightarrow> Map.empty | Some t \<Rightarrow> map_of (inorder t)) (content (fr_underlying w))"

definition flushable_usable :: "('u \<Rightarrow> bool) \<Rightarrow> 'u flushableReader \<Rightarrow> bool" where
  "flushable_usable usable w \<longleftrightarrow>
    (case fr_modified w of None \<Rightarrow> False | Some t \<Rightarrow> sorted_pairs (inorder t)) \<and> usable (fr_underlying w)"

lemma overlay_range:
  assumes "sorted_pairs Q" "finite (dom m)"
  shows "overlay_list (filter (\<lambda>x. prefix pre (fst x)) (filter (\<lambda>x. pre @ st \<le> fst x) Q)) (range_list m pre st) =
    range_list (overlay_map (map_of Q) m) pre st"
proof (rule range_list_eqI [symmetric])
  have "dom (overlay_map (map_of Q) m) \<subseteq> dom (map_of Q) \<union> dom m"
    by (auto simp: overlay_map_def split: option.splits)
  then show "finite (dom (overlay_map (map_of Q) m))" using assms(2) finite_dom_map_of [of Q] finite_subset by fastforce
  show "sorted_pairs (overlay_list (filter (\<lambda>x. prefix pre (fst x)) (filter (\<lambda>x. pre @ st \<le> fst x) Q)) (range_list m pre st))"
    by (intro overlay_list_sorted sorted_pairs_filter sorted_pairs_range_list assms(1))
  fix k
  have f: "map_of (filter (\<lambda>x. p (fst x)) xs) k = (if p k then map_of xs k else None)" for p and xs :: "(bytes \<times> slice) list"
    by (induction xs) auto
  show "map_of (overlay_list (filter (\<lambda>x. prefix pre (fst x)) (filter (\<lambda>x. pre @ st \<le> fst x) Q)) (range_list m pre st)) k =
    (if prefix pre k \<and> pre @ st \<le> k then overlay_map (map_of Q) m k else None)"
    by (simp add: map_of_overlay_list sorted_pairs_filter sorted_pairs_range_list assms(1) overlay_map_def
        f [of "\<lambda>k. pre @ st \<le> k \<and> prefix pre k"] map_of_range_list [OF assms(2), of pre st k]
        split: option.split)
qed

locale flushable_over = kv_reader R content usable
  for R :: "('u, 'i) IteratedReader" and content :: "'u \<Rightarrow> bytes \<rightharpoonup> bytes" and usable :: "'u \<Rightarrow> bool" +
  fixes T :: RbtOps
  assumes tree_ok: "rbt_ok T"
begin

lemma NewIterator_positioned:
  fixes pre st :: slice
  assumes w: "fr_modified w = Some t" "sorted_pairs (inorder t)" "usable (fr_underlying w)"
  defines "Q \<equiv> filter (\<lambda>x. bytes_of pre @ bytes_of st \<le> fst x) (inorder t)"
    and "P \<equiv> range_list (content (fr_underlying w)) (bytes_of pre) (bytes_of st)"
  shows "\<exists>it. flushable_NewIterator T R w pre st = Some (FlushIt it) \<and> positioned R t it Q P \<and>
    fi_prefix it = pre \<and> fi_prevKey it = None"
proof -
  let ?start = "bytes_of pre @ bytes_of st"
  obtain pit where pit: "rd_NewIterator R (fr_underlying w) pre st = Some pit" "iterates R pit P"
    using iterates_content [OF w(3)] unfolding P_def by blast
  obtain pok pit' where nxt: "it_Next R pit = Some (pok, pit')" "it_Error R pit' = None"
    "if pok then P \<noteq> [] \<and> it_Key R pit' = Some (fst (hd P)) \<and> it_Value R pit' = Some (snd (hd P)) \<and> iterates R pit' (tl P)
     else P = []"
    by (rule iterates_Next [OF pit(2)])
  define node where "node = (if length ?start \<noteq> 0 then rbt_Ceiling T t ?start else rbt_Left T t)"
  have node: "pending node = Q" "node = [] \<or> is_path t node"
    using rbt_Ceiling_pending [OF tree_ok w(2), of ?start] rbt_Left_pending [OF tree_ok w(2)]
    by (auto simp: node_def Q_def)
  let ?it = "\<lparr>fi_key = None, fi_val = None, fi_prevKey = None, fi_parentIt = pit', fi_parentOk = pok,
    fi_treeNode = node, fi_treeOk = node \<noteq> [], fi_start = Some ?start, fi_prefix = pre\<rparr>"
  have "flushable_NewIterator T R w pre st = Some (FlushIt ?it)"
    using w(1) pit(1) nxt(1) by (simp add: flushable_NewIterator_def iterator_init_def node_def Let_def)
  moreover have "prefix (bytes_of pre) (fst x)" if "x \<in> set P" for x
    using that set_range_list [OF finite_content [OF w(3)]] by (auto simp: P_def)
  moreover have "bytes_of pre \<le> fst x" if "x \<in> set Q" for x
    using that prefix_le [of "bytes_of pre" ?start] by (auto simp: Q_def)
  ultimately have "positioned R t ?it Q P"
    using nxt node w(2) sorted_pairs_filter [OF w(2)] sorted_pairs_range_list
    unfolding positioned_def by (auto simp: later_def Q_def P_def)
  then show ?thesis using \<open>flushable_NewIterator T R w pre st = Some (FlushIt ?it)\<close> by auto
qed

lemma NewIterator_content:
  assumes "flushable_usable usable w"
  shows "\<exists>it. flushable_NewIterator T R w pre st = Some it \<and>
    iterates (flushable_reader T R) it (range_list (flushable_content content w) (bytes_of pre) (bytes_of st))"
proof -
  obtain t where w: "fr_modified w = Some t" "sorted_pairs (inorder t)" "usable (fr_underlying w)"
    using assms by (auto simp: flushable_usable_def split: option.splits)
  obtain it where it: "flushable_NewIterator T R w pre st = Some (FlushIt it)"
    "positioned R t it (filter (\<lambda>x. bytes_of pre @ bytes_of st \<le> fst x) (inorder t))
       (range_list (content (fr_underlying w)) (bytes_of pre) (bytes_of st))"
    "fi_prefix it = pre" "fi_prevKey it = None"
    using NewIterator_positioned [OF w] by blast
  show ?thesis
    using it flush_iterates [OF w(2) it(2), of T] overlay_range [OF w(2) finite_content [OF w(3)], of "bytes_of pre" "bytes_of st"] w(1)
    by (simp add: listing_def later_def flushable_content_def)
qed

end

sublocale flushable_over \<subseteq> flushed: kv_reader "flushable_reader T R" "flushable_content content" "flushable_usable usable"
proof
  fix w :: "'u flushableReader" and k :: slice and pre st :: slice
  assume u: "flushable_usable usable w"
  then obtain t where w: "fr_modified w = Some t" "sorted_pairs (inorder t)" "usable (fr_underlying w)"
    by (auto simp: flushable_usable_def split: option.splits)
  have "dom (flushable_content content w) \<subseteq> dom (map_of (inorder t)) \<union> dom (content (fr_underlying w))"
    using w(1) by (auto simp: flushable_content_def overlay_map_def split: option.splits)
  then show "finite (dom (flushable_content content w))"
    using finite_content [OF w(3)] finite_dom_map_of [of "inorder t"] finite_subset by fastforce
  show "rd_Has (flushable_reader T R) w k = Inr (flushable_content content w (bytes_of k) \<noteq> None)"
    "rd_Get (flushable_reader T R) w k = Inr (flushable_content content w (bytes_of k))"
    using w rbt_okD(3) [OF tree_ok w(2)] Has_content [OF w(3)] Get_content [OF w(3)]
    by (simp_all add: flushable_reader_def flushable_Has_def flushable_Get_def flushable_content_def overlay_map_def
        split: option.split)
  show "\<exists>it. rd_NewIterator (flushable_reader T R) w pre st = Some it \<and>
      iterates (flushable_reader T R) it (range_list (flushable_content content w) (bytes_of pre) (bytes_of st))"
    using NewIterator_content [OF u] by (simp add: flushable_reader_def)
qed

context flushable_over
begin

lemma flushed_is_reader: "kv_reader (flushable_reader T R) (flushable_content content) (flushable_usable usable)"
  by (rule flushed.kv_reader_axioms)

end

end
