(* ===== verification/Flushable_Correct.thy ===== *)
theory Flushable_Correct
  imports Flushable_Iterator
begin

text \<open>
  The flushable store meets the contract of stores over any parent that can be read and
  snapshotted, and \<^verbatim>\<open>Flush\<close> moves the collected writes to the parent without a change of
  what a reader sees.
\<close>

section \<open>Writes to the tree\<close>

abbreviation fl_content :: "('u \<Rightarrow> bytes \<rightharpoonup> bytes) \<Rightarrow> 'u Flushable \<Rightarrow> bytes \<rightharpoonup> bytes" where
  "fl_content content w \<equiv> flushable_content content (fl_reader w)"

abbreviation fl_usable :: "('u \<Rightarrow> bool) \<Rightarrow> 'u Flushable \<Rightarrow> bool" where
  "fl_usable usable w \<equiv> flushable_usable usable (fl_reader w)"

lemma fl_usableE:
  assumes "fl_usable usable w"
  obtains t where "fr_modified (fl_reader w) = Some t" "sorted_pairs (inorder t)" "usable (fr_underlying (fl_reader w))"
  using assms by (auto simp: flushable_usable_def split: option.splits)

lemma set_modified_content:
  "fr_modified (fl_reader w) = Some t \<Longrightarrow> map_of (inorder t') = (map_of (inorder t))(k \<mapsto> v) \<Longrightarrow>
    fl_content content (set_modified w (Some t') n) = (fl_content content w)(k := v)"
  by (auto simp: flushable_content_def set_modified_def overlay_map_def fun_eq_iff)

lemma write_to_tree:
  assumes "rbt_ok T" "fl_usable usable w" "fr_modified (fl_reader w) = Some t"
  shows "fl_usable usable (set_modified w (Some (rbt_Put T t k v)) n)"
    "fl_content content (set_modified w (Some (rbt_Put T t k v)) n) = (fl_content content w)(k := v)"
proof -
  have t: "sorted_pairs (inorder t)" using assms(2,3) by (auto elim: fl_usableE)
  show "fl_usable usable (set_modified w (Some (rbt_Put T t k v)) n)"
    using assms(2,3) rbt_okD(1) [OF assms(1) t] by (simp add: flushable_usable_def set_modified_def)
  show "fl_content content (set_modified w (Some (rbt_Put T t k v)) n) = (fl_content content w)(k := v)"
    by (rule set_modified_content [OF assms(3) rbt_okD(2) [OF assms(1) t]])
qed

lemma flushable_put_ok:
  assumes "rbt_ok T" "fl_usable usable w"
  shows "\<exists>w'. flushable_put T w k v = (None, w') \<and> fl_usable usable w' \<and>
    fl_content content w' = (fl_content content w)(bytes_of k := v) \<and> fr_underlying (fl_reader w') = fr_underlying (fl_reader w)"
  using assms(2) write_to_tree [OF assms]
  by (auto simp: flushable_put_def set_modified_def elim!: fl_usableE)

lemma flushable_Delete_ok:
  assumes "rbt_ok T" "fl_usable usable w"
  shows "\<exists>w'. flushable_Delete T w k = (None, w') \<and> fl_usable usable w' \<and>
    fl_content content w' = (fl_content content w)(bytes_of k := None) \<and> fr_underlying (fl_reader w') = fr_underlying (fl_reader w)"
  using assms(2) write_to_tree [OF assms]
  by (auto simp: flushable_Delete_def set_modified_def elim!: fl_usableE)

lemma flushable_Put_ok:
  assumes "rbt_ok T" "fl_usable usable w"
  shows "\<exists>w'. flushable_Put T w (Some k) (Some v) = (None, w') \<and> fl_usable usable w' \<and>
    fl_content content w' = (fl_content content w)(k \<mapsto> v) \<and> fr_underlying (fl_reader w') = fr_underlying (fl_reader w)"
  using flushable_put_ok [OF assms, of "Some k" "Some v"] by (simp add: flushable_Put_def)

section \<open>Batches\<close>

definition cache_writes :: "cacheBatch \<Rightarrow> (bytes \<times> slice) list" where
  "cache_writes b = map (\<lambda>(k, v). (bytes_of k, v)) (cb_writes b)"

lemma cacheBatch_ok: "batch_ok (kv_batch_ops (flushable_Store T S)) cache_writes"
  by (simp add: batch_ok_def flushable_Store_def cacheBatch_Put_def cacheBatch_Delete_def cacheBatch_Reset_def cache_writes_def)

lemma cacheBatch_write_loop_ok:
  assumes "rbt_ok T"
  shows "fl_usable usable w \<Longrightarrow> fl_usable usable (cacheBatch_write_loop T ws w) \<and>
    fl_content content (cacheBatch_write_loop T ws w) = apply_writes (map (\<lambda>(k, v). (bytes_of k, v)) ws) (fl_content content w)"
proof (induction ws arbitrary: w)
  case (Cons x ws)
  obtain k v where x: "x = (k, v)" by (cases x)
  define w1 where "w1 = snd (if v = None then flushable_Delete T w k else flushable_put T w k v)"
  have "fl_usable usable w1" "fl_content content w1 = (fl_content content w)(bytes_of k := v)"
    using flushable_Delete_ok [OF assms Cons.prems, of k content] flushable_put_ok [OF assms Cons.prems, of k v content]
    by (auto simp: w1_def)
  moreover have "cacheBatch_write_loop T (x # ws) w = cacheBatch_write_loop T ws w1" by (simp add: x w1_def)
  ultimately show ?case
    using Cons.IH [of w1] unfolding x by (simp del: fun_upd_apply cacheBatch_write_loop.simps)
qed simp

lemma cacheBatch_Write_ok:
  assumes "rbt_ok T" "fl_usable usable w"
  shows "\<exists>w'. cacheBatch_Write T b w = (None, w') \<and> fl_usable usable w' \<and>
    fl_content content w' = apply_writes (cache_writes b) (fl_content content w)"
  using cacheBatch_write_loop_ok [OF assms] assms(2)
  by (auto simp: cacheBatch_Write_def cache_writes_def flushable_usable_def split: option.splits)

section \<open>Snapshots\<close>

lemma copy_tree:
  assumes "rbt_ok T"
  shows "sorted_pairs (inorder c) \<Longrightarrow> sorted_pairs (inorder (fold (\<lambda>(k, v) c. rbt_Put T c k v) xs c)) \<and>
    map_of (inorder (fold (\<lambda>(k, v) c. rbt_Put T c k v) xs c)) = map_of (inorder c) ++ map_of (rev xs)"
proof (induction xs arbitrary: c)
  case (Cons x xs)
  obtain k v where x: "x = (k, v)" by (cases x)
  show ?case using Cons.IH [of "rbt_Put T c k v"] rbt_okD(1,2) [OF assms Cons.prems] x
    by (simp add: map_add_def fun_eq_iff split: option.split)
qed simp

lemma rev_sorted: "sorted_pairs xs \<Longrightarrow> map_of (rev xs) = map_of xs"
  using sorted_pairs_distinct [of xs] by (simp add: map_of_inject_set rev_map [symmetric])

lemma flushable_GetSnapshot_ok:
  assumes "rbt_ok T" "fl_usable usable w"
    and "\<And>d. usable d \<Longrightarrow> \<exists>s. kv_GetSnapshot S d = Inr s \<and> snap_usable s \<and> snap_content s = content d"
  shows "\<exists>s. flushable_GetSnapshot T S w = Inr s \<and> flushable_usable snap_usable s \<and>
    flushable_content snap_content s = fl_content content w"
proof -
  obtain t where t: "fr_modified (fl_reader w) = Some t" "sorted_pairs (inorder t)" "usable (fr_underlying (fl_reader w))"
    using assms(2) by (rule fl_usableE)
  obtain s where s: "kv_GetSnapshot S (fr_underlying (fl_reader w)) = Inr s" "snap_usable s"
    "snap_content s = content (fr_underlying (fl_reader w))" using assms(3) [OF t(3)] by blast
  let ?c = "fold (\<lambda>(k, v) c. rbt_Put T c k v) (rbt_Pairs T t) Leaf"
  have "sorted_pairs (inorder ?c)" "map_of (inorder ?c) = map_of (inorder t)"
    using copy_tree [OF assms(1), of Leaf "rbt_Pairs T t"] rbt_okD(4) [OF assms(1) t(2)] rev_sorted [OF t(2)] by simp_all
  then show ?thesis
    using t s by (simp add: flushable_GetSnapshot_def flushable_usable_def flushable_content_def)
qed

section \<open>Contracts\<close>

locale flushable_snapshots = kv_snapshots S content usable snap_content snap_usable
  for S :: "('u, 'i, 'b, 's, 'j) Store" and content :: "'u \<Rightarrow> bytes \<rightharpoonup> bytes" and usable :: "'u \<Rightarrow> bool"
    and snap_content :: "'s \<Rightarrow> bytes \<rightharpoonup> bytes" and snap_usable :: "'s \<Rightarrow> bool" +
  fixes T :: RbtOps
  assumes rbt: "rbt_ok T"

lemma embed_reader_iterates: "iterates (embed_reader f R) it xs = iterates R it xs"
  by (induction R it xs rule: iterates.induct) (auto simp: embed_reader_def)

lemma kv_reader_embed:
  assumes "kv_reader R content usable"
  shows "kv_reader (embed_reader f R) (\<lambda>w. content (f w)) (\<lambda>w. usable (f w))"
  using assms unfolding kv_reader_def embed_reader_iterates by (simp add: embed_reader_def)

sublocale flushable_snapshots \<subseteq> reader: flushable_over "kv_reader_ops S" content usable T
  by unfold_locales (rule rbt)

sublocale flushable_snapshots \<subseteq> snap: flushable_over "kv_snapshot_ops S" snap_content snap_usable T
  by (intro flushable_over.intro flushable_over_axioms.intro snapshot_reader rbt)

sublocale flushable_snapshots \<subseteq> flushed: kv_store "flushable_Store T S" "\<lambda>w. fl_content content w" "\<lambda>w. fl_usable usable w"
  "flushable_content snap_content" "flushable_usable snap_usable" cache_writes
proof (intro kv_store.intro kv_snapshots.intro kv_snapshots_axioms.intro kv_store_axioms.intro)
  show "kv_reader (kv_reader_ops (flushable_Store T S)) (\<lambda>w. fl_content content w) (\<lambda>w. fl_usable usable w)"
    using kv_reader_embed [OF reader.flushed.kv_reader_axioms] by (simp add: flushable_Store_def)
  show "kv_reader (kv_snapshot_ops (flushable_Store T S)) (flushable_content snap_content) (flushable_usable snap_usable)"
    using snap.flushed.kv_reader_axioms by (simp add: flushable_Store_def)
  show "batch_ok (kv_batch_ops (flushable_Store T S)) cache_writes" by (rule cacheBatch_ok)
  fix w :: "'u Flushable" and k :: bytes and k' :: slice and v b
  show "cache_writes (kv_NewBatch (flushable_Store T S) w) = []" by (simp add: flushable_Store_def cache_writes_def)
  assume u: "fl_usable usable w"
  show "\<exists>s. kv_GetSnapshot (flushable_Store T S) w = Inr s \<and> flushable_usable snap_usable s \<and>
      flushable_content snap_content s = fl_content content w"
    using flushable_GetSnapshot_ok [OF rbt u snapshot] by (simp add: flushable_Store_def)
  show "\<exists>d'. kv_Put (flushable_Store T S) w (Some k) (Some v) = (None, d') \<and> fl_usable usable d' \<and>
      fl_content content d' = (fl_content content w)(k \<mapsto> v)"
    using flushable_Put_ok [OF rbt u, of k v content] by (auto simp: flushable_Store_def)
  show "\<exists>d'. kv_Delete (flushable_Store T S) w k' = (None, d') \<and> fl_usable usable d' \<and>
      fl_content content d' = (fl_content content w)(bytes_of k' := None)"
    using flushable_Delete_ok [OF rbt u, of k' content] by (auto simp: flushable_Store_def)
  show "\<exists>d'. bt_Write (kv_batch_ops (flushable_Store T S)) b w = (None, d') \<and> fl_usable usable d' \<and>
      fl_content content d' = apply_writes (cache_writes b) (fl_content content w)"
    using cacheBatch_Write_ok [OF rbt u, of b content] by (simp add: flushable_Store_def)
qed

context flushable_snapshots
begin

lemma flushed_is_store: "kv_store (flushable_Store T S) (\<lambda>w. fl_content content w) (\<lambda>w. fl_usable usable w)
  (flushable_content snap_content) (flushable_usable snap_usable) cache_writes"
  by (rule flushed.kv_store_axioms)

end

section \<open>Flushing\<close>

lemma overlay_apply_writes: "distinct (map fst xs) \<Longrightarrow> apply_writes xs m = overlay_map (map_of xs) m"
proof (induction xs arbitrary: m)
  case (Cons x xs)
  have "map_of xs (fst x) = None" using Cons.prems by (simp add: map_of_eq_None_iff)
  then show ?case using Cons by (auto simp: overlay_map_def fun_eq_iff split: option.split)
qed (simp add: overlay_map_def fun_eq_iff)

lemma batch_okE:
  assumes "batch_ok B writes"
  obtains b' where "(if v = None then bt_Delete B b (Some k) else bt_Put B b (Some k) v) = (None, b')"
    "writes b' = writes b @ [(k, v)]"
  using assms unfolding batch_ok_def by (cases v) fastforce+

context kv_faulty
begin

lemma flush_loop_outcome:
  "flush_loop S pairs b d = (err, d') \<Longrightarrow> live d \<Longrightarrow> live d' \<and>
    (err = None \<longrightarrow> content d' = apply_writes (writes b @ pairs) (content d)) \<and>
    (\<forall>k. k \<notin> fst ` set (writes b @ pairs) \<longrightarrow> content d' k = content d k)"
proof (induction pairs arbitrary: b d)
  case Nil
  then show ?case using Write_outcome by simp
next
  case (Cons x pairs)
  obtain k v where x: "x = (k, v)" by (cases x)
  let ?B = "kv_batch_ops S"
  obtain b1 where b1: "(if v = None then bt_Delete ?B b (Some k) else bt_Put ?B b (Some k) v) = (None, b1)"
    "writes b1 = writes b @ [(k, v)]" by (rule batch_okE [OF batch_writes])
  show ?case
  proof (cases "bt_ValueSize ?B b1 > IdealBatchSize")
    case True
    obtain err1 d1 where w: "bt_Write ?B b1 d = (err1, d1)" by (cases "bt_Write ?B b1 d")
    note out = Write_outcome [OF Cons.prems(2) w]
    have reset: "writes (bt_Reset ?B b1) = []" using batch_writes by (simp add: batch_ok_def)
    show ?thesis
    proof (cases err1)
      case None
      then have "flush_loop S pairs (bt_Reset ?B b1) d1 = (err, d')" using Cons.prems(1) b1(1) w True x by (simp add: Let_def)
      note IH = Cons.IH [OF this conjunct1 [OF out], unfolded reset append_Nil]
      have all: "writes b @ x # pairs = writes b1 @ pairs" using b1(2) x by simp
      have "content d1 = apply_writes (writes b1) (content d)" using out None by blast
      then show ?thesis using IH out unfolding all by (simp add: image_Un)
    next
      case (Some e)
      then have "err = Some e" "d' = d1" using Cons.prems(1) b1(1) w True x by (simp_all add: Let_def)
      then show ?thesis using out b1(2) x by auto
    qed
  next
    case False
    then have "flush_loop S pairs b1 d = (err, d')" using Cons.prems(1) b1(1) x by (simp add: Let_def)
    from Cons.IH [OF this Cons.prems(2)] show ?thesis using b1(2) x by simp
  qed
qed

lemma Flush_outcome:
  assumes "rbt_ok T" "fl_usable live w" "flushable_Flush T S w = (err, w')"
  shows "fl_usable live w' \<and>
    (err = None \<longrightarrow> content (fr_underlying (fl_reader w')) = fl_content content w \<and>
      fr_modified (fl_reader w') = Some Leaf \<and> fl_sizeEstimation w' = 0) \<and>
    (\<forall>t k. fr_modified (fl_reader w) = Some t \<longrightarrow> k \<notin> fst ` set (inorder t) \<longrightarrow>
      content (fr_underlying (fl_reader w')) k = content (fr_underlying (fl_reader w)) k)"
proof -
  obtain t where t: "fr_modified (fl_reader w) = Some t" "sorted_pairs (inorder t)" "live (fr_underlying (fl_reader w))"
    using assms(2) by (rule fl_usableE)
  let ?d = "fr_underlying (fl_reader w)"
  obtain e d1 where f: "flush_loop S (rbt_Pairs T t) (kv_NewBatch S ?d) ?d = (e, d1)"
    by (cases "flush_loop S (rbt_Pairs T t) (kv_NewBatch S ?d) ?d")
  have pairs: "rbt_Pairs T t = inorder t" using rbt_okD(4) [OF assms(1) t(2)] .
  note out = flush_loop_outcome [OF f t(3), unfolded pairs new_batch append_Nil]
  have overlay: "apply_writes (inorder t) (content ?d) = fl_content content w"
    using overlay_apply_writes [OF sorted_pairs_distinct [OF t(2)]] t(1) by (simp add: flushable_content_def)
  show ?thesis
    using assms(3) f out overlay t
    by (cases e) (auto simp: flushable_Flush_def set_modified_def set_underlying_def flushable_usable_def Let_def)
qed

end

context kv_store
begin

lemma flush_loop_total:
  "usable d \<Longrightarrow> \<exists>d'. flush_loop S pairs b d = (None, d')"
proof (induction pairs arbitrary: b d)
  case Nil
  then show ?case using Write_ok by fastforce
next
  case (Cons x pairs)
  obtain k v where x: "x = (k, v)" by (cases x)
  obtain b1 where b1: "(if v = None then bt_Delete (kv_batch_ops S) b (Some k) else bt_Put (kv_batch_ops S) b (Some k) v) = (None, b1)"
    by (rule batch_okE [OF batch])
  obtain d1 where "bt_Write (kv_batch_ops S) b1 d = (None, d1)" "usable d1" using Write_ok [OF Cons.prems, of b1] by blast
  then show ?case using b1 Cons.IH [of d1] Cons.IH [OF Cons.prems] x by (simp add: Let_def)
qed

lemma Flush_total:
  assumes "fl_usable usable w"
  shows "\<exists>w'. flushable_Flush T S w = (None, w')"
proof -
  obtain t where t: "fr_modified (fl_reader w) = Some t" "usable (fr_underlying (fl_reader w))"
    using assms by (rule fl_usableE)
  from flush_loop_total [OF t(2), of "rbt_Pairs T t" "kv_NewBatch S (fr_underlying (fl_reader w))"] show ?thesis
    using t(1) by (auto simp: flushable_Flush_def Let_def)
qed

end

end
