(* ===== verification/Memorydb.thy ===== *)
theory Memorydb
  imports Flushable_Correct
begin

text \<open>
  The store that keeps nothing (\<^verbatim>\<open>kvdb/devnulldb\<close>) and the store in memory (\<^verbatim>\<open>kvdb/memorydb\<close>), which is a
  flushable store over it that is never flushed. The interpretations discharge the contracts of readers and stores.
\<close>

section \<open>The null store\<close>

definition devnull_Close :: "unit \<Rightarrow> kv_error option \<times> unit" where
  "devnull_Close db = (None, db)"

definition devnull_Drop :: "unit \<Rightarrow> kv_error option \<times> unit" where
  "devnull_Drop db = (None, db)"

definition devnull_Has :: "unit \<Rightarrow> slice \<Rightarrow> kv_error + bool" where
  "devnull_Has db key = Inr False"

definition devnull_Get :: "unit \<Rightarrow> slice \<Rightarrow> kv_error + slice" where
  "devnull_Get db key = Inr None"

definition devnull_Put :: "unit \<Rightarrow> slice \<Rightarrow> slice \<Rightarrow> kv_error option \<times> unit" where
  "devnull_Put db key val = (None, db)"

definition devnull_Delete :: "unit \<Rightarrow> slice \<Rightarrow> kv_error option \<times> unit" where
  "devnull_Delete db key = (None, db)"

definition devnull_Stat :: "unit \<Rightarrow> string \<Rightarrow> kv_error + string" where
  "devnull_Stat db property = Inr []"

definition devnull_Compact :: "unit \<Rightarrow> slice \<Rightarrow> slice \<Rightarrow> kv_error option \<times> unit" where
  "devnull_Compact db start limit = (None, db)"

text \<open>Its iterator, its batch and its snapshot have no state.\<close>

definition devnull_reader :: "(unit, unit) IteratedReader" where
  "devnull_reader = \<lparr>rd_Has = devnull_Has, rd_Get = devnull_Get, rd_NewIterator = (\<lambda>_ _ _. Some ()),
    it_Next = (\<lambda>it. Some (False, it)), it_Error = (\<lambda>_. None), it_Key = (\<lambda>_. None), it_Value = (\<lambda>_. None)\<rparr>"

definition devnull_batch :: "(unit, unit) Batch" where
  "devnull_batch = \<lparr>bt_Put = (\<lambda>b _ _. (None, b)), bt_Delete = (\<lambda>b _. (None, b)), bt_ValueSize = (\<lambda>_. 0),
    bt_Write = (\<lambda>_ db. (None, db)), bt_Reset = (\<lambda>b. b), bt_Replay = (\<lambda>_. [])\<rparr>"

definition devnull_Store :: "(unit, unit, unit, unit, unit) Store" where
  "devnull_Store = \<lparr>kv_reader_ops = devnull_reader, kv_snapshot_ops = devnull_reader, kv_GetSnapshot = Inr,
    kv_Put = devnull_Put, kv_Delete = devnull_Delete, kv_NewBatch = (\<lambda>_. ()), kv_batch_ops = devnull_batch,
    kv_Stat = devnull_Stat, kv_Compact = devnull_Compact, kv_Close = devnull_Close, kv_Drop = devnull_Drop\<rparr>"

lemma range_list_empty [simp]: "range_list Map.empty pre st = []"
  by (simp add: range_list_def range_keys_def)

lemma devnull_is_reader: "kv_reader devnull_reader (\<lambda>_. Map.empty) (\<lambda>_. True)"
  by unfold_locales (simp_all add: devnull_reader_def devnull_Has_def devnull_Get_def)

lemma devnull_has_snapshots: "kv_snapshots devnull_Store (\<lambda>_. Map.empty) (\<lambda>_. True) (\<lambda>_. Map.empty) (\<lambda>_. True)"
  using devnull_is_reader
  by (auto simp: kv_snapshots_def kv_snapshots_axioms_def devnull_Store_def)

section \<open>The store in memory\<close>

type_synonym memorydb = "unit Flushable"

definition memorydb_New :: memorydb where
  "memorydb_New = Wrap devnull_Store ()"

definition memorydb_NewWithDrop :: "(unit \<Rightarrow> kv_error option \<times> unit) \<Rightarrow> memorydb" where
  "memorydb_NewWithDrop onDrop = WrapWithDrop () (Some onDrop)"

definition memorydb_Store ::
  "RbtOps \<Rightarrow> (memorydb, unit flush_iterator, cacheBatch, unit flushableReader, unit flush_iterator) Store" where
  "memorydb_Store T = flushable_Store T devnull_Store"

interpretation devnull: kv_reader devnull_reader "\<lambda>_. Map.empty" "\<lambda>_. True"
  by (rule devnull_is_reader)

interpretation memory: flushable_snapshots devnull_Store "\<lambda>_. Map.empty" "\<lambda>_. True" "\<lambda>_. Map.empty" "\<lambda>_. True" bst_ops
  by (intro flushable_snapshots.intro flushable_snapshots_axioms.intro devnull_has_snapshots bst_ops_ok)

abbreviation memory_content :: "memorydb \<Rightarrow> bytes \<rightharpoonup> bytes" where
  "memory_content w \<equiv> fl_content (\<lambda>_. Map.empty) w"

abbreviation memory_usable :: "memorydb \<Rightarrow> bool" where
  "memory_usable w \<equiv> fl_usable (\<lambda>_. True) w"

lemma memorydb_is_store:
  assumes "rbt_ok T"
  shows "kv_store (memorydb_Store T) (\<lambda>w. memory_content w) (\<lambda>w. memory_usable w)
    (flushable_content (\<lambda>_. Map.empty)) (flushable_usable (\<lambda>_. True)) cache_writes"
  unfolding memorydb_Store_def
  by (intro flushable_snapshots.flushed_is_store flushable_snapshots.intro flushable_snapshots_axioms.intro
      devnull_has_snapshots assms)

end
