(* ===== verification/Table.thy ===== *)
theory Table
  imports Memorydb
begin

text \<open>
  Tables (\<^verbatim>\<open>kvdb/table\<close>): a store in which every key has a prefix in the wrapped store. The prefix
  never changes, so the state of a table is that of the wrapped store, and a table on a table is the
  composition. A table meets the contract of stores on the part of the wrapped store below its prefix.
\<close>

section \<open>Keys\<close>

definition prefixed :: "slice \<Rightarrow> slice \<Rightarrow> slice" where
  "prefixed key pre = Some (bytes_of pre @ bytes_of key)"

definition noPrefix :: "slice \<Rightarrow> slice \<Rightarrow> slice" where
  "noPrefix key pre =
    (if length (bytes_of key) < length (bytes_of pre) then key
     else map_option (drop (length (bytes_of pre))) key)"

section \<open>Reading\<close>

definition table_Has :: "slice \<Rightarrow> ('r, 'i) IteratedReader \<Rightarrow> 'r \<Rightarrow> slice \<Rightarrow> kv_error + bool" where
  "table_Has pre R t key = rd_Has R t (prefixed key pre)"

definition table_Get :: "slice \<Rightarrow> ('r, 'i) IteratedReader \<Rightarrow> 'r \<Rightarrow> slice \<Rightarrow> kv_error + slice" where
  "table_Get pre R t key = rd_Get R t (prefixed key pre)"

definition table_NewIterator :: "slice \<Rightarrow> ('r, 'i) IteratedReader \<Rightarrow> 'r \<Rightarrow> slice \<Rightarrow> slice \<Rightarrow> 'i option" where
  "table_NewIterator pre R t itPrefix start = rd_NewIterator R t (prefixed itPrefix pre) start"

definition table_reader :: "slice \<Rightarrow> ('r, 'i) IteratedReader \<Rightarrow> ('r, 'i) IteratedReader" where
  "table_reader pre R = \<lparr>rd_Has = table_Has pre R, rd_Get = table_Get pre R, rd_NewIterator = table_NewIterator pre R,
    it_Next = it_Next R, it_Error = it_Error R, it_Key = (\<lambda>it. noPrefix (it_Key R it) pre), it_Value = it_Value R\<rparr>"

section \<open>Writing\<close>

definition table_Put :: "slice \<Rightarrow> ('d, 'i, 'b, 's, 'j) Store \<Rightarrow> 'd \<Rightarrow> slice \<Rightarrow> slice \<Rightarrow> kv_error option \<times> 'd" where
  "table_Put pre S t key val = kv_Put S t (prefixed key pre) val"

definition table_Delete :: "slice \<Rightarrow> ('d, 'i, 'b, 's, 'j) Store \<Rightarrow> 'd \<Rightarrow> slice \<Rightarrow> kv_error option \<times> 'd" where
  "table_Delete pre S t key = kv_Delete S t (prefixed key pre)"

definition table_batch_Put :: "slice \<Rightarrow> ('d, 'b) Batch \<Rightarrow> 'b \<Rightarrow> slice \<Rightarrow> slice \<Rightarrow> kv_error option \<times> 'b" where
  "table_batch_Put pre B b key val = bt_Put B b (prefixed key pre) val"

definition table_batch_Delete :: "slice \<Rightarrow> ('d, 'b) Batch \<Rightarrow> 'b \<Rightarrow> slice \<Rightarrow> kv_error option \<times> 'b" where
  "table_batch_Delete pre B b key = bt_Delete B b (prefixed key pre)"

fun replayer_op :: "slice \<Rightarrow> write_op \<Rightarrow> write_op" where
  "replayer_op pre (PutOp key val) = PutOp (noPrefix key pre) val"
| "replayer_op pre (DeleteOp key) = DeleteOp (noPrefix key pre)"

definition table_batch :: "slice \<Rightarrow> ('d, 'b) Batch \<Rightarrow> ('d, 'b) Batch" where
  "table_batch pre B = \<lparr>bt_Put = table_batch_Put pre B, bt_Delete = table_batch_Delete pre B, bt_ValueSize = bt_ValueSize B,
    bt_Write = bt_Write B, bt_Reset = bt_Reset B, bt_Replay = (\<lambda>b. map (replayer_op pre) (bt_Replay B b))\<rparr>"

section \<open>Compaction\<close>

text \<open>Numbers as big-endian byte strings without leading zeroes, as \<^verbatim>\<open>big.Int\<close> reads and writes them.\<close>

definition big_SetBytes :: "bytes \<Rightarrow> nat" where
  "big_SetBytes bs = foldl (\<lambda>n b. n * 256 + unat b) 0 bs"


definition incPrefix :: "(bytes \<Rightarrow> bytes) \<Rightarrow> bytes \<Rightarrow> slice" where
  "incPrefix TrimLeftZeroes pre =
    (let trimmedPrefix = TrimLeftZeroes pre;
         endBn = big_SetBytes trimmedPrefix + 1
     in if length (big_Bytes endBn) > length trimmedPrefix then None
        else Some (replicate (length pre - length trimmedPrefix) 0 @ big_Bytes endBn))"

definition table_Compact :: "(bytes \<Rightarrow> bytes) \<Rightarrow> slice \<Rightarrow> ('d, 'i, 'b, 's, 'j) Store \<Rightarrow> 'd \<Rightarrow> slice \<Rightarrow> slice \<Rightarrow> kv_error option \<times> 'd" where
  "table_Compact trim pre S t start limit =
    kv_Compact S t (prefixed start pre) (if limit = None then incPrefix trim (bytes_of pre) else prefixed limit pre)"

definition table_Close :: "'d \<Rightarrow> kv_error option \<times> 'd" where
  "table_Close t = (Some ErrUnsupportedOp, t)"

definition table_Drop :: "'d \<Rightarrow> kv_error option \<times> 'd" where
  "table_Drop t = (None, t)"

definition table_New :: "(bytes \<Rightarrow> bytes) \<Rightarrow> ('d, 'i, 'b, 's, 'j) Store \<Rightarrow> slice \<Rightarrow> ('d, 'i, 'b, 's, 'j) Store" where
  "table_New trim S pre = \<lparr>kv_reader_ops = table_reader pre (kv_reader_ops S), kv_snapshot_ops = table_reader pre (kv_snapshot_ops S),
    kv_GetSnapshot = kv_GetSnapshot S, kv_Put = table_Put pre S, kv_Delete = table_Delete pre S, kv_NewBatch = kv_NewBatch S,
    kv_batch_ops = table_batch pre (kv_batch_ops S), kv_Stat = kv_Stat S, kv_Compact = table_Compact trim pre S,
    kv_Close = table_Close, kv_Drop = table_Drop\<rparr>"

definition table_NewTable :: "(bytes \<Rightarrow> bytes) \<Rightarrow> ('d, 'i, 'b, 's, 'j) Store \<Rightarrow> slice \<Rightarrow> slice \<Rightarrow> ('d, 'i, 'b, 's, 'j) Store" where
  "table_NewTable trim S pre pre' = table_New trim (table_New trim S pre) pre'"

section \<open>What a table holds\<close>

definition below :: "slice \<Rightarrow> (bytes \<rightharpoonup> bytes) \<Rightarrow> bytes \<rightharpoonup> bytes" where
  "below pre m k = m (bytes_of pre @ k)"

lemma finite_below: "finite (dom m) \<Longrightarrow> finite (dom (below pre m))"
proof -
  assume "finite (dom m)"
  moreover have "inj_on (\<lambda>k. bytes_of pre @ k) (dom (below pre m))" by (simp add: inj_on_def)
  moreover have "(\<lambda>k. bytes_of pre @ k) ` dom (below pre m) \<subseteq> dom m" by (auto simp: below_def)
  ultimately show ?thesis using finite_imageD finite_subset by blast
qed

lemma append_le_iff [simp]: "p @ x \<le> p @ y \<longleftrightarrow> x \<le> (y :: bytes)"
  by (induction p) auto

lemma append_prefix_less_iff [simp]: "p @ x < p @ y \<longleftrightarrow> x < (y :: bytes)"
  by (induction p) auto

lemma range_list_below:
  assumes "finite (dom m)"
  shows "map (\<lambda>(k, v). (drop (length (bytes_of pre)) k, v)) (range_list m (bytes_of pre @ ip) st) = range_list (below pre m) ip st"
proof (rule range_list_eqI [symmetric, OF finite_below [OF assms]])
  let ?n = "length (bytes_of pre)" and ?xs = "range_list m (bytes_of pre @ ip) st"
  have pre: "\<exists>k'. k = bytes_of pre @ k'" if "(k, v) \<in> set ?xs" for k v
    using that set_range_list [OF assms] by (auto simp: prefix_def)
  have gen: "sorted_pairs (map (\<lambda>(k, v). (drop ?n k, v)) xs) \<and>
      (\<forall>k. map_of (map (\<lambda>(k, v). (drop ?n k, v)) xs) k = map_of xs (bytes_of pre @ k))"
    if "sorted_pairs xs" "\<forall>(k, v) \<in> set xs. \<exists>k'. k = bytes_of pre @ k'" for xs :: "(bytes \<times> bytes) list"
    using that
  proof (induction xs)
    case (Cons x xs)
    obtain k v where x: "x = (bytes_of pre @ k, v)" using Cons.prems(2) by (cases x) auto
    have "k < drop ?n (fst y)" if y: "y \<in> set xs" for y
    proof -
      have "case y of (k, v) \<Rightarrow> \<exists>k'. k = bytes_of pre @ k'" using Cons.prems(2) y by (simp del: split_paired_All)
      then obtain k' w where k': "y = (bytes_of pre @ k', w)" by (auto split: prod.splits)
      have "bytes_of pre @ k < fst y" using Cons.prems(1) x y by simp
      then show ?thesis using k' by simp
    qed
    then show ?case using Cons x by auto
  qed simp
  have all: "\<forall>(k, v) \<in> set ?xs. \<exists>k'. k = bytes_of pre @ k'" using pre by blast
  note mapped = gen [OF sorted_pairs_range_list all]
  then show "sorted_pairs (map (\<lambda>(k, v). (drop ?n k, v)) ?xs)" by blast
  fix k
  show "map_of (map (\<lambda>(k, v). (drop ?n k, v)) ?xs) k = (if prefix ip k \<and> ip @ st \<le> k then below pre m k else None)"
    using conjunct2 [OF mapped, rule_format, of k] map_of_range_list [OF assms, of "bytes_of pre @ ip" st "bytes_of pre @ k"]
    by (simp add: below_def)
qed

lemma table_iterator_simps:
  "it_Next (table_reader pre R) = it_Next R" "it_Error (table_reader pre R) = it_Error R"
  "it_Key (table_reader pre R) it = noPrefix (it_Key R it) pre" "it_Value (table_reader pre R) = it_Value R"
  by (simp_all add: table_reader_def)

lemma noPrefix_Some: "prefix (bytes_of pre) k \<Longrightarrow> noPrefix (Some k) pre = Some (drop (length (bytes_of pre)) k)"
  by (auto simp: noPrefix_def dest: prefix_length_le)

lemma table_iterates:
  "iterates R it xs \<Longrightarrow> \<forall>(k, v) \<in> set xs. prefix (bytes_of pre) k \<Longrightarrow>
    iterates (table_reader pre R) it (map (\<lambda>(k, v). (drop (length (bytes_of pre)) k, v)) xs)"
proof (induction R it xs rule: iterates.induct)
  case (2 R it k v xs)
  then obtain it' where "it_Next R it = Some (True, it')" "it_Key R it' = Some k" "it_Value R it' = Some v" "iterates R it' xs"
    "it_Error R it = None" by auto
  then show ?case using 2 by (auto simp: table_iterator_simps noPrefix_Some)
qed (auto simp: table_iterator_simps)

lemma table_reader_contract:
  assumes "kv_reader R content usable"
  shows "kv_reader (table_reader pre R) (\<lambda>t. below pre (content t)) usable"
proof -
  from assms have R: "kv_reader R content usable" .
  note laws = kv_reader.finite_content [OF R] kv_reader.Has_content [OF R] kv_reader.Get_content [OF R]
  show ?thesis
  proof
    fix r k ip st
    assume u: "usable r"
    show "finite (dom (below pre (content r)))" using finite_below laws(1) [OF u] by blast
    show "rd_Has (table_reader pre R) r k = Inr (below pre (content r) (bytes_of k) \<noteq> None)"
      "rd_Get (table_reader pre R) r k = Inr (below pre (content r) (bytes_of k))"
      using laws(2,3) [OF u] by (simp_all add: table_reader_def table_Has_def table_Get_def prefixed_def below_def)
    obtain it where it: "rd_NewIterator R r (prefixed ip pre) st = Some it"
      "iterates R it (range_list (content r) (bytes_of pre @ bytes_of ip) (bytes_of st))"
      using kv_reader.iterates_content [OF R u, of "prefixed ip pre" st] by (auto simp: prefixed_def)
    have "iterates (table_reader pre R) it (range_list (below pre (content r)) (bytes_of ip) (bytes_of st))"
      unfolding range_list_below [OF laws(1) [OF u], symmetric]
      using set_range_list [OF laws(1) [OF u]]
      by (intro table_iterates it(2)) (auto simp: prefix_def)
    then show "\<exists>it. rd_NewIterator (table_reader pre R) r ip st = Some it \<and>
        iterates (table_reader pre R) it (range_list (below pre (content r)) (bytes_of ip) (bytes_of st))"
      using it(1) by (simp add: table_reader_def table_NewIterator_def)
  qed
qed

definition table_writes :: "slice \<Rightarrow> ('b \<Rightarrow> (bytes \<times> slice) list) \<Rightarrow> 'b \<Rightarrow> (bytes \<times> slice) list" where
  "table_writes pre writes b =
    map (\<lambda>(k, v). (drop (length (bytes_of pre)) k, v)) (filter (\<lambda>(k, v). prefix (bytes_of pre) k) (writes b))"

lemma below_update:
  "below pre (m(bytes_of pre @ k := v)) = (below pre m)(k := v)"
  "\<not> prefix (bytes_of pre) k \<Longrightarrow> below pre (m(k := v)) = below pre m"
  by (auto simp: below_def fun_eq_iff)

lemma below_apply_writes:
  "below pre (apply_writes ws m) =
    apply_writes (map (\<lambda>(k, v). (drop (length (bytes_of pre)) k, v)) (filter (\<lambda>(k, v). prefix (bytes_of pre) k) ws)) (below pre m)"
proof (induction ws arbitrary: m)
  case (Cons w ws)
  obtain k v where w: "w = (k, v)" by (cases w)
  show ?case
  proof (cases "prefix (bytes_of pre) k")
    case True
    then obtain k' where "k = bytes_of pre @ k'" by (auto simp: prefix_def)
    then show ?thesis using Cons [of "m(k := v)"] w below_update(1) by (simp del: fun_upd_apply)
  next
    case False
    then show ?thesis using Cons [of "m(k := v)"] w below_update(2) by (simp del: fun_upd_apply)
  qed
qed simp

lemma table_batch_ok: "batch_ok B writes \<Longrightarrow> batch_ok (table_batch pre B) (table_writes pre writes)"
  unfolding batch_ok_def table_writes_def table_batch_def table_batch_Put_def table_batch_Delete_def prefixed_def
  by fastforce

lemma table_contract:
  assumes "kv_store S content usable snap_content snap_usable writes"
  shows "kv_store (table_New trim S pre) (\<lambda>t. below pre (content t)) usable (\<lambda>s. below pre (snap_content s)) snap_usable
    (table_writes pre writes)"
proof (intro kv_store.intro kv_snapshots.intro kv_snapshots_axioms.intro kv_store_axioms.intro)
  note S = assms
  note snaps = kv_store.axioms(1) [OF S]
  show "kv_reader (kv_reader_ops (table_New trim S pre)) (\<lambda>t. below pre (content t)) usable"
    using table_reader_contract [OF kv_snapshots.axioms(1) [OF snaps]] by (simp add: table_New_def)
  show "kv_reader (kv_snapshot_ops (table_New trim S pre)) (\<lambda>s. below pre (snap_content s)) snap_usable"
    using table_reader_contract [OF kv_snapshots.snapshot_reader [OF snaps]] by (simp add: table_New_def)
  show "batch_ok (kv_batch_ops (table_New trim S pre)) (table_writes pre writes)"
    using table_batch_ok [OF kv_store.batch [OF S]] by (simp add: table_New_def)
  fix d k k' v b
  show "table_writes pre writes (kv_NewBatch (table_New trim S pre) d) = []"
    using kv_store.no_writes [OF S] by (simp add: table_New_def table_writes_def)
  assume u: "usable d"
  show "\<exists>s. kv_GetSnapshot (table_New trim S pre) d = Inr s \<and> snap_usable s \<and> below pre (snap_content s) = below pre (content d)"
    using kv_snapshots.snapshot [OF snaps u] by (auto simp: table_New_def)
  show "\<exists>d'. kv_Put (table_New trim S pre) d (Some k) (Some v) = (None, d') \<and> usable d' \<and>
      below pre (content d') = (below pre (content d))(k \<mapsto> v)"
    using kv_store.Put_ok [OF S u, of "bytes_of pre @ k" v] below_update(1)
    by (auto simp: table_New_def table_Put_def prefixed_def)
  show "\<exists>d'. kv_Delete (table_New trim S pre) d k' = (None, d') \<and> usable d' \<and>
      below pre (content d') = (below pre (content d))(bytes_of k' := None)"
    using kv_store.Delete_ok [OF S u, of "Some (bytes_of pre @ bytes_of k')"] below_update(1)
    by (auto simp: table_New_def table_Delete_def prefixed_def)
  show "\<exists>d'. bt_Write (kv_batch_ops (table_New trim S pre)) b d = (None, d') \<and> usable d' \<and>
      below pre (content d') = apply_writes (table_writes pre writes b) (below pre (content d))"
    using kv_store.Write_ok [OF S u, of b] below_apply_writes [of pre "writes b" "content d"]
    by (auto simp: table_New_def table_batch_def table_writes_def)
qed

section \<open>The end of a prefix\<close>













section \<open>Properties\<close>



definition proper_op :: "write_op \<Rightarrow> bool" where
  "proper_op op = (case op of PutOp k v \<Rightarrow> k \<noteq> None \<and> v \<noteq> None | DeleteOp k \<Rightarrow> True)"

lemma below_other:
  "\<not> prefix (bytes_of p) (bytes_of q) \<Longrightarrow> \<not> prefix (bytes_of q) (bytes_of p) \<Longrightarrow>
    below q (m(bytes_of p @ k := v)) = below q m"
  using below_update(2) [of q "bytes_of p @ k"] by (metis prefixI prefix_same_cases)

text \<open>
  C30: tables of one store do not disturb each other. A sequence of writes to a table succeeds and
  changes what the table holds as the same writes to a map; a table whose prefix is
  neither an extension nor a beginning of the first one's holds the same as before.
\<close>

theorem table_writes_isolated:
  assumes "kv_store S content usable snap_content snap_usable writes" and "usable d" and "list_all proper_op ops"
    and "\<not> prefix (bytes_of p) (bytes_of q)" and "\<not> prefix (bytes_of q) (bytes_of p)"
  shows "\<exists>d'. replay (kv_Put (table_New trim S p)) (kv_Delete (table_New trim S p)) ops d = (None, d') \<and> usable d' \<and>
    below p (content d') = apply_writes (map write_of ops) (below p (content d)) \<and> below q (content d') = below q (content d)"
  using assms(2,3)
proof (induction ops arbitrary: d)
  case (Cons op ops)
  define key val where "key = fst (write_of op)" and "val = snd (write_of op)"
  obtain d1 where d1: "replay (kv_Put (table_New trim S p)) (kv_Delete (table_New trim S p)) (op # ops) d =
      replay (kv_Put (table_New trim S p)) (kv_Delete (table_New trim S p)) ops d1" "usable d1"
    "content d1 = (content d)(bytes_of p @ key := val)"
  proof (cases op)
    case (PutOp k v)
    then obtain k' v' where "k = Some k'" "v = Some v'" using Cons.prems(2) by (auto simp: proper_op_def)
    then show thesis
      using kv_store.Put_ok [OF assms(1) Cons.prems(1), of "bytes_of p @ k'" v'] PutOp that
      by (auto simp: table_New_def table_Put_def prefixed_def key_def val_def)
  next
    case (DeleteOp k)
    then show thesis
      using kv_store.Delete_ok [OF assms(1) Cons.prems(1), of "Some (bytes_of p @ bytes_of k)"] that
      by (auto simp: table_New_def table_Delete_def prefixed_def key_def val_def)
  qed
  then show ?case
    using Cons.IH [OF d1(2)] Cons.prems(2) below_update(1) [of p "content d" key val] below_other [OF assms(4,5), of "content d" key val]
    by (simp add: key_def val_def del: fun_upd_apply)
qed simp

theorem table_writes_isolated_witness:
  "\<exists>d'. replay (kv_Put (table_New (dropWhile (\<lambda>b. b = 0)) (memorydb_Store bst_ops) (Some [1]))) (kv_Delete (table_New (dropWhile (\<lambda>b. b = 0)) (memorydb_Store bst_ops) (Some [1])))
      [PutOp (Some [7]) (Some [8]), DeleteOp (Some [9])] memorydb_New = (None, d') \<and>
    below (Some [1]) (memory_content d') = [[7] \<mapsto> [8]] \<and> below (Some [2]) (memory_content d') = Map.empty"
proof -
  have u: "memory_usable memorydb_New" and c: "memory_content memorydb_New = Map.empty"
    by (simp_all add: memorydb_New_def Wrap_def WrapWithDrop_def flushable_usable_def flushable_content_def overlay_map_def fun_eq_iff)
  have e: "below pre Map.empty = Map.empty" for pre by (simp add: below_def fun_eq_iff)
  from table_writes_isolated [OF memorydb_is_store [OF bst_ops_ok] u, of "[PutOp (Some [7]) (Some [8]), DeleteOp (Some [9])]" "Some [1]" "Some [2]"]
  show ?thesis by (auto simp: c e proper_op_def)
qed

end
