(* ===== verification/Synced_Pool.thy ===== *)
theory Synced_Pool
  imports Memorydb
begin

text \<open>
  A pool of stores that are flushed together (\<^verbatim>\<open>kvdb/flushable/synced_pool.go\<close>, with \<^verbatim>\<open>lazy_flushable.go\<close> and
  \<^verbatim>\<open>close_drop_wrapper.go\<close>). A flush marks every store as dirty, flushes all of them and marks them as
  clean; at the start of a process \<^verbatim>\<open>CheckDBsSynced\<close> compares the marks. The order in which Go's maps are
  iterated is an argument of each loop. Locks are not modelled: the operations are atomic steps.
\<close>

section \<open>Lazily opened stores\<close>

text \<open>
  A lazily opened store stands over the null store until it is opened. When opening fails, the code has already
  assigned the \<^verbatim>\<open>nil\<close> result to \<^verbatim>\<open>underlying\<close>, while readers still use the null store.
\<close>

datatype 'd LazyFlushable = LazyDevnull "unit Flushable" | LazyOpened "'d Flushable" | LazyNil "unit Flushable"

definition NewLazy :: "'d LazyFlushable" where
  "NewLazy = LazyDevnull (WrapWithDrop () None)"

definition reopen :: "unit Flushable \<Rightarrow> 'd \<Rightarrow> 'd Flushable" where
  "reopen w d = \<lparr>fl_reader = \<lparr>fr_underlying = d, fr_modified = fr_modified (fl_reader w)\<rparr>, fl_onDrop = None,
    fl_sizeEstimation = fl_sizeEstimation w\<rparr>"

definition initUnderlyingDb :: "kv_error + 'd \<Rightarrow> 'd LazyFlushable \<Rightarrow> kv_error option \<times> 'd LazyFlushable" where
  "initUnderlyingDb producer w =
    (case w of
       LazyDevnull f \<Rightarrow> (case producer of Inl err \<Rightarrow> (Some err, LazyNil f) | Inr d \<Rightarrow> (None, LazyOpened (reopen f d)))
     | _ \<Rightarrow> (None, w))"

definition lazy_Flush :: "RbtOps \<Rightarrow> ('d, 'i, 'b, 's, 'j) Store \<Rightarrow> kv_error + 'd \<Rightarrow> 'd LazyFlushable \<Rightarrow>
    kv_error option \<times> 'd LazyFlushable" where
  "lazy_Flush T S producer w =
    (case initUnderlyingDb producer w of
       (Some err, w1) \<Rightarrow> (Some err, w1)
     | (None, w1) \<Rightarrow>
         (case w1 of
            LazyOpened f \<Rightarrow> (case flushable_Flush T S f of (err, f1) \<Rightarrow> (err, LazyOpened f1))
          | LazyDevnull f \<Rightarrow> (case flushable_Flush T devnull_Store f of (err, f1) \<Rightarrow> (err, LazyDevnull f1))
          | LazyNil f \<Rightarrow>
              (Some (if fr_modified (fl_reader f) = None then errClosed else Panic ''nil pointer''), w1)))"

definition lazy_Close :: "('d, 'i, 'b, 's, 'j) Store \<Rightarrow> 'd LazyFlushable \<Rightarrow> kv_error option \<times> 'd LazyFlushable" where
  "lazy_Close S w =
    (case w of
       LazyOpened f \<Rightarrow> (case flushable_Close S f of (err, f1) \<Rightarrow> (err, LazyOpened f1))
     | LazyDevnull f \<Rightarrow> (case flushable_Close devnull_Store f of (err, f1) \<Rightarrow> (err, LazyDevnull f1))
     | LazyNil f \<Rightarrow>
         (if fr_modified (fl_reader f) = None then (Some errClosed, w)
          else (Some (Panic ''nil pointer''), LazyNil (set_modified f None 0))))"

definition lazy_NotFlushedSizeEst :: "'d LazyFlushable \<Rightarrow> int" where
  "lazy_NotFlushedSizeEst w =
    (case w of LazyDevnull f \<Rightarrow> NotFlushedSizeEst f | LazyOpened f \<Rightarrow> NotFlushedSizeEst f | LazyNil f \<Rightarrow> NotFlushedSizeEst f)"

text \<open>Writes and reads of a client, which are those of the embedded flushable store.\<close>

definition lazy_Put :: "RbtOps \<Rightarrow> 'd LazyFlushable \<Rightarrow> slice \<Rightarrow> slice \<Rightarrow> kv_error option \<times> 'd LazyFlushable" where
  "lazy_Put T w key val =
    (case w of
       LazyOpened f \<Rightarrow> (case flushable_Put T f key val of (err, f1) \<Rightarrow> (err, LazyOpened f1))
     | LazyDevnull f \<Rightarrow> (case flushable_Put T f key val of (err, f1) \<Rightarrow> (err, LazyDevnull f1))
     | LazyNil f \<Rightarrow> (case flushable_Put T f key val of (err, f1) \<Rightarrow> (err, LazyNil f1)))"

definition lazy_Get :: "RbtOps \<Rightarrow> ('d, 'i, 'b, 's, 'j) Store \<Rightarrow> 'd LazyFlushable \<Rightarrow> slice \<Rightarrow> kv_error + slice" where
  "lazy_Get T S w key =
    (case w of
       LazyOpened f \<Rightarrow> flushable_Get T (kv_reader_ops S) (fl_reader f) key
     | LazyDevnull f \<Rightarrow> flushable_Get T devnull_reader (fl_reader f) key
     | LazyNil f \<Rightarrow> flushable_Get T devnull_reader (fl_reader f) key)"

section \<open>The pool\<close>

record 'd wrappers =
  wr_Flushable :: "'d LazyFlushable"
  wr_ReadonlyStore :: bool

record 'd SyncedPool =
  sp_wrappers :: "string \<rightharpoonup> 'd wrappers"
  sp_queuedDrops :: "string list"
  sp_flushIDKey :: bytes

definition DirtyPrefix :: byte where
  "DirtyPrefix = 0xde"

definition CleanPrefix :: byte where
  "CleanPrefix = 0x00"

definition NewSyncedPool :: "bytes \<Rightarrow> 'd SyncedPool" where
  "NewSyncedPool flushIDKey = \<lparr>sp_wrappers = Map.empty, sp_queuedDrops = [], sp_flushIDKey = flushIDKey\<rparr>"

definition set_wrapper :: "'d SyncedPool \<Rightarrow> string \<Rightarrow> 'd wrappers \<Rightarrow> 'd SyncedPool" where
  "set_wrapper p name w = p\<lparr>sp_wrappers := (sp_wrappers p)(name \<mapsto> w)\<rparr>"

definition enqueueDropDb :: "'d SyncedPool \<Rightarrow> string \<Rightarrow> 'd SyncedPool" where
  "enqueueDropDb p name =
    (if name \<in> set (sp_queuedDrops p) then p else p\<lparr>sp_queuedDrops := sp_queuedDrops p @ [name]\<rparr>)"

definition popQueuedDrops :: "'d SyncedPool \<Rightarrow> string list \<times> 'd SyncedPool" where
  "popQueuedDrops p = (sp_queuedDrops p, p\<lparr>sp_queuedDrops := []\<rparr>)"

text \<open>The close and drop of a store of the pool: closing does nothing, dropping is queued for the next flush.\<close>

definition wrapped_Close :: "'d SyncedPool \<Rightarrow> string \<Rightarrow> kv_error option \<times> 'd SyncedPool" where
  "wrapped_Close p name = (None, p)"

definition wrapped_Drop :: "'d SyncedPool \<Rightarrow> string \<Rightarrow> 'd SyncedPool" where
  "wrapped_Drop p name = enqueueDropDb p name"

definition getDB :: "'d SyncedPool \<Rightarrow> string \<Rightarrow> 'd LazyFlushable \<times> 'd SyncedPool" where
  "getDB p name =
    (case sp_wrappers p name of
       Some w \<Rightarrow> (wr_Flushable w, p)
     | None \<Rightarrow> (NewLazy, set_wrapper p name \<lparr>wr_Flushable = NewLazy, wr_ReadonlyStore = False\<rparr>))"

definition pool_OpenDB :: "'d SyncedPool \<Rightarrow> string \<Rightarrow> 'd LazyFlushable \<times> 'd SyncedPool" where
  "pool_OpenDB p name = getDB p name"

definition GetUnderlying :: "(string \<Rightarrow> kv_error + 'd) \<Rightarrow> 'd SyncedPool \<Rightarrow> string \<Rightarrow> kv_error option \<times> 'd SyncedPool" where
  "GetUnderlying open p name =
    (case sp_wrappers p name of
       Some w \<Rightarrow> if wr_ReadonlyStore w then (None, p)
         else (case initUnderlyingDb (open name) (wr_Flushable w) of
                 (Some err, f) \<Rightarrow> (Some err, set_wrapper p name (w\<lparr>wr_Flushable := f\<rparr>))
               | (None, f) \<Rightarrow> (None, set_wrapper p name \<lparr>wr_Flushable = f, wr_ReadonlyStore = True\<rparr>))
     | None \<Rightarrow>
         (case initUnderlyingDb (open name) NewLazy of
            (Some err, f) \<Rightarrow> (Some err, set_wrapper p name \<lparr>wr_Flushable = f, wr_ReadonlyStore = False\<rparr>)
          | (None, f) \<Rightarrow> (None, set_wrapper p name \<lparr>wr_Flushable = f, wr_ReadonlyStore = True\<rparr>)))"

section \<open>Flushing\<close>

definition MarkFlushID :: "('d, 'i, 'b, 's, 'j) Store \<Rightarrow> 'd LazyFlushable \<Rightarrow> bytes \<Rightarrow> byte \<Rightarrow> bytes \<Rightarrow>
    kv_error option \<times> 'd LazyFlushable" where
  "MarkFlushID S w key pre flushID =
    (case w of
       LazyOpened f \<Rightarrow>
         (case kv_Put S (fr_underlying (fl_reader f)) (Some key) (Some (pre # flushID)) of
            (err, d) \<Rightarrow> (err, LazyOpened (set_underlying f d)))
     | LazyDevnull f \<Rightarrow> (None, w)
     | LazyNil f \<Rightarrow> (Some (Panic ''nil pointer''), w))"

definition mark_db :: "('d, 'i, 'b, 's, 'j) Store \<Rightarrow> (string \<Rightarrow> kv_error + 'd) \<Rightarrow> bytes \<Rightarrow> byte \<Rightarrow> bytes \<Rightarrow> string \<Rightarrow>
    'd LazyFlushable \<Rightarrow> kv_error option \<times> 'd LazyFlushable" where
  "mark_db S open key pre flushID name w =
    (case initUnderlyingDb (open name) w of
       (Some err, w1) \<Rightarrow> (Some err, w1)
     | (None, w1) \<Rightarrow> MarkFlushID S w1 key pre flushID)"

text \<open>A loop over the wrappers, in some order, that stops at the first error.\<close>

fun pool_loop :: "(string \<Rightarrow> 'd LazyFlushable \<Rightarrow> kv_error option \<times> 'd LazyFlushable) \<Rightarrow> string list \<Rightarrow> 'd SyncedPool \<Rightarrow>
    kv_error option \<times> 'd SyncedPool" where
  "pool_loop step [] p = (None, p)"
| "pool_loop step (name # names) p =
    (case sp_wrappers p name of
       None \<Rightarrow> pool_loop step names p
     | Some w \<Rightarrow>
         (case step name (wr_Flushable w) of
            (Some err, f) \<Rightarrow> (Some err, set_wrapper p name (w\<lparr>wr_Flushable := f\<rparr>))
          | (None, f) \<Rightarrow> pool_loop step names (set_wrapper p name (w\<lparr>wr_Flushable := f\<rparr>))))"

fun drop_loop :: "('d, 'i, 'b, 's, 'j) Store \<Rightarrow> string list \<Rightarrow> 'd SyncedPool \<Rightarrow> kv_error option \<times> 'd SyncedPool" where
  "drop_loop S [] p = (None, p)"
| "drop_loop S (name # names) p =
    (let p1 = p\<lparr>sp_wrappers := (sp_wrappers p)(name := None)\<rparr> in
     case sp_wrappers p name of
       None \<Rightarrow> drop_loop S names p1
     | Some w \<Rightarrow>
         (case lazy_Close S (wr_Flushable w) of
            (Some err, _) \<Rightarrow> (Some err, p1)
          | (None, LazyOpened f) \<Rightarrow>
              (case kv_Drop S (fr_underlying (fl_reader f)) of
                 (Some err, _) \<Rightarrow> (Some err, p1)
               | (None, _) \<Rightarrow> drop_loop S names p1)
          | (None, _) \<Rightarrow> drop_loop S names p1))"

definition pool_Flush :: "RbtOps \<Rightarrow> ('d, 'i, 'b, 's, 'j) Store \<Rightarrow> (string \<Rightarrow> kv_error + 'd) \<Rightarrow>
    string list \<times> string list \<times> string list \<Rightarrow> 'd SyncedPool \<Rightarrow> bytes \<Rightarrow> kv_error option \<times> 'd SyncedPool" where
  "pool_Flush T S open orders p flushID =
    (case popQueuedDrops p of (queuedDropsList, p0) \<Rightarrow>
     case drop_loop S queuedDropsList p0 of
       (Some err, p1) \<Rightarrow> (Some err, p1)
     | (None, p1) \<Rightarrow>
         (case pool_loop (mark_db S open (sp_flushIDKey p) DirtyPrefix flushID) (fst orders) p1 of
            (Some err, p2) \<Rightarrow> (Some err, p2)
          | (None, p2) \<Rightarrow>
              (case pool_loop (\<lambda>name. lazy_Flush T S (open name)) (fst (snd orders)) p2 of
                 (Some err, p3) \<Rightarrow> (Some err, p3)
               | (None, p3) \<Rightarrow>
                   pool_loop (mark_db S open (sp_flushIDKey p) CleanPrefix flushID) (snd (snd orders)) p3)))"

definition pool_NotFlushedSizeEst :: "string list \<Rightarrow> 'd SyncedPool \<Rightarrow> int" where
  "pool_NotFlushedSizeEst order p =
    (\<Sum>name \<leftarrow> order. case sp_wrappers p name of None \<Rightarrow> 0 | Some w \<Rightarrow> lazy_NotFlushedSizeEst (wr_Flushable w))"

definition pool_Close :: "('d, 'i, 'b, 's, 'j) Store \<Rightarrow> string list \<Rightarrow> 'd SyncedPool \<Rightarrow> kv_error option \<times> 'd SyncedPool" where
  "pool_Close S order p =
    (case pool_loop (\<lambda>name. lazy_Close S) order p of
       (Some err, p1) \<Rightarrow> (Some err, p1)
     | (None, p1) \<Rightarrow> (None, NewSyncedPool []))"

section \<open>Checking the marks\<close>

text \<open>The argument \<^verbatim>\<open>get\<close> reads the mark of a store.\<close>

fun check_loop :: "('d \<Rightarrow> kv_error + slice) \<Rightarrow> (string \<times> 'd) list \<Rightarrow> slice \<Rightarrow> bool \<Rightarrow> slice \<times> kv_error option" where
  "check_loop get [] flushID nonInit =
    (if flushID \<noteq> None \<and> nonInit then (flushID, Some (OtherError ''non-initialized DB state'')) else (flushID, None))"
| "check_loop get ((name, db) # dbs) flushID nonInit =
    (case get db of
       Inl err \<Rightarrow> (flushID, Some err)
     | Inr None \<Rightarrow> check_loop get dbs flushID True
     | Inr (Some mark) \<Rightarrow>
         if prefix [DirtyPrefix] mark then (flushID, Some (OtherError ''dirty state''))
         else let flushID1 = (if flushID = None then Some mark else flushID) in
           if mark \<noteq> bytes_of flushID1 then (flushID1, Some (OtherError ''not synced''))
           else check_loop get dbs flushID1 nonInit)"

definition CheckDBsSynced :: "('d, 'i) IteratedReader \<Rightarrow> (string \<times> 'd) list \<Rightarrow> bytes \<Rightarrow> slice \<Rightarrow> slice \<times> kv_error option" where
  "CheckDBsSynced R dbs flushIDKey flushID = check_loop (\<lambda>db. rd_Get R db (Some flushIDKey)) dbs flushID False"

fun init_loop :: "(string \<Rightarrow> kv_error + 'd) \<Rightarrow> string list \<Rightarrow> 'd SyncedPool \<Rightarrow> kv_error option \<times> 'd SyncedPool" where
  "init_loop open [] p = (None, p)"
| "init_loop open (name # names) p =
    (case getDB p name of (f, p1) \<Rightarrow>
     case initUnderlyingDb (open name) f of
       (Some err, f1) \<Rightarrow> (Some err, set_wrapper p1 name ((the (sp_wrappers p1 name))\<lparr>wr_Flushable := f1\<rparr>))
     | (None, f1) \<Rightarrow> init_loop open names (set_wrapper p1 name ((the (sp_wrappers p1 name))\<lparr>wr_Flushable := f1\<rparr>)))"

definition underlying_Get :: "('d, 'i) IteratedReader \<Rightarrow> bytes \<Rightarrow> 'd LazyFlushable \<Rightarrow> kv_error + slice" where
  "underlying_Get R key w =
    (case w of
       LazyOpened f \<Rightarrow> rd_Get R (fr_underlying (fl_reader f)) (Some key)
     | LazyDevnull _ \<Rightarrow> devnull_Get () (Some key)
     | LazyNil _ \<Rightarrow> Inl (Panic ''nil pointer''))"

definition pool_dbs :: "string list \<Rightarrow> 'd SyncedPool \<Rightarrow> (string \<times> 'd LazyFlushable) list" where
  "pool_dbs order p = concat (map (\<lambda>name.
    case sp_wrappers p name of Some w \<Rightarrow> [(name, wr_Flushable w)] | None \<Rightarrow> []) order)"

definition pool_Names :: "string list \<Rightarrow> 'd SyncedPool \<Rightarrow> string list" where
  "pool_Names order p = filter (\<lambda>name. sp_wrappers p name \<noteq> None) order"

definition checkDBsSynced :: "('d, 'i) IteratedReader \<Rightarrow> (string \<Rightarrow> kv_error + 'd) \<Rightarrow> string list \<times> string list \<Rightarrow>
    'd SyncedPool \<Rightarrow> slice \<Rightarrow> (slice \<times> kv_error option) \<times> 'd SyncedPool" where
  "checkDBsSynced R open orders p flushID =
    (case pool_loop (\<lambda>name. initUnderlyingDb (open name)) (fst orders) p of
       (Some err, p1) \<Rightarrow> ((flushID, Some err), p1)
     | (None, p1) \<Rightarrow> (check_loop (underlying_Get R (sp_flushIDKey p)) (pool_dbs (snd orders) p1) flushID False, p1))"

definition Initialize :: "('d, 'i) IteratedReader \<Rightarrow> (string \<Rightarrow> kv_error + 'd) \<Rightarrow> string list \<Rightarrow> string list \<times> string list \<Rightarrow>
    'd SyncedPool \<Rightarrow> slice \<Rightarrow> (slice \<times> kv_error option) \<times> 'd SyncedPool" where
  "Initialize R open dbNames orders p flushID =
    (case init_loop open dbNames p of
       (Some err, p1) \<Rightarrow> ((flushID, Some err), p1)
     | (None, p1) \<Rightarrow> checkDBsSynced R open orders p1 flushID)"

end
