(* ===== verification/Flushable_Properties.thy ===== *)
theory Flushable_Properties
  imports Memorydb
begin

text \<open>
  The properties of the flushable store, with witnesses on a flushable store over a store in memory.
\<close>

definition sample_flushable :: "memorydb Flushable" where
  "sample_flushable = \<lparr>fl_reader = \<lparr>fr_underlying = memorydb_New\<lparr>fl_reader := \<lparr>fr_underlying = (),
      fr_modified = Some (Node Leaf ([1], Some [10]) (Node Leaf ([2], Some [20]) Leaf))\<rparr>\<rparr>,
    fr_modified = Some (Node Leaf ([1], None) (Node Leaf ([3], Some [30]) Leaf))\<rparr>,
    fl_onDrop = None, fl_sizeEstimation = 259\<rparr>"

lemma sample_flushable_usable: "fl_usable (\<lambda>w. memory_usable w) sample_flushable"
  by (simp add: sample_flushable_def flushable_usable_def)

lemma sample_flushable_content: "fl_content (\<lambda>w. memory_content w) sample_flushable = [[2] \<mapsto> [20], [3] \<mapsto> [30]]"
  by (simp add: sample_flushable_def flushable_content_def overlay_map_def fun_eq_iff)

lemma memory_reader: "kv_reader (kv_reader_ops (memorydb_Store bst_ops)) (\<lambda>w. memory_content w) (\<lambda>w. memory_usable w)"
  using memorydb_is_store [OF bst_ops_ok] kv_store.axioms(1) kv_snapshots.axioms(1) by blast

text \<open>
  C27: reading a flushable store. A lookup answers what the unflushed writes laid over the content
  of the parent hold, and an iterator lists exactly the pairs of that map with the prefix from the
  start on, in order, each once, and ends: deleted keys are hidden and overwritten ones replaced.
\<close>

theorem flushable_reads_overlay:
  assumes "rbt_ok T" and "kv_reader R content usable" and "flushable_usable usable w"
  shows "flushable_Has T R w k = Inr (flushable_content content w (bytes_of k) \<noteq> None) \<and>
    flushable_Get T R w k = Inr (flushable_content content w (bytes_of k)) \<and>
    (\<exists>it. flushable_NewIterator T R w pre st = Some it \<and>
      iterates (flushable_reader T R) it (range_list (flushable_content content w) (bytes_of pre) (bytes_of st)))"
proof -
  have "flushable_over R content usable T" using assms(1,2) by (simp add: flushable_over_def flushable_over_axioms_def)
  note reader = flushable_over.flushed_is_reader [OF this]
  show ?thesis
    using kv_reader.Has_content [OF reader assms(3), of k] kv_reader.Get_content [OF reader assms(3), of k]
      kv_reader.iterates_content [OF reader assms(3), of pre st]
    by (simp add: flushable_reader_def)
qed

theorem flushable_reads_overlay_witness:
  "flushable_Get bst_ops (kv_reader_ops (memorydb_Store bst_ops)) (fl_reader sample_flushable) (Some [1]) = Inr None \<and>
    (\<exists>it. flushable_NewIterator bst_ops (kv_reader_ops (memorydb_Store bst_ops)) (fl_reader sample_flushable) None None = Some it \<and>
      iterates (flushable_reader bst_ops (kv_reader_ops (memorydb_Store bst_ops))) it
        (range_list [[2] \<mapsto> [20], [3] \<mapsto> [30]] [] []))"
  using flushable_reads_overlay [OF bst_ops_ok memory_reader sample_flushable_usable, of "Some [1]" None None]
  unfolding sample_flushable_content by simp

text \<open>
  C28: flushing keeps what is seen. Over a parent within its contract \<^verbatim>\<open>Flush\<close> succeeds; afterwards the
  parent itself holds what readers of the flushable store saw before, readers still see the
  same, and nothing is left to flush, in however many batches the writes were made.
\<close>

theorem Flush_moves_writes:
  assumes "rbt_ok T" and "kv_store S content usable snap_content snap_usable writes" and "fl_usable usable w"
  shows "\<exists>w'. flushable_Flush T S w = (None, w') \<and> content (fr_underlying (fl_reader w')) = fl_content content w \<and>
    fl_content content w' = fl_content content w \<and> NotFlushedPairs T w' = Some 0 \<and> NotFlushedSizeEst w' = 0"
proof -
  have faulty: "kv_faulty S content usable writes" by (rule kv_store.store_is_faulty [OF assms(2)])
  obtain w' where w': "flushable_Flush T S w = (None, w')" using kv_store.Flush_total [OF assms(2,3)] by blast
  note out = kv_faulty.Flush_outcome [OF faulty assms(1,3) w']
  moreover have "rbt_Pairs T Leaf = []" using rbt_okD(4) [OF assms(1), of Leaf] by simp
  ultimately show ?thesis
    using w' by (auto simp: flushable_content_def overlay_map_def NotFlushedPairs_def NotFlushedSizeEst_def fun_eq_iff)
qed

theorem Flush_moves_writes_witness:
  "\<exists>w'. flushable_Flush bst_ops (memorydb_Store bst_ops) sample_flushable = (None, w') \<and>
    memory_content (fr_underlying (fl_reader w')) = [[2] \<mapsto> [20], [3] \<mapsto> [30]]"
  using Flush_moves_writes [OF bst_ops_ok memorydb_is_store [OF bst_ops_ok] sample_flushable_usable]
  unfolding sample_flushable_content by blast



end
