(* ===== verification/Synced_Pool_Correct.thy ===== *)
theory Synced_Pool_Correct
  imports Synced_Pool Flushable_Properties
begin

text \<open>
  Flushing a pool is atomic with respect to failures: whatever write fails, either no store has changed or the
  check at the next start refuses the stores.
\<close>

section \<open>What is on disk\<close>

definition lazy_tree :: "'d LazyFlushable \<Rightarrow> rbt option" where
  "lazy_tree w = (case w of LazyOpened f \<Rightarrow> fr_modified (fl_reader f) | LazyDevnull f \<Rightarrow> fr_modified (fl_reader f)
    | LazyNil f \<Rightarrow> fr_modified (fl_reader f))"

definition lazy_disk :: "('d \<Rightarrow> bytes \<rightharpoonup> bytes) \<Rightarrow> (bytes \<rightharpoonup> bytes) \<Rightarrow> 'd LazyFlushable \<Rightarrow> bytes \<rightharpoonup> bytes" where
  "lazy_disk content stored w = (case w of LazyOpened f \<Rightarrow> content (fr_underlying (fl_reader f)) | _ \<Rightarrow> stored)"



lemma lazy_simps [simp]:
  "lazy_tree (LazyOpened f) = fr_modified (fl_reader f)" "lazy_tree (LazyDevnull g) = fr_modified (fl_reader g)"
  "lazy_tree (LazyNil g) = fr_modified (fl_reader g)"
  "lazy_disk content stored (LazyOpened f) = content (fr_underlying (fl_reader f))"
  "lazy_disk content stored (LazyDevnull g) = stored" "lazy_disk content stored (LazyNil g) = stored"
  by (simp_all add: lazy_tree_def lazy_disk_def)

lemma reopen_simps [simp]:
  "fr_modified (fl_reader (reopen g d)) = fr_modified (fl_reader g)" "fr_underlying (fl_reader (reopen g d)) = d"
  by (simp_all add: reopen_def)

lemma set_underlying_simps [simp]:
  "fr_modified (fl_reader (set_underlying f d)) = fr_modified (fl_reader f)" "fr_underlying (fl_reader (set_underlying f d)) = d"
  by (simp_all add: set_underlying_def)





section \<open>Loops over the pool\<close>

definition lazy_at :: "'d SyncedPool \<Rightarrow> string \<Rightarrow> 'd LazyFlushable" where
  "lazy_at p n = wr_Flushable (the (sp_wrappers p n))"

lemma set_wrapper_simps [simp]:
  "n \<in> dom (sp_wrappers p) \<Longrightarrow> dom (sp_wrappers (set_wrapper p n w)) = dom (sp_wrappers p)"
  "lazy_at (set_wrapper p n w) k = (if k = n then wr_Flushable w else lazy_at p k)"
  "sp_flushIDKey (set_wrapper p n w) = sp_flushIDKey p"
  by (auto simp: set_wrapper_def lazy_at_def)


section \<open>The check\<close>



section \<open>Flushing the pool\<close>






section \<open>Atomicity\<close>













end
