(* ===== verification/Quorum_Indexer.thy ===== *)
theory Quorum_Indexer
  imports Vectors Pos Wlru "HOL-Library.Monad_Syntax"
begin

text \<open>
  The choice of parents for a new event (\<^verbatim>\<open>emitter/ancestor\<close>, with \<^verbatim>\<open>utils/wmedian\<close>): the weighted median, the
  quorum indexer and the strategies that choose parents by a metric. A panic is \<^const>\<open>None\<close>. The interface
  \<^verbatim>\<open>DagIndex\<close>, the metric of the differences and the order in which \<^verbatim>\<open>sort.Slice\<close> leaves equal elements
  are parameters.
\<close>

section \<open>Weighted median\<close>

fun wmedian_loop :: "('a \<Rightarrow> Weight) \<Rightarrow> 'a list \<Rightarrow> Weight \<Rightarrow> Weight \<Rightarrow> 'a option" where
  "wmedian_loop weight [] stop curWeight = None"
| "wmedian_loop weight (v # values) stop curWeight =
    (let curWeight1 = curWeight + weight v
     in if curWeight1 \<ge> stop then Some v else wmedian_loop weight values stop curWeight1)"

definition wmedian_Of :: "('a \<Rightarrow> Weight) \<Rightarrow> 'a list \<Rightarrow> Weight \<Rightarrow> 'a option" where
  "wmedian_Of weight values stop = wmedian_loop weight values stop 0"

section \<open>Metrics and strategies\<close>

type_synonym ancestor_Metric = u64

text \<open>
  A metric function may change the state that it is a method of. Cached metrics: the cache is \<^verbatim>\<open>nil\<close> if its size
  is not positive.
\<close>

type_synonym 's MetricFn = "hash_event \<Rightarrow> 's \<Rightarrow> (ancestor_Metric \<times> 's) option"

definition NewMetricFnCache :: "int \<Rightarrow> (hash_event, ancestor_Metric) lru_cache option" where
  "NewMetricFnCache cacheSize = lru_New (word_of_int cacheSize) cacheSize"

definition MetricCache_GetMetricOf ::
  "'s MetricFn \<Rightarrow> (hash_event, ancestor_Metric) lru_cache \<Rightarrow> hash_event \<Rightarrow> 's \<Rightarrow> (ancestor_Metric \<times> (hash_event, ancestor_Metric) lru_cache \<times> 's) option" where
  "MetricCache_GetMetricOf metricFn cache i s =
    (case lru_Get cache i of
       (cache1, Some m) \<Rightarrow> Some (m, cache1, s)
     | (cache1, None) \<Rightarrow> do {
         (m, s1) \<leftarrow> metricFn i s;
         (cache2, _) \<leftarrow> lru_Add cache1 i m 1;
         Some (m, cache2, s1)
       })"

fun MetricStrategy_loop :: "'s MetricFn \<Rightarrow> nat \<Rightarrow> hash_event list \<Rightarrow> nat \<times> ancestor_Metric \<Rightarrow> 's \<Rightarrow> (nat \<times> 's) option" where
  "MetricStrategy_loop metricFn i [] (maxI, maxWeight) s = Some (maxI, s)"
| "MetricStrategy_loop metricFn i (opt # options) (maxI, maxWeight) s = do {
     (weight, s1) \<leftarrow> metricFn opt s;
     MetricStrategy_loop metricFn (Suc i) options
       (if maxWeight = 0 \<or> weight > maxWeight then (i, weight) else (maxI, maxWeight)) s1
   }"

definition MetricStrategy_Choose :: "'s MetricFn \<Rightarrow> hash_event list \<Rightarrow> hash_event list \<Rightarrow> 's \<Rightarrow> (nat \<times> 's) option" where
  "MetricStrategy_Choose metricFn existingParents options s = MetricStrategy_loop metricFn 0 options (0, 0) s"

section \<open>Choosing parents\<close>

type_synonym 's SearchStrategy = "hash_event list \<Rightarrow> hash_event list \<Rightarrow> 's \<Rightarrow> (nat \<times> 's) option"

text \<open>A set of events is turned into a slice in the iteration order of a Go map, which is an argument.\<close>

type_synonym set_slice = "hash_event set \<Rightarrow> hash_event list"

fun ChooseParents_loop ::
  "'s SearchStrategy list \<Rightarrow> set_slice list \<Rightarrow> hash_event list \<Rightarrow> hash_event set \<Rightarrow> 's \<Rightarrow> (hash_event list \<times> 's) option" where
  "ChooseParents_loop (strategy # strategies) (order # orders) parents optionsSet s =
    (if optionsSet = {} then Some (parents, s)
     else let curOptions = order optionsSet in do {
       (best, s1) \<leftarrow> strategy parents curOptions s;
       p \<leftarrow> slice_get curOptions best;
       ChooseParents_loop strategies orders (parents @ [p]) (optionsSet - {p}) s1
     })"
| "ChooseParents_loop strategies orders parents optionsSet s = Some (parents, s)"

definition ChooseParents ::
  "hash_event list \<Rightarrow> hash_event list \<Rightarrow> 's SearchStrategy list \<Rightarrow> set_slice list \<Rightarrow> 's \<Rightarrow> (hash_event list \<times> 's) option" where
  "ChooseParents existingParents options strategies orders s =
    ChooseParents_loop strategies orders existingParents (Events_Set options - set existingParents) s"

section \<open>The payload indexer\<close>

type_synonym PayloadIndexer = "(hash_event, ancestor_Metric) lru_cache"

definition Payload_GetMetricOf :: "PayloadIndexer \<Rightarrow> hash_event \<Rightarrow> ancestor_Metric \<times> PayloadIndexer" where
  "Payload_GetMetricOf h i =
    (case lru_Get h i of (h1, None) \<Rightarrow> (0, h1) | (h1, Some m) \<Rightarrow> (m, h1))"

fun Payload_max :: "hash_event list \<Rightarrow> ancestor_Metric \<Rightarrow> PayloadIndexer \<Rightarrow> ancestor_Metric \<times> PayloadIndexer" where
  "Payload_max [] m h = (m, h)"
| "Payload_max (p # ps) m h =
    (case Payload_GetMetricOf h p of (parentMetric, h1) \<Rightarrow>
      Payload_max ps (if m < parentMetric then parentMetric else m) h1)"

definition Payload_ProcessEvent :: "PayloadIndexer \<Rightarrow> BaseEvent \<Rightarrow> ancestor_Metric \<Rightarrow> PayloadIndexer option" where
  "Payload_ProcessEvent h event payloadMetric =
    (case Payload_max (ev_parents event) 0 h of (maxParentsPayloadMetric, h1) \<Rightarrow>
      if maxParentsPayloadMetric \<noteq> 0 \<or> payloadMetric \<noteq> 0
      then map_option fst (lru_Add h1 (ev_id event) (maxParentsPayloadMetric + payloadMetric) 1)
      else Some h1)"

section \<open>The matrix of sequence numbers\<close>

text \<open>Rows and columns are \<^verbatim>\<open>uint32\<close>, so their products wrap.\<close>

record Matrix =
  mx_buffer :: "Event_seq list"
  mx_columns :: nat

definition NewMatrix :: "nat \<Rightarrow> nat \<Rightarrow> Matrix" where
  "NewMatrix rows cols = \<lparr>mx_buffer = replicate (rows * cols mod 2 ^ 32) 0, mx_columns = cols\<rparr>"

definition Matrix_bounds :: "Matrix \<Rightarrow> nat \<Rightarrow> (nat \<times> nat) option" where
  "Matrix_bounds m i =
    (let lo = i * mx_columns m mod 2 ^ 32; hi = (i + 1) * mx_columns m mod 2 ^ 32
     in if lo \<le> hi \<and> hi \<le> length (mx_buffer m) then Some (lo, hi) else None)"

definition Matrix_Row :: "Matrix \<Rightarrow> nat \<Rightarrow> Event_seq list option" where
  "Matrix_Row m i = map_option (\<lambda>(lo, hi). take (hi - lo) (drop lo (mx_buffer m))) (Matrix_bounds m i)"

definition Matrix_set :: "Matrix \<Rightarrow> nat \<Rightarrow> nat \<Rightarrow> Event_seq \<Rightarrow> Matrix option" where
  "Matrix_set m i j v = do {
     (lo, hi) \<leftarrow> Matrix_bounds m i;
     if j < hi - lo then Some (m\<lparr>mx_buffer := (mx_buffer m)[lo + j := v]\<rparr>) else None
   }"

definition Matrix_Clone :: "Matrix \<Rightarrow> Matrix" where
  "Matrix_Clone m = \<lparr>mx_buffer = mx_buffer m, mx_columns = mx_columns m\<rparr>"

definition seqOf :: "BranchSeq \<Rightarrow> Event_seq" where
  "seqOf seq = (if BranchSeq_IsForkDetected seq then 0xffffffff div 2 - 1 else bs_Seq seq)"

section \<open>The quorum indexer\<close>

record weightedSeq =
  ws_seq :: Event_seq
  ws_weight :: Weight

type_synonym DagIndex = "hash_event \<Rightarrow> HighestBeforeSeq option"
type_synonym DiffMetricFn = "Event_seq \<Rightarrow> Event_seq \<Rightarrow> Event_seq \<Rightarrow> nat \<Rightarrow> ancestor_Metric"

text \<open>
  A search strategy holds a cache of metrics. The strategies that were handed out share their cache with the indexer, so the
  caches are in a store and a strategy is an index of it.
\<close>

record QuorumIndexer =
  qi_dagi :: DagIndex
  qi_validators :: Validators
  qi_globalMatrix :: Matrix
  qi_selfParentSeqs :: "Event_seq list"
  qi_globalMedianSeqs :: "Event_seq list"
  qi_dirty :: bool
  qi_caches :: "(hash_event, ancestor_Metric) lru_cache option list"
  qi_searchStrategy :: "nat option"
  qi_diffMetricFn :: DiffMetricFn

definition NewQuorumIndexer :: "Validators \<Rightarrow> DagIndex \<Rightarrow> DiffMetricFn \<Rightarrow> QuorumIndexer" where
  "NewQuorumIndexer validators dagi diffMetricFn =
    (let n = Validators_Len validators in
     \<lparr>qi_dagi = dagi, qi_validators = validators, qi_globalMatrix = NewMatrix n n,
      qi_selfParentSeqs = replicate n 0, qi_globalMedianSeqs = replicate n 0, qi_dirty = True,
      qi_caches = [], qi_searchStrategy = None, qi_diffMetricFn = diffMetricFn\<rparr>)"

definition process_seq :: "HighestBeforeSeq \<Rightarrow> nat \<Rightarrow> bool \<Rightarrow> QuorumIndexer \<Rightarrow> nat \<Rightarrow> QuorumIndexer option" where
  "process_seq vecClock creatorIdx selfEvent h validatorIdx = (
     let seq = seqOf (HB_Get vecClock validatorIdx) in do {
       m \<leftarrow> Matrix_set (qi_globalMatrix h) validatorIdx creatorIdx seq;
       let h1 = h\<lparr>qi_globalMatrix := m\<rparr> in
       if selfEvent
       then if validatorIdx < length (qi_selfParentSeqs h)
            then Some (h1\<lparr>qi_selfParentSeqs := (qi_selfParentSeqs h)[validatorIdx := seq]\<rparr>) else None
       else Some h1
     })"

definition Quorum_ProcessEvent :: "QuorumIndexer \<Rightarrow> BaseEvent \<Rightarrow> bool \<Rightarrow> QuorumIndexer option" where
  "Quorum_ProcessEvent h event selfEvent = do {
     vecClock \<leftarrow> qi_dagi h (ev_id event);
     h1 \<leftarrow> fold_option (process_seq vecClock (GetIdx (qi_validators h) (ev_creator event)) selfEvent)
       [0..<Validators_Len (qi_validators h)] h;
     Some (h1\<lparr>qi_dirty := True\<rparr>)
   }"

type_synonym sort_slice = "weightedSeq list \<Rightarrow> weightedSeq list"

definition median_pair :: "QuorumIndexer \<Rightarrow> nat \<Rightarrow> nat \<Rightarrow> weightedSeq option" where
  "median_pair h validatorIdx i = do {
     row \<leftarrow> Matrix_Row (qi_globalMatrix h) validatorIdx;
     s \<leftarrow> slice_get row i;
     w \<leftarrow> GetWeightByIdx (qi_validators h) i;
     Some \<lparr>ws_seq = s, ws_weight = w\<rparr>
   }"

definition recache_median :: "sort_slice \<Rightarrow> QuorumIndexer \<Rightarrow> nat \<Rightarrow> QuorumIndexer option" where
  "recache_median sortSlice h validatorIdx = do {
     pairs \<leftarrow> those (map (median_pair h validatorIdx) [0..<Validators_Len (qi_validators h)]);
     median \<leftarrow> wmedian_Of ws_weight (sortSlice pairs) (Quorum (qi_validators h));
     if validatorIdx < length (qi_globalMedianSeqs h)
     then Some (h\<lparr>qi_globalMedianSeqs := (qi_globalMedianSeqs h)[validatorIdx := ws_seq median]\<rparr>) else None
   }"

definition recacheState :: "sort_slice \<Rightarrow> QuorumIndexer \<Rightarrow> QuorumIndexer option" where
  "recacheState sortSlice h = do {
     h1 \<leftarrow> fold_option (recache_median sortSlice) [0..<Validators_Len (qi_validators h)] h;
     Some (h1\<lparr>qi_caches := qi_caches h1 @ [NewMetricFnCache 128], qi_searchStrategy := Some (length (qi_caches h1)), qi_dirty := False\<rparr>)
   }"

definition ensure_clean :: "sort_slice \<Rightarrow> QuorumIndexer \<Rightarrow> QuorumIndexer option" where
  "ensure_clean sortSlice h = (if qi_dirty h then recacheState sortSlice h else Some h)"

definition metric_step :: "HighestBeforeSeq \<Rightarrow> QuorumIndexer \<Rightarrow> ancestor_Metric \<Rightarrow> nat \<Rightarrow> ancestor_Metric option" where
  "metric_step vecClock h metric validatorIdx = do {
     current \<leftarrow> slice_get (qi_selfParentSeqs h) validatorIdx;
     median \<leftarrow> slice_get (qi_globalMedianSeqs h) validatorIdx;
     Some (metric + qi_diffMetricFn h median current (seqOf (HB_Get vecClock validatorIdx)) validatorIdx)
   }"

definition Quorum_GetMetricOf :: "sort_slice \<Rightarrow> QuorumIndexer MetricFn" where
  "Quorum_GetMetricOf sortSlice i h = do {
     h1 \<leftarrow> ensure_clean sortSlice h;
     vecClock \<leftarrow> qi_dagi h1 i;
     metric \<leftarrow> fold_option (metric_step vecClock h1) [0..<Validators_Len (qi_validators h1)] 0;
     Some (metric, h1)
   }"

definition Quorum_SearchStrategy :: "sort_slice \<Rightarrow> QuorumIndexer \<Rightarrow> (nat option \<times> QuorumIndexer) option" where
  "Quorum_SearchStrategy sortSlice h = do {
     h1 \<leftarrow> ensure_clean sortSlice h;
     Some (qi_searchStrategy h1, h1)
   }"

text \<open>The metric function of a strategy: a lookup in its cache, then the metric of the indexer.\<close>

definition strategy_metric :: "sort_slice \<Rightarrow> nat \<Rightarrow> QuorumIndexer MetricFn" where
  "strategy_metric sortSlice n i h = do {
     slot \<leftarrow> slice_get (qi_caches h) n;
     cache \<leftarrow> slot;
     (m, cache1, h1) \<leftarrow> MetricCache_GetMetricOf (Quorum_GetMetricOf sortSlice) cache i h;
     Some (m, h1\<lparr>qi_caches := (qi_caches h1)[n := Some cache1]\<rparr>)
   }"

definition quorum_Choose :: "sort_slice \<Rightarrow> nat \<Rightarrow> QuorumIndexer SearchStrategy" where
  "quorum_Choose sortSlice n = MetricStrategy_Choose (strategy_metric sortSlice n)"

definition GetGlobalMedianSeqs :: "sort_slice \<Rightarrow> QuorumIndexer \<Rightarrow> (Event_seq list \<times> QuorumIndexer) option" where
  "GetGlobalMedianSeqs sortSlice h = do {
     h1 \<leftarrow> ensure_clean sortSlice h;
     Some (qi_globalMedianSeqs h1, h1)
   }"

definition GetGlobalMatrix :: "QuorumIndexer \<Rightarrow> Matrix" where
  "GetGlobalMatrix h = qi_globalMatrix h"

definition GetSelfParentSeqs :: "QuorumIndexer \<Rightarrow> Event_seq list" where
  "GetSelfParentSeqs h = qi_selfParentSeqs h"

end
