(* ===== verification/Quorum_Indexer_Correct.thy ===== *)
theory Quorum_Indexer_Correct
  imports Quorum_Indexer
begin

text \<open>
  The quorum indexer computes weighted medians of what the validators observe of each other, and parents are chosen
  by the greatest metric.
\<close>

section \<open>The weighted median\<close>

lemma wmedian_loop_split:
  assumes "unat cur < unat stop" "unat stop \<le> unat cur + (\<Sum>v \<leftarrow> vs. unat (weight v))"
    "unat cur + (\<Sum>v \<leftarrow> vs. unat (weight v)) < 2 ^ 32"
  shows "\<exists>ys v zs. vs = ys @ v # zs \<and> wmedian_loop weight vs stop cur = Some v \<and>
    unat cur + (\<Sum>v \<leftarrow> ys. unat (weight v)) < unat stop \<and> unat stop \<le> unat cur + (\<Sum>v \<leftarrow> ys @ [v]. unat (weight v))"
  using assms
proof (induction vs arbitrary: cur)
  case (Cons v vs)
  have add: "unat (cur + weight v) = unat cur + unat (weight v)"
    using Cons.prems(3) by (intro unat_add_no_overflow) simp
  show ?case
  proof (cases "stop \<le> cur + weight v")
    case True
    then have "unat stop \<le> unat cur + unat (weight v)" using add by (simp add: word_le_nat_alt)
    then show ?thesis using True Cons.prems(1) by (intro exI [of _ "[]"] exI [of _ v] exI [of _ vs]) simp
  next
    case False
    then have "unat (cur + weight v) < unat stop" by (simp add: word_le_nat_alt)
    with Cons.IH [of "cur + weight v"] Cons.prems(2,3) add obtain ys x zs where
      "vs = ys @ x # zs" "wmedian_loop weight vs stop (cur + weight v) = Some x"
      "unat cur + unat (weight v) + (\<Sum>v \<leftarrow> ys. unat (weight v)) < unat stop"
      "unat stop \<le> unat cur + unat (weight v) + (\<Sum>v \<leftarrow> ys @ [x]. unat (weight v))" by auto
    then show ?thesis using False by (intro exI [of _ "v # ys"] exI [of _ x] exI [of _ zs]) simp
  qed
qed simp

text \<open>The documented contract of \<^verbatim>\<open>sort.Slice\<close>, which is not stable.\<close>

definition sorts :: "sort_slice \<Rightarrow> bool" where
  "sorts sortSlice \<longleftrightarrow> (\<forall>xs. mset (sortSlice xs) = mset xs \<and> sorted_wrt (\<lambda>a b. ws_seq a \<ge> ws_seq b) (sortSlice xs))"

definition weight_from :: "weightedSeq list \<Rightarrow> Event_seq \<Rightarrow> nat" where
  "weight_from xs s = (\<Sum>v \<leftarrow> filter (\<lambda>v. ws_seq v \<ge> s) xs. unat (ws_weight v))"

lemma weight_from_mset_eq: "weight_from xs s = (\<Sum>v \<in># filter_mset (\<lambda>v. ws_seq v \<ge> s) (mset xs). unat (ws_weight v))"
  by (induction xs) (auto simp: weight_from_def)

lemma weight_from_mset: "mset xs = mset ys \<Longrightarrow> weight_from xs s = weight_from ys s"
  by (simp add: weight_from_mset_eq)

lemma weight_from_mono: "s \<le> t \<Longrightarrow> weight_from xs t \<le> weight_from xs s"
  by (induction xs) (auto simp: weight_from_def)

lemma median_sorted:
  assumes "sorted_wrt (\<lambda>a b. ws_seq a \<ge> ws_seq b) xs" "0 < unat stop"
    "unat stop \<le> (\<Sum>v \<leftarrow> xs. unat (ws_weight v))" "(\<Sum>v \<leftarrow> xs. unat (ws_weight v)) < 2 ^ 32"
  shows "\<exists>v. wmedian_Of ws_weight xs stop = Some v \<and> unat stop \<le> weight_from xs (ws_seq v) \<and>
    (\<forall>s > ws_seq v. weight_from xs s < unat stop)"
proof -
  obtain ys v zs where xs: "xs = ys @ v # zs" "wmedian_loop ws_weight xs stop 0 = Some v"
      "(\<Sum>v \<leftarrow> ys. unat (ws_weight v)) < unat stop" "unat stop \<le> (\<Sum>v \<leftarrow> ys @ [v]. unat (ws_weight v))"
    using wmedian_loop_split [of 0 stop ws_weight xs] assms(2-4) by auto
  have ge: "\<forall>y \<in> set ys. ws_seq y \<ge> ws_seq v" and le: "\<forall>z \<in> set zs. ws_seq z \<le> ws_seq v"
    using assms(1) xs(1) by (auto simp: sorted_wrt_append)
  have "filter (\<lambda>y. ws_seq y \<ge> ws_seq v) ys = ys" using ge by simp
  then have "unat stop \<le> weight_from xs (ws_seq v)" using xs(1,4) by (simp add: weight_from_def)
  moreover have "weight_from xs s < unat stop" if "s > ws_seq v" for s
  proof -
    have "filter (\<lambda>z. ws_seq z \<ge> s) (v # zs) = []" using le that by (auto simp: filter_empty_conv)
    then have "weight_from xs s = weight_from ys s" using xs(1) by (simp add: weight_from_def)
    also have "\<dots> \<le> (\<Sum>v \<leftarrow> ys. unat (ws_weight v))" unfolding weight_from_def by (induction ys) auto
    finally show ?thesis using xs(3) by simp
  qed
  ultimately show ?thesis using xs(2) by (auto simp: wmedian_Of_def)
qed

section \<open>The matrix\<close>

definition wf_matrix :: "nat \<Rightarrow> Matrix \<Rightarrow> bool" where
  "wf_matrix n m \<longleftrightarrow> mx_columns m = n \<and> length (mx_buffer m) = n * n \<and> n * n < 2 ^ 32"

definition Matrix_at :: "Matrix \<Rightarrow> nat \<Rightarrow> nat \<Rightarrow> Event_seq" where
  "Matrix_at m i j = mx_buffer m ! (i * mx_columns m + j)"

lemma NewMatrix_wf: "n * n < 2 ^ 32 \<Longrightarrow> wf_matrix n (NewMatrix n n)"
  by (simp add: wf_matrix_def NewMatrix_def)

lemma cell_less: "i < n \<Longrightarrow> j < n \<Longrightarrow> i * n + j < n * (n :: nat)"
proof -
  assume "i < n" "j < n"
  then have "i * n + j < Suc i * n" by simp
  also have "\<dots> \<le> n * n" using \<open>i < n\<close> by (intro mult_right_mono) auto
  finally show ?thesis .
qed

lemma cell_inj:
  assumes "j < n" "j' < n"
  shows "i * n + j = i' * n + (j' :: nat) \<longleftrightarrow> i = i' \<and> j = j'"
proof
  assume eq: "i * n + j = i' * n + j'"
  have "i = (i * n + j) div n" "j = (i * n + j) mod n" "i' = (i' * n + j') div n" "j' = (i' * n + j') mod n"
    using assms by simp_all
  then show "i = i' \<and> j = j'" using eq by simp
qed simp

lemma NewMatrix_at: "n * n < 2 ^ 32 \<Longrightarrow> i < n \<Longrightarrow> j < n \<Longrightarrow> Matrix_at (NewMatrix n n) i j = 0"
  using cell_less [of i n j] by (simp add: Matrix_at_def NewMatrix_def)

lemma Matrix_bounds_ok: "wf_matrix n m \<Longrightarrow> i < n \<Longrightarrow> Matrix_bounds m i = Some (i * n, (i + 1) * n)"
proof -
  assume m: "wf_matrix n m" and i: "i < n"
  have "(i + 1) * n \<le> n * n" using i by (intro mult_right_mono) auto
  then show ?thesis using m by (simp add: wf_matrix_def Matrix_bounds_def Let_def)
qed

lemma Matrix_Row_ok:
  assumes "wf_matrix n m" "i < n"
  shows "Matrix_Row m i = Some (map (Matrix_at m i) [0..<n])"
proof -
  have le: "i * n + n \<le> n * n" using assms(2) by (metis Suc_leI add.commute mult_Suc mult_le_mono1)
  have "take n (drop (i * n) (mx_buffer m)) = map (Matrix_at m i) [0..<n]"
    using assms(1) le add_leD1 [OF le] by (intro nth_equalityI) (auto simp: wf_matrix_def Matrix_at_def)
  then show ?thesis using Matrix_bounds_ok [OF assms] by (simp add: Matrix_Row_def)
qed

lemma Matrix_set_ok:
  assumes "wf_matrix n m" "i < n" "j < n"
  shows "\<exists>m'. Matrix_set m i j v = Some m' \<and> wf_matrix n m' \<and>
    (\<forall>i' < n. \<forall>j' < n. Matrix_at m' i' j' = (if i' = i \<and> j' = j then v else Matrix_at m i' j'))"
  using assms cell_less [OF assms(2,3)]
  by (auto simp: Matrix_set_def Matrix_bounds_ok wf_matrix_def Matrix_at_def nth_list_update cell_inj)

section \<open>Processing events\<close>

definition qi_inv :: "QuorumIndexer \<Rightarrow> bool" where
  "qi_inv h \<longleftrightarrow> wf_validators (qi_validators h) \<and> wf_matrix (Validators_Len (qi_validators h)) (qi_globalMatrix h) \<and>
    length (qi_selfParentSeqs h) = Validators_Len (qi_validators h) \<and>
    length (qi_globalMedianSeqs h) = Validators_Len (qi_validators h)"

abbreviation qi_at :: "QuorumIndexer \<Rightarrow> nat \<Rightarrow> nat \<Rightarrow> Event_seq" where
  "qi_at h \<equiv> Matrix_at (qi_globalMatrix h)"

text \<open>What an indexer keeps for good.\<close>

definition same_setup :: "QuorumIndexer \<Rightarrow> QuorumIndexer \<Rightarrow> bool" where
  "same_setup h h' \<longleftrightarrow> qi_dagi h' = qi_dagi h \<and> qi_validators h' = qi_validators h \<and> qi_diffMetricFn h' = qi_diffMetricFn h"

lemma process_fold:
  assumes "qi_inv h" "c < Validators_Len (qi_validators h)" "k \<le> Validators_Len (qi_validators h)"
  shows "\<exists>h1. fold_option (process_seq clock c self) [0..<k] h = Some h1 \<and> qi_inv h1 \<and> same_setup h h1 \<and>
    (\<forall>i < Validators_Len (qi_validators h). \<forall>j < Validators_Len (qi_validators h).
      qi_at h1 i j = (if i < k \<and> j = c then seqOf (HB_Get clock i) else qi_at h i j))"
  using assms(3)
proof (induction k)
  case (Suc k)
  let ?n = "Validators_Len (qi_validators h)"
  from Suc obtain h1 where h1: "fold_option (process_seq clock c self) [0..<k] h = Some h1" "qi_inv h1" "same_setup h h1"
    "\<forall>i < ?n. \<forall>j < ?n. qi_at h1 i j = (if i < k \<and> j = c then seqOf (HB_Get clock i) else qi_at h i j)" by auto
  have n: "Validators_Len (qi_validators h1) = ?n" using h1(3) by (simp add: same_setup_def)
  obtain m where m: "Matrix_set (qi_globalMatrix h1) k c (seqOf (HB_Get clock k)) = Some m" "wf_matrix ?n m"
      "\<forall>i < ?n. \<forall>j < ?n. Matrix_at m i j = (if i = k \<and> j = c then seqOf (HB_Get clock k) else qi_at h1 i j)"
    using Matrix_set_ok [of ?n "qi_globalMatrix h1" k c "seqOf (HB_Get clock k)"] h1(2) n assms(2) Suc.prems
    by (auto simp: qi_inv_def)
  have "\<exists>h2. process_seq clock c self h1 k = Some h2 \<and> qi_globalMatrix h2 = m \<and> qi_inv h2 \<and> same_setup h h2"
    using m(1,2) h1(2,3) n Suc.prems by (auto simp: process_seq_def Let_def qi_inv_def same_setup_def)
  then show ?case using h1(1,4) m(3) by (auto simp: fold_option_append less_Suc_eq)
qed (use assms(1) in \<open>simp add: same_setup_def\<close>)

lemma ProcessEvent_ok:
  assumes "qi_inv h" "qi_dagi h (ev_id e) = Some clock" "0 < Validators_Len (qi_validators h)"
  shows "\<exists>h1. Quorum_ProcessEvent h e self = Some h1 \<and> qi_inv h1 \<and> same_setup h h1 \<and> qi_dirty h1 \<and>
    (\<forall>i < Validators_Len (qi_validators h). \<forall>j < Validators_Len (qi_validators h).
      qi_at h1 i j = (if j = GetIdx (qi_validators h) (ev_creator e) then seqOf (HB_Get clock i) else qi_at h i j))"
proof -
  let ?c = "GetIdx (qi_validators h) (ev_creator e)"
  have wf: "wf_validators (qi_validators h)" using assms(1) by (simp add: qi_inv_def)
  have "?c < Validators_Len (qi_validators h)"
  proof (cases "Exists (qi_validators h) (ev_creator e)")
    case False
    then have "indexes (vv_cache (qi_validators h)) (ev_creator e) = None"
      using wf by (simp add: indexes_eq Exists_iff map_of_zip_is_None)
    then show ?thesis using assms(3) by (simp add: GetIdx_def)
  qed (use GetIdx_Exists(1) [OF wf] in blast)
  from process_fold [OF assms(1) this order_refl, of clock self] assms(2) show ?thesis
    by (fastforce simp: Quorum_ProcessEvent_def qi_inv_def same_setup_def)
qed

section \<open>Medians\<close>

lemma those_map_Some: "\<forall>x \<in> set xs. f x = Some (g x) \<Longrightarrow> those (map f xs) = Some (map g xs)"
  by (induction xs) auto

definition observers :: "QuorumIndexer \<Rightarrow> nat \<Rightarrow> Event_seq \<Rightarrow> nat set" where
  "observers h v s = {c. c < Validators_Len (qi_validators h) \<and> s \<le> qi_at h v c}"

lemma sum_list_filter_upt: "(\<Sum>i \<leftarrow> filter P [0..<n]. f i) = sum f {i. i < n \<and> P i}"
  for f :: "nat \<Rightarrow> nat"
  using sum_list_distinct_conv_sum_set [of "filter P [0..<n]" f] by (simp add: set_filter Collect_conj_eq [symmetric] lessThan_def)

lemma recache_median_ok:
  assumes sorts: "sorts sortSlice" and inv: "qi_inv h" and v: "v < Validators_Len (qi_validators h)"
  shows "\<exists>s. recache_median sortSlice h v = Some (h\<lparr>qi_globalMedianSeqs := (qi_globalMedianSeqs h)[v := s]\<rparr>) \<and>
    unat (Quorum (qi_validators h)) \<le> sum (weight_at (qi_validators h)) (observers h v s) \<and>
    (\<forall>t > s. sum (weight_at (qi_validators h)) (observers h v t) < unat (Quorum (qi_validators h)))"
proof -
  let ?vals = "qi_validators h" and ?n = "Validators_Len (qi_validators h)"
  let ?pair = "\<lambda>i. \<lparr>ws_seq = qi_at h v i, ws_weight = weights (vv_cache ?vals) ! i\<rparr>"
  have wf: "wf_validators ?vals" and m: "wf_matrix ?n (qi_globalMatrix h)" using inv by (simp_all add: qi_inv_def)
  have pairs: "those (map (median_pair h v) [0..<?n]) = Some (map ?pair [0..<?n])"
    using Matrix_Row_ok [OF m v] by (intro those_map_Some) (simp add: median_pair_def GetWeightByIdx_def length_weights [OF wf])
  let ?sorted = "sortSlice (map ?pair [0..<?n])"
  have ms: "mset ?sorted = mset (map ?pair [0..<?n])" and sorted: "sorted_wrt (\<lambda>a b. ws_seq a \<ge> ws_seq b) ?sorted"
    using sorts by (simp_all add: sorts_def)
  have weight: "weight_from ?sorted s = sum (weight_at ?vals) (observers h v s)" for s
  proof -
    have "weight_from ?sorted s = weight_from (map ?pair [0..<?n]) s" by (rule weight_from_mset [OF ms])
    also have "\<dots> = (\<Sum>i \<leftarrow> filter (\<lambda>i. s \<le> qi_at h v i) [0..<?n]. weight_at ?vals i)"
      by (simp add: weight_from_def filter_map comp_def weight_at_def)
    finally show ?thesis by (simp add: sum_list_filter_upt observers_def)
  qed
  have total: "(\<Sum>x \<leftarrow> ?sorted. unat (ws_weight x)) = weight_total (vv_values ?vals)"
  proof -
    have "observers h v 0 = idxs_of ?vals" by (auto simp: observers_def)
    then show ?thesis using weight [of 0] sum_weight_at [OF wf] by (simp add: weight_from_def)
  qed
  have pos: "0 < weight_total (vv_values ?vals)"
    using weights_pos [OF wf v] sum_weight_at [OF wf] v member_le_sum [of v "idxs_of ?vals" "weight_at ?vals"]
    by (simp add: weight_at_def unat_gt_0 [symmetric])
  have q: "0 < unat (Quorum ?vals)" "unat (Quorum ?vals) \<le> weight_total (vv_values ?vals)"
    "weight_total (vv_values ?vals) < 2 ^ 32"
    using pos wf_validators_cache(2) [OF wf] by (simp_all add: unat_Quorum [OF wf])
  obtain x where "wmedian_Of ws_weight ?sorted (Quorum ?vals) = Some x"
      "unat (Quorum ?vals) \<le> weight_from ?sorted (ws_seq x)" "\<forall>s > ws_seq x. weight_from ?sorted s < unat (Quorum ?vals)"
    using median_sorted [OF sorted q(1)] q(2,3) total by auto
  then show ?thesis using pairs inv v weight by (intro exI [of _ "ws_seq x"]) (simp add: recache_median_def qi_inv_def)
qed

text \<open>The value that a quorum of the validators has reached for \<^verbatim>\<open>v\<close>, and no greater one.\<close>

definition is_median :: "QuorumIndexer \<Rightarrow> nat \<Rightarrow> Event_seq \<Rightarrow> bool" where
  "is_median h v s \<longleftrightarrow> unat (Quorum (qi_validators h)) \<le> sum (weight_at (qi_validators h)) (observers h v s) \<and>
    (\<forall>t > s. sum (weight_at (qi_validators h)) (observers h v t) < unat (Quorum (qi_validators h)))"

lemma recache_fold:
  assumes "sorts sortSlice" "qi_inv h" "k \<le> Validators_Len (qi_validators h)"
  shows "\<exists>ms. fold_option (recache_median sortSlice) [0..<k] h = Some (h\<lparr>qi_globalMedianSeqs := ms\<rparr>) \<and>
    length ms = Validators_Len (qi_validators h) \<and> (\<forall>v < k. is_median h v (ms ! v))"
  using assms(3)
proof (induction k)
  case 0
  then show ?case using assms(2) by (intro exI [of _ "qi_globalMedianSeqs h"]) (simp add: qi_inv_def)
next
  case (Suc k)
  then obtain ms where ms: "fold_option (recache_median sortSlice) [0..<k] h = Some (h\<lparr>qi_globalMedianSeqs := ms\<rparr>)"
    "length ms = Validators_Len (qi_validators h)" "\<forall>v < k. is_median h v (ms ! v)" by auto
  let ?h = "h\<lparr>qi_globalMedianSeqs := ms\<rparr>"
  have "qi_inv ?h" using assms(2) ms(2) by (simp add: qi_inv_def)
  from recache_median_ok [OF assms(1) this, of k] Suc.prems obtain s where
    s: "recache_median sortSlice ?h k = Some (?h\<lparr>qi_globalMedianSeqs := ms[k := s]\<rparr>)" "is_median ?h k s"
    by (auto simp: is_median_def)
  have "is_median h k s" using s(2) by (simp add: is_median_def observers_def)
  then show ?case
    using s(1) ms Suc.prems by (intro exI [of _ "ms[k := s]"]) (auto simp: fold_option_append nth_list_update less_Suc_eq)
qed

lemma NewMetricFnCache_128: "\<exists>c. NewMetricFnCache 128 = Some c \<and> lru_inv c \<and> (\<forall>k. lru_Peek c k = None)"
proof -
  obtain c where "lru_New 128 128 = Some (c :: (hash_event, ancestor_Metric) lru_cache)" by (simp add: lru_New_def lru_NewWithEvict_def)
  with New_inv [OF this] show ?thesis by (auto simp: NewMetricFnCache_def)
qed

lemma recacheState_ok:
  assumes "sorts sortSlice" "qi_inv h"
  shows "\<exists>ms. recacheState sortSlice h = Some (h\<lparr>qi_globalMedianSeqs := ms, qi_caches := qi_caches h @ [NewMetricFnCache 128],
      qi_searchStrategy := Some (length (qi_caches h)), qi_dirty := False\<rparr>) \<and>
    length ms = Validators_Len (qi_validators h) \<and> (\<forall>v < Validators_Len (qi_validators h). is_median h v (ms ! v))"
  using recache_fold [OF assms order_refl] by (auto simp: recacheState_def)

section \<open>A run of the indexer\<close>

text \<open>What the last event of the validator with index \<^verbatim>\<open>c\<close>, among the processed ones, observes of the validator with index \<^verbatim>\<open>v\<close>.\<close>

definition observed_seq :: "DagIndex \<Rightarrow> Validators \<Rightarrow> BaseEvent list \<Rightarrow> nat \<Rightarrow> nat \<Rightarrow> Event_seq" where
  "observed_seq dagi vals es v c =
    (case find (\<lambda>e. GetIdx vals (ev_creator e) = c) (rev es) of
       None \<Rightarrow> 0
     | Some e \<Rightarrow> (case dagi (ev_id e) of None \<Rightarrow> 0 | Some clock \<Rightarrow> seqOf (HB_Get clock v)))"

definition process_all :: "(BaseEvent \<times> bool) list \<Rightarrow> QuorumIndexer \<Rightarrow> QuorumIndexer option" where
  "process_all = fold_option (\<lambda>h (e, selfEvent). Quorum_ProcessEvent h e selfEvent)"

lemma process_all_ok:
  assumes "wf_validators vals" "0 < Validators_Len vals" "Validators_Len vals * Validators_Len vals < 2 ^ 32"
    "\<forall>(e, selfEvent) \<in> set es. dagi (ev_id e) \<noteq> None"
  shows "\<exists>h. process_all es (NewQuorumIndexer vals dagi diff) = Some h \<and> qi_inv h \<and> qi_dirty h \<and>
    same_setup (NewQuorumIndexer vals dagi diff) h \<and>
    (\<forall>v < Validators_Len vals. \<forall>c < Validators_Len vals. qi_at h v c = observed_seq dagi vals (map fst es) v c)"
  using assms(4)
proof (induction es rule: rev_induct)
  case Nil
  then show ?case
    using assms(1-3) NewMatrix_wf [OF assms(3)] NewMatrix_at [OF assms(3)]
    by (auto simp: process_all_def NewQuorumIndexer_def qi_inv_def same_setup_def observed_seq_def Let_def)
next
  case (snoc x es)
  obtain e selfEvent where x: "x = (e, selfEvent)" by (cases x)
  from snoc obtain h where h: "process_all es (NewQuorumIndexer vals dagi diff) = Some h" "qi_inv h"
    "same_setup (NewQuorumIndexer vals dagi diff) h"
    "\<forall>v < Validators_Len vals. \<forall>c < Validators_Len vals. qi_at h v c = observed_seq dagi vals (map fst es) v c" by auto
  have eqs: "qi_validators h = vals" "qi_dagi h = dagi"
    using h(3) by (simp_all add: same_setup_def NewQuorumIndexer_def Let_def)
  obtain clock where clock: "dagi (ev_id e) = Some clock" using snoc.prems x by auto
  obtain h1 where "Quorum_ProcessEvent h e selfEvent = Some h1" "qi_inv h1" "same_setup h h1" "qi_dirty h1"
    "\<forall>i < Validators_Len vals. \<forall>j < Validators_Len vals.
      qi_at h1 i j = (if j = GetIdx vals (ev_creator e) then seqOf (HB_Get clock i) else qi_at h i j)"
    using ProcessEvent_ok [OF h(2), of e clock selfEvent] eqs clock assms(2) by auto
  then show ?case
    using h x clock by (auto simp: process_all_def fold_option_append same_setup_def observed_seq_def)
qed

section \<open>Choosing by a metric\<close>

text \<open>A metric function that computes \<^verbatim>\<open>f\<close> on the events \<^verbatim>\<open>D\<close> and keeps a property of its state.\<close>

definition computes :: "('s \<Rightarrow> bool) \<Rightarrow> hash_event set \<Rightarrow> (hash_event \<Rightarrow> ancestor_Metric) \<Rightarrow> 's MetricFn \<Rightarrow> bool" where
  "computes P D f metricFn \<longleftrightarrow> (\<forall>i \<in> D. \<forall>s. P s \<longrightarrow> (\<exists>s'. metricFn i s = Some (f i, s') \<and> P s'))"

lemma MetricStrategy_loop_best:
  assumes "computes P D f metricFn"
  shows "set options \<subseteq> D \<Longrightarrow> P s \<Longrightarrow> \<exists>k w s'. MetricStrategy_loop metricFn i options (maxI, maxW) s = Some (k, s') \<and> P s' \<and>
    (k = maxI \<and> w = maxW \<and> (options = [] \<or> maxW \<noteq> 0) \<or> i \<le> k \<and> k < i + length options \<and> w = f (options ! (k - i))) \<and>
    maxW \<le> w \<and> (\<forall>x \<in> set options. f x \<le> w)"
proof (induction options arbitrary: i maxI maxW s)
  case (Cons x options)
  have "x \<in> D" using Cons.prems(1) by simp
  then obtain s1 where s1: "metricFn x s = Some (f x, s1)" "P s1" using assms Cons.prems(2) unfolding computes_def by blast
  let ?new = "maxW = 0 \<or> f x > maxW"
  define J W where "J = (if ?new then i else maxI)" and "W = (if ?new then f x else maxW)"
  obtain k w s' where IH: "MetricStrategy_loop metricFn (Suc i) options (J, W) s1 = Some (k, s')" "P s'"
    "k = J \<and> w = W \<and> (options = [] \<or> W \<noteq> 0) \<or> Suc i \<le> k \<and> k < Suc i + length options \<and> w = f (options ! (k - Suc i))"
    "W \<le> w" "\<forall>x \<in> set options. f x \<le> w"
    using Cons.IH [of s1 "Suc i" J W] Cons.prems(1) s1(2) by auto
  have eq: "MetricStrategy_loop metricFn i (x # options) (maxI, maxW) s = Some (k, s')"
    using s1(1) IH(1) by (auto simp: J_def W_def split: if_splits)
  have W: "maxW \<le> W" "f x \<le> W" by (auto simp: W_def)
  have "k = maxI \<and> w = maxW \<and> maxW \<noteq> 0 \<or> i \<le> k \<and> k < i + length (x # options) \<and> w = f ((x # options) ! (k - i))"
  proof (cases "k = J \<and> w = W")
    case True
    then show ?thesis by (cases ?new) (auto simp: J_def W_def)
  next
    case False
    then have "Suc i \<le> k" "k < Suc i + length options" "w = f (options ! (k - Suc i))" using IH(3) by auto
    moreover from this have "k - i = Suc (k - Suc i)" by simp
    ultimately show ?thesis by simp
  qed
  then show ?case using eq IH(2,4,5) W by (intro exI [of _ k] exI [of _ w] exI [of _ s']) auto
qed auto

definition chooses_best :: "('s \<Rightarrow> bool) \<Rightarrow> hash_event set \<Rightarrow> (hash_event \<Rightarrow> ancestor_Metric) \<Rightarrow> 's SearchStrategy \<Rightarrow> bool" where
  "chooses_best P D f strategy \<longleftrightarrow> (\<forall>parents options s. set options \<subseteq> D \<longrightarrow> options \<noteq> [] \<longrightarrow> P s \<longrightarrow>
    (\<exists>k s'. strategy parents options s = Some (k, s') \<and> P s' \<and> k < length options \<and> (\<forall>x \<in> set options. f x \<le> f (options ! k))))"

lemma chooses_bestD:
  "chooses_best P D f st \<Longrightarrow> set options \<subseteq> D \<Longrightarrow> options \<noteq> [] \<Longrightarrow> P s \<Longrightarrow>
    \<exists>k s'. st parents options s = Some (k, s') \<and> P s' \<and> k < length options \<and> (\<forall>x \<in> set options. f x \<le> f (options ! k))"
  unfolding chooses_best_def by blast

lemma MetricStrategy_chooses_best: "computes P D f metricFn \<Longrightarrow> chooses_best P D f (MetricStrategy_Choose metricFn)"
  unfolding chooses_best_def MetricStrategy_Choose_def
proof (intro allI impI)
  fix parents options s assume "computes P D f metricFn" "set options \<subseteq> D" "options \<noteq> []" "P s"
  with MetricStrategy_loop_best [OF this(1,2,4), of 0 0 0] show "\<exists>k s'. MetricStrategy_loop metricFn 0 options (0, 0) s = Some (k, s') \<and>
    P s' \<and> k < length options \<and> (\<forall>x \<in> set options. f x \<le> f (options ! k))" by fastforce
qed

definition slices :: "set_slice \<Rightarrow> bool" where
  "slices order \<longleftrightarrow> (\<forall>X. finite X \<longrightarrow> set (order X) = X \<and> distinct (order X))"

lemma ChooseParents_loop_best:
  assumes "finite X" "X \<subseteq> D" "P s" "\<forall>st \<in> set strategies. chooses_best P D f st" "\<forall>order \<in> set orders. slices order"
    "length orders = length strategies"
  shows "\<exists>ps s'. ChooseParents_loop strategies orders parents X s = Some (parents @ ps, s') \<and> P s' \<and> distinct ps \<and> set ps \<subseteq> X \<and>
    length ps = min (length strategies) (card X) \<and> (\<forall>i < length ps. \<forall>x \<in> X - set (take i ps). f x \<le> f (ps ! i))"
  using assms
proof (induction strategies arbitrary: orders parents X s)
  case (Cons st strategies)
  obtain order orders' where orders: "orders = order # orders'" using Cons.prems(6) by (cases orders) auto
  show ?case
  proof (cases "X = {}")
    case False
    have list: "set (order X) = X" using Cons.prems(1,5) orders by (simp add: slices_def)
    have "chooses_best P D f st" "set (order X) \<subseteq> D" "order X \<noteq> []" using Cons.prems(2,4) list False by auto
    then obtain k s1 where k: "st parents (order X) s = Some (k, s1)" "P s1" "k < length (order X)"
      "\<forall>x \<in> X. f x \<le> f (order X ! k)"
      using chooses_bestD [of P D f st "order X" s parents] Cons.prems(3) unfolding list by blast
    define p where "p = order X ! k"
    have p: "p \<in> X" using nth_mem [OF k(3)] unfolding list p_def .
    have sub: "finite (X - {p})" "X - {p} \<subseteq> D" "\<forall>st \<in> set strategies. chooses_best P D f st"
      "\<forall>order \<in> set orders'. slices order" "length orders' = length strategies" using Cons.prems orders by auto
    obtain ps s' where IH: "ChooseParents_loop strategies orders' (parents @ [p]) (X - {p}) s1 = Some ((parents @ [p]) @ ps, s')"
      "P s'" "distinct ps" "set ps \<subseteq> X - {p}" "length ps = min (length strategies) (card (X - {p}))"
      "\<forall>i < length ps. \<forall>x \<in> X - {p} - set (take i ps). f x \<le> f (ps ! i)"
      using Cons.IH [OF sub(1,2) k(2) sub(3-5), of "parents @ [p]"] by blast
    have "\<forall>x \<in> X - set (take i (p # ps)). f x \<le> f ((p # ps) ! i)" if "i < length (p # ps)" for i
      using that IH(6) k(4) by (cases i) (auto simp: p_def)
    moreover have "distinct (p # ps)" "set (p # ps) \<subseteq> X" using IH(3,4) p by auto
    moreover have "length (p # ps) = min (length (st # strategies)) (card X)"
      using IH(5) card_Suc_Diff1 [OF Cons.prems(1) p] by simp
    moreover have "ChooseParents_loop (st # strategies) orders parents X s = Some (parents @ p # ps, s')"
      using IH(1) k(1,3) orders False by (simp add: p_def)
    ultimately show ?thesis
      using IH(2) by blast
  qed (use Cons.prems(3) orders in auto)
qed auto

section \<open>The strategy of the quorum indexer\<close>

abbreviation qi_metric :: "sort_slice \<Rightarrow> QuorumIndexer \<Rightarrow> hash_event \<Rightarrow> ancestor_Metric" where
  "qi_metric sortSlice h i \<equiv> fst (the (Quorum_GetMetricOf sortSlice i h))"

lemma metric_fold_total:
  assumes "qi_inv h" "k \<le> Validators_Len (qi_validators h)"
  shows "\<exists>m. fold_option (metric_step clock h) [0..<k] m0 = Some m"
  using assms(2)
proof (induction k)
  case (Suc k)
  then show ?case using assms(1) by (auto simp: fold_option_append metric_step_def qi_inv_def)
qed simp

text \<open>While the indexer is clean only the caches change.\<close>

definition strategy_state :: "sort_slice \<Rightarrow> QuorumIndexer \<Rightarrow> nat \<Rightarrow> QuorumIndexer \<Rightarrow> bool" where
  "strategy_state sortSlice h0 n h \<longleftrightarrow> (\<exists>cs c. h = h0\<lparr>qi_caches := cs\<rparr> \<and> n < length cs \<and> cs ! n = Some c \<and>
    lru_inv c \<and> (\<forall>i m. lru_Peek c i = Some m \<longrightarrow> m = qi_metric sortSlice h0 i))"

lemma GetMetricOf_clean:
  assumes "qi_inv h" "\<not> qi_dirty h" "qi_dagi h i \<noteq> None"
  shows "Quorum_GetMetricOf sortSlice i (h\<lparr>qi_caches := cs\<rparr>) = Some (qi_metric sortSlice h i, h\<lparr>qi_caches := cs\<rparr>)"
proof -
  obtain clock where clock: "qi_dagi h i = Some clock" using assms(3) by auto
  have step: "metric_step clock (h\<lparr>qi_caches := cs\<rparr>) = metric_step clock h" by (simp add: metric_step_def fun_eq_iff)
  obtain m where "fold_option (metric_step clock h) [0..<Validators_Len (qi_validators h)] 0 = Some m"
    using metric_fold_total [OF assms(1) order_refl] by blast
  then show ?thesis using assms(2) clock step by (simp add: Quorum_GetMetricOf_def ensure_clean_def)
qed

lemma strategy_computes:
  assumes "qi_inv h0" "\<not> qi_dirty h0" "\<forall>i \<in> D. qi_dagi h0 i \<noteq> None"
  shows "computes (strategy_state sortSlice h0 n) D (qi_metric sortSlice h0) (strategy_metric sortSlice n)"
  unfolding computes_def
proof (intro ballI allI impI)
  fix i h assume i: "i \<in> D" and "strategy_state sortSlice h0 n h"
  then obtain cs c where h: "h = h0\<lparr>qi_caches := cs\<rparr>" "n < length cs" "cs ! n = Some c" "lru_inv c"
    "\<forall>i m. lru_Peek c i = Some m \<longrightarrow> m = qi_metric sortSlice h0 i" by (auto simp: strategy_state_def)
  let ?m = "qi_metric sortSlice h0 i"
  obtain c1 r where get: "lru_Get c i = (c1, r)" by (cases "lru_Get c i")
  have c1: "lru_inv c1" "lru_Peek c1 = lru_Peek c" "r = lru_Peek c i"
    using lru.get_good [OF h(4), of i] lru.get_peek [OF h(4), of i] lru.get_result [OF h(4), of i] get by simp_all
  have "\<exists>c2. MetricCache_GetMetricOf (Quorum_GetMetricOf sortSlice) c i h = Some (?m, c2, h) \<and> lru_inv c2 \<and>
      (\<forall>i m. lru_Peek c2 i = Some m \<longrightarrow> m = qi_metric sortSlice h0 i)"
  proof (cases r)
    case (Some m)
    then show ?thesis using get c1 h(5) by (auto simp: MetricCache_GetMetricOf_def)
  next
    case None
    obtain c2 e where c2: "lru_Add c1 i ?m 1 = Some (c2, e)" using lru.add_total [OF c1(1)] by blast
    have "m = qi_metric sortSlice h0 k" if "lru_Peek c2 k = Some m" for k m
      using lru.add_peek [OF c1(1) c2 that] h(5) c1(2) by (auto split: if_splits)
    then show ?thesis
      using None get c2 lru.add_good [OF c1(1) c2] GetMetricOf_clean [OF assms(1,2), of i sortSlice cs] assms(3) i h(1)
      by (auto simp: MetricCache_GetMetricOf_def)
  qed
  then obtain c2 where "MetricCache_GetMetricOf (Quorum_GetMetricOf sortSlice) c i h = Some (?m, c2, h)" "lru_inv c2"
      "\<forall>i m. lru_Peek c2 i = Some m \<longrightarrow> m = qi_metric sortSlice h0 i" by blast
  then show "\<exists>s'. strategy_metric sortSlice n i h = Some (?m, s') \<and> strategy_state sortSlice h0 n s'"
    using h(1-3) by (auto simp: strategy_metric_def strategy_state_def)
qed

section \<open>Properties\<close>

text \<open>
  C39: the medians of the quorum indexer. After any events, own or not, have been processed in any order, \<^verbatim>\<open>GetGlobalMedianSeqs\<close>
  returns without a panic, for each validator, the greatest sequence number that validators with a quorum of the weight
  observe with their last processed events, where an observed fork counts as 2147483646.
\<close>

theorem quorum_medians:
  assumes "wf_validators vals" and "0 < Validators_Len vals" and "Validators_Len vals * Validators_Len vals < 2 ^ 32"
    and "sorts sortSlice" and "\<forall>(e, selfEvent) \<in> set es. dagi (ev_id e) \<noteq> None"
  shows "\<exists>h medians h'. process_all es (NewQuorumIndexer vals dagi diff) = Some h \<and>
    GetGlobalMedianSeqs sortSlice h = Some (medians, h') \<and> length medians = Validators_Len vals \<and>
    (\<forall>v < Validators_Len vals.
      unat (Quorum vals) \<le> sum (weight_at vals) {c \<in> idxs_of vals. medians ! v \<le> observed_seq dagi vals (map fst es) v c} \<and>
      (\<forall>s > medians ! v. sum (weight_at vals) {c \<in> idxs_of vals. s \<le> observed_seq dagi vals (map fst es) v c} < unat (Quorum vals)))"
proof -
  obtain h where h: "process_all es (NewQuorumIndexer vals dagi diff) = Some h" "qi_inv h" "qi_dirty h"
    "same_setup (NewQuorumIndexer vals dagi diff) h"
    "\<forall>v < Validators_Len vals. \<forall>c < Validators_Len vals. qi_at h v c = observed_seq dagi vals (map fst es) v c"
    using process_all_ok [OF assms(1-3,5)] by blast
  have vals: "qi_validators h = vals" using h(4) by (simp add: same_setup_def NewQuorumIndexer_def Let_def)
  have obs: "observers h v s = {c \<in> idxs_of vals. s \<le> observed_seq dagi vals (map fst es) v c}" if "v < Validators_Len vals" for v s
    using h(5) that by (auto simp: observers_def vals)
  obtain ms where ms: "recacheState sortSlice h = Some (h\<lparr>qi_globalMedianSeqs := ms, qi_caches := qi_caches h @ [NewMetricFnCache 128],
      qi_searchStrategy := Some (length (qi_caches h)), qi_dirty := False\<rparr>)" "length ms = Validators_Len vals"
    "\<forall>v < Validators_Len vals. is_median h v (ms ! v)"
    using recacheState_ok [OF assms(4) h(2)] vals by auto
  then show ?thesis
    using h(1,3) by (auto simp: GetGlobalMedianSeqs_def ensure_clean_def is_median_def vals obs)
qed

definition stable_sort :: sort_slice where
  "stable_sort xs = rev (sort_key ws_seq xs)"

lemma stable_sort_sorts: "sorts stable_sort"
  unfolding sorts_def stable_sort_def sorted_wrt_rev using sorted_sort_key [of ws_seq] by (auto simp: sorted_map)

abbreviation sample_dagi :: DagIndex where
  "sample_dagi \<equiv> \<lambda>i. Some [ucast i, 0, 0, 0, 1, 0, 0, 0]"

abbreviation sample_own :: BaseEvent where
  "sample_own \<equiv> \<lparr>ev_epoch = 1, ev_seq = 5, ev_frame = 1, ev_creator = 1, ev_parents = [], ev_lamport = 5, ev_id = 5\<rparr>"

lemma sample_group: "wf_validators sample_validators" "Validators_Len sample_validators = 1"
    "weight_at sample_validators 0 = 1" "unat (Quorum sample_validators) = 1" "GetIdx sample_validators 1 = 0"
proof -
  show wf: "wf_validators sample_validators" by (rule wf_newValidators [OF _ sample_validators]) simp
  show "unat (Quorum sample_validators) = 1" unfolding unat_Quorum [OF wf] by (simp add: sample_validators_def weight_total_def)
qed (simp_all add: sample_validators_def Validators_Len_def weight_at_def caches_of_def sortedArray_def GetIdx_def)

lemma sample_seq: "seqOf (HB_Get [5, 0, 0, 0, 1, 0, 0, 0] 0) = 5"
  by (simp add: seqOf_def HB_Get_def HB_Size_def BranchSeq_IsForkDetected_def forkDetectedSeq_def)

theorem quorum_medians_witness:
  "\<exists>h h'. process_all [(sample_own, True)] (NewQuorumIndexer sample_validators sample_dagi (\<lambda>_ _ _ _. 1)) = Some h \<and>
    GetGlobalMedianSeqs stable_sort h = Some ([5], h')"
proof -
  have obs: "observed_seq sample_dagi sample_validators [sample_own] 0 0 = 5"
    using sample_seq sample_group(5) by (simp add: observed_seq_def)
  have sums: "sum (weight_at sample_validators) {c \<in> idxs_of sample_validators. P c} = (if P 0 then 1 else 0)" for P
  proof -
    have "{c \<in> idxs_of sample_validators. P c} = (if P 0 then {0} else {})" using sample_group(2) by auto
    then show ?thesis using sample_group(3) by simp
  qed
  have "\<forall>(e, selfEvent) \<in> set [(sample_own, True)]. sample_dagi (ev_id e) \<noteq> None" by simp
  from quorum_medians [OF sample_group(1) _ _ stable_sort_sorts this, of "\<lambda>_ _ _ _. 1", unfolded sums]
  obtain h m h' where r: "process_all [(sample_own, True)] (NewQuorumIndexer sample_validators sample_dagi (\<lambda>_ _ _ _. 1)) = Some h"
    "GetGlobalMedianSeqs stable_sort h = Some (m, h')" "length m = 1" "m ! 0 \<le> 5" "\<forall>s > m ! 0. \<not> s \<le> 5"
    using sample_group(2,4) obs by (auto split: if_splits)
  have "m ! 0 = 5" using r(4,5) by (metis order.not_eq_order_implies_strict order_refl)
  then have "m = [5]" using r(3) by (cases m) auto
  then show ?thesis using r(1,2) by blast
qed

text \<open>
  C40: parents chosen by the quorum indexer. After any processed events, the strategy of the indexer used for each of a number of
  parents gives, without a panic, the existing parents followed by as many new ones as there are strategies, or options; they are
  distinct options that are no existing parents, and each has the greatest metric among those that were left.
\<close>

theorem chosen_parents_best:
  assumes "wf_validators vals" and "0 < Validators_Len vals" and "Validators_Len vals * Validators_Len vals < 2 ^ 32"
    and "sorts sortSlice" and "\<forall>(e, selfEvent) \<in> set es. dagi (ev_id e) \<noteq> None" and "\<forall>i \<in> set options. dagi i \<noteq> None"
    and "\<forall>order \<in> set orders. slices order"
  shows "\<exists>h n h1 ps h2. process_all es (NewQuorumIndexer vals dagi diff) = Some h \<and>
    Quorum_SearchStrategy sortSlice h = Some (Some n, h1) \<and>
    ChooseParents existing options (replicate (length orders) (quorum_Choose sortSlice n)) orders h1 = Some (existing @ ps, h2) \<and>
    distinct ps \<and> set ps \<subseteq> set options - set existing \<and>
    length ps = min (length orders) (card (set options - set existing)) \<and>
    (\<forall>i < length ps. \<forall>x \<in> set options - set existing - set (take i ps). qi_metric sortSlice h1 x \<le> qi_metric sortSlice h1 (ps ! i))"
proof -
  obtain h where h: "process_all es (NewQuorumIndexer vals dagi diff) = Some h" "qi_inv h" "qi_dirty h"
    "same_setup (NewQuorumIndexer vals dagi diff) h" using process_all_ok [OF assms(1-3,5)] by blast
  obtain ms where ms: "recacheState sortSlice h = Some (h\<lparr>qi_globalMedianSeqs := ms, qi_caches := qi_caches h @ [NewMetricFnCache 128],
      qi_searchStrategy := Some (length (qi_caches h)), qi_dirty := False\<rparr>)" "length ms = Validators_Len (qi_validators h)"
    using recacheState_ok [OF assms(4) h(2)] by blast
  define n h1 where "n = length (qi_caches h)" and "h1 = h\<lparr>qi_globalMedianSeqs := ms, qi_caches := qi_caches h @ [NewMetricFnCache 128],
      qi_searchStrategy := Some n, qi_dirty := False\<rparr>"
  have strategy: "Quorum_SearchStrategy sortSlice h = Some (Some n, h1)"
    using h(3) ms(1) by (simp add: Quorum_SearchStrategy_def ensure_clean_def h1_def n_def)
  have inv: "qi_inv h1" "\<not> qi_dirty h1" using h(2) ms(2) by (simp_all add: qi_inv_def h1_def)
  have dagi: "\<forall>i \<in> set options. qi_dagi h1 i \<noteq> None"
    using assms(6) h(4) by (simp add: h1_def same_setup_def NewQuorumIndexer_def Let_def)
  have start: "strategy_state sortSlice h1 n h1"
    using NewMetricFnCache_128 unfolding strategy_state_def
    by (intro exI [of _ "qi_caches h1"] exI [of _ "the (NewMetricFnCache 128)"]) (auto simp: h1_def n_def)
  have best: "\<forall>st \<in> set (replicate (length orders) (quorum_Choose sortSlice n)).
      chooses_best (strategy_state sortSlice h1 n) (set options) (qi_metric sortSlice h1) st"
    using MetricStrategy_chooses_best [OF strategy_computes [OF inv dagi]] by (simp add: quorum_Choose_def)
  from ChooseParents_loop_best [OF _ _ start best assms(7), of "set options - set existing" existing]
  show ?thesis using h(1) strategy by (simp add: ChooseParents_def Events_Set_def) blast
qed

theorem chosen_parents_best_witness:
  "\<exists>h n h1 h2. process_all [(sample_own, True)] (NewQuorumIndexer sample_validators sample_dagi (\<lambda>_ _ update _. ucast update)) = Some h \<and>
    Quorum_SearchStrategy stable_sort h = Some (Some n, h1) \<and>
    ChooseParents [5] [7] [quorum_Choose stable_sort n] [sorted_list_of_set] h1 = Some ([5, 7], h2)"
proof -
  have "\<forall>(e, selfEvent) \<in> set [(sample_own, True)]. sample_dagi (ev_id e) \<noteq> None" by simp
  from chosen_parents_best [OF sample_group(1) _ _ stable_sort_sorts this, of "[7]" "[sorted_list_of_set]" "\<lambda>_ _ update _. ucast update" "[5]"]
    sample_group(2)
  obtain h n h1 ps h2 where r: "process_all [(sample_own, True)] (NewQuorumIndexer sample_validators sample_dagi (\<lambda>_ _ update _. ucast update)) = Some h"
    "Quorum_SearchStrategy stable_sort h = Some (Some n, h1)"
    "ChooseParents [5] [7] [quorum_Choose stable_sort n] [sorted_list_of_set] h1 = Some ([5] @ ps, h2)"
    "set ps \<subseteq> {7}" "length ps = 1" by (auto simp: slices_def)
  have "ps = [7]" using r(4,5) by (cases ps) auto
  then show ?thesis using r(1-3) by auto
qed

end
