(* ===== verification/Doublesign.thy ===== *)
theory Doublesign
  imports Prelude
begin

text \<open>
  The guard against double signing (\<^verbatim>\<open>emitter/doublesign\<close>): a node that may have another instance, or that is
  not synchronized, waits before it emits events. A \<^verbatim>\<open>time.Time\<close> is the number of nanoseconds since the zero
  time, a \<^verbatim>\<open>time.Duration\<close> an integer of 64 bits: \<^verbatim>\<open>Sub\<close> saturates, the arithmetic wraps.
\<close>

definition wrap_i64 :: "int \<Rightarrow> int" where
  "wrap_i64 x = (x + 2 ^ 63) mod 2 ^ 64 - 2 ^ 63"

definition time_Sub :: "int \<Rightarrow> int \<Rightarrow> int" where
  "time_Sub t u = max (- (2 ^ 63)) (min (2 ^ 63 - 1) (t - u))"

datatype sync_error = ErrNoConnections | ErrP2PSyncOngoing | ErrSelfEventsOngoing | ErrJustBecameValidator
  | ErrJustConnected | ErrJustP2PSynced

record SyncStatus =
  PeersNum :: int
  Now :: int
  Startup :: int
  LastConnected :: int
  P2PSynced :: int
  BecameValidator :: int
  ExternalSelfEventCreated :: int
  ExternalSelfEventDetected :: int

definition Since :: "SyncStatus \<Rightarrow> int \<Rightarrow> int" where
  "Since s t = time_Sub (Now s) t"

record maxWaitError =
  mw_wait :: int
  mw_waitErr :: "sync_error option"

definition maxWaitError_apply :: "maxWaitError \<Rightarrow> int \<Rightarrow> sync_error \<Rightarrow> maxWaitError" where
  "maxWaitError_apply m wait waitErr = (if mw_wait m < wait then m\<lparr>mw_wait := wait, mw_waitErr := Some waitErr\<rparr> else m)"

definition wait_since :: "SyncStatus \<Rightarrow> int \<Rightarrow> int \<Rightarrow> sync_error \<Rightarrow> maxWaitError \<Rightarrow> maxWaitError" where
  "wait_since s threshold t err m =
    (if Since s t < threshold then maxWaitError_apply m (wrap_i64 (threshold - Since s t)) err else m)"

definition SyncedToEmit :: "SyncStatus \<Rightarrow> int \<Rightarrow> int \<times> sync_error option" where
  "SyncedToEmit s threshold =
    (if PeersNum s = 0 then (0, Some ErrNoConnections)
     else if P2PSynced s = 0 then (0, Some ErrP2PSyncOngoing)
     else
       let m0 = \<lparr>mw_wait = 0, mw_waitErr = None\<rparr>;
           m1 = wait_since s threshold (ExternalSelfEventDetected s) ErrSelfEventsOngoing m0;
           m2 = wait_since s threshold (ExternalSelfEventCreated s) ErrSelfEventsOngoing m1;
           m3 = wait_since s threshold (BecameValidator s) ErrJustBecameValidator m2;
           m4 = wait_since s threshold (LastConnected s) ErrJustConnected m3;
           m5 = wait_since s threshold (P2PSynced s) ErrJustP2PSynced m4
       in (mw_wait m5, mw_waitErr m5))"

definition DetectParallelInstance :: "SyncStatus \<Rightarrow> int \<Rightarrow> bool" where
  "DetectParallelInstance s threshold =
    (if ExternalSelfEventCreated s < Startup s then False else Since s (ExternalSelfEventCreated s) < threshold)"

section \<open>Correctness\<close>

text \<open>The last moment that a node has to wait after.\<close>

definition latest :: "SyncStatus \<Rightarrow> int" where
  "latest s = max (ExternalSelfEventDetected s) (max (ExternalSelfEventCreated s) (max (BecameValidator s)
    (max (LastConnected s) (P2PSynced s))))"

text \<open>No duration reaches the limits of 64 bits.\<close>

definition moderate :: "SyncStatus \<Rightarrow> int \<Rightarrow> bool" where
  "moderate s threshold \<longleftrightarrow> 0 \<le> threshold \<and> threshold < 2 ^ 62 \<and>
    list_all (\<lambda>t. \<bar>Now s - t\<bar> < 2 ^ 62) [ExternalSelfEventDetected s, ExternalSelfEventCreated s, BecameValidator s,
      LastConnected s, P2PSynced s]"

definition waits :: "int \<Rightarrow> maxWaitError \<Rightarrow> bool" where
  "waits w m \<longleftrightarrow> mw_wait m = w \<and> 0 \<le> w \<and> (mw_waitErr m = None \<longleftrightarrow> w = 0)"

lemma waits_since:
  assumes "\<bar>Now s - t\<bar> < 2 ^ 62" "0 \<le> threshold" "threshold < 2 ^ 62" "waits w m"
  shows "waits (max w (t + threshold - Now s)) (wait_since s threshold t err m)"
proof -
  have since: "Since s t = Now s - t" using assms(1) by (simp add: Since_def time_Sub_def)
  have wrap: "wrap_i64 (threshold - (Now s - t)) = threshold - (Now s - t)"
    using assms(1-3) by (simp add: wrap_i64_def)
  show ?thesis using assms(4) by (auto simp: waits_def wait_since_def maxWaitError_apply_def since wrap)
qed

lemma SyncedToEmit_wait:
  assumes "moderate s threshold" "PeersNum s \<noteq> 0" "P2PSynced s \<noteq> 0"
  shows "fst (SyncedToEmit s threshold) = max 0 (latest s + threshold - Now s)"
    "snd (SyncedToEmit s threshold) = None \<longleftrightarrow> fst (SyncedToEmit s threshold) = 0"
proof -
  have th: "\<bar>Now s - ExternalSelfEventDetected s\<bar> < 2 ^ 62" "\<bar>Now s - ExternalSelfEventCreated s\<bar> < 2 ^ 62"
    "\<bar>Now s - BecameValidator s\<bar> < 2 ^ 62" "\<bar>Now s - LastConnected s\<bar> < 2 ^ 62" "\<bar>Now s - P2PSynced s\<bar> < 2 ^ 62"
    and lim: "0 \<le> threshold" "threshold < 2 ^ 62" using assms(1) by (simp_all add: moderate_def)
  define m1 where "m1 = wait_since s threshold (ExternalSelfEventDetected s) ErrSelfEventsOngoing \<lparr>mw_wait = 0, mw_waitErr = None\<rparr>"
  define m2 where "m2 = wait_since s threshold (ExternalSelfEventCreated s) ErrSelfEventsOngoing m1"
  define m3 where "m3 = wait_since s threshold (BecameValidator s) ErrJustBecameValidator m2"
  define m4 where "m4 = wait_since s threshold (LastConnected s) ErrJustConnected m3"
  define m5 where "m5 = wait_since s threshold (P2PSynced s) ErrJustP2PSynced m4"
  let ?w = "\<lambda>t. t + threshold - Now s"
  have "waits 0 \<lparr>mw_wait = 0, mw_waitErr = None\<rparr>" by (simp add: waits_def)
  then have "waits (max 0 (?w (ExternalSelfEventDetected s))) m1" unfolding m1_def by (rule waits_since [OF th(1) lim])
  then have "waits (max (max 0 (?w (ExternalSelfEventDetected s))) (?w (ExternalSelfEventCreated s))) m2"
    unfolding m2_def by (rule waits_since [OF th(2) lim])
  then have "waits (max (max (max 0 (?w (ExternalSelfEventDetected s))) (?w (ExternalSelfEventCreated s))) (?w (BecameValidator s))) m3"
    unfolding m3_def by (rule waits_since [OF th(3) lim])
  then have "waits (max (max (max (max 0 (?w (ExternalSelfEventDetected s))) (?w (ExternalSelfEventCreated s))) (?w (BecameValidator s)))
      (?w (LastConnected s))) m4"
    unfolding m4_def by (rule waits_since [OF th(4) lim])
  then have w: "waits (max (max (max (max (max 0 (?w (ExternalSelfEventDetected s))) (?w (ExternalSelfEventCreated s)))
      (?w (BecameValidator s))) (?w (LastConnected s))) (?w (P2PSynced s))) m5"
    unfolding m5_def by (rule waits_since [OF th(5) lim])
  have r: "SyncedToEmit s threshold = (mw_wait m5, mw_waitErr m5)"
    using assms(2,3) by (simp add: SyncedToEmit_def Let_def m1_def m2_def m3_def m4_def m5_def)
  show "fst (SyncedToEmit s threshold) = max 0 (latest s + threshold - Now s)"
    using w unfolding r waits_def fst_conv by (simp only: latest_def max.assoc max_add_distrib_left max_diff_distrib_left)
  show "snd (SyncedToEmit s threshold) = None \<longleftrightarrow> fst (SyncedToEmit s threshold) = 0"
    using w unfolding r waits_def by simp
qed

lemma max_zero_eq: "max 0 x = 0 \<longleftrightarrow> x \<le> (0 :: int)"
  by auto

text \<open>
  The wait before emitting is exact. A node that has peers and has synchronized is allowed to emit exactly if the
  threshold has passed since each of the moments that matter; otherwise an error is returned with the shortest
  duration after which, if nothing else changes, it is allowed to.
\<close>

theorem SyncedToEmit_exact:
  assumes "moderate s threshold" and "PeersNum s \<noteq> 0" and "P2PSynced s \<noteq> 0"
    and "0 \<le> d" and "moderate (s\<lparr>Now := Now s + d\<rparr>) threshold"
  shows "(snd (SyncedToEmit s threshold) = None \<longleftrightarrow> latest s + threshold \<le> Now s) \<and>
    (snd (SyncedToEmit (s\<lparr>Now := Now s + d\<rparr>) threshold) = None \<longleftrightarrow> fst (SyncedToEmit s threshold) \<le> d)"
proof -
  have same: "latest (s\<lparr>Now := Now s + d\<rparr>) = latest s" "PeersNum (s\<lparr>Now := Now s + d\<rparr>) \<noteq> 0" "P2PSynced (s\<lparr>Now := Now s + d\<rparr>) \<noteq> 0"
    using assms(2,3) by (simp_all add: latest_def)
  have "snd (SyncedToEmit s threshold) = None \<longleftrightarrow> latest s + threshold - Now s \<le> 0"
    unfolding SyncedToEmit_wait [OF assms(1-3)] max_zero_eq ..
  moreover have "snd (SyncedToEmit (s\<lparr>Now := Now s + d\<rparr>) threshold) = None \<longleftrightarrow> latest s + threshold - (Now s + d) \<le> 0"
    unfolding SyncedToEmit_wait [OF assms(5) same(2,3)] max_zero_eq same(1) by simp
  moreover have "fst (SyncedToEmit s threshold) \<le> d \<longleftrightarrow> latest s + threshold - Now s \<le> d"
    unfolding SyncedToEmit_wait(1) [OF assms(1-3)] using assms(4) by simp
  ultimately show ?thesis by linarith
qed

abbreviation sample_status :: SyncStatus where
  "sample_status \<equiv> \<lparr>PeersNum = 3, Now = 1000, Startup = 100, LastConnected = 950, P2PSynced = 900, BecameValidator = 200,
    ExternalSelfEventCreated = 0, ExternalSelfEventDetected = 0\<rparr>"

theorem SyncedToEmit_exact_witness:
  "SyncedToEmit sample_status 300 = (250, Some ErrJustConnected) \<and>
    snd (SyncedToEmit (sample_status\<lparr>Now := 1250\<rparr>) 300) = None \<and> snd (SyncedToEmit (sample_status\<lparr>Now := 1249\<rparr>) 300) \<noteq> None"
proof -
  have s: "SyncedToEmit sample_status 300 = (250, Some ErrJustConnected)"
    by (simp add: SyncedToEmit_def Let_def wait_since_def maxWaitError_apply_def Since_def time_Sub_def wrap_i64_def)
  have m: "moderate sample_status 300" by (simp add: moderate_def)
  show ?thesis
    using SyncedToEmit_exact [of sample_status 300 250] SyncedToEmit_exact [of sample_status 300 249] s m
    by (simp add: moderate_def)
qed

end
