(* ===== verification/Scaling.thy ===== *)
theory Scaling
  imports Prelude
begin

text \<open>
  Functions on \<^verbatim>\<open>uint64\<close> that configurations use: piecewise linear functions (\<^verbatim>\<open>utils/piecefunc\<close>) and the scaling of cache
  sizes (\<^verbatim>\<open>utils/cachescale\<close>; its methods on floating-point numbers are not modelled). A division by zero is \<^const>\<open>None\<close>.
\<close>

section \<open>Piecewise linear functions\<close>

definition DecimalUnit :: u64 where
  "DecimalUnit = 1000000"

definition maxVal :: u64 where
  "maxVal = 0xffffffffffffffff div DecimalUnit - 1"

record Dot =
  dot_X :: u64
  dot_Y :: u64

datatype piece_panic = TooFewDots | NonMonotonicX | TooLargeY | TooLargeX

definition Mul :: "u64 \<Rightarrow> u64 \<Rightarrow> u64" where
  "Mul a b = a * b div DecimalUnit"

definition Div :: "u64 \<Rightarrow> u64 \<Rightarrow> u64 option" where
  "Div a b = (if b = 0 then None else Some (a * DecimalUnit div b))"

fun find_piece :: "Dot list \<Rightarrow> u64 \<Rightarrow> nat \<Rightarrow> Dot list \<Rightarrow> nat" where
  "find_piece dots x i [] = length dots - 2"
| "find_piece dots x i (piece # rest) =
    (if i \<ge> 1 \<and> i < length dots - 1 \<and> dot_X piece > x then i - 1 else find_piece dots x (Suc i) rest)"

definition Func_Get :: "Dot list \<Rightarrow> u64 \<Rightarrow> u64 option" where
  "Func_Get dots x =
    (if x < dot_X (dots ! 0) then Some (dot_Y (dots ! 0))
     else if x > dot_X (dots ! (length dots - 1)) then Some (dot_Y (dots ! (length dots - 1)))
     else
       let p0 = find_piece dots x 0 dots; p1 = p0 + 1;
           x0 = dot_X (dots ! p0); x1 = dot_X (dots ! p1); y0 = dot_Y (dots ! p0); y1 = dot_Y (dots ! p1)
       in case Div (x - x0) (x1 - x0) of
            None \<Rightarrow> None
          | Some ratio \<Rightarrow> Some (Mul y0 (DecimalUnit - ratio) + Mul y1 ratio))"

fun NewFunc_loop :: "nat \<Rightarrow> Dot list \<Rightarrow> u64 \<Rightarrow> piece_panic option" where
  "NewFunc_loop i [] prevX = None"
| "NewFunc_loop i (dot # dots) prevX =
    (if i \<ge> 1 \<and> dot_X dot \<le> prevX then Some NonMonotonicX
     else if dot_Y dot > maxVal then Some TooLargeY
     else if dot_X dot > maxVal then Some TooLargeX
     else NewFunc_loop (Suc i) dots (dot_X dot))"

definition NewFunc :: "Dot list \<Rightarrow> piece_panic + (u64 \<Rightarrow> u64 option)" where
  "NewFunc dots =
    (if length dots < 2 then Inl TooFewDots
     else case NewFunc_loop 0 dots 0 of Some panic \<Rightarrow> Inl panic | None \<Rightarrow> Inr (Func_Get dots))"

section \<open>Cache sizes\<close>

record Ratio =
  Base :: u64
  Target :: u64

definition Ratio_U64 :: "Ratio \<Rightarrow> u64 \<Rightarrow> u64 option" where
  "Ratio_U64 r v =
    (let muled = v * Target r in
     if Base r = 0 then None
     else if muled mod Base r = 0 then Some (muled div Base r)
     else Some (muled div Base r + 1))"

definition Ratio_U32 :: "Ratio \<Rightarrow> u32 \<Rightarrow> u32 option" where
  "Ratio_U32 r v = map_option ucast (Ratio_U64 r (ucast v))"

definition Ratio_U :: "Ratio \<Rightarrow> u64 \<Rightarrow> u64 option" where
  "Ratio_U r v = Ratio_U64 r v"

definition Ratio_I :: "Ratio \<Rightarrow> u64 \<Rightarrow> u64 option" where
  "Ratio_I r v = Ratio_U64 r v"

definition Ratio_I32 :: "Ratio \<Rightarrow> u32 \<Rightarrow> u32 option" where
  "Ratio_I32 r v = map_option ucast (Ratio_U64 r (scast v))"

definition Ratio_I64 :: "Ratio \<Rightarrow> u64 \<Rightarrow> u64 option" where
  "Ratio_I64 r v = Ratio_U64 r v"

definition Ratio_Events :: "Ratio \<Rightarrow> u32 \<Rightarrow> u32 option" where
  "Ratio_Events r v = map_option ucast (Ratio_U64 r (ucast v))"

definition Ratio_Blocks :: "Ratio \<Rightarrow> u64 \<Rightarrow> u64 option" where
  "Ratio_Blocks r v = Ratio_U64 r v"

definition Ratio_Frames :: "Ratio \<Rightarrow> u32 \<Rightarrow> u32 option" where
  "Ratio_Frames r v = map_option ucast (Ratio_U64 r (ucast v))"

section \<open>Correctness of interpolation\<close>

definition wf_dots :: "Dot list \<Rightarrow> bool" where
  "wf_dots dots \<longleftrightarrow> 2 \<le> length dots \<and> sorted_wrt (<) (map dot_X dots) \<and>
    (\<forall>dot \<in> set dots. dot_X dot \<le> maxVal \<and> dot_Y dot \<le> maxVal)"

lemma NewFunc_loop_ok:
  "NewFunc_loop i dots prevX = None \<Longrightarrow> sorted_wrt (<) (map dot_X dots) \<and> (0 < i \<longrightarrow> (\<forall>dot \<in> set dots. prevX < dot_X dot)) \<and>
    (\<forall>dot \<in> set dots. dot_X dot \<le> maxVal \<and> dot_Y dot \<le> maxVal)"
proof (induction dots arbitrary: i prevX)
  case (Cons dot dots)
  have "NewFunc_loop (Suc i) dots (dot_X dot) = None" "i = 0 \<or> prevX < dot_X dot" "dot_Y dot \<le> maxVal" "dot_X dot \<le> maxVal"
    using Cons.prems by (auto split: if_splits)
  with Cons.IH [of "Suc i" "dot_X dot"] show ?case by (auto intro: less_trans)
qed simp

lemma NewFunc_wf: "NewFunc dots = Inr f \<Longrightarrow> wf_dots dots \<and> f = Func_Get dots"
  using NewFunc_loop_ok [of 0 dots 0] by (auto simp: NewFunc_def wf_dots_def split: if_splits option.splits)

lemma unat_maxVal: "unat maxVal = 18446744073708"
  by (simp add: maxVal_def DecimalUnit_def)

lemma find_piece_bounds:
  assumes "2 \<le> length dots" "dot_X (dots ! 0) \<le> x" "x \<le> dot_X (dots ! (length dots - 1))"
  shows "dots = past @ rest \<Longrightarrow> length past = i \<Longrightarrow> (\<forall>j < i. j < length dots - 1 \<longrightarrow> dot_X (dots ! j) \<le> x) \<Longrightarrow>
    find_piece dots x i rest + 1 < length dots \<and> dot_X (dots ! find_piece dots x i rest) \<le> x \<and>
    x \<le> dot_X (dots ! (find_piece dots x i rest + 1)) \<and>
    (find_piece dots x i rest + 1 < length dots - 1 \<longrightarrow> x < dot_X (dots ! (find_piece dots x i rest + 1)))"
proof (induction rest arbitrary: past i)
  case Nil
  have "Suc (length dots - 2) = length dots - 1" using assms(1) by simp
  then show ?case using Nil assms by simp
next
  case (Cons piece rest)
  have piece: "dots ! i = piece" using Cons.prems by auto
  show ?case
  proof (cases "i \<ge> 1 \<and> i < length dots - 1 \<and> dot_X piece > x")
    case True
    then have "dot_X (dots ! (i - 1)) \<le> x" using Cons.prems(3) by simp
    then show ?thesis using True piece by (auto simp: less_imp_le)
  next
    case False
    have "dot_X (dots ! j) \<le> x" if "j < Suc i" "j < length dots - 1" for j
    proof (cases "j = i")
      case True
      then show ?thesis using False that(2) piece assms(2) by (cases i) (auto simp: not_less)
    qed (use that Cons.prems(3) in simp)
    moreover have "find_piece dots x i (piece # rest) = find_piece dots x (Suc i) rest" using False by auto
    ultimately show ?thesis using Cons.IH [of "past @ [piece]" "Suc i"] Cons.prems(1,2) by (metis append.assoc append_Cons append_Nil length_append_singleton)
  qed
qed

lemma interpolate_bounds:
  fixes y0 y1 r d :: nat
  assumes "r \<le> d" "0 < d"
  shows "y0 * (d - r) div d + y1 * r div d \<le> max y0 y1" "min y0 y1 \<le> y0 * (d - r) div d + y1 * r div d + 1"
proof -
  let ?a = "y0 * (d - r)" and ?b = "y1 * r"
  have d: "max y0 y1 * (d - r) + max y0 y1 * r = max y0 y1 * d" "min y0 y1 * (d - r) + min y0 y1 * r = min y0 y1 * d"
    using assms(1) by (simp_all flip: add_mult_distrib2)
  have "?a + ?b \<le> max y0 y1 * (d - r) + max y0 y1 * r" by (intro add_mono mult_right_mono) auto
  then have "(?a + ?b) div d \<le> max y0 y1" using d(1) assms(2) by (metis div_le_mono nonzero_mult_div_cancel_right not_gr_zero)
  then show "?a div d + ?b div d \<le> max y0 y1" using div_add1_eq [of ?a ?b d] by linarith
  have "min y0 y1 * (d - r) + min y0 y1 * r \<le> ?a + ?b" by (intro add_mono mult_right_mono) auto
  then have "min y0 y1 \<le> (?a + ?b) div d" using d(2) assms(2) by (metis div_le_mono nonzero_mult_div_cancel_right not_gr_zero)
  moreover have "(?a mod d + ?b mod d) div d \<le> 1"
  proof -
    have "?a mod d + ?b mod d < 2 * d" using mod_less_divisor [OF assms(2), of ?a] mod_less_divisor [OF assms(2), of ?b] by linarith
    then show ?thesis using assms(2) less_mult_imp_div_less [of _ 2 d] by force
  qed
  ultimately show "min y0 y1 \<le> ?a div d + ?b div d + 1" using div_add1_eq [of ?a ?b d] by linarith
qed

lemma unat_mul_unit: "unat a \<le> 18446744073708 \<Longrightarrow> unat b \<le> 1000000 \<Longrightarrow> unat (a * b) = unat a * unat (b :: u64)"
proof -
  assume "unat a \<le> 18446744073708" "unat b \<le> 1000000"
  then have "unat a * unat b \<le> 18446744073708 * 1000000" by (rule mult_le_mono)
  then show ?thesis by (simp add: unat_word_ariths)
qed

lemma Func_Get_interpolates:
  assumes wf: "wf_dots dots" and x: "dot_X (dots ! 0) \<le> x" "x \<le> dot_X (dots ! (length dots - 1))"
  defines "p \<equiv> find_piece dots x 0 dots"
  defines "x0 \<equiv> unat (dot_X (dots ! p))" and "x1 \<equiv> unat (dot_X (dots ! (p + 1)))"
    and "y0 \<equiv> unat (dot_Y (dots ! p))" and "y1 \<equiv> unat (dot_Y (dots ! (p + 1)))"
  defines "r \<equiv> (unat x - x0) * 1000000 div (x1 - x0)"
  shows "\<exists>v. Func_Get dots x = Some v \<and> unat v = y0 * (1000000 - r) div 1000000 + y1 * r div 1000000" "r \<le> 1000000"
proof -
  have p: "p + 1 < length dots" "dot_X (dots ! p) \<le> x" "x \<le> dot_X (dots ! (p + 1))"
    using find_piece_bounds [OF _ x, of "[]" dots 0] wf by (auto simp: wf_dots_def p_def)
  have in_set: "dots ! p \<in> set dots" "dots ! (p + 1) \<in> set dots" using p(1) by auto
  have less: "dot_X (dots ! p) < dot_X (dots ! (p + 1))"
    using wf p(1) by (auto simp: wf_dots_def sorted_wrt_iff_nth_less)
  have max: "x0 \<le> 18446744073708" "x1 \<le> 18446744073708" "y0 \<le> 18446744073708" "y1 \<le> 18446744073708"
    using wf in_set unfolding x0_def x1_def y0_def y1_def unat_maxVal [symmetric] wf_dots_def by (auto simp: word_le_nat_alt)
  have le: "x0 \<le> unat x" "unat x \<le> x1" "x0 < x1"
    using p(2,3) less by (simp_all add: x0_def x1_def word_le_nat_alt word_less_nat_alt)
  have sub: "unat (x - dot_X (dots ! p)) = unat x - x0" "unat (dot_X (dots ! (p + 1)) - dot_X (dots ! p)) = x1 - x0"
    using p(2) less by (simp_all add: x0_def x1_def unat_sub)
  have "(unat x - x0) * 1000000 \<le> (x1 - x0) * 1000000" using le by simp
  then show r: "r \<le> 1000000" unfolding r_def using le(3) by (metis div_le_mono nonzero_mult_div_cancel_left zero_less_diff not_gr_zero)
  obtain ratio where ratio: "Div (x - dot_X (dots ! p)) (dot_X (dots ! (p + 1)) - dot_X (dots ! p)) = Some ratio" "unat ratio = r"
  proof -
    have "dot_X (dots ! (p + 1)) - dot_X (dots ! p) \<noteq> 0" using less by auto
    moreover have "unat ((x - dot_X (dots ! p)) * DecimalUnit) = (unat x - x0) * 1000000"
      using unat_mul_unit [of "x - dot_X (dots ! p)" DecimalUnit] le max(2) by (simp add: sub(1) DecimalUnit_def)
    ultimately show thesis using that sub(2) by (simp add: Div_def unat_div r_def)
  qed
  have rest: "unat (DecimalUnit - ratio) = 1000000 - r"
    using r ratio(2) by (subst unat_sub) (simp_all add: word_le_nat_alt DecimalUnit_def)
  have mul: "unat (Mul (dot_Y (dots ! p)) (DecimalUnit - ratio)) = y0 * (1000000 - r) div 1000000"
      "unat (Mul (dot_Y (dots ! (p + 1))) ratio) = y1 * r div 1000000"
    using unat_mul_unit [of "dot_Y (dots ! p)" "DecimalUnit - ratio"] unat_mul_unit [of "dot_Y (dots ! (p + 1))" ratio] max(3,4) r ratio(2) rest
    by (simp_all add: Mul_def unat_div DecimalUnit_def y0_def y1_def)
  have "y0 * (1000000 - r) div 1000000 + y1 * r div 1000000 \<le> max y0 y1" using interpolate_bounds(1) [OF r] by simp
  also have "\<dots> \<le> 18446744073708" using max(3,4) by simp
  finally have "unat (Mul (dot_Y (dots ! p)) (DecimalUnit - ratio) + Mul (dot_Y (dots ! (p + 1))) ratio) =
      y0 * (1000000 - r) div 1000000 + y1 * r div 1000000"
    using mul max(3,4) by (subst unat_add_no_overflow) simp_all
  moreover have "Func_Get dots x = Some (Mul (dot_Y (dots ! p)) (DecimalUnit - ratio) + Mul (dot_Y (dots ! (p + 1))) ratio)"
    using x [THEN leD] ratio(1) by (simp add: Func_Get_def Let_def p_def [symmetric])
  ultimately show "\<exists>v. Func_Get dots x = Some v \<and> unat v = y0 * (1000000 - r) div 1000000 + y1 * r div 1000000" by blast
qed

section \<open>Properties\<close>

text \<open>
  Piecewise linear functions. If \<^verbatim>\<open>NewFunc\<close> accepts the dots, the function goes exactly through all of them, is constant before
  the first and after the last, and between two dots its values are at most the greater of their heights and at least
  the smaller one minus one, because both products are rounded down; no step of the computation wraps or divides by zero.
\<close>

theorem piecefunc_through_dots:
  assumes "NewFunc dots = Inr f"
  shows "(x \<le> dot_X (dots ! 0) \<longrightarrow> f x = Some (dot_Y (dots ! 0))) \<and>
    (x \<ge> dot_X (last dots) \<longrightarrow> f x = Some (dot_Y (last dots))) \<and>
    (\<forall>i < length dots. f (dot_X (dots ! i)) = Some (dot_Y (dots ! i))) \<and>
    (\<forall>i. Suc i < length dots \<and> dot_X (dots ! i) \<le> x \<and> x \<le> dot_X (dots ! Suc i) \<longrightarrow>
      (\<exists>v. f x = Some v \<and> unat v \<le> max (unat (dot_Y (dots ! i))) (unat (dot_Y (dots ! Suc i))) \<and>
        min (unat (dot_Y (dots ! i))) (unat (dot_Y (dots ! Suc i))) \<le> unat v + 1))"
proof -
  have wf: "wf_dots dots" and f: "f = Func_Get dots" using NewFunc_wf [OF assms] by simp_all
  have len: "1 < length dots" "0 < length dots" "dots \<noteq> []" using wf by (auto simp: wf_dots_def)
  have last: "last dots = dots ! (length dots - 1)" using wf by (intro last_conv_nth) (auto simp: wf_dots_def)
  have mono: "dot_X (dots ! i) < dot_X (dots ! j)" if "i < j" "j < length dots" for i j
    using wf that by (auto simp: wf_dots_def sorted_wrt_iff_nth_less)
  have mono_le: "dot_X (dots ! i) \<le> dot_X (dots ! j)" if "i \<le> j" "j < length dots" for i j
    using mono [of i j] that by (cases "i = j") auto
  have exact: "f (dot_X (dots ! i)) = Some (dot_Y (dots ! i))" if i: "i < length dots" for i
  proof -
    let ?x = "dot_X (dots ! i)" let ?p = "find_piece dots ?x 0 dots"
    have range: "dot_X (dots ! 0) \<le> ?x" "?x \<le> dot_X (dots ! (length dots - 1))"
      using mono_le [of 0 i] mono_le [of i "length dots - 1"] i by simp_all
    note p = find_piece_bounds [OF _ range, of "[]" dots 0]
    have b: "?p + 1 < length dots" "dot_X (dots ! ?p) \<le> ?x" "?x \<le> dot_X (dots ! (?p + 1))" using p wf by (auto simp: wf_dots_def)
    have "\<not> i < ?p" using mono [of i ?p] b(1,2) by auto
    moreover have "\<not> ?p + 1 < i" using mono [of "?p + 1" i] b(3) i by auto
    ultimately have "i = ?p \<or> i = ?p + 1" by linarith
    then have "\<exists>v. Func_Get dots ?x = Some v \<and> unat v = unat (dot_Y (dots ! i))"
      using Func_Get_interpolates(1) [OF wf range] mono [of ?p "?p + 1"] b(1) by (auto simp: word_less_nat_alt)
    then show ?thesis by (auto simp: f word_unat_eq_iff)
  qed
  have first: "f x = Some (dot_Y (dots ! 0))" if "x \<le> dot_X (dots ! 0)"
  proof (cases "x = dot_X (dots ! 0)")
    case True
    then show ?thesis using exact [OF len(2)] by simp
  qed (use that in \<open>simp add: f Func_Get_def\<close>)
  have final: "f x = Some (dot_Y (last dots))" if "x \<ge> dot_X (last dots)"
  proof (cases "x = dot_X (last dots)")
    case False
    moreover have "dot_X (dots ! 0) < dot_X (dots ! (length dots - 1))" using mono [of 0 "length dots - 1"] len(1) by simp
    ultimately show ?thesis using that by (simp add: f Func_Get_def last)
  qed (use exact [of "length dots - 1"] len last in simp)
  have between: "\<exists>v. f x = Some v \<and> unat v \<le> max (unat (dot_Y (dots ! i))) (unat (dot_Y (dots ! Suc i))) \<and>
        min (unat (dot_Y (dots ! i))) (unat (dot_Y (dots ! Suc i))) \<le> unat v + 1"
    if i: "Suc i < length dots" "dot_X (dots ! i) \<le> x" "x \<le> dot_X (dots ! Suc i)" for i
  proof (cases "x = dot_X (dots ! Suc i)")
    case False
    let ?p = "find_piece dots x 0 dots"
    have range: "dot_X (dots ! 0) \<le> x" "x \<le> dot_X (dots ! (length dots - 1))"
      using order_trans [OF mono_le [of 0 i] i(2)] order_trans [OF i(3) mono_le [of "Suc i" "length dots - 1"]] i(1) by simp_all
    have b: "?p + 1 < length dots" "dot_X (dots ! ?p) \<le> x" "x \<le> dot_X (dots ! (?p + 1))"
        "?p + 1 < length dots - 1 \<longrightarrow> x < dot_X (dots ! (?p + 1))"
      using find_piece_bounds [OF _ range, of "[]" dots 0] wf by (auto simp: wf_dots_def)
    have "\<not> Suc i \<le> ?p"
    proof
      assume "Suc i \<le> ?p"
      then have "dot_X (dots ! Suc i) \<le> x" using order_trans [OF mono_le [of "Suc i" ?p] b(2)] b(1) by simp
      then show False using i(3) False by simp
    qed
    moreover have "\<not> ?p + 1 \<le> i"
    proof
      assume le: "?p + 1 \<le> i"
      then have "dot_X (dots ! (?p + 1)) \<le> x" using order_trans [OF mono_le [of "?p + 1" i] i(2)] i(1) by simp
      moreover have "x < dot_X (dots ! (?p + 1))" using b(4) le i(1) by simp
      ultimately show False by simp
    qed
    ultimately have "i = ?p" by simp
    with Func_Get_interpolates [OF wf range] interpolate_bounds show ?thesis unfolding f by (metis Suc_eq_plus1 zero_less_numeral)
  qed (use exact [OF i(1)] in auto)
  show ?thesis using first final between exact by blast
qed

theorem piecefunc_through_dots_witness:
  "\<exists>f. NewFunc [\<lparr>dot_X = 0, dot_Y = 10\<rparr>, \<lparr>dot_X = 3, dot_Y = 10\<rparr>] = Inr f \<and> f 3 = Some 10 \<and> f 1 = Some 9"
proof -
  let ?dots = "[\<lparr>dot_X = 0, dot_Y = 10\<rparr>, \<lparr>dot_X = 3, dot_Y = 10\<rparr>]"
  have n: "NewFunc ?dots = Inr (Func_Get ?dots)" by (simp add: NewFunc_def maxVal_def DecimalUnit_def)
  have "Func_Get ?dots 1 = Some 9" by (simp add: Func_Get_def Div_def Mul_def DecimalUnit_def)
  then show ?thesis using piecefunc_through_dots [OF n, of 3] n by auto
qed

text \<open>A scaled size is rounded up, so that a positive size stays positive.\<close>

lemma Ratio_U64_ceiling:
  assumes "Base r \<noteq> 0" "unat v * unat (Target r) + unat (Base r) < 2 ^ 64"
  shows "\<exists>u. Ratio_U64 r v = Some u \<and> unat u = (unat v * unat (Target r) + unat (Base r) - 1) div unat (Base r)"
proof -
  let ?m = "unat v * unat (Target r)" and ?b = "unat (Base r)"
  have b: "0 < ?b" using assms(1) by (simp add: unat_gt_0)
  have m: "unat (v * Target r) = ?m" using assms(2) by (simp add: unat_word_ariths)
  show ?thesis
  proof (cases "v * Target r mod Base r = 0")
    case True
    then have z: "?m mod ?b = 0" using m by (metis unat_0 unat_mod)
    have "(?m + ?b - 1) div ?b = ?m div ?b"
    proof -
      obtain k where k: "?m = k * ?b" using z by (metis dvd_div_mult_self mod_0_imp_dvd)
      have "(k * ?b + ?b - 1) div ?b = k" by (rule div_nat_eqI) (use b in \<open>simp_all add: mult.commute\<close>)
      then show ?thesis using b unfolding k by simp
    qed
    then show ?thesis using True assms(1) m by (simp add: Ratio_U64_def Let_def unat_div)
  next
    case False
    then have nz: "?m mod ?b \<noteq> 0" using m by (metis unat_eq_zero unat_mod)
    define q r' where "q = ?m div ?b" and "r' = ?m mod ?b"
    have qr: "?m = q * ?b + r'" "0 < r'" "r' < ?b" using nz b by (auto simp: q_def r'_def)
    have "?m + ?b - 1 = Suc q * ?b + (r' - 1)" using qr by simp
    then have "(?m + ?b - 1) div ?b = Suc q" by (intro div_nat_eqI) (use qr(2,3) in \<open>simp_all add: mult.commute\<close>)
    moreover have "unat (v * Target r div Base r + 1) = Suc q"
    proof -
      have "q \<le> ?m" by (simp add: q_def)
      then have "q + 1 < 2 ^ 64" using assms(2) b by linarith
      then show ?thesis using m unat_add_no_overflow [of "v * Target r div Base r" 1] by (simp add: unat_div q_def)
    qed
    ultimately show ?thesis using False assms(1) by (simp add: Ratio_U64_def Let_def)
  qed
qed

end
