(* ===== verification/Data_Semaphore.thy ===== *)
theory Data_Semaphore
  imports Dag
begin

text \<open>
  The semaphore that bounds the number and the size of the events in processing (\<^verbatim>\<open>utils/datasemaphore\<close>). The
  warning callback is modelled by the list of its calls; a semaphore without one makes none. The state is
  protected by a mutex, so operations are atomic; while \<^verbatim>\<open>Acquire\<close> waits, other goroutines change the semaphore.
\<close>

section \<open>Operations\<close>

record DataSemaphore =
  ds_processing :: Metric
  ds_maxProcessing :: Metric
  ds_has_warning :: bool
  ds_warnings :: "(Metric \<times> Metric \<times> Metric) list"

definition DataSemaphore_New :: "Metric \<Rightarrow> bool \<Rightarrow> DataSemaphore" where
  "DataSemaphore_New maxProcessing warning =
    \<lparr>ds_processing = \<lparr>Num = 0, Size = 0\<rparr>, ds_maxProcessing = maxProcessing, ds_has_warning = warning, ds_warnings = []\<rparr>"

definition tryAcquire :: "DataSemaphore \<Rightarrow> Metric \<Rightarrow> bool \<times> DataSemaphore" where
  "tryAcquire s metric =
    (let tmp = \<lparr>Num = Num (ds_processing s) + Num metric, Size = Size (ds_processing s) + Size metric\<rparr> in
     if Num tmp > Num (ds_maxProcessing s) \<or> Size tmp > Size (ds_maxProcessing s) then (False, s)
     else (True, s\<lparr>ds_processing := tmp\<rparr>))"

text \<open>
  Each attempt of \<^verbatim>\<open>Acquire\<close> happens after other goroutines have changed the semaphore, and finds the deadline passed
  or not. The value is \<^const>\<open>None\<close> while it waits.
\<close>

fun Acquire :: "Metric \<Rightarrow> ((DataSemaphore \<Rightarrow> DataSemaphore) \<times> bool) list \<Rightarrow> DataSemaphore \<Rightarrow> (bool \<times> DataSemaphore) option" where
  "Acquire weight [] s = None"
| "Acquire weight ((others, expired) # attempts) s =
    (let s1 = others s in
     case tryAcquire s1 weight of
       (True, s2) \<Rightarrow> Some (True, s2)
     | (False, _) \<Rightarrow>
         if Size weight > Size (ds_maxProcessing s1) \<or> Num weight > Num (ds_maxProcessing s1) \<or> expired then Some (False, s1)
         else Acquire weight attempts s1)"

definition TryAcquire :: "DataSemaphore \<Rightarrow> Metric \<Rightarrow> bool \<times> DataSemaphore" where
  "TryAcquire s weight = tryAcquire s weight"

definition Release :: "DataSemaphore \<Rightarrow> Metric \<Rightarrow> DataSemaphore" where
  "Release s weight =
    (if Num (ds_processing s) < Num weight \<or> Size (ds_processing s) < Size weight
     then s\<lparr>ds_warnings := ds_warnings s @ (if ds_has_warning s then [(ds_processing s, ds_processing s, weight)] else []),
            ds_processing := \<lparr>Num = 0, Size = 0\<rparr>\<rparr>
     else s\<lparr>ds_processing := \<lparr>Num = Num (ds_processing s) - Num weight, Size = Size (ds_processing s) - Size weight\<rparr>\<rparr>)"

definition Terminate :: "DataSemaphore \<Rightarrow> DataSemaphore" where
  "Terminate s = s\<lparr>ds_maxProcessing := \<lparr>Num = 0, Size = 0\<rparr>\<rparr>"

definition Processing :: "DataSemaphore \<Rightarrow> Metric" where
  "Processing s = ds_processing s"

definition Available :: "DataSemaphore \<Rightarrow> Metric" where
  "Available s =
    (if ds_maxProcessing s = \<lparr>Num = 0, Size = 0\<rparr> then \<lparr>Num = 0, Size = 0\<rparr>
     else \<lparr>Num = (if Num (ds_processing s) > Num (ds_maxProcessing s) then 0 else Num (ds_maxProcessing s) - Num (ds_processing s)),
           Size = (if Size (ds_processing s) > Size (ds_maxProcessing s) then 0 else Size (ds_maxProcessing s) - Size (ds_processing s))\<rparr>)"

section \<open>What is held\<close>

text \<open>The semaphore holds a number of events of a total size, without wrapping.\<close>

definition holds :: "DataSemaphore \<Rightarrow> nat \<Rightarrow> nat \<Rightarrow> bool" where
  "holds s num sz \<longleftrightarrow> unat (Num (ds_processing s)) = num \<and> unat (Size (ds_processing s)) = sz"

lemma holds_New: "holds (DataSemaphore_New m w) 0 0"
  by (simp add: holds_def DataSemaphore_New_def)

lemma holds_frame [simp]: "holds (Terminate s) = holds s"
  by (simp add: holds_def Terminate_def fun_eq_iff)

lemma Release_holds:
  assumes "holds s (num + unat (Num w)) (sz + unat (Size w))"
  shows "holds (Release s w) num sz" "ds_maxProcessing (Release s w) = ds_maxProcessing s" "ds_warnings (Release s w) = ds_warnings s"
proof -
  have le: "Num w \<le> Num (ds_processing s)" "Size w \<le> Size (ds_processing s)"
    using assms by (simp_all add: holds_def word_le_nat_alt)
  then have nl: "(Num (ds_processing s) < Num w) = False" "(Size (ds_processing s) < Size w) = False" by (simp_all add: not_less)
  have R: "Release s w = s\<lparr>ds_processing := \<lparr>Num = Num (ds_processing s) - Num w, Size = Size (ds_processing s) - Size w\<rparr>\<rparr>"
    unfolding Release_def nl by simp
  show "holds (Release s w) num sz" using assms unfolding R by (simp add: holds_def unat_sub [OF le(1)] unat_sub [OF le(2)])
  show "ds_maxProcessing (Release s w) = ds_maxProcessing s" "ds_warnings (Release s w) = ds_warnings s"
    by (simp_all add: R)
qed

lemma tryAcquire_holds:
  assumes "tryAcquire s w = (True, s')" "holds s num sz"
    "num + unat (Num w) < 2 ^ 32" "sz + unat (Size w) < 2 ^ 64"
  shows "holds s' (num + unat (Num w)) (sz + unat (Size w))" "num + unat (Num w) \<le> unat (Num (ds_maxProcessing s))"
    "sz + unat (Size w) \<le> unat (Size (ds_maxProcessing s))" "ds_maxProcessing s' = ds_maxProcessing s" "ds_warnings s' = ds_warnings s"
proof -
  have n: "unat (Num (ds_processing s) + Num w) = num + unat (Num w)" "unat (Size (ds_processing s) + Size w) = sz + unat (Size w)"
    using assms(2-4) unat_add_no_overflow [of "Num (ds_processing s)" "Num w"] unat_add_no_overflow [of "Size (ds_processing s)" "Size w"]
    by (simp_all add: holds_def)
  show "holds s' (num + unat (Num w)) (sz + unat (Size w))" "num + unat (Num w) \<le> unat (Num (ds_maxProcessing s))"
    "sz + unat (Size w) \<le> unat (Size (ds_maxProcessing s))" "ds_maxProcessing s' = ds_maxProcessing s" "ds_warnings s' = ds_warnings s"
    using assms(1) n by (auto simp: tryAcquire_def Let_def holds_def not_less word_le_nat_alt split: if_splits)
qed

end
