(* ===== verification/Dag_Processor.thy ===== *)
theory Dag_Processor
  imports Event_Buffer_Properties Data_Semaphore
begin

text \<open>
  The processor of incoming events (\<^verbatim>\<open>gossip/dagprocessor\<close>) with its task queues (\<^verbatim>\<open>utils/workers\<close>). Events are accepted
  under a semaphore, checked concurrently, and pushed to the events buffer by one inserter. The inserter is a function of
  the messages its \<^verbatim>\<open>select\<close> receives: results of checks in the order of their arrival, and the signal to quit. A panic is
  \<^const>\<open>None\<close>.
\<close>

section \<open>Workers\<close>

record 'a Workers =
  wk_capacity :: nat
  wk_tasks :: "'a list"

definition workers_New :: "int \<Rightarrow> 'a Workers option" where
  "workers_New maxTasks = (if maxTasks < 0 then None else Some \<lparr>wk_capacity = nat maxTasks, wk_tasks = []\<rparr>)"

text \<open>
  When both cases of a \<^verbatim>\<open>select\<close> are ready either may be taken, which the argument \<open>prefer_quit\<close> says; the value
  \<^const>\<open>None\<close> means that the call blocks. The boolean result says whether the task was queued.
\<close>

definition workers_Enqueue :: "bool \<Rightarrow> bool \<Rightarrow> 'a \<Rightarrow> 'a Workers \<Rightarrow> (bool \<times> 'a Workers) option" where
  "workers_Enqueue quit prefer_quit fn w =
    (if length (wk_tasks w) < wk_capacity w \<and> \<not> (quit \<and> prefer_quit) then Some (True, w\<lparr>wk_tasks := wk_tasks w @ [fn]\<rparr>)
     else if quit then Some (False, w)
     else None)"

definition workers_Drain :: "'a Workers \<Rightarrow> 'a Workers" where
  "workers_Drain w = w\<lparr>wk_tasks := []\<rparr>"

definition workers_TasksCount :: "'a Workers \<Rightarrow> int" where
  "workers_TasksCount w = int (length (wk_tasks w))"

text \<open>One turn of a worker: it ends, or takes a task, or waits.\<close>

datatype 'a turn = Exit | Job 'a "'a Workers" | Wait

definition worker_turn :: "bool \<Rightarrow> bool \<Rightarrow> 'a Workers \<Rightarrow> 'a turn" where
  "worker_turn quit prefer_quit w =
    (case wk_tasks w of
       [] \<Rightarrow> if quit then Exit else Wait
     | job # rest \<Rightarrow> if quit \<and> prefer_quit then Exit else Job job (w\<lparr>wk_tasks := rest\<rparr>))"

section \<open>State\<close>

datatype 'x process_error = ErrBusy | errTerminated | EventError 'x

record ('s, 'x) EventCallback =
  ec_Process :: "'s \<Rightarrow> BaseEvent \<Rightarrow> 's \<times> 'x process_error option"
  ec_Released :: "('s \<Rightarrow> BaseEvent \<Rightarrow> string \<Rightarrow> 'x process_error buffer_error option \<Rightarrow> 's) option"
  ec_Get :: "'s \<Rightarrow> hash_event \<Rightarrow> BaseEvent option"
  ec_Exists :: "'s \<Rightarrow> hash_event \<Rightarrow> bool"
  ec_CheckParents :: "('s \<Rightarrow> BaseEvent \<Rightarrow> BaseEvent list \<Rightarrow> 'x process_error option) option"
  ec_IsImportant :: "('s \<Rightarrow> BaseEvent \<Rightarrow> bool) option"
  ec_HighestLamport :: "'s \<Rightarrow> Lamport"

record dagprocessor_Config =
  cfg_EventsBufferLimit :: Metric
  cfg_EventsSemaphoreTimeout :: int
  cfg_MaxTasks :: int

record Task =
  tk_peer :: string
  tk_events :: "BaseEvent list"
  tk_ordered :: bool

record ('s, 'x) Processor =
  pr_cfg :: dagprocessor_Config
  pr_quit :: bool
  pr_callback :: "('s, 'x) EventCallback"
  pr_checker :: "Task Workers"
  pr_orderedInserter :: "Task Workers"
  pr_buffer :: "('s \<times> DataSemaphore, 'x process_error) EventsBuffer"

text \<open>
  The state of the application and the semaphore are one state for the buffer; the wrapped \<^verbatim>\<open>Released\<close> gives the weight
  of the event back and then calls the one of the application.
\<close>

definition processor_Released ::
  "('s, 'x) EventCallback \<Rightarrow> 's \<times> DataSemaphore \<Rightarrow> BaseEvent \<Rightarrow> string \<Rightarrow> 'x process_error buffer_error option \<Rightarrow> 's \<times> DataSemaphore" where
  "processor_Released ec st e peer err =
    (case st of (s, sem) \<Rightarrow>
      ((case ec_Released ec of None \<Rightarrow> s | Some rel \<Rightarrow> rel s e peer err), Release sem \<lparr>Num = 1, Size = of_nat (Event_Size e)\<rparr>))"

definition buffer_callback :: "('s, 'x) EventCallback \<Rightarrow> ('s \<times> DataSemaphore, 'x process_error) Callback" where
  "buffer_callback ec =
    \<lparr>cb_Process = (\<lambda>(s, sem) e. case ec_Process ec s e of (s1, err) \<Rightarrow> ((s1, sem), err)),
     cb_Released = Some (processor_Released ec),
     cb_Get = (\<lambda>(s, sem). ec_Get ec s),
     cb_Exists = (\<lambda>(s, sem). ec_Exists ec s),
     cb_Check = map_option (\<lambda>check (s, sem). check s) (ec_CheckParents ec),
     cb_IsImportant = map_option (\<lambda>important (s, sem). important s) (ec_IsImportant ec)\<rparr>"

definition Processor_New ::
  "'s \<Rightarrow> (hash_event \<Rightarrow> 'x process_error buffered_event) \<Rightarrow> DataSemaphore \<Rightarrow> dagprocessor_Config \<Rightarrow> ('s, 'x) EventCallback \<Rightarrow>
    ('s, 'x) Processor option" where
  "Processor_New app objects eventsSemaphore cfg callback =
    (case EventsBuffer_New (cfg_EventsBufferLimit cfg) (app, eventsSemaphore) objects of
       None \<Rightarrow> None
     | Some buffer \<Rightarrow>
         (case (workers_New (cfg_MaxTasks cfg), workers_New (cfg_MaxTasks cfg)) of
            (Some orderedInserter, Some checker) \<Rightarrow>
              Some \<lparr>pr_cfg = cfg, pr_quit = False, pr_callback = callback, pr_checker = checker,
                pr_orderedInserter = orderedInserter, pr_buffer = buffer\<rparr>
          | _ \<Rightarrow> None))"

section \<open>Processing an event\<close>

definition processor_release :: "('s, 'x) Processor \<Rightarrow> string \<Rightarrow> BaseEvent \<Rightarrow> 'x process_error buffer_error \<Rightarrow> ('s, 'x) Processor" where
  "processor_release f peer e err =
    f\<lparr>pr_buffer := (pr_buffer f)\<lparr>eb_app := processor_Released (pr_callback f) (eb_app (pr_buffer f)) e peer (Some err)\<rparr>\<rparr>"

text \<open>The depth of the recursion in the buffer is two more than the number of buffered events, which is enough.\<close>

definition push_depth :: "('s, 'e) EventsBuffer \<Rightarrow> nat" where
  "push_depth b = length (lru_evictList (eb_incompletes b)) + 2"

definition processor_process ::
  "('s, 'x) Processor \<Rightarrow> string \<Rightarrow> BaseEvent \<Rightarrow> 'x process_error option \<Rightarrow> (('s, 'x) Processor \<times> hash_event list) option" where
  "processor_process f peer event resErr =
    (case resErr of
       Some err \<Rightarrow> Some (processor_release f peer event (CallbackError err), [])
     | None \<Rightarrow>
         let highestLamport = ec_HighestLamport (pr_callback f) (fst (eb_app (pr_buffer f)));
             maxLamportDiff = 1 + Num (cfg_EventsBufferLimit (pr_cfg f)) in
         if ev_lamport event > highestLamport + maxLamportDiff
         then Some (processor_release f peer event ErrSpilledEvent, [])
         else case PushEvent (buffer_callback (pr_callback f)) (push_depth (pr_buffer f)) (pr_buffer f) event peer of
             None \<Rightarrow> None
           | Some (b, complete) \<Rightarrow>
               Some (f\<lparr>pr_buffer := b\<rparr>,
                 if \<not> complete \<and> ev_lamport event \<le> highestLamport + maxLamportDiff div 10 then ev_parents event else []))"

section \<open>The inserter\<close>

record 'x checkRes =
  cr_e :: BaseEvent
  cr_err :: "'x process_error option"
  cr_pos :: u32

datatype 'x message = Checked "'x checkRes" | QuitSignal "'x checkRes list"
datatype outcome = Done "hash_event list" | Quitted | Waiting

text \<open>In order: the results that are ready from the next position on.\<close>

function process_ready ::
  "string \<Rightarrow> ('s, 'x) Processor \<Rightarrow> nat \<Rightarrow> 'x checkRes option list \<Rightarrow> hash_event list \<Rightarrow>
    (('s, 'x) Processor \<times> nat \<times> 'x checkRes option list \<times> hash_event list) option" where
  "process_ready peer f processed orderedResults toRequest =
    (if processed < length orderedResults then
       case orderedResults ! processed of
         None \<Rightarrow> Some (f, processed, orderedResults, toRequest)
       | Some res \<Rightarrow>
           (case processor_process f peer (cr_e res) (cr_err res) of
              None \<Rightarrow> None
            | Some (f1, req) \<Rightarrow>
                process_ready peer f1 (Suc processed) (orderedResults[processed := None]) (toRequest @ req))
     else Some (f, processed, orderedResults, toRequest))"
  by pat_completeness auto
termination
  by (relation "measure (\<lambda>(peer, f, processed, orderedResults, toRequest). length orderedResults - processed)") auto

declare process_ready.simps [simp del]

text \<open>On quit: the results that are there, then all events without one.\<close>

fun drain_checked :: "string \<Rightarrow> 'x checkRes list \<Rightarrow> bool list \<Rightarrow> ('s, 'x) Processor \<Rightarrow> (bool list \<times> ('s, 'x) Processor) option" where
  "drain_checked peer [] seen f = Some (seen, f)"
| "drain_checked peer (res # rest) seen f =
    (if unat (cr_pos res) < length seen then
       if \<not> seen ! unat (cr_pos res)
       then drain_checked peer rest (seen[unat (cr_pos res) := True]) (processor_release f peer (cr_e res) (CallbackError ErrBusy))
       else drain_checked peer rest seen f
     else None)"

fun release_unseen :: "string \<Rightarrow> (BaseEvent \<times> bool) list \<Rightarrow> ('s, 'x) Processor \<Rightarrow> ('s, 'x) Processor" where
  "release_unseen peer [] f = f"
| "release_unseen peer ((e, seen) # rest) f =
    release_unseen peer rest (if seen then f else processor_release f peer e (CallbackError ErrBusy))"

definition inserter_quit :: "string \<Rightarrow> BaseEvent list \<Rightarrow> 'x checkRes list \<Rightarrow> ('s, 'x) Processor \<Rightarrow> ('s, 'x) Processor option" where
  "inserter_quit peer events drained f =
    (case drain_checked peer drained (replicate (length events) False) f of
       None \<Rightarrow> None
     | Some (seen, f1) \<Rightarrow> Some (release_unseen peer (zip events seen) f1))"

fun inserter_loop ::
  "Task \<Rightarrow> 'x message list \<Rightarrow> ('s, 'x) Processor \<Rightarrow> nat \<Rightarrow> 'x checkRes option list \<Rightarrow> hash_event list \<Rightarrow>
    (('s, 'x) Processor \<times> outcome) option" where
  "inserter_loop t [] f processed orderedResults toRequest =
    Some (f, if processed < length (tk_events t) then Waiting else Done toRequest)"
| "inserter_loop t (m # ms) f processed orderedResults toRequest =
    (if processed < length (tk_events t) then
       case m of
         Checked res \<Rightarrow>
           if tk_ordered t then
             if unat (cr_pos res) < length orderedResults then
               case process_ready (tk_peer t) f processed (orderedResults[unat (cr_pos res) := Some res]) toRequest of
                 None \<Rightarrow> None
               | Some (f1, processed1, orderedResults1, toRequest1) \<Rightarrow> inserter_loop t ms f1 processed1 orderedResults1 toRequest1
             else None
           else
             (case processor_process f (tk_peer t) (cr_e res) (cr_err res) of
                None \<Rightarrow> None
              | Some (f1, req) \<Rightarrow> inserter_loop t ms f1 (Suc processed) orderedResults (toRequest @ req))
       | QuitSignal drained \<Rightarrow> map_option (\<lambda>f1. (f1, Quitted)) (inserter_quit (tk_peer t) (tk_events t) drained f)
     else Some (f, Done toRequest))"

definition inserter :: "Task \<Rightarrow> 'x message list \<Rightarrow> ('s, 'x) Processor \<Rightarrow> (('s, 'x) Processor \<times> outcome) option" where
  "inserter t ms f = inserter_loop t ms f 0 (if tk_ordered t then replicate (length (tk_events t)) None else []) []"

section \<open>Interface\<close>

text \<open>
  The arguments say what the semaphore goes through while \<^const>\<open>Acquire\<close> waits and which cases the two queues choose. The
  value is \<^const>\<open>None\<close> while the call blocks.
\<close>

definition Enqueue ::
  "((DataSemaphore \<Rightarrow> DataSemaphore) \<times> bool) list \<Rightarrow> bool \<times> bool \<Rightarrow> ('s, 'x) Processor \<Rightarrow> Task \<Rightarrow>
    ('x process_error option \<times> ('s, 'x) Processor) option" where
  "Enqueue attempts prefer_quit f t =
    (case Acquire (Events_Metric (tk_events t)) attempts (snd (eb_app (pr_buffer f))) of
       None \<Rightarrow> None
     | Some (acquired, sem) \<Rightarrow>
         let f1 = f\<lparr>pr_buffer := (pr_buffer f)\<lparr>eb_app := (fst (eb_app (pr_buffer f)), sem)\<rparr>\<rparr> in
         if \<not> acquired then Some (Some ErrBusy, f1)
         else (case workers_Enqueue (pr_quit f1) (fst prefer_quit) t (pr_checker f1) of
             None \<Rightarrow> None
           | Some (False, _) \<Rightarrow> Some (Some errTerminated, f1)
           | Some (True, checker) \<Rightarrow>
               let f2 = f1\<lparr>pr_checker := checker\<rparr> in
               (case workers_Enqueue (pr_quit f2) (snd prefer_quit) t (pr_orderedInserter f2) of
                  None \<Rightarrow> None
                | Some (False, _) \<Rightarrow> Some (Some errTerminated, f2)
                | Some (True, orderedInserter) \<Rightarrow> Some (None, f2\<lparr>pr_orderedInserter := orderedInserter\<rparr>))))"

definition Processor_Clear :: "('s, 'x) Processor \<Rightarrow> ('s, 'x) Processor" where
  "Processor_Clear f = f\<lparr>pr_buffer := Clear (buffer_callback (pr_callback f)) (pr_buffer f)\<rparr>"

text \<open>Stopping: the inserter finishes its task, here given by what it does, after the semaphore is terminated.\<close>

definition Processor_Stop :: "(('s, 'x) Processor \<Rightarrow> ('s, 'x) Processor option) \<Rightarrow> ('s, 'x) Processor \<Rightarrow> ('s, 'x) Processor option" where
  "Processor_Stop finish f =
    (if pr_quit f then None
     else case eb_app (pr_buffer f) of (s, sem) \<Rightarrow>
       map_option Processor_Clear (finish (f\<lparr>pr_quit := True, pr_buffer := (pr_buffer f)\<lparr>eb_app := (s, Terminate sem)\<rparr>\<rparr>)))"

definition Overloaded :: "('s, 'x) Processor \<Rightarrow> bool" where
  "Overloaded f \<longleftrightarrow> workers_TasksCount (pr_checker f) > cfg_MaxTasks (pr_cfg f) * 3 div 4 \<or>
    workers_TasksCount (pr_orderedInserter f) > cfg_MaxTasks (pr_cfg f) * 3 div 4"

definition Processor_IsBuffered :: "('s, 'x) Processor \<Rightarrow> hash_event \<Rightarrow> bool" where
  "Processor_IsBuffered f i = IsBuffered (pr_buffer f) i"

definition TotalBuffered :: "('s, 'x) Processor \<Rightarrow> Metric" where
  "TotalBuffered f = Total (pr_buffer f)"

definition Processor_TasksCount :: "('s, 'x) Processor \<Rightarrow> int" where
  "Processor_TasksCount f = workers_TasksCount (pr_orderedInserter f) + workers_TasksCount (pr_checker f)"

end
