(* ===== verification/Dag_Processor_Correct.thy ===== *)
theory Dag_Processor_Correct
  imports Dag_Processor
begin

text \<open>
  The semaphore of the processor accounts for exactly the events that are accepted and not released, and the inserter
  handles the events of an ordered task in their order, whatever the order in which their checks end.
\<close>

section \<open>The weight of unreleased events\<close>

definition unreleased :: "('s, 'e) EventsBuffer \<Rightarrow> hash_event set \<Rightarrow> hash_event set" where
  "unreleased b K = {k \<in> K. \<not> released b k}"

definition total_size :: "('s, 'e) EventsBuffer \<Rightarrow> hash_event set \<Rightarrow> nat" where
  "total_size b K = (\<Sum>k \<in> K. Event_Size (the_event b k))"

text \<open>The semaphore holds the unreleased events of a set, and \<open>num\<close> others of size \<open>sz\<close>.\<close>

definition accounts :: "hash_event set \<Rightarrow> nat \<Rightarrow> nat \<Rightarrow> ('s \<times> DataSemaphore, 'e) EventsBuffer \<Rightarrow> bool" where
  "accounts K num sz b \<longleftrightarrow> holds (snd (eb_app b)) (num + card (unreleased b K)) (sz + total_size b (unreleased b K))"

lemma accounts_cong:
  "snd (eb_app b') = snd (eb_app b) \<Longrightarrow> released b' = released b \<Longrightarrow> the_event b' = the_event b \<Longrightarrow>
    accounts K num sz b' = accounts K num sz b"
  by (simp add: accounts_def unreleased_def total_size_def)

lemma accounts_frame [simp]:
  "accounts K num sz (removeIncomplete b e) = accounts K num sz b" "accounts K num sz (dropEvent b e err) = accounts K num sz b"
  "accounts K num sz (b\<lparr>eb_incompletes := c\<rparr>) = accounts K num sz b"
  by (rule accounts_cong; simp add: fun_eq_iff released_def the_event_def)+

lemma buffer_callback_simps [simp]:
  "cb_Process (buffer_callback ec) (s, sem) e = ((fst (ec_Process ec s e), sem), snd (ec_Process ec s e))"
  "cb_Released (buffer_callback ec) = Some (processor_Released ec)"
  "cb_Get (buffer_callback ec) (s, sem) = ec_Get ec s" "cb_Exists (buffer_callback ec) (s, sem) = ec_Exists ec s"
  "cb_Check (buffer_callback ec) = map_option (\<lambda>check (s, sem). check s) (ec_CheckParents ec)"
  by (simp_all add: buffer_callback_def split: prod.split)

lemma Release_event:
  assumes "holds sem (Suc num) (sz + Event_Size e)"
  shows "holds (Release sem \<lparr>Num = 1, Size = of_nat (Event_Size e)\<rparr>) num sz"
proof -
  have "Event_Size e \<le> unat (Size (ds_processing sem))" using assms by (simp add: holds_def)
  also have "\<dots> < 2 ^ 64" using unat_less_pow [of "Size (ds_processing sem)"] by simp
  finally have "unat (of_nat (Event_Size e) :: u64) = Event_Size e" by (simp add: unat_of_nat take_bit_nat_eq_self)
  then show ?thesis using assms by (intro Release_holds(1)) simp
qed

lemma accounts_releaseEvent:
  assumes "accounts K num sz b" "finite K" "e \<in> K"
  shows "accounts K num sz (releaseEvent (buffer_callback ec) b e)"
proof (cases "released b e")
  case True
  then show ?thesis
    using assms(1) by (subst accounts_cong [of _ b])
      (auto simp: releaseEvent_def Let_def released_def the_event_def set_object_def fun_eq_iff)
next
  case False
  let ?b = "releaseEvent (buffer_callback ec) b e" and ?U = "unreleased b K"
  have U: "unreleased ?b K = ?U - {e}" "e \<in> ?U" "finite ?U" using assms False by (auto simp: unreleased_def)
  have "holds (snd (eb_app b)) (Suc (num + card (?U - {e}))) (sz + total_size b (?U - {e}) + Event_Size (the_event b e))"
    using assms(1) U card_Suc_Diff1 [OF U(3,2)] sum.remove [OF U(3,2), of "\<lambda>k. Event_Size (the_event b k)"]
    by (simp add: accounts_def total_size_def add_ac)
  moreover have "eb_app ?b = processor_Released ec (eb_app b) (the_event b e) (be_peer (eb_objects b e)) (be_err (eb_objects b e))"
    using False by (simp add: releaseEvent_def Let_def released_def the_event_def)
  moreover have "the_event ?b = the_event b" by simp
  ultimately show ?thesis using Release_event by (auto simp: accounts_def total_size_def U(1) processor_Released_def split: prod.splits)
qed

lemma accounts_process:
  assumes "processCompleteEvent (buffer_callback ec) b e parents = (b', ok)"
  shows "accounts K num sz b' = accounts K num sz b"
proof (rule accounts_cong)
  obtain s sem where "eb_app b = (s, sem)" by (cases "eb_app b")
  then show "snd (eb_app b') = snd (eb_app b)"
    using assms by (auto simp: processCompleteEvent_def Let_def split: option.splits prod.splits)
qed (use processCompleteEvent_frame [OF assms] in auto)

lemma repushes_accounts:
  "repushes cb all e b b' \<Longrightarrow> cb = buffer_callback ec \<Longrightarrow> finite K \<Longrightarrow> set all \<subseteq> K \<Longrightarrow> e \<in> K \<Longrightarrow> accounts K num sz b \<Longrightarrow> accounts K num sz b'"
  "repushes_children cb all e rest b b' \<Longrightarrow> cb = buffer_callback ec \<Longrightarrow> finite K \<Longrightarrow> set all \<subseteq> K \<Longrightarrow> set rest \<subseteq> K \<Longrightarrow>
    accounts K num sz b \<Longrightarrow> accounts K num sz b'"
proof (induction rule: repushes_repushes_children.inducts)
  case (connected b e)
  then show ?case by (simp add: accounts_releaseEvent)
next
  case (failed b e parents b1)
  then show ?case using accounts_process [of ec b e parents b1 False] by (simp add: accounts_releaseEvent)
next
  case (processed b e parents b1 b2)
  then show ?case using accounts_process [of ec b e parents b1 True] by (simp add: accounts_releaseEvent)
qed auto

lemma pushEvent_accounts:
  assumes "pushEvent (buffer_callback ec) (Suc n) e None False b = Some (b', r)" "list_ok b"
    "accounts (insert e (buffered b)) num sz b"
  shows "accounts (insert e (buffered b)) num sz b'"
  using assms(1,2)
proof (cases rule: pushEvent_cases)
  case (connected b0)
  then show ?thesis using assms(3) by (elim disjE) (simp_all add: accounts_releaseEvent)
next
  case (added c ev)
  then show ?thesis using assms(3) by simp
next
  case (failed parents b1)
  then show ?thesis using assms(3) accounts_process [OF failed(3)] by (simp add: accounts_releaseEvent)
next
  case (processed parents b1 children b3)
  note ch = new_children [OF assms(2) processed(3) processed(4) [simplified] processed(5)]
  have "accounts (insert e (buffered b)) num sz (releaseEvent (buffer_callback ec) b1 e)"
    using assms(3) accounts_process [OF processed(3)] by (simp add: accounts_releaseEvent)
  then have "accounts (insert e (buffered b)) num sz b3"
    using ch(2) by (intro repushes_accounts(2) [OF ch(1) refl]) auto
  then show ?thesis using processed(6) by simp
qed (use assms(3) in simp)

lemma spill_accounts:
  assumes "accounts K num sz b" "list_ok b" "finite K" "buffered b \<subseteq> K"
  shows "accounts K num sz (spillIncompletes (buffer_callback ec) limit b)"
proof -
  let ?P = "\<lambda>b. accounts K num sz b \<and> buffered b \<subseteq> K"
  have "?P (spillIncompletes (buffer_callback ec) limit b) \<and> list_ok (spillIncompletes (buffer_callback ec) limit b)"
    using assms by (intro spillIncompletes_induct) (auto simp: evict_def spill_def accounts_releaseEvent)
  then show ?thesis by blast
qed

section \<open>Room in the list\<close>

definition caps :: "('s, 'e) EventsBuffer \<Rightarrow> int \<times> u64" where
  "caps b = (lru_maxSize (eb_incompletes b), lru_maxWeight (eb_incompletes b))"

lemma caps_cong: "eb_incompletes b' = eb_incompletes b \<Longrightarrow> caps b' = caps b"
  by (simp add: caps_def)

lemma caps_frame [simp]:
  "caps (removeIncomplete b e) = caps b" "caps (dropEvent b e err) = caps b" "caps (releaseEvent cb b e) = caps b"
  "caps (new_object b de peer) = caps b"
  by (auto simp: caps_def removeIncomplete_def lru_Remove_def lru_removeElement_def split: option.split)

lemma caps_process: "processCompleteEvent cb b e parents = (b', ok) \<Longrightarrow> caps b' = caps b"
  by (rule caps_cong) (rule processCompleteEvent_frame)

lemma repushes_caps:
  "repushes cb all e b b' \<Longrightarrow> caps b' = caps b" "repushes_children cb all e rest b b' \<Longrightarrow> caps b' = caps b"
  by (induction rule: repushes_repushes_children.inducts) (auto simp: caps_process)

lemma pushEvent_caps:
  assumes "pushEvent cb (Suc n) e None False b = Some (b', r)" "list_ok b"
  shows "caps b' = caps b"
  using assms
proof (cases rule: pushEvent_cases)
  case (added c ev)
  have ok: "0 \<le> lru_maxSize (eb_incompletes b)" "lru_linked (eb_incompletes b)" using assms(2) by (simp_all add: list_ok_def)
  obtain c' ev' where "lru_Add (eb_incompletes b) e () (of_nat (Event_Size (the_event b e))) = Some (c', ev')"
    "lru_maxSize c' = lru_maxSize (eb_incompletes b)" "lru_maxWeight c' = lru_maxWeight (eb_incompletes b)"
    unfolding Add_normalize [OF ok(2)]
    by (rule normalize_inv [of "with_entries (eb_incompletes b) (lru_touched (eb_incompletes b) e () (of_nat (Event_Size (the_event b e))))" "[]"])
      (use ok linked_touched [OF ok(2)] in \<open>auto simp: linked_with_entries\<close>)
  then show ?thesis using added by (simp add: caps_def)
next
  case (processed parents b1 children b3)
  then show ?thesis
    using repushes_caps(2) [OF new_children(1) [OF assms(2) processed(3) processed(4) [simplified] processed(5)]] caps_process [OF processed(3)] by simp
qed (auto simp: caps_process)

lemma spill_caps: "list_ok b \<Longrightarrow> caps (spillIncompletes cb limit b) = caps b"
  using spillIncompletes_induct [of "\<lambda>b'. caps b' = caps b" limit cb b] by (simp add: evict_def spill_def)

lemma length_buffered: "list_ok b \<Longrightarrow> length (lru_evictList (eb_incompletes b)) = card (buffered b)"
  unfolding buffered_def list_ok_def lru_linked_def by (metis distinct_card length_map list.set_map)

text \<open>A buffer within a moderate limit, whose list never evicts by itself.\<close>

definition moderate_limit :: "Metric \<Rightarrow> bool" where
  "moderate_limit limit \<longleftrightarrow> unat (Num limit) < 2147483647 \<and> unat (Size limit) \<le> 2147483647"

definition roomy :: "Metric \<Rightarrow> ('s, 'e) EventsBuffer \<Rightarrow> bool" where
  "roomy limit b \<longleftrightarrow> eb_limit b = limit \<and> caps b = (2147483647, 2147483647) \<and>
    card (buffered b) \<le> unat (Num limit) \<and> unat (lru_weight (eb_incompletes b)) \<le> unat (Size limit)"

definition fits :: "Metric \<Rightarrow> BaseEvent \<Rightarrow> bool" where
  "fits limit e \<longleftrightarrow> unat (Size limit) + Event_Size e \<le> 2147483647"

lemma room:
  assumes "roomy limit b" "list_ok b" "moderate_limit limit" "fits limit e" "ev_id e \<notin> buffered b"
    "lru_Add (eb_incompletes b) (ev_id e) () (of_nat (Event_Size e)) = Some (c, ev)"
  shows "ev = []"
proof -
  let ?c = "eb_incompletes b" and ?w = "of_nat (Event_Size e) :: u64"
  have "lru_item ?c (ev_id e) = None" using assms(5) by (auto simp: lru_item_def buffered_def map_of_eq_None_iff)
  moreover have "unat ?w = Event_Size e" using assms(4) by (simp add: fits_def unat_of_nat take_bit_nat_eq_self)
  then have "unat (lru_weight ?c + ?w) \<le> 2147483647"
    using assms(1,4) unat_add_no_overflow [of "lru_weight ?c" ?w] by (simp add: roomy_def fits_def)
  then have "\<not> 2147483647 < lru_weight ?c + ?w" by (simp add: word_less_nat_alt)
  moreover have "int (length (lru_evictList ?c)) < 2147483647"
    using assms(1,3) length_buffered [OF assms(2)] by (simp add: roomy_def moderate_limit_def)
  ultimately show ?thesis
    using assms(1,6) by (simp add: lru_Add_def lru_normalize.simps lru_exceeds_def lru_Len_def roomy_def caps_def)
qed

lemma within_limit:
  assumes "\<not> exceeds_limit b limit" "list_ok b" "card (buffered b) < 2 ^ 32"
  shows "card (buffered b) \<le> unat (Num limit)" "unat (lru_weight (eb_incompletes b)) \<le> unat (Size limit)"
  using assms by (simp_all add: exceeds_limit_def lru_Len_def lru_Weight_def length_buffered not_less word_le_nat_alt
      unat_of_nat take_bit_nat_eq_self)

section \<open>Pushing balances\<close>

definition balanced :: "nat \<Rightarrow> nat \<Rightarrow> ('s \<times> DataSemaphore, 'e) EventsBuffer \<Rightarrow> bool" where
  "balanced num sz b \<longleftrightarrow> holds (snd (eb_app b)) (num + card (buffered b)) (sz + total_size b (buffered b))"

lemma PushEvent_balanced:
  assumes "buffer_ok b" "roomy limit b" "moderate_limit limit" "fits limit de" "balanced (Suc num) (sz + Event_Size de) b"
    "PushEvent (buffer_callback ec) n b de peer = Some (b', r)"
  shows "balanced num sz b'" "roomy limit b'"
proof -
  have ok: "list_ok b" using assms(1) by (simp add: buffer_ok_def)
  have "balanced num sz b' \<and> roomy limit b'"
  proof (cases "ev_id de \<in> buffered b")
    case True
    then have "lru_Peek (eb_incompletes b) (ev_id de) \<noteq> None" using Peek_buffered by blast
    then have b': "b' = b\<lparr>eb_app := processor_Released ec (eb_app b) de peer (Some ErrDuplicateEvent)\<rparr>"
      using assms(6) by (auto simp: PushEvent_def Let_def releaseEvent_def dropEvent_def set_object_def)
    moreover have "buffered b' = buffered b" "total_size b' = total_size b"
      by (simp_all add: b' buffered_def total_size_def the_event_def fun_eq_iff)
    moreover have "roomy limit b'" using assms(2) calculation by (simp add: roomy_def caps_def)
    ultimately show ?thesis
      using assms(5) Release_event [of "snd (eb_app b)" "num + card (buffered b)" "sz + total_size b (buffered b)" de]
      by (auto simp: balanced_def processor_Released_def add_ac split: prod.splits)
  next
    case False
    let ?b = "new_object b de peer" and ?K = "insert (ev_id de) (buffered b)"
    obtain m b1 where b1: "pushEvent (buffer_callback ec) (Suc m) (ev_id de) None False ?b = Some (b1, r)"
      "b' = spillIncompletes (buffer_callback ec) (eb_limit b1) b1"
      using PushEvent_new [OF False assms(6)] by blast
    have ok1: "list_ok ?b" using ok by simp
    note fr = pushEvent_new_frame [OF b1(1) ok1]
    then have l: "list_ok b1" and sub: "buffered b1 \<subseteq> ?K" and lim: "eb_limit b1 = limit" and ev: "the_event b1 = the_event ?b"
      using assms(2) by (simp_all add: roomy_def)
    note sp = spillIncompletes_frame [OF l, of "buffer_callback ec" "eb_limit b1", folded b1(2)]
    have un: "unreleased ?b ?K = ?K" "total_size ?b ?K = Event_Size de + total_size b (buffered b)"
      using assms(1) False by (auto simp: unreleased_def buffer_ok_def total_size_def intro!: sum.cong)
    have "accounts ?K num sz ?b" using assms(5) False by (simp add: accounts_def un balanced_def add_ac)
    then have "accounts ?K num sz b1" using pushEvent_accounts [OF b1(1) ok1] by simp
    then have acc: "accounts ?K num sz b'" using sub unfolding b1(2) by (intro spill_accounts l) auto
    have rel: "\<forall>k \<in> ?K - buffered b1. released b1 k" "\<forall>k \<in> buffered b1. \<not> released b1 k"
      using pushEvent_new_releases [OF b1(1) ok1] assms(1) room [OF assms(2) ok assms(3,4) False] by (auto simp: buffer_ok_def)
    have "unreleased b' ?K = buffered b'" using rel sp(4,5) sub by (auto simp: unreleased_def)
    then have "balanced num sz b'" using acc by (simp add: accounts_def balanced_def)
    moreover have "card (buffered b') \<le> card ?K" using sp(4) sub by (intro card_mono) auto
    then have "card (buffered b') < 2 ^ 32"
      using assms(2,3) False by (simp add: roomy_def moderate_limit_def)
    then have "card (buffered b') \<le> unat (Num limit)" "unat (lru_weight (eb_incompletes b')) \<le> unat (Size limit)"
      using within_limit [OF spillIncompletes_limit [OF l, of "buffer_callback ec" limit]] sp(1) b1(2) lim by simp_all
    moreover have "caps b' = caps b" using spill_caps [OF l] pushEvent_caps [OF b1(1) ok1] b1(2) by simp
    ultimately show ?thesis using assms(2) sp(3) lim by (simp add: roomy_def)
  qed
  then show "balanced num sz b'" "roomy limit b'" by blast+
qed

end
