(* ===== verification/Dag_Processor_Properties.thy ===== *)
theory Dag_Processor_Properties
  imports Dag_Processor_Correct "HOL-Library.Multiset"
begin

text \<open>
  Whole tasks of the processor: the order in which a task's events are handled, and the balance of the semaphore from
  accepting a task to its end.
\<close>

section \<open>One event\<close>

text \<open>What the processor relies on of the application, as for the events buffer.\<close>

definition events_ok :: "('s, 'x) EventCallback \<Rightarrow> bool" where
  "events_ok ec \<longleftrightarrow>
    (\<forall>s h. ec_Exists ec s h \<longleftrightarrow> ec_Get ec s h \<noteq> None) \<and>
    (\<forall>s d h. \<not> ec_Exists ec s (ev_id d) \<longrightarrow>
      ec_Exists ec (fst (ec_Process ec s d)) h = (ec_Exists ec s h \<or> (h = ev_id d \<and> snd (ec_Process ec s d) = None))) \<and>
    (\<forall>rel s d peer err h. ec_Released ec = Some rel \<longrightarrow> ec_Exists ec (rel s d peer err) h = ec_Exists ec s h)"

lemma buffer_callback_ok:
  assumes "events_ok ec"
  shows "callback_ok (buffer_callback ec)"
proof (unfold callback_ok_def, intro conjI allI impI)
  fix st h
  show "cb_Exists (buffer_callback ec) st h \<longleftrightarrow> cb_Get (buffer_callback ec) st h \<noteq> None"
    using assms by (cases st) (simp add: events_ok_def)
next
  fix st and d :: BaseEvent and h
  assume new: "\<not> cb_Exists (buffer_callback ec) st (ev_id d)"
  have "\<not> ec_Exists ec s (ev_id d) \<longrightarrow>
      ec_Exists ec (fst (ec_Process ec s d)) h = (ec_Exists ec s h \<or> (h = ev_id d \<and> snd (ec_Process ec s d) = None))" for s
    using assms unfolding events_ok_def by blast
  then show "cb_Exists (buffer_callback ec) (fst (cb_Process (buffer_callback ec) st d)) h =
      (cb_Exists (buffer_callback ec) st h \<or> (h = ev_id d \<and> snd (cb_Process (buffer_callback ec) st d) = None))"
    using new by (cases st) simp
next
  fix rel st and d :: BaseEvent and peer err h
  assume rel: "cb_Released (buffer_callback ec) = Some rel"
  have "ec_Released ec = Some r \<longrightarrow> ec_Exists ec (r s d peer err) h = ec_Exists ec s h" for r s
    using assms unfolding events_ok_def by blast
  then show "cb_Exists (buffer_callback ec) (rel st d peer err) h = cb_Exists (buffer_callback ec) st h"
    using rel by (cases st; cases "ec_Released ec") (auto simp: processor_Released_def)
qed

abbreviation event_limit :: "('s, 'x) Processor \<Rightarrow> Metric" where
  "event_limit f \<equiv> cfg_EventsBufferLimit (pr_cfg f)"

definition processor_ok :: "('s, 'x) Processor \<Rightarrow> bool" where
  "processor_ok f \<longleftrightarrow> events_ok (pr_callback f) \<and> moderate_limit (event_limit f) \<and>
    buffer_ok (pr_buffer f) \<and> roomy (event_limit f) (pr_buffer f)"

definition same_queues :: "('s, 'x) Processor \<Rightarrow> ('s, 'x) Processor \<Rightarrow> bool" where
  "same_queues f f' \<longleftrightarrow> f' = f\<lparr>pr_buffer := pr_buffer f'\<rparr>"

lemma same_queues_refl [simp]: "same_queues f f"
  by (simp add: same_queues_def)

lemma same_queues_trans: "same_queues f g \<Longrightarrow> same_queues g h \<Longrightarrow> same_queues f h"
  unfolding same_queues_def by (metis Processor.surjective Processor.update_convs(6))

lemma same_queues_simps:
  assumes "same_queues f f'"
  shows "pr_cfg f' = pr_cfg f" "pr_callback f' = pr_callback f" "pr_quit f' = pr_quit f"
    "pr_checker f' = pr_checker f" "pr_orderedInserter f' = pr_orderedInserter f"
  using assms unfolding same_queues_def
  by (metis Processor.select_convs Processor.surjective Processor.update_convs(6))+

lemma release_balanced:
  assumes "processor_ok f" "balanced (Suc num) (sz + Event_Size e) (pr_buffer f)"
  shows "processor_ok (processor_release f peer e err) \<and> balanced num sz (pr_buffer (processor_release f peer e err)) \<and>
    same_queues f (processor_release f peer e err)"
proof -
  let ?b = "pr_buffer f" and ?b' = "pr_buffer (processor_release f peer e err)"
  have b': "?b' = ?b\<lparr>eb_app := processor_Released (pr_callback f) (eb_app ?b) e peer (Some err)\<rparr>" by (simp add: processor_release_def)
  have eq: "buffered ?b' = buffered ?b" "total_size ?b' = total_size ?b" "the_event ?b' = the_event ?b" "released ?b' = released ?b"
    "list_ok ?b' = list_ok ?b" "caps ?b' = caps ?b"
    by (simp_all add: b' buffered_def total_size_def the_event_def released_def list_ok_def caps_def fun_eq_iff)
  have "processor_ok (processor_release f peer e err)"
    using assms(1) eq by (simp add: processor_ok_def buffer_ok_def roomy_def processor_release_def)
  moreover have "balanced num sz ?b'"
    using assms(2) Release_event [of "snd (eb_app ?b)" "num + card (buffered ?b)" "sz + total_size ?b (buffered ?b)" e] eq(1,2)
    by (auto simp: balanced_def b' processor_Released_def add_ac split: prod.splits)
  ultimately show ?thesis by (simp add: same_queues_def processor_release_def)
qed

lemma process_balanced:
  assumes "processor_ok f" "fits (event_limit f) e" "balanced (Suc num) (sz + Event_Size e) (pr_buffer f)"
  obtains f' req where "processor_process f peer e err = Some (f', req)" "processor_ok f'" "balanced num sz (pr_buffer f')" "same_queues f f'"
proof -
  let ?cb = "buffer_callback (pr_callback f)" and ?b = "pr_buffer f"
  have ok: "callback_ok ?cb" "buffer_ok ?b" "roomy (event_limit f) ?b" "moderate_limit (event_limit f)"
    using assms(1) by (simp_all add: processor_ok_def buffer_callback_ok)
  have "card (buffered ?b) + 1 < push_depth ?b"
    using ok(2) length_buffered [of ?b] by (simp add: push_depth_def buffer_ok_def)
  then obtain b' r where push: "PushEvent ?cb (push_depth ?b) ?b e peer = Some (b', r)"
    using PushEvent_returns [OF ok(1,2)] by blast
  have "processor_ok (f\<lparr>pr_buffer := b'\<rparr>)" "balanced num sz b'"
    using assms(1) PushEvent_keeps_ok [OF ok(2) push] PushEvent_balanced [OF ok(2,3,4) assms(2,3) push] by (simp_all add: processor_ok_def)
  moreover have "processor_process f peer e err = Some (f', req) \<Longrightarrow> f' = f\<lparr>pr_buffer := b'\<rparr> \<or> (\<exists>x. f' = processor_release f peer e x)" for f' req
    using push by (auto simp: processor_process_def Let_def split: option.splits if_splits)
  moreover have "processor_process f peer e err \<noteq> None"
    using push by (simp add: processor_process_def Let_def split: option.splits)
  ultimately show thesis
    using that release_balanced [OF assms(1,3)] by (force simp: same_queues_def)
qed

section \<open>A list of events\<close>

text \<open>Handling checked events one after the other.\<close>

fun process_list :: "string \<Rightarrow> 'x checkRes list \<Rightarrow> ('s, 'x) Processor \<Rightarrow> hash_event list \<Rightarrow> (('s, 'x) Processor \<times> hash_event list) option" where
  "process_list peer [] f toRequest = Some (f, toRequest)"
| "process_list peer (res # rest) f toRequest =
    (case processor_process f peer (cr_e res) (cr_err res) of
       None \<Rightarrow> None
     | Some (f1, req) \<Rightarrow> process_list peer rest f1 (toRequest @ req))"

abbreviation sizes :: "'x checkRes list \<Rightarrow> nat" where
  "sizes cs \<equiv> (\<Sum>c \<leftarrow> cs. Event_Size (cr_e c))"

lemma process_list_append:
  "process_list peer (xs @ ys) f req =
    (case process_list peer xs f req of None \<Rightarrow> None | Some (f1, req1) \<Rightarrow> process_list peer ys f1 req1)"
  by (induction xs arbitrary: f req) (auto split: option.split)

lemma process_list_balanced:
  "processor_ok f \<Longrightarrow> \<forall>c \<in> set cs. fits (event_limit f) (cr_e c) \<Longrightarrow> balanced (num + length cs) (sz + sizes cs) (pr_buffer f) \<Longrightarrow>
    \<exists>f' req'. process_list peer cs f req = Some (f', req') \<and> processor_ok f' \<and> balanced num sz (pr_buffer f') \<and> same_queues f f'"
proof (induction cs arbitrary: f req)
  case (Cons c cs)
  have "balanced (Suc (num + length cs)) (sz + sizes cs + Event_Size (cr_e c)) (pr_buffer f)"
    using Cons(4) by (simp add: add_ac)
  then obtain f1 req1 where f1: "processor_process f peer (cr_e c) (cr_err c) = Some (f1, req1)" "processor_ok f1"
    "balanced (num + length cs) (sz + sizes cs) (pr_buffer f1)" "same_queues f f1"
    using process_balanced [OF Cons(2)] Cons(3) by (metis list.set_intros(1))
  then show ?case
    using Cons(1) [OF f1(2) _ f1(3), of "req @ req1"] Cons(3) same_queues_simps(1) [OF f1(4)] same_queues_trans [OF f1(4)] by auto
qed simp

section \<open>Results in any order\<close>

lemma process_ready_list:
  "length pre = p \<Longrightarrow> rest = [] \<or> hd rest = None \<Longrightarrow>
    process_ready peer f p (pre @ map Some cs @ rest) req =
      map_option (\<lambda>(f', req'). (f', p + length cs, pre @ replicate (length cs) None @ rest, req')) (process_list peer cs f req)"
proof (induction cs arbitrary: pre p f req)
  case Nil
  then show ?case by (cases rest) (auto simp: process_ready.simps nth_append)
next
  case (Cons c cs)
  show ?case
  proof (cases "processor_process f peer (cr_e c) (cr_err c)")
    case None
    then show ?thesis using Cons(2) by (simp add: process_ready.simps [of peer f p] nth_append)
  next
    case (Some x)
    obtain f1 req1 where x: "x = (f1, req1)" by (cases x)
    have upd: "(pre @ Some c # map Some cs @ rest)[p := None] = (pre @ [None]) @ map Some cs @ rest"
      using Cons(2) by (simp add: list_update_append)
    show ?thesis
      using Cons(2) Some x Cons(1) [of "pre @ [None]" "Suc p" f1 "req @ req1", OF _ Cons(3)]
      by (subst process_ready.simps) (simp add: nth_append upd split: option.split)
  qed
qed

text \<open>The table of results: those that have arrived and are not handled yet.\<close>

definition table :: "'x checkRes list \<Rightarrow> nat set \<Rightarrow> nat \<Rightarrow> 'x checkRes option list" where
  "table checks A p = map (\<lambda>i. if p \<le> i \<and> i \<in> A then Some (checks ! i) else None) [0..<length checks]"

lemma length_table [simp]: "length (table checks A p) = length checks"
  by (simp add: table_def)

lemma table_split:
  assumes "p \<le> q" "q \<le> length checks" "{..<q} \<subseteq> A" "q \<notin> A"
  obtains rest where "rest = [] \<or> hd rest = None"
    "table checks A p = replicate p None @ map Some (take (q - p) (drop p checks)) @ rest"
    "table checks A q = replicate p None @ replicate (q - p) None @ rest"
proof -
  let ?rest = "drop q (table checks A q)"
  have "?rest = [] \<or> hd ?rest = None" using assms(4) by (cases "q < length checks") (auto simp: hd_drop_conv_nth table_def)
  moreover have "table checks A p = replicate p None @ map Some (take (q - p) (drop p checks)) @ ?rest"
  proof (rule nth_equalityI)
    fix i assume "i < length (table checks A p)"
    then have i: "i < length checks" by simp
    consider "i < p" | "p \<le> i" "i < q" | "q \<le> i" by linarith
    then show "table checks A p ! i = (replicate p None @ map Some (take (q - p) (drop p checks)) @ ?rest) ! i"
      using assms(1,2) i subsetD [OF assms(3), of i] by cases (auto simp: table_def nth_append)
  qed (use assms in simp)
  moreover have "table checks A q = replicate p None @ replicate (q - p) None @ ?rest"
    using assms by (intro nth_equalityI) (auto simp: table_def nth_append)
  ultimately show thesis by (rule that)
qed

lemma above: "{..<p} \<subseteq> A \<Longrightarrow> j \<notin> A \<Longrightarrow> p \<le> (j :: nat)"
  by (metis lessThan_iff not_le subsetD)

lemma table_insert:
  "{..<p} \<subseteq> A \<Longrightarrow> j \<notin> A \<Longrightarrow> j < length checks \<Longrightarrow> (table checks A p)[j := Some (checks ! j)] = table checks (insert j A) p"
  using above [of p A j] by (intro nth_equalityI) (auto simp: table_def nth_list_update)

definition next_missing :: "nat set \<Rightarrow> nat" where
  "next_missing A = (LEAST i. i \<notin> A)"

lemma next_missing:
  assumes "A \<subseteq> {..<n}"
  shows "next_missing A \<notin> A" "{..<next_missing A} \<subseteq> A" "next_missing A \<le> n"
proof -
  have "n \<notin> A" using assms by auto
  then show "next_missing A \<notin> A" "next_missing A \<le> n" unfolding next_missing_def by (rule LeastI, rule Least_le)
  show "{..<next_missing A} \<subseteq> A" unfolding next_missing_def using not_less_Least by blast
qed

definition check_results :: "BaseEvent list \<Rightarrow> 'x checkRes list \<Rightarrow> bool" where
  "check_results events checks \<longleftrightarrow> map cr_e checks = events \<and> (\<forall>i < length checks. unat (cr_pos (checks ! i)) = i)"

lemma check_results_length: "check_results events checks \<Longrightarrow> length events = length checks"
  by (auto simp: check_results_def)

lemma inserter_ordered:
  assumes "tk_ordered t" "check_results (tk_events t) checks"
  shows "{..<p} \<subseteq> A \<Longrightarrow> A \<subseteq> {..<length checks} \<Longrightarrow> p \<notin> A \<Longrightarrow> p \<le> length checks \<Longrightarrow> distinct js \<Longrightarrow> set js = {..<length checks} - A \<Longrightarrow>
    inserter_loop t (map (\<lambda>j. Checked (checks ! j)) js) f p (table checks A p) req =
      map_option (\<lambda>(f', req'). (f', Done req')) (process_list (tk_peer t) (drop p checks) f req)"
proof (induction js arbitrary: A p f req)
  case Nil
  then have "p = length checks" by (metis Diff_eq_empty_iff empty_set lessThan_iff order.not_eq_order_implies_strict subsetD)
  then show ?case using check_results_length [OF assms(2)] by simp
next
  case (Cons j js)
  let ?n = "length checks" and ?A = "insert j A" and ?q = "next_missing (insert j A)"
  have j: "j < ?n" "j \<notin> A" using Cons(7) by auto
  then have pj: "p \<le> j" using above [OF Cons(2)] by blast
  have A: "?A \<subseteq> {..<?n}" using Cons(3) j by auto
  note q = next_missing [OF A]
  have pq: "p \<le> ?q" using q(1) above [OF Cons(2)] by blast
  obtain rest where rest: "rest = [] \<or> hd rest = None"
    "table checks ?A p = replicate p None @ map Some (take (?q - p) (drop p checks)) @ rest"
    "table checks ?A ?q = replicate p None @ replicate (?q - p) None @ rest"
    by (rule table_split [OF pq q(3,2,1)])
  have len: "length (take (?q - p) (drop p checks)) = ?q - p" using q(3) pq by simp
  have split: "drop p checks = take (?q - p) (drop p checks) @ drop ?q checks"
    using pq by (metis append_take_drop_id drop_drop le_add_diff_inverse2)
  have set: "set js = {..<?n} - ?A" using Cons(6,7) by auto
  note IH = Cons(1) [OF q(2) A q(1,3) _ set]
  have n: "length (tk_events t) = ?n" "unat (cr_pos (checks ! j)) = j"
    using check_results_length [OF assms(2)] assms(2) j(1) by (simp_all add: check_results_def)
  have "process_ready (tk_peer t) f p ((table checks A p)[j := Some (checks ! j)]) req =
      map_option (\<lambda>(f', req'). (f', ?q, table checks ?A ?q, req')) (process_list (tk_peer t) (take (?q - p) (drop p checks)) f req)"
    unfolding table_insert [OF Cons(2) j(2,1)] rest(2,3)
    using process_ready_list [of "replicate p None" p rest "tk_peer t" f "take (?q - p) (drop p checks)" req] rest(1) len pq by simp
  then show ?case
    using assms(1) j pj n IH Cons(6)
    by (subst split) (simp add: process_list_append split: option.split)
qed

lemma inserter_unordered:
  "\<not> tk_ordered t \<Longrightarrow> p + length rs = length (tk_events t) \<Longrightarrow>
    inserter_loop t (map Checked rs) f p results req =
      map_option (\<lambda>(f', req'). (f', Done req')) (process_list (tk_peer t) rs f req)"
  by (induction rs arbitrary: f p req) (auto split: option.split)

lemma arrival_order:
  assumes "check_results events checks" "mset rs = mset checks"
  obtains js where "rs = map ((!) checks) js" "distinct js" "set js = {..<length checks}"
proof -
  let ?pos = "\<lambda>c. unat (cr_pos c)"
  have nth: "c = checks ! ?pos c \<and> ?pos c < length checks" if "c \<in> set checks" for c
    using that assms(1) by (auto simp: check_results_def in_set_conv_nth)
  have sets: "set rs = set checks" using assms(2) by (rule mset_eq_setD)
  have "inj_on ?pos (set checks)"
  proof (rule inj_onI)
    fix x y assume "x \<in> set checks" "y \<in> set checks" "?pos x = ?pos y"
    then show "x = y" using nth [of x] nth [of y] by simp
  qed
  moreover have "distinct checks"
    unfolding distinct_conv_nth
  proof (intro allI impI)
    fix i j assume "i < length checks" "j < length checks" "i \<noteq> j"
    then have "?pos (checks ! i) \<noteq> ?pos (checks ! j)" using assms(1) by (simp add: check_results_def)
    then show "checks ! i \<noteq> checks ! j" by auto
  qed
  then have "distinct rs" using mset_eq_imp_distinct_iff [OF assms(2)] by simp
  ultimately have "distinct (map ?pos rs)" using sets by (simp add: distinct_map)
  moreover have "map (\<lambda>c. checks ! ?pos c) rs = rs" using nth sets by (intro map_idI) metis
  then have "rs = map ((!) checks) (map ?pos rs)" by (simp add: comp_def)
  moreover have "set (map ?pos rs) = {..<length checks}"
  proof -
    have "?pos ` set checks = (\<lambda>i. ?pos (checks ! i)) ` {..<length checks}"
      by (auto simp: set_conv_nth)
    also have "\<dots> = {..<length checks}" using assms(1) by (force simp: check_results_def)
    finally show ?thesis using sets by simp
  qed
  ultimately show thesis using that by blast
qed

lemma inserter_process_list:
  assumes "check_results (tk_events t) checks" "mset rs = mset checks"
  obtains cs where "mset cs = mset checks" "tk_ordered t \<Longrightarrow> cs = checks"
    "inserter t (map Checked rs) f = map_option (\<lambda>(f', req). (f', Done req)) (process_list (tk_peer t) cs f [])"
proof (cases "tk_ordered t")
  case True
  obtain js where js: "rs = map ((!) checks) js" "distinct js" "set js = {..<length checks}"
    by (rule arrival_order [OF assms])
  have "inserter t (map Checked rs) f = map_option (\<lambda>(f', req). (f', Done req)) (process_list (tk_peer t) checks f [])"
    using inserter_ordered [OF True assms(1), of 0 "{}" js f "[]"] js True check_results_length [OF assms(1)]
    by (simp add: inserter_def table_def comp_def map_replicate_const)
  then show thesis using that [of checks] by simp
next
  case False
  have "length rs = length (tk_events t)" using assms check_results_length mset_eq_length by metis
  then have "inserter t (map Checked rs) f = map_option (\<lambda>(f', req). (f', Done req)) (process_list (tk_peer t) rs f [])"
    using False inserter_unordered [of t 0 rs f "[]" "[]"] by (simp add: inserter_def)
  then show thesis using that [of rs] assms(2) False by simp
qed

section \<open>Accepting and clearing\<close>

lemma Events_Metric_sizes:
  "Num (Events_Metric ee) = of_nat (length ee)" "Size (Events_Metric ee) = of_nat (\<Sum>e \<leftarrow> ee. Event_Size e)"
proof -
  have "fold (\<lambda>e s. s + of_nat (Event_Size e)) ee s = s + (of_nat (\<Sum>e \<leftarrow> ee. Event_Size e) :: u64)" for s
    by (induction ee arbitrary: s) (simp_all add: add_ac)
  then show "Size (Events_Metric ee) = of_nat (\<Sum>e \<leftarrow> ee. Event_Size e)" by (simp add: Events_Metric_def)
qed (simp add: Events_Metric_def)

lemma Acquire_holds:
  "Acquire w attempts s = Some (True, s') \<Longrightarrow> \<forall>a \<in> set attempts. \<forall>s. ds_processing (fst a s) = ds_processing s \<Longrightarrow> holds s num sz \<Longrightarrow>
    num + unat (Num w) < 2 ^ 32 \<Longrightarrow> sz + unat (Size w) < 2 ^ 64 \<Longrightarrow> holds s' (num + unat (Num w)) (sz + unat (Size w))"
proof (induction w attempts s rule: Acquire.induct)
  case (2 w others expired attempts s)
  obtain ok s2 where ta: "tryAcquire (others s) w = (ok, s2)" by (cases "tryAcquire (others s) w")
  have h: "holds (others s) num sz" using 2(3,4) by (simp add: holds_def)
  show ?case
  proof (cases ok)
    case True
    then show ?thesis using 2(2) ta tryAcquire_holds(1) [OF _ h 2(5,6)] by simp
  next
    case False
    then show ?thesis using 2(1) [OF refl ta [symmetric]] 2(2-6) ta h by (auto simp: Let_def split: if_splits)
  qed
qed simp

lemma Enqueue_balanced:
  assumes "processor_ok f" "balanced num sz (pr_buffer f)" "Enqueue attempts prefer f t = Some (None, f1)"
    "\<forall>a \<in> set attempts. \<forall>s. ds_processing (fst a s) = ds_processing s"
    "num + length (tk_events t) + card (buffered (pr_buffer f)) < 2 ^ 32"
    "sz + (\<Sum>e \<leftarrow> tk_events t. Event_Size e) + total_size (pr_buffer f) (buffered (pr_buffer f)) < 2 ^ 64"
  shows "processor_ok f1" "balanced (num + length (tk_events t)) (sz + (\<Sum>e \<leftarrow> tk_events t. Event_Size e)) (pr_buffer f1)"
    "pr_cfg f1 = pr_cfg f"
proof -
  let ?b = "pr_buffer f" and ?w = "Events_Metric (tk_events t)" and ?sizes = "\<Sum>e \<leftarrow> tk_events t. Event_Size e"
  obtain sem where sem: "Acquire ?w attempts (snd (eb_app ?b)) = Some (True, sem)"
    "pr_buffer f1 = ?b\<lparr>eb_app := (fst (eb_app ?b), sem)\<rparr>" "pr_cfg f1 = pr_cfg f" "pr_callback f1 = pr_callback f"
    using assms(3) by (auto simp: Enqueue_def Let_def split: option.splits if_splits bool.splits prod.splits)
  have frame: "buffered (pr_buffer f1) = buffered ?b" "total_size (pr_buffer f1) = total_size ?b" "the_event (pr_buffer f1) = the_event ?b"
    "released (pr_buffer f1) = released ?b" "list_ok (pr_buffer f1) = list_ok ?b" "caps (pr_buffer f1) = caps ?b"
    by (simp_all add: sem(2) buffered_def total_size_def the_event_def released_def list_ok_def caps_def fun_eq_iff)
  show "processor_ok f1" using assms(1) frame sem by (simp add: processor_ok_def buffer_ok_def roomy_def)
  have w: "unat (Num ?w) = length (tk_events t)" "unat (Size ?w) = ?sizes"
    using assms(5,6) by (simp_all add: Events_Metric_sizes unat_of_nat take_bit_nat_eq_self)
  have "holds sem (num + card (buffered ?b) + unat (Num ?w)) (sz + total_size ?b (buffered ?b) + unat (Size ?w))"
    using assms(2,5,6) w by (intro Acquire_holds [OF sem(1) assms(4)]) (simp_all add: balanced_def)
  then show "balanced (num + length (tk_events t)) (sz + ?sizes) (pr_buffer f1)"
    unfolding balanced_def frame by (simp add: sem(2) w add_ac)
  show "pr_cfg f1 = pr_cfg f" by (rule sem)
qed

lemma Clear_holds:
  assumes "processor_ok f" "balanced num sz (pr_buffer f)"
  shows "holds (snd (eb_app (pr_buffer (Processor_Clear f)))) num sz" "buffered (pr_buffer (Processor_Clear f)) = {}"
proof -
  let ?b = "pr_buffer f" and ?cb = "buffer_callback (pr_callback f)"
  let ?b' = "spillIncompletes ?cb \<lparr>Num = 0, Size = 0\<rparr> ?b"
  have ok: "list_ok ?b" and un: "unreleased ?b (buffered ?b) = buffered ?b"
    using assms(1) by (auto simp: processor_ok_def buffer_ok_def unreleased_def)
  note sp = spillIncompletes_frame [OF ok, of ?cb "\<lparr>Num = 0, Size = 0\<rparr>"]
  have "card (buffered ?b') \<le> card (buffered ?b)" using sp(4) by (intro card_mono) auto
  then have "card (buffered ?b') < 2 ^ 32" using assms(1) by (simp add: processor_ok_def roomy_def moderate_limit_def)
  then have none: "buffered ?b' = {}"
    using within_limit(1) [OF spillIncompletes_limit [OF ok] sp(1)] by simp
  have "accounts (buffered ?b) num sz ?b" using assms(2) by (simp add: accounts_def balanced_def un)
  then have "accounts (buffered ?b) num sz ?b'" using ok by (intro spill_accounts) auto
  moreover have "unreleased ?b' (buffered ?b) = {}" using sp(5) none by (auto simp: unreleased_def)
  ultimately show "holds (snd (eb_app (pr_buffer (Processor_Clear f)))) num sz"
    by (simp add: accounts_def total_size_def Processor_Clear_def Clear_def)
  show "buffered (pr_buffer (Processor_Clear f)) = {}" using none by (simp add: Processor_Clear_def Clear_def)
qed

section \<open>A sample processor\<close>

definition sample_events :: "(BaseEvent list, unit) EventCallback" where
  "sample_events = \<lparr>ec_Process = (\<lambda>s d. (s @ [d], None)), ec_Released = None,
    ec_Get = (\<lambda>s h. List.find (\<lambda>d. ev_id d = h) s), ec_Exists = (\<lambda>s h. h \<in> ev_id ` set s),
    ec_CheckParents = None, ec_IsImportant = None, ec_HighestLamport = (\<lambda>_. 1)\<rparr>"

definition sample_processor :: "(BaseEvent list, unit) Processor" where
  "sample_processor = \<lparr>pr_cfg = \<lparr>cfg_EventsBufferLimit = \<lparr>Num = 10, Size = 1000\<rparr>, cfg_EventsSemaphoreTimeout = 10, cfg_MaxTasks = 4\<rparr>,
    pr_quit = False, pr_callback = sample_events,
    pr_checker = \<lparr>wk_capacity = 4, wk_tasks = []\<rparr>, pr_orderedInserter = \<lparr>wk_capacity = 4, wk_tasks = []\<rparr>,
    pr_buffer = \<lparr>eb_app = ([], DataSemaphore_New \<lparr>Num = 10, Size = 1000\<rparr> True),
      eb_incompletes = \<lparr>lru_maxSize = 2147483647, lru_weight = 0, lru_maxWeight = 2147483647, lru_evictList = []\<rparr>,
      eb_objects = (\<lambda>i. \<lparr>be_event = list_event i [], be_peer = '''', be_err = None, be_released = False\<rparr>),
      eb_limit = \<lparr>Num = 10, Size = 1000\<rparr>\<rparr>\<rparr>"

definition sample_task :: Task where
  "sample_task = \<lparr>tk_peer = ''peer'', tk_events = [list_event 1 [], list_event 2 [1]], tk_ordered = True\<rparr>"

definition sample_checks :: "unit checkRes list" where
  "sample_checks = [\<lparr>cr_e = list_event 1 [], cr_err = None, cr_pos = 0\<rparr>, \<lparr>cr_e = list_event 2 [1], cr_err = None, cr_pos = 1\<rparr>]"

lemma sample_processor_ok: "processor_ok sample_processor" "balanced 0 0 (pr_buffer sample_processor)"
proof -
  have "events_ok sample_events" by (auto simp: events_ok_def sample_events_def find_None_iff)
  then show "processor_ok sample_processor"
    by (simp add: processor_ok_def sample_processor_def moderate_limit_def buffer_ok_def list_ok_def lru_linked_def buffered_def roomy_def caps_def)
  show "balanced 0 0 (pr_buffer sample_processor)"
    by (simp add: balanced_def sample_processor_def holds_def DataSemaphore_New_def buffered_def total_size_def)
qed

lemma sample_checks_ok: "check_results (tk_events sample_task) sample_checks" "mset (rev sample_checks) = mset sample_checks"
  by (auto simp: check_results_def sample_task_def sample_checks_def less_Suc_eq nth_Cons')


section \<open>Properties\<close>

text \<open>
  C22: an ordered task is handled in its order. Whatever the order in which the checks of the events end, the inserter
  does what handling the checked events one by one in the order of the task does, with the same requests for parents.
\<close>

theorem ordered_task_in_order:
  assumes "tk_ordered t" and "check_results (tk_events t) checks" and "mset rs = mset checks"
  shows "inserter t (map Checked rs) f = map_option (\<lambda>(f', req). (f', Done req)) (process_list (tk_peer t) checks f [])"
  using inserter_process_list [OF assms(2,3)] assms(1) by metis

theorem ordered_task_in_order_witness:
  "inserter sample_task (map Checked (rev sample_checks)) sample_processor =
    map_option (\<lambda>(f', req). (f', Done req)) (process_list ''peer'' sample_checks sample_processor [])"
proof -
  have t: "tk_ordered sample_task" "tk_peer sample_task = ''peer''" by (simp_all add: sample_task_def)
  from ordered_task_in_order [OF t(1) sample_checks_ok, of sample_processor] show ?thesis unfolding t(2) .
qed

text \<open>
  C21: the semaphore of the processor neither leaks nor releases twice. When the semaphore accounts for the buffered events
  and for \<open>num\<close> others, a task is accepted, and the results of its checks arrive in any order, the inserter returns,
  the semaphore again accounts for exactly the buffered events and the same others, and clearing the buffer leaves only
  those others; \<open>fits\<close> and \<open>moderate_limit\<close> bound the sizes of events and buffer to the capacity of the list.
\<close>

theorem task_balances:
  assumes "processor_ok f" and "balanced num sz (pr_buffer f)"
    and "Enqueue attempts prefer_quit f t = Some (None, f1)"
    and "\<forall>a \<in> set attempts. \<forall>s. ds_processing (fst a s) = ds_processing s"
    and "num + length (tk_events t) + card (buffered (pr_buffer f)) < 2 ^ 32"
    and "sz + (\<Sum>e \<leftarrow> tk_events t. Event_Size e) + total_size (pr_buffer f) (buffered (pr_buffer f)) < 2 ^ 64"
    and "\<forall>e \<in> set (tk_events t). fits (event_limit f) e"
    and "check_results (tk_events t) checks" and "mset rs = mset checks"
  shows "\<exists>f2 req. inserter t (map Checked rs) f1 = Some (f2, Done req) \<and> processor_ok f2 \<and> balanced num sz (pr_buffer f2) \<and>
    holds (snd (eb_app (pr_buffer (Processor_Clear f2)))) num sz"
proof -
  obtain cs where cs: "mset cs = mset checks"
    "inserter t (map Checked rs) f1 = map_option (\<lambda>(f', req). (f', Done req)) (process_list (tk_peer t) cs f1 [])"
    using inserter_process_list [OF assms(8,9)] by metis
  have ev: "mset (map cr_e cs) = mset (tk_events t)" using cs(1) assms(8) unfolding check_results_def by (metis mset_map)
  have len: "length cs = length (tk_events t)" using mset_eq_length [OF ev] by simp
  have "sizes cs = sum_list (map Event_Size (map cr_e cs))" by (simp add: comp_def)
  also have "\<dots> = (\<Sum>e \<leftarrow> tk_events t. Event_Size e)" using ev by (metis mset_map sum_mset_sum_list)
  finally have sz: "sizes cs = (\<Sum>e \<leftarrow> tk_events t. Event_Size e)" .
  note f1 = Enqueue_balanced [OF assms(1-6), folded len sz]
  have "\<forall>c \<in> set cs. fits (event_limit f1) (cr_e c)" using assms(7) f1(3) mset_eq_setD [OF ev] by auto
  then obtain f2 req where f2: "process_list (tk_peer t) cs f1 [] = Some (f2, req)" "processor_ok f2" "balanced num sz (pr_buffer f2)"
    using process_list_balanced [OF f1(1) _ f1(2)] by blast
  then show ?thesis using cs(2) Clear_holds(1) [OF f2(2,3)] by auto
qed

theorem task_balances_witness:
  "\<exists>f1 f2 req. Enqueue [(id, False)] (False, False) sample_processor sample_task = Some (None, f1) \<and>
    inserter sample_task (map Checked (rev sample_checks)) f1 = Some (f2, Done req) \<and>
    holds (snd (eb_app (pr_buffer (Processor_Clear f2)))) 0 0"
proof -
  obtain f1 where f1: "Enqueue [(id, False)] (False, False) sample_processor sample_task = Some (None, f1)"
    by (simp add: Enqueue_def sample_processor_def sample_task_def Let_def tryAcquire_def DataSemaphore_New_def Events_Metric_def
        workers_Enqueue_def list_event_def Event_Size_def)
  have "buffered (pr_buffer sample_processor) = {}" by (simp add: sample_processor_def buffered_def)
  then have "\<exists>f2 req. inserter sample_task (map Checked (rev sample_checks)) f1 = Some (f2, Done req) \<and> processor_ok f2 \<and>
      balanced 0 0 (pr_buffer f2) \<and> holds (snd (eb_app (pr_buffer (Processor_Clear f2)))) 0 0"
    by (intro task_balances [OF sample_processor_ok f1 _ _ _ _ sample_checks_ok])
      (simp_all add: sample_task_def total_size_def fits_def sample_processor_def list_event_def Event_Size_def)
  with f1 show ?thesis by blast
qed


end
