(* ===== verification/Stream_Seeder.thy ===== *)
theory Stream_Seeder
  imports Dag_Processor "HOL-Library.AList"
begin

text \<open>
  The seeder of the streaming protocol (\<^verbatim>\<open>gossip/basestream\<close>, \<^verbatim>\<open>basestreamseeder\<close>): it answers a peer's requests of a session
  with chunks of the items between two locators. Locators, payloads and the iteration over items belong to the
  application and are parameters; a payload is the list of its items. Channels and the queues of the senders are lists with
  a capacity. What other goroutines do while the reader waits is a list of their steps; a value \<^const>\<open>None\<close> means that the
  reader still waits, or has panicked.
\<close>

section \<open>Messages and state\<close>

record 'l stream_Session =
  ss_ID :: u32
  ss_Start :: 'l
  ss_Stop :: 'l

record 'l Request =
  rq_Session :: "'l stream_Session"
  rq_Type :: "8 word"
  rq_MaxPayloadNum :: u32
  rq_MaxPayloadSize :: u64
  rq_MaxChunks :: u32

record 'i Response =
  rs_SessionID :: u32
  rs_Done :: bool
  rs_Payload :: "'i list"

record seeder_Config =
  sc_SenderThreads :: nat
  sc_MaxSenderTasks :: nat
  sc_MaxPendingResponsesSize :: int
  sc_MaxResponsePayloadNum :: u32
  sc_MaxResponsePayloadSize :: u64
  sc_MaxResponseChunks :: u32
  sc_MaxGlobalSessions :: int

definition maxGlobalSessions :: "seeder_Config \<Rightarrow> int" where
  "maxGlobalSessions c = (if sc_MaxGlobalSessions c \<le> 0 then 1000 else sc_MaxGlobalSessions c)"

text \<open>The callback \<^verbatim>\<open>ForEachItem\<close> takes two closures that share the variables \<open>lastKey\<close> and \<open>allConsumed\<close>.\<close>

record ('l, 'i) seeder_App =
  lo_Compare :: "'l \<Rightarrow> 'l \<Rightarrow> int"
  lo_Inc :: "'l \<Rightarrow> 'l"
  pl_TotalSize :: "'i list \<Rightarrow> u64"
  pl_TotalMemSize :: "'i list \<Rightarrow> int"
  ForEachItem :: "'l \<Rightarrow> 8 word \<Rightarrow> ('l \<Rightarrow> 'l \<times> bool \<Rightarrow> bool \<times> 'l \<times> bool) \<Rightarrow> ('i list \<Rightarrow> 'l \<times> bool \<Rightarrow> bool \<times> 'l \<times> bool) \<Rightarrow>
    'l \<times> bool \<Rightarrow> 'i list \<times> 'l \<times> bool"

text \<open>A peer is its identifier and the connection that its functions send to.\<close>

record Peer =
  pe_ID :: string
  pe_conn :: nat

datatype seeder_error = ErrSelectorMismatch | ErrTooManyChunks | TooManyGlobalSessions | seeder_errTerminated

record 'l sessionState =
  st_origSelector :: 'l
  st_next :: 'l
  st_stop :: 'l
  st_done :: bool
  st_senderI :: nat
  st_conn :: nat

record ('l, 'i) BaseSeeder =
  sd_cfg :: seeder_Config
  sd_peerSessions :: "string \<Rightarrow> u32 list"
  sd_sessions :: "((u32 \<times> string) \<times> 'l sessionState) list"
  sd_unregistered :: "string Workers"
  sd_requests :: "('l Request \<times> Peer) Workers"
  sd_quit :: bool
  sd_senders :: "(nat \<times> 'i Response \<times> int) Workers list"
  sd_pendingResponsesSize :: int
  sd_sessionsCounter :: u32
  sd_sent :: "(nat \<times> 'i Response) list"
  sd_misbehaviours :: "(nat \<times> seeder_error) list"

definition Seeder_New :: "seeder_Config \<Rightarrow> ('l, 'i) BaseSeeder" where
  "Seeder_New cfg =
    \<lparr>sd_cfg = cfg, sd_peerSessions = (\<lambda>_. []), sd_sessions = [],
     sd_unregistered = \<lparr>wk_capacity = 128, wk_tasks = []\<rparr>, sd_requests = \<lparr>wk_capacity = 16, wk_tasks = []\<rparr>, sd_quit = False,
     sd_senders = replicate (sc_SenderThreads cfg) \<lparr>wk_capacity = sc_MaxSenderTasks cfg, wk_tasks = []\<rparr>,
     sd_pendingResponsesSize = 0, sd_sessionsCounter = 0, sd_sent = [], sd_misbehaviours = []\<rparr>"

section \<open>Interface\<close>

definition sanitize :: "seeder_Config \<Rightarrow> 'l Request \<Rightarrow> 'l Request" where
  "sanitize cfg r = r\<lparr>
    rq_MaxPayloadNum := (if rq_MaxPayloadNum r > sc_MaxResponsePayloadNum cfg then sc_MaxResponsePayloadNum cfg else rq_MaxPayloadNum r),
    rq_MaxPayloadSize := (if rq_MaxPayloadSize r > sc_MaxResponsePayloadSize cfg then sc_MaxResponsePayloadSize cfg else rq_MaxPayloadSize r)\<rparr>"

definition NotifyRequestReceived ::
  "bool \<Rightarrow> Peer \<Rightarrow> 'l Request \<Rightarrow> ('l, 'i) BaseSeeder \<Rightarrow> (seeder_error option \<times> seeder_error option \<times> ('l, 'i) BaseSeeder) option" where
  "NotifyRequestReceived prefer_quit peer r s =
    (if rq_MaxChunks r > sc_MaxResponseChunks (sd_cfg s) then Some (None, Some ErrTooManyChunks, s)
     else case workers_Enqueue (sd_quit s) prefer_quit (sanitize (sd_cfg s) r, peer) (sd_requests s) of
         None \<Rightarrow> None
       | Some (False, _) \<Rightarrow> Some (Some seeder_errTerminated, None, s)
       | Some (True, ch) \<Rightarrow> Some (None, None, s\<lparr>sd_requests := ch\<rparr>))"

definition Seeder_UnregisterPeer :: "bool \<Rightarrow> string \<Rightarrow> ('l, 'i) BaseSeeder \<Rightarrow> (seeder_error option \<times> ('l, 'i) BaseSeeder) option" where
  "Seeder_UnregisterPeer prefer_quit peer s =
    (case workers_Enqueue (sd_quit s) prefer_quit peer (sd_unregistered s) of
       None \<Rightarrow> None
     | Some (False, _) \<Rightarrow> Some (Some seeder_errTerminated, s)
     | Some (True, ch) \<Rightarrow> Some (None, s\<lparr>sd_unregistered := ch\<rparr>))"

definition Seeder_Stop :: "('l, 'i) BaseSeeder \<Rightarrow> ('l, 'i) BaseSeeder option" where
  "Seeder_Stop s = (if sd_quit s then None else Some (s\<lparr>sd_quit := True, sd_senders := map workers_Drain (sd_senders s)\<rparr>))"

section \<open>The senders\<close>

text \<open>A sender takes a task of its queue, sends the response and lowers the pending size.\<close>

definition sender_turn :: "nat \<Rightarrow> ('l, 'i) BaseSeeder \<Rightarrow> ('l, 'i) BaseSeeder" where
  "sender_turn i s =
    (if i < length (sd_senders s) then
       case worker_turn (sd_quit s) False (sd_senders s ! i) of
         Job (conn, resp, memSize) w \<Rightarrow>
           s\<lparr>sd_senders := (sd_senders s)[i := w], sd_sent := sd_sent s @ [(conn, resp)],
             sd_pendingResponsesSize := sd_pendingResponsesSize s - memSize\<rparr>
       | _ \<Rightarrow> s
     else s)"

section \<open>The reader\<close>

definition handleUnregister :: "string \<Rightarrow> ('l, 'i) BaseSeeder \<Rightarrow> ('l, 'i) BaseSeeder" where
  "handleUnregister peerID s =
    s\<lparr>sd_sessions := fold (\<lambda>sid. AList.delete (sid, peerID)) (sd_peerSessions s peerID) (sd_sessions s),
      sd_peerSessions := (sd_peerSessions s)(peerID := [])\<rparr>"

text \<open>What happens while the reader waits: its quit case is taken, a peer is unregistered, or a sender takes a turn.\<close>

datatype other_step = SeesQuit | SeesUnregistered | Sends nat

definition take_unregistered :: "('l, 'i) BaseSeeder \<Rightarrow> ('l, 'i) BaseSeeder option" where
  "take_unregistered s =
    (case wk_tasks (sd_unregistered s) of
       [] \<Rightarrow> None
     | peerID # rest \<Rightarrow> Some (handleUnregister peerID (s\<lparr>sd_unregistered := (sd_unregistered s)\<lparr>wk_tasks := rest\<rparr>\<rparr>)))"

fun waitPendingResponsesBelowLimit :: "other_step list \<Rightarrow> ('l, 'i) BaseSeeder \<Rightarrow> (('l, 'i) BaseSeeder \<times> other_step list) option" where
  "waitPendingResponsesBelowLimit [] s =
    (if sd_pendingResponsesSize s \<ge> sc_MaxPendingResponsesSize (sd_cfg s) then None else Some (s, []))"
| "waitPendingResponsesBelowLimit (x # xs) s =
    (if sd_pendingResponsesSize s \<ge> sc_MaxPendingResponsesSize (sd_cfg s) then
       case x of
         SeesQuit \<Rightarrow> if sd_quit s then Some (s, xs) else None
       | SeesUnregistered \<Rightarrow> (case take_unregistered s of None \<Rightarrow> None | Some s1 \<Rightarrow> waitPendingResponsesBelowLimit xs s1)
       | Sends i \<Rightarrow> waitPendingResponsesBelowLimit xs (sender_turn i s)
     else Some (s, x # xs))"

text \<open>
  Queueing a response; the queue may be full, and then only senders take turns. After a quit a response is dropped only if
  the queue is full.
\<close>

fun enqueue_response ::
  "nat \<Rightarrow> nat \<times> 'i Response \<times> int \<Rightarrow> other_step list \<Rightarrow> ('l, 'i) BaseSeeder \<Rightarrow> (('l, 'i) BaseSeeder \<times> other_step list) option" where
  "enqueue_response i task [] s =
    (if i < length (sd_senders s) then
       case workers_Enqueue (sd_quit s) False task (sd_senders s ! i) of
         None \<Rightarrow> None
       | Some (_, w) \<Rightarrow> Some (s\<lparr>sd_senders := (sd_senders s)[i := w]\<rparr>, [])
     else None)"
| "enqueue_response i task (x # xs) s =
    (if i < length (sd_senders s) then
       case workers_Enqueue (sd_quit s) False task (sd_senders s ! i) of
         None \<Rightarrow> (case x of Sends j \<Rightarrow> enqueue_response i task xs (sender_turn j s) | _ \<Rightarrow> None)
       | Some (_, w) \<Rightarrow> Some (s\<lparr>sd_senders := (sd_senders s)[i := w]\<rparr>, x # xs)
     else None)"

definition on_key :: "('l, 'i) seeder_App \<Rightarrow> 'l \<Rightarrow> 'l \<Rightarrow> 'l \<times> bool \<Rightarrow> bool \<times> 'l \<times> bool" where
  "on_key app stop key v = (if lo_Compare app key stop \<ge> 0 then (False, v) else (True, key, snd v))"

definition on_appended :: "('l, 'i) seeder_App \<Rightarrow> 'l Request \<Rightarrow> 'i list \<Rightarrow> 'l \<times> bool \<Rightarrow> bool \<times> 'l \<times> bool" where
  "on_appended app r items v =
    (let numReached = (of_nat (length items) :: u32) \<ge> rq_MaxPayloadNum r;
         sizeReached = pl_TotalSize app items \<ge> rq_MaxPayloadSize r in
     if numReached \<or> sizeReached then (False, fst v, False) else (True, v))"

definition next_chunk :: "('l, 'i) seeder_App \<Rightarrow> 'l Request \<Rightarrow> 'l sessionState \<Rightarrow> 'i Response \<times> 'l sessionState" where
  "next_chunk app r session =
    (case ForEachItem app (st_next session) (rq_Type r) (on_key app (st_stop session)) (on_appended app r) (st_next session, True) of
       (payload, lastKey, allConsumed) \<Rightarrow>
         (\<lparr>rs_SessionID = ss_ID (rq_Session r), rs_Done = allConsumed, rs_Payload = payload\<rparr>,
          session\<lparr>st_next := lo_Inc app lastKey, st_done := allConsumed\<rparr>))"

fun send_chunks ::
  "('l, 'i) seeder_App \<Rightarrow> 'l Request \<Rightarrow> string \<Rightarrow> nat \<Rightarrow> 'l sessionState \<Rightarrow> other_step list \<Rightarrow> ('l, 'i) BaseSeeder \<Rightarrow>
    (('l, 'i) BaseSeeder \<times> other_step list) option" where
  "send_chunks app r peerID 0 session xs s = Some (s, xs)"
| "send_chunks app r peerID (Suc n) session xs s =
    (if st_done session then Some (s, xs)
     else case next_chunk app r session of (resp, session1) \<Rightarrow>
       let memSize = pl_TotalMemSize app (rs_Payload resp);
           s1 = s\<lparr>sd_sessions := AList.update (ss_ID (rq_Session r), peerID) session1 (sd_sessions s)\<rparr> in
       case waitPendingResponsesBelowLimit xs s1 of
         None \<Rightarrow> None
       | Some (s2, xs2) \<Rightarrow>
           let s3 = s2\<lparr>sd_pendingResponsesSize := sd_pendingResponsesSize s2 + memSize\<rparr> in
           (case enqueue_response (st_senderI session1) (st_conn session1, resp, memSize) xs2 s3 of
              None \<Rightarrow> None
            | Some (s4, xs4) \<Rightarrow> send_chunks app r peerID n session1 xs4 s4))"

definition prune_oldest :: "string \<Rightarrow> ('l, 'i) BaseSeeder \<Rightarrow> u32 list \<times> ('l, 'i) BaseSeeder" where
  "prune_oldest peerID s =
    (let sessions = sd_peerSessions s peerID in
     if length sessions > 2 then (tl sessions, s\<lparr>sd_sessions := AList.delete (hd sessions, peerID) (sd_sessions s)\<rparr>)
     else (sessions, s))"

definition new_session :: "'l Request \<Rightarrow> Peer \<Rightarrow> u32 list \<Rightarrow> ('l, 'i) BaseSeeder \<Rightarrow> ('l sessionState \<times> ('l, 'i) BaseSeeder) option" where
  "new_session r peer sessions s =
    (let threads = of_nat (sc_SenderThreads (sd_cfg s)) :: u32 in
     if threads = 0 then None
     else Some (\<lparr>st_origSelector = ss_Start (rq_Session r), st_next = ss_Start (rq_Session r), st_stop = ss_Stop (rq_Session r),
         st_done = False, st_senderI = unat (sd_sessionsCounter s mod threads), st_conn = pe_conn peer\<rparr>,
       s\<lparr>sd_peerSessions := (sd_peerSessions s)(pe_ID peer := sessions @ [ss_ID (rq_Session r)]),
         sd_sessionsCounter := sd_sessionsCounter s + 1\<rparr>))"

definition misbehaviour :: "Peer \<Rightarrow> seeder_error \<Rightarrow> ('l, 'i) BaseSeeder \<Rightarrow> ('l, 'i) BaseSeeder" where
  "misbehaviour peer err s = s\<lparr>sd_misbehaviours := sd_misbehaviours s @ [(pe_conn peer, err)]\<rparr>"

definition serve :: "('l, 'i) seeder_App \<Rightarrow> 'l Request \<Rightarrow> Peer \<Rightarrow> 'l sessionState \<Rightarrow> other_step list \<Rightarrow> ('l, 'i) BaseSeeder \<Rightarrow>
    (('l, 'i) BaseSeeder \<times> other_step list) option" where
  "serve app r peer session xs s =
    (if lo_Compare app (st_origSelector session) (ss_Start (rq_Session r)) \<noteq> 0 then Some (misbehaviour peer ErrSelectorMismatch s, xs)
     else send_chunks app r (pe_ID peer) (unat (rq_MaxChunks r)) session xs s)"

definition handle_request :: "('l, 'i) seeder_App \<Rightarrow> 'l Request \<times> Peer \<Rightarrow> other_step list \<Rightarrow> ('l, 'i) BaseSeeder \<Rightarrow>
    (('l, 'i) BaseSeeder \<times> other_step list) option" where
  "handle_request app op xs s =
    (case (op, waitPendingResponsesBelowLimit xs s) of
       (_, None) \<Rightarrow> None
     | ((r, peer), Some (s1, xs1)) \<Rightarrow>
         (case prune_oldest (pe_ID peer) s1 of (sessions, s2) \<Rightarrow>
           case map_of (sd_sessions s2) (ss_ID (rq_Session r), pe_ID peer) of
             Some session \<Rightarrow> serve app r peer session xs1 s2
           | None \<Rightarrow>
               if int (length (sd_sessions s2)) \<ge> maxGlobalSessions (sd_cfg s2)
               then Some (misbehaviour peer TooManyGlobalSessions s2, xs1)
               else (case new_session r peer sessions s2 of
                   None \<Rightarrow> None
                 | Some (session, s3) \<Rightarrow> serve app r peer session xs1 s3)))"

text \<open>
  One round of the loop: a sender takes a turn, or one case of the reader's \<^verbatim>\<open>select\<close>, with what others do meanwhile. Steps
  of others that are left over happen afterwards and are of no interest here.
\<close>

datatype round = Sender nat | Unregister | Serve "other_step list"

definition reader_round :: "('l, 'i) seeder_App \<Rightarrow> round \<Rightarrow> ('l, 'i) BaseSeeder \<Rightarrow> ('l, 'i) BaseSeeder option" where
  "reader_round app rd s =
    (case rd of
       Sender i \<Rightarrow> Some (sender_turn i s)
     | Unregister \<Rightarrow> take_unregistered s
     | Serve xs \<Rightarrow>
         (case wk_tasks (sd_requests s) of
            [] \<Rightarrow> None
          | op # rest \<Rightarrow> map_option fst (handle_request app op xs (s\<lparr>sd_requests := (sd_requests s)\<lparr>wk_tasks := rest\<rparr>\<rparr>))))"

end
