(* ===== verification/Stream_Seeder_Correct.thy ===== *)
theory Stream_Seeder_Correct
  imports Stream_Seeder
begin

text \<open>
  What a peer receives from the seeder in a session: the items between the two locators of the session, in order, without
  a gap and without repetition, while other peers are served and leave.
\<close>

section \<open>The application\<close>

text \<open>
  What the seeder relies on: locators are totally ordered, \<^verbatim>\<open>Inc\<close> gives the next one, and \<^verbatim>\<open>ForEachItem\<close> visits the items
  from its start on in the order of their locators, asks the first function before it appends an item and the second
  one afterwards, and stops when one of them says so.
\<close>

definition locator_ok :: "('l, 'i) seeder_App \<Rightarrow> bool" where
  "locator_ok app \<longleftrightarrow>
    (\<forall>x. lo_Compare app x x = 0) \<and>
    (\<forall>x y. 0 \<le> lo_Compare app x y \<longleftrightarrow> lo_Compare app y x \<le> 0) \<and>
    (\<forall>x y z. lo_Compare app x y \<le> 0 \<longrightarrow> lo_Compare app y z \<le> 0 \<longrightarrow> lo_Compare app x z \<le> 0) \<and>
    (\<forall>x k. 0 \<le> lo_Compare app x (lo_Inc app k) \<longleftrightarrow> 0 < lo_Compare app x k)"

fun visit :: "('l \<Rightarrow> 'v \<Rightarrow> bool \<times> 'v) \<Rightarrow> ('i list \<Rightarrow> 'v \<Rightarrow> bool \<times> 'v) \<Rightarrow> ('l \<times> 'i) list \<Rightarrow> 'i list \<Rightarrow> 'v \<Rightarrow> 'i list \<times> 'v" where
  "visit onKey onAppended [] acc v = (acc, v)"
| "visit onKey onAppended ((key, item) # rest) acc v =
    (case onKey key v of
       (False, v1) \<Rightarrow> (acc, v1)
     | (True, v1) \<Rightarrow>
         (case onAppended (acc @ [item]) v1 of
            (False, v2) \<Rightarrow> (acc @ [item], v2)
          | (True, v2) \<Rightarrow> visit onKey onAppended rest (acc @ [item]) v2))"

definition lists_items :: "('l, 'i) seeder_App \<Rightarrow> ('l \<times> 'i) list \<Rightarrow> bool" where
  "lists_items app items \<longleftrightarrow> locator_ok app \<and> sorted_wrt (\<lambda>a b. lo_Compare app (fst a) (fst b) < 0) items \<and>
    (\<forall>start type onKey onAppended v. ForEachItem app start type onKey onAppended v =
      visit onKey onAppended (filter (\<lambda>a. 0 \<le> lo_Compare app (fst a) start) items) [] v)"

definition item_range :: "('l, 'i) seeder_App \<Rightarrow> ('l \<times> 'i) list \<Rightarrow> 'l \<Rightarrow> 'l \<Rightarrow> ('l \<times> 'i) list" where
  "item_range app items start stop =
    filter (\<lambda>a. 0 \<le> lo_Compare app (fst a) start \<and> lo_Compare app (fst a) stop < 0) items"

lemma compare_flip: "locator_ok app \<Longrightarrow> lo_Compare app x y < 0 \<longleftrightarrow> 0 < lo_Compare app y x"
  unfolding locator_ok_def by (meson not_le)

lemma compare_le_trans: "locator_ok app \<Longrightarrow> lo_Compare app x y \<le> 0 \<Longrightarrow> lo_Compare app y z \<le> 0 \<Longrightarrow> lo_Compare app x z \<le> 0"
  unfolding locator_ok_def by blast

lemma compare_ge: "locator_ok app \<Longrightarrow> 0 \<le> lo_Compare app x y \<longleftrightarrow> lo_Compare app y x \<le> 0"
  unfolding locator_ok_def by blast

lemma compare_less_trans:
  assumes "locator_ok app" "lo_Compare app x y < 0" "lo_Compare app y z \<le> 0"
  shows "lo_Compare app x z < 0"
proof (rule ccontr)
  assume "\<not> lo_Compare app x z < 0"
  then have "lo_Compare app z x \<le> 0" using compare_ge [OF assms(1), of x z] by simp
  then have "lo_Compare app y x \<le> 0" using compare_le_trans [OF assms(1,3)] by blast
  then show False using assms(2) compare_flip [OF assms(1), of x y] by simp
qed

lemma takeWhile_range:
  assumes "locator_ok app" "sorted_wrt (\<lambda>a b. lo_Compare app (fst a) (fst b) < 0) items"
  shows "takeWhile (\<lambda>a. lo_Compare app (fst a) stop < 0) (filter (\<lambda>a. 0 \<le> lo_Compare app (fst a) start) items) =
    item_range app items start stop"
proof -
  have "takeWhile (\<lambda>a. lo_Compare app (fst a) stop < 0) xs = filter (\<lambda>a. lo_Compare app (fst a) stop < 0) xs"
    if "sorted_wrt (\<lambda>a b. lo_Compare app (fst a) (fst b) < 0) xs" for xs :: "('a \<times> 'b) list"
    using that
  proof (induction xs)
    case (Cons x xs)
    show ?case
    proof (cases "lo_Compare app (fst x) stop < 0")
      case False
      have "\<not> lo_Compare app (fst y) stop < 0" if "y \<in> set xs" for y
        using compare_less_trans [OF assms(1), of "fst x" "fst y" stop] Cons(2) that False by fastforce
      then show ?thesis using False by (simp add: filter_empty_conv)
    qed (use Cons in simp)
  qed simp
  from this [OF sorted_wrt_filter [OF assms(2)]]
  show ?thesis unfolding item_range_def by (simp add: conj_commute)
qed

lemma visit_chunk:
  assumes "visit (on_key app stop) (on_appended app r) xs acc (lastKey, True) = (payload, lastKey', consumed)"
  obtains m where "m \<le> length (takeWhile (\<lambda>a. lo_Compare app (fst a) stop < 0) xs)"
    "payload = acc @ map snd (take m xs)" "lastKey' = (if m = 0 then lastKey else fst (xs ! (m - 1)))"
    "if consumed then m = length (takeWhile (\<lambda>a. lo_Compare app (fst a) stop < 0) xs) else 0 < m"
proof -
  let ?W = "\<lambda>xs. takeWhile (\<lambda>a. lo_Compare app (fst a) stop < 0) xs"
  have "\<exists>m. m \<le> length (?W xs) \<and> payload = acc @ map snd (take m xs) \<and>
      lastKey' = (if m = 0 then lastKey else fst (xs ! (m - 1))) \<and> (if consumed then m = length (?W xs) else 0 < m)"
    using assms
  proof (induction xs arbitrary: acc lastKey)
    case (Cons x xs)
    obtain k i where x: "x = (k, i)" by (cases x)
    show ?case
    proof (cases "lo_Compare app k stop < 0")
      case less: True
      then have key: "on_key app stop k v = (True, k, snd v)" for v by (simp add: on_key_def)
      show ?thesis
      proof (cases "(of_nat (length (acc @ [i])) :: u32) \<ge> rq_MaxPayloadNum r \<or> pl_TotalSize app (acc @ [i]) \<ge> rq_MaxPayloadSize r")
        case True
        then have "on_appended app r (acc @ [i]) (k, True) = (False, k, False)" by (auto simp: on_appended_def)
        then have "payload = acc @ [i]" "lastKey' = k" "\<not> consumed" using Cons(2) x key by auto
        then show ?thesis using x less by (intro exI [of _ 1]) simp
      next
        case False
        then have "on_appended app r (acc @ [i]) (k, True) = (True, k, True)" by (simp add: on_appended_def)
        then have "visit (on_key app stop) (on_appended app r) xs (acc @ [i]) (k, True) = (payload, lastKey', consumed)"
          using Cons(2) x key by simp
        then obtain m where "m \<le> length (?W xs)" "payload = (acc @ [i]) @ map snd (take m xs)"
          "lastKey' = (if m = 0 then k else fst (xs ! (m - 1)))" "if consumed then m = length (?W xs) else 0 < m"
          using Cons(1) by blast
        then show ?thesis using x less by (intro exI [of _ "Suc m"]) (auto simp: nth_Cons' split: if_splits)
      qed
    next
      case False
      then show ?thesis using Cons(2) x by (intro exI [of _ 0]) (auto simp: on_key_def)
    qed
  qed auto
  then show thesis using that by blast
qed

section \<open>A chunk\<close>

text \<open>The items that a session still has to send.\<close>

definition rest_items :: "('l, 'i) seeder_App \<Rightarrow> ('l \<times> 'i) list \<Rightarrow> 'l sessionState \<Rightarrow> 'i list" where
  "rest_items app items session =
    (if st_done session then [] else map snd (item_range app items (st_next session) (st_stop session)))"

lemma range_after:
  assumes "lists_items app items" "ys = item_range app items start stop" "0 < m" "m \<le> length ys"
  shows "item_range app items (lo_Inc app (fst (ys ! (m - 1)))) stop = drop m ys"
proof -
  have ok: "locator_ok app" and sorted: "sorted_wrt (\<lambda>a b. lo_Compare app (fst a) (fst b) < 0) ys"
    using assms(1,2) by (auto simp: lists_items_def item_range_def intro: sorted_wrt_filter)
  let ?last = "fst (ys ! (m - 1))"
  have inc: "0 \<le> lo_Compare app x (lo_Inc app k) \<longleftrightarrow> 0 < lo_Compare app x k" for x k
    using ok unfolding locator_ok_def by blast
  have "ys ! (m - 1) \<in> set ys" using assms(3,4) by simp
  then have "lo_Compare app start ?last \<le> 0" using assms(2) compare_ge [OF ok] by (auto simp: item_range_def)
  then have ge: "0 \<le> lo_Compare app k start" if "0 < lo_Compare app k ?last" for k
    using that compare_le_trans [OF ok, of start ?last k] compare_ge [OF ok] compare_flip [OF ok] by (meson less_imp_le)
  have "item_range app items (lo_Inc app ?last) stop = filter (\<lambda>a. 0 < lo_Compare app (fst a) ?last) ys"
    unfolding assms(2) item_range_def filter_filter by (rule filter_cong) (auto simp: inc assms(2) [unfolded item_range_def, symmetric] ge)
  also have "\<dots> = filter (\<lambda>a. 0 < lo_Compare app (fst a) ?last) (take m ys @ drop m ys)" by simp
  also have "\<dots> = drop m ys"
  proof -
    have "\<not> 0 < lo_Compare app (fst a) ?last" if mem: "a \<in> set (take m ys)" for a
    proof -
      obtain j where j: "j < m" "a = ys ! j" using mem assms(4) by (auto simp: in_set_conv_nth)
      show ?thesis
      proof (cases "j = m - 1")
        case True
        then show ?thesis using j ok by (simp add: locator_ok_def)
      next
        case False
        then have "lo_Compare app (fst a) ?last < 0" using j assms(4) sorted_wrt_nth_less [OF sorted, of j "m - 1"] by simp
        then show ?thesis by simp
      qed
    qed
    then have none: "filter (\<lambda>a. 0 < lo_Compare app (fst a) ?last) (take m ys) = []" by (simp add: filter_empty_conv)
    have "0 < lo_Compare app (fst a) ?last" if mem: "a \<in> set (drop m ys)" for a
    proof -
      obtain j where "j < length ys - m" "a = ys ! (m + j)" using mem by (auto simp: in_set_conv_nth)
      then have "m + j < length ys" "a = ys ! (m + j)" by simp_all
      then show ?thesis using sorted_wrt_nth_less [OF sorted, of "m - 1" "m + j"] assms(3) compare_flip [OF ok] by simp
    qed
    then have "filter (\<lambda>a. 0 < lo_Compare app (fst a) ?last) (drop m ys) = drop m ys" by (simp add: filter_id_conv)
    with none show ?thesis unfolding filter_append by simp
  qed
  finally show ?thesis .
qed

lemma next_chunk_items:
  assumes "lists_items app items" "\<not> st_done session" "next_chunk app r session = (resp, session')"
  shows "rest_items app items session = rs_Payload resp @ rest_items app items session'"
    "st_done session' = rs_Done resp" "\<not> rs_Done resp \<Longrightarrow> rs_Payload resp \<noteq> []" "rs_SessionID resp = ss_ID (rq_Session r)"
    "st_origSelector session' = st_origSelector session" "st_stop session' = st_stop session"
    "st_senderI session' = st_senderI session" "st_conn session' = st_conn session"
proof -
  let ?start = "st_next session" and ?stop = "st_stop session"
  let ?xs = "filter (\<lambda>a. 0 \<le> lo_Compare app (fst a) ?start) items" and ?ys = "item_range app items ?start ?stop"
  obtain payload lastKey consumed where v:
    "visit (on_key app ?stop) (on_appended app r) ?xs [] (?start, True) = (payload, lastKey, consumed)"
    by (metis prod_cases3)
  have each: "ForEachItem app ?start (rq_Type r) (on_key app ?stop) (on_appended app r) (?start, True) = (payload, lastKey, consumed)"
    using assms(1) v by (simp add: lists_items_def)
  have resp: "resp = \<lparr>rs_SessionID = ss_ID (rq_Session r), rs_Done = consumed, rs_Payload = payload\<rparr>"
    "session' = session\<lparr>st_next := lo_Inc app lastKey, st_done := consumed\<rparr>"
    using assms(3) by (simp_all add: next_chunk_def each)
  have W: "takeWhile (\<lambda>a. lo_Compare app (fst a) ?stop < 0) ?xs = ?ys"
    using assms(1) by (intro takeWhile_range) (simp_all add: lists_items_def)
  obtain m where m: "m \<le> length ?ys" "payload = map snd (take m ?xs)" "lastKey = (if m = 0 then ?start else fst (?xs ! (m - 1)))"
    "if consumed then m = length ?ys else 0 < m"
    by (rule visit_chunk [OF v, unfolded W]) simp
  have pre: "?ys = take (length ?ys) ?xs" using takeWhile_eq_take W by metis
  have len: "length ?ys \<le> length ?xs" using length_takeWhile_le W by metis
  have take: "take m ?xs = take m ?ys" using m(1) pre by (metis min.absorb1 take_take)
  have nth: "?xs ! (m - 1) = ?ys ! (m - 1)" if "0 < m" using that m(1) by (subst pre) simp
  show "rest_items app items session = rs_Payload resp @ rest_items app items session'"
  proof (cases consumed)
    case True
    then show ?thesis using m take assms(2) by (simp add: rest_items_def resp)
  next
    case False
    then have "0 < m" using m(4) by simp
    then have "item_range app items (lo_Inc app lastKey) ?stop = drop m ?ys"
      using range_after [OF assms(1) refl _ m(1)] m(3) nth by simp
    then show ?thesis using False m(2) take assms(2) by (simp add: rest_items_def resp flip: map_append)
  qed
  show "rs_Payload resp \<noteq> []" if "\<not> rs_Done resp" using that m len by (auto simp: resp)
qed (use assms(3) in \<open>auto simp: next_chunk_def split: prod.splits\<close>)

end
