(* ===== verification/Stream_Seeder_Properties.thy ===== *)
theory Stream_Seeder_Properties
  imports Stream_Seeder_Correct "HOL-Library.Sublist"
begin

text \<open>
  The stream of one peer through the whole seeder: its requests, those of other peers, peers that leave and the turns of
  the senders in any order.
\<close>

section \<open>What is issued to a connection\<close>

definition queued :: "nat \<Rightarrow> nat \<Rightarrow> ('l, 'i) BaseSeeder \<Rightarrow> (nat \<times> 'i Response \<times> int) list" where
  "queued i c s = (if i < length (sd_senders s) then filter (\<lambda>t. fst t = c) (wk_tasks (sd_senders s ! i)) else [])"

text \<open>The responses sent to a connection and those waiting in the queue of a sender.\<close>

definition issued :: "nat \<Rightarrow> nat \<Rightarrow> ('l, 'i) BaseSeeder \<Rightarrow> 'i Response list" where
  "issued i c s = map snd (filter (\<lambda>t. fst t = c) (sd_sent s)) @ map (fst \<circ> snd) (queued i c s)"

definition only :: "nat \<Rightarrow> nat \<Rightarrow> ('l, 'i) BaseSeeder \<Rightarrow> bool" where
  "only i c s \<longleftrightarrow> (\<forall>j < length (sd_senders s). j \<noteq> i \<longrightarrow> queued j c s = [])"

definition foreign :: "nat \<Rightarrow> string \<Rightarrow> ('l, 'i) BaseSeeder \<Rightarrow> bool" where
  "foreign c p s \<longleftrightarrow> (\<forall>k q session. map_of (sd_sessions s) (k, q) = Some session \<longrightarrow> q \<noteq> p \<longrightarrow> st_conn session \<noteq> c)"

text \<open>Steps that do not concern the peer \<open>p\<close> with the connection \<open>c\<close>.\<close>

definition kept :: "nat \<Rightarrow> string \<Rightarrow> ('l, 'i) BaseSeeder \<Rightarrow> ('l, 'i) BaseSeeder \<Rightarrow> bool" where
  "kept c p s s' \<longleftrightarrow>
    sd_peerSessions s' p = sd_peerSessions s p \<and> (\<forall>k. map_of (sd_sessions s') (k, p) = map_of (sd_sessions s) (k, p)) \<and>
    length (sd_senders s') = length (sd_senders s) \<and> (\<forall>i. only i c s \<longrightarrow> issued i c s' = issued i c s \<and> only i c s') \<and>
    (foreign c p s \<longrightarrow> foreign c p s') \<and> sd_cfg s' = sd_cfg s \<and> sd_quit s' = sd_quit s \<and> sd_requests s' = sd_requests s \<and>
    set (wk_tasks (sd_unregistered s')) \<subseteq> set (wk_tasks (sd_unregistered s))"

lemma kept_refl [simp]: "kept c p s s"
  by (simp add: kept_def)

lemma kept_trans: "kept c p s s' \<Longrightarrow> kept c p s' s'' \<Longrightarrow> kept c p s s''"
  unfolding kept_def by (auto 0 3)

lemma sender_turn_kept: "kept c p s (sender_turn i s)"
proof (cases "i < length (sd_senders s) \<and> wk_tasks (sd_senders s ! i) \<noteq> []")
  case True
  then obtain conn resp memSize rest where t: "wk_tasks (sd_senders s ! i) = (conn, resp, memSize) # rest"
    by (metis neq_Nil_conv prod_cases3)
  let ?s = "s\<lparr>sd_senders := (sd_senders s)[i := (sd_senders s ! i)\<lparr>wk_tasks := rest\<rparr>], sd_sent := sd_sent s @ [(conn, resp)],
      sd_pendingResponsesSize := sd_pendingResponsesSize s - memSize\<rparr>"
  have s: "sender_turn i s = ?s" using True t by (simp add: sender_turn_def worker_turn_def)
  have q: "queued j c ?s = (if j = i then filter (\<lambda>t. fst t = c) rest else queued j c s)" if "j < length (sd_senders s)" for j
    using that by (simp add: queued_def nth_list_update)
  have "issued j c ?s = issued j c s \<and> only j c ?s" if o: "only j c s" for j
  proof -
    have "conn \<noteq> c" if "j \<noteq> i" using o that True t by (auto simp: only_def queued_def)
    moreover have "queued j c ?s = (if j = i then filter (\<lambda>t. fst t = c) rest else queued j c s)"
      using True by (cases "j < length (sd_senders s)") (auto simp: q queued_def nth_list_update)
    ultimately show ?thesis using o True t q
      by (auto simp: issued_def only_def queued_def [of i c s])
  qed
  then show ?thesis unfolding s by (simp add: kept_def foreign_def)
next
  case False
  then have "sender_turn i s = s" by (auto simp: sender_turn_def worker_turn_def)
  then show ?thesis by simp
qed

lemma map_of_deletes:
  "map_of (fold (\<lambda>sid. AList.delete (sid, q)) sids al) (k, p) = (if p = q \<and> k \<in> set sids then None else map_of al (k, p))"
  by (induction sids arbitrary: al) (auto simp: delete_conv')

lemma take_unregistered_kept:
  assumes "take_unregistered s = Some s'" "p \<notin> set (wk_tasks (sd_unregistered s))"
  shows "kept c p s s'"
proof -
  obtain q rest where q: "wk_tasks (sd_unregistered s) = q # rest"
    "s' = handleUnregister q (s\<lparr>sd_unregistered := (sd_unregistered s)\<lparr>wk_tasks := rest\<rparr>\<rparr>)"
    using assms(1) by (auto simp: take_unregistered_def split: list.splits)
  have "q \<noteq> p" using assms(2) q(1) by auto
  moreover have "issued i c s' = issued i c s" "only i c s' = only i c s" for i
    by (simp_all add: q(2) handleUnregister_def issued_def only_def queued_def)
  moreover have "foreign c p s \<longrightarrow> foreign c p s'"
    by (auto simp: foreign_def q(2) handleUnregister_def map_of_deletes split: if_splits)
  ultimately show ?thesis using q by (auto simp: kept_def handleUnregister_def map_of_deletes)
qed

lemma wait_kept:
  "waitPendingResponsesBelowLimit xs s = Some (s', xs') \<Longrightarrow> p \<notin> set (wk_tasks (sd_unregistered s)) \<Longrightarrow> kept c p s s'"
proof (induction xs arbitrary: s)
  case (Cons x xs)
  show ?case
  proof (cases "sd_pendingResponsesSize s \<ge> sc_MaxPendingResponsesSize (sd_cfg s)")
    case full: True
    show ?thesis
    proof (cases x)
      case SeesQuit
      then show ?thesis using Cons(2) full by (auto split: if_splits)
    next
      case SeesUnregistered
      then obtain s1 where s1: "take_unregistered s = Some s1" "waitPendingResponsesBelowLimit xs s1 = Some (s', xs')"
        using Cons(2) full by (auto split: option.splits)
      have "kept c p s s1" using take_unregistered_kept s1(1) Cons(3) by blast
      moreover have "p \<notin> set (wk_tasks (sd_unregistered s1))" using calculation Cons(3) by (auto simp: kept_def)
      ultimately show ?thesis using Cons(1) [OF s1(2)] kept_trans by blast
    next
      case (Sends i)
      then have "waitPendingResponsesBelowLimit xs (sender_turn i s) = Some (s', xs')" using Cons(2) full by simp
      moreover have "p \<notin> set (wk_tasks (sd_unregistered (sender_turn i s)))"
        using sender_turn_kept [of c p s i] Cons(3) by (auto simp: kept_def)
      ultimately show ?thesis using Cons(1) kept_trans sender_turn_kept by blast
    qed
  qed (use Cons(2) in auto)
qed (auto split: if_splits)

section \<open>Queueing\<close>

definition add_task :: "nat \<Rightarrow> nat \<times> 'i Response \<times> int \<Rightarrow> ('l, 'i) BaseSeeder \<Rightarrow> ('l, 'i) BaseSeeder" where
  "add_task i task s = s\<lparr>sd_senders := (sd_senders s)[i := (sd_senders s ! i)\<lparr>wk_tasks := wk_tasks (sd_senders s ! i) @ [task]\<rparr>]\<rparr>"

lemma enqueue_response_add:
  "enqueue_response i task xs s = Some (s', xs') \<Longrightarrow> \<not> sd_quit s \<Longrightarrow>
    \<exists>s1. kept c p s s1 \<and> i < length (sd_senders s1) \<and> s' = add_task i task s1"
proof (induction xs arbitrary: s)
  case (Cons x xs)
  show ?case
  proof (cases "workers_Enqueue (sd_quit s) False task (sd_senders s ! i)")
    case None
    then obtain j where j: "enqueue_response i task xs (sender_turn j s) = Some (s', xs')"
      using Cons(2) by (auto split: if_splits other_step.splits)
    have "\<not> sd_quit (sender_turn j s)" using sender_turn_kept [of c p s j] Cons(3) by (simp add: kept_def)
    then show ?thesis using Cons(1) [OF j] kept_trans sender_turn_kept by blast
  next
    case (Some a)
    then show ?thesis using Cons(2,3)
      by (intro exI [of _ s]) (auto simp: workers_Enqueue_def add_task_def split: if_splits)
  qed
next
  case Nil
  then show ?case by (intro exI [of _ s]) (auto simp: workers_Enqueue_def add_task_def split: if_splits)
qed

lemma queued_add_task:
  "i < length (sd_senders s) \<Longrightarrow> queued j c (add_task i task s) = (if j = i \<and> fst task = c then queued j c s @ [task] else queued j c s)"
  by (cases "j < length (sd_senders s)") (auto simp: queued_def add_task_def nth_list_update)

lemma add_task_frame [simp]:
  "sd_sent (add_task i task s) = sd_sent s" "length (sd_senders (add_task i task s)) = length (sd_senders s)"
  "sd_peerSessions (add_task i task s) = sd_peerSessions s" "sd_sessions (add_task i task s) = sd_sessions s"
  "sd_cfg (add_task i task s) = sd_cfg s" "sd_quit (add_task i task s) = sd_quit s" "sd_requests (add_task i task s) = sd_requests s"
  "sd_unregistered (add_task i task s) = sd_unregistered s" "foreign c p (add_task i task s) = foreign c p s"
  by (simp_all add: add_task_def foreign_def)

lemma add_foreign_task: "i < length (sd_senders s) \<Longrightarrow> fst task \<noteq> c \<Longrightarrow> kept c p s (add_task i task s)"
  by (auto simp: kept_def issued_def only_def queued_add_task)

lemma add_own_task:
  "i < length (sd_senders s) \<Longrightarrow> only i c s \<Longrightarrow>
    issued i c (add_task i (c, resp, m) s) = issued i c s @ [resp] \<and> only i c (add_task i (c, resp, m) s)"
  by (auto simp: issued_def only_def queued_add_task)

text \<open>Changes of parts that do not matter for a stream.\<close>

lemma kept_simple [simp]:
  "kept c p s (s\<lparr>sd_pendingResponsesSize := n\<rparr>)" "kept c p s (misbehaviour peer err s)"
  by (simp_all add: kept_def issued_def only_def queued_def foreign_def misbehaviour_def)

section \<open>Other peers\<close>

lemma store_foreign: "q \<noteq> p \<Longrightarrow> st_conn session \<noteq> c \<Longrightarrow> kept c p s (s\<lparr>sd_sessions := AList.update (k, q) session (sd_sessions s)\<rparr>)"
  by (auto simp: kept_def issued_def only_def queued_def foreign_def update_conv')

lemma delete_foreign:
  assumes "q \<noteq> p"
  shows "kept c p s (s\<lparr>sd_sessions := AList.delete (k, q) (sd_sessions s)\<rparr>)"
proof -
  have m: "map_of (AList.delete (k, q) (sd_sessions s)) key = (if key = (k, q) then None else map_of (sd_sessions s) key)" for key
    by (simp add: delete_conv')
  have "foreign c p s \<longrightarrow> foreign c p (s\<lparr>sd_sessions := AList.delete (k, q) (sd_sessions s)\<rparr>)"
    unfolding foreign_def by (simp add: m)
  then show ?thesis using assms by (simp add: kept_def issued_def only_def queued_def m)
qed

lemma count_foreign:
  "q \<noteq> p \<Longrightarrow> kept c p s (s\<lparr>sd_peerSessions := (sd_peerSessions s)(q := sids), sd_sessionsCounter := n\<rparr>)"
  by (simp add: kept_def issued_def only_def queued_def foreign_def)

lemma send_chunks_foreign:
  "send_chunks app r q n session xs s = Some (s', xs') \<Longrightarrow> lists_items app items \<Longrightarrow> q \<noteq> p \<Longrightarrow> st_conn session \<noteq> c \<Longrightarrow> \<not> sd_quit s \<Longrightarrow>
    p \<notin> set (wk_tasks (sd_unregistered s)) \<Longrightarrow> kept c p s s'"
proof (induction n arbitrary: session xs s)
  case (Suc n)
  show ?case
  proof (cases "st_done session")
    case False
    obtain resp session1 where ch: "next_chunk app r session = (resp, session1)" by (cases "next_chunk app r session")
    note st = next_chunk_items [OF Suc(3) False ch]
    define s1 where "s1 = s\<lparr>sd_sessions := AList.update (ss_ID (rq_Session r), q) session1 (sd_sessions s)\<rparr>"
    define m where "m = pl_TotalMemSize app (rs_Payload resp)"
    obtain s2 xs2 s4 xs4 where w: "waitPendingResponsesBelowLimit xs s1 = Some (s2, xs2)"
      "enqueue_response (st_senderI session1) (st_conn session1, resp, m) xs2 (s2\<lparr>sd_pendingResponsesSize := sd_pendingResponsesSize s2 + m\<rparr>) = Some (s4, xs4)"
      "send_chunks app r q n session1 xs4 s4 = Some (s', xs')"
      using Suc(2) False ch by (auto simp: s1_def m_def Let_def split: option.splits prod.splits)
    have k1: "kept c p s s1" unfolding s1_def using Suc(4,5) st(8) by (intro store_foreign) simp_all
    have "kept c p s1 s2" using Suc(7) by (intro wait_kept [OF w(1)]) (simp add: s1_def)
    then have k2: "kept c p s (s2\<lparr>sd_pendingResponsesSize := sd_pendingResponsesSize s2 + m\<rparr>)"
      using k1 kept_trans kept_simple(1) by blast
    then have "\<not> sd_quit (s2\<lparr>sd_pendingResponsesSize := sd_pendingResponsesSize s2 + m\<rparr>)" using Suc(6) by (simp add: kept_def)
    from enqueue_response_add [OF w(2) this] obtain s3 where
      "kept c p (s2\<lparr>sd_pendingResponsesSize := sd_pendingResponsesSize s2 + m\<rparr>) s3" "st_senderI session1 < length (sd_senders s3)"
      "s4 = add_task (st_senderI session1) (st_conn session1, resp, m) s3" by blast
    then have k4: "kept c p s s4" using k2 kept_trans add_foreign_task Suc(5) st(8) by (metis fst_conv)
    have "kept c p s4 s'"
      using k4 Suc(6,7) st(8) Suc(5) by (intro Suc(1) [OF w(3) Suc(3,4)]) (auto simp: kept_def)
    then show ?thesis using k4 kept_trans by blast
  qed (use Suc(2) in simp)
qed simp

lemma handle_request_foreign:
  assumes "handle_request app (r, peer) xs s = Some (s', xs')" "lists_items app items" "pe_ID peer \<noteq> p" "pe_conn peer \<noteq> c" "\<not> sd_quit s"
    "p \<notin> set (wk_tasks (sd_unregistered s))" "foreign c p s"
  shows "kept c p s s'"
proof -
  obtain s1 xs1 where w: "waitPendingResponsesBelowLimit xs s = Some (s1, xs1)"
    using assms(1) by (auto simp: handle_request_def split: option.splits)
  obtain sids s2 where pr: "prune_oldest (pe_ID peer) s1 = (sids, s2)" by (cases "prune_oldest (pe_ID peer) s1")
  have k1: "kept c p s s1" using wait_kept [OF w assms(6)] .
  have "kept c p s1 s2" using pr delete_foreign [OF assms(3)] by (auto simp: prune_oldest_def Let_def split: if_splits)
  then have k2: "kept c p s s2" using k1 kept_trans by blast
  have serve: "kept c p s0 s'" if "serve app r peer session xs1 s0 = Some (s', xs')" "kept c p s s0" "st_conn session \<noteq> c" for session s0
    using that assms(5,6) send_chunks_foreign [OF _ assms(2,3), of r "unat (rq_MaxChunks r)" session xs1 s0 s' xs']
    by (auto simp: serve_def kept_def [of c p s s0] split: if_splits)
  show ?thesis
  proof (cases "map_of (sd_sessions s2) (ss_ID (rq_Session r), pe_ID peer)")
    case (Some session)
    then have "st_conn session \<noteq> c" using k2 assms(3,7) by (auto simp: kept_def foreign_def)
    then show ?thesis using serve [of session s2] kept_trans k2 assms(1) w pr Some by (auto simp: handle_request_def)
  next
    case None
    consider "s' = misbehaviour peer TooManyGlobalSessions s2"
      | session s3 where "new_session r peer sids s2 = Some (session, s3)" "serve app r peer session xs1 s3 = Some (s', xs')"
      using assms(1) w pr None by (auto simp: handle_request_def split: if_splits option.splits)
    then show ?thesis
    proof cases
      case (2 session s3)
      then have "kept c p s2 s3" "st_conn session = pe_conn peer" using count_foreign [OF assms(3), of c s2]
        by (auto simp: new_session_def Let_def split: if_splits)
      then show ?thesis using serve [OF 2(2)] k2 kept_trans assms(4) by metis
    qed (use k2 kept_trans kept_simple(2) in blast)
  qed
qed

section \<open>The peer's own requests\<close>

text \<open>A response marked as done ends the stream.\<close>

definition well_ended :: "bool \<Rightarrow> 'i Response list \<Rightarrow> bool" where
  "well_ended done rs \<longleftrightarrow> (\<forall>r \<in> set (butlast rs). \<not> rs_Done r) \<and> (done \<longleftrightarrow> rs \<noteq> [] \<and> rs_Done (last rs))"

lemma well_ended_snoc: "well_ended False rs \<Longrightarrow> well_ended (rs_Done r) (rs @ [r])"
  by (cases rs rule: rev_cases) (auto simp: well_ended_def butlast_append)

definition serving :: "('l, 'i) seeder_App \<Rightarrow> ('l \<times> 'i) list \<Rightarrow> nat \<Rightarrow> 'l stream_Session \<Rightarrow> 'l sessionState \<Rightarrow> ('l, 'i) BaseSeeder \<Rightarrow> bool" where
  "serving app items c sn session s \<longleftrightarrow>
    st_origSelector session = ss_Start sn \<and> st_stop session = ss_Stop sn \<and> st_conn session = c \<and>
    st_senderI session < length (sd_senders s) \<and> only (st_senderI session) c s \<and>
    concat (map rs_Payload (issued (st_senderI session) c s)) @ rest_items app items session =
      map snd (item_range app items (ss_Start sn) (ss_Stop sn)) \<and>
    well_ended (st_done session) (issued (st_senderI session) c s) \<and>
    (\<forall>r \<in> set (issued (st_senderI session) c s). rs_SessionID r = ss_ID sn)"

definition registered :: "string \<Rightarrow> 'l stream_Session \<Rightarrow> ('l, 'i) BaseSeeder \<Rightarrow> bool" where
  "registered p sn s \<longleftrightarrow> sd_peerSessions s p = [ss_ID sn] \<and> (\<forall>k. k \<noteq> ss_ID sn \<longrightarrow> map_of (sd_sessions s) (k, p) = None)"

definition calm :: "nat \<Rightarrow> string \<Rightarrow> ('l, 'i) BaseSeeder \<Rightarrow> bool" where
  "calm c p s \<longleftrightarrow> \<not> sd_quit s \<and> p \<notin> set (wk_tasks (sd_unregistered s)) \<and> foreign c p s \<and>
    length (sd_senders s) = sc_SenderThreads (sd_cfg s) \<and> sc_SenderThreads (sd_cfg s) < 2 ^ 32"

lemma kept_serving: "kept c p s s' \<Longrightarrow> serving app items c sn session s \<Longrightarrow> serving app items c sn session s'"
  by (auto simp: kept_def serving_def)

lemma kept_registered: "kept c p s s' \<Longrightarrow> registered p sn s \<Longrightarrow> registered p sn s'"
  by (simp add: kept_def registered_def)

lemma kept_calm: "kept c p s s' \<Longrightarrow> calm c p s \<Longrightarrow> calm c p s'"
  by (auto simp: kept_def calm_def)

lemma kept_requests: "kept c p s s' \<Longrightarrow> sd_requests s' = sd_requests s"
  by (simp add: kept_def)

lemma store_own:
  assumes "s' = s\<lparr>sd_sessions := AList.update (ss_ID sn, p) session1 (sd_sessions s)\<rparr>"
  shows "serving app items c sn session s' = serving app items c sn session s" "registered p sn s' = registered p sn s"
    "calm c p s \<Longrightarrow> calm c p s'" "map_of (sd_sessions s') (ss_ID sn, p) = Some session1" "sd_requests s' = sd_requests s"
proof -
  have m: "map_of (sd_sessions s') key = (if key = (ss_ID sn, p) then Some session1 else map_of (sd_sessions s) key)" for key
    by (simp add: assms update_conv')
  show "serving app items c sn session s' = serving app items c sn session s"
    by (simp add: assms serving_def issued_def only_def queued_def)
  show "registered p sn s' = registered p sn s" unfolding registered_def by (simp add: m) (simp add: assms)
  show "calm c p s'" if "calm c p s" using that unfolding calm_def foreign_def m by (simp add: assms)
  show "map_of (sd_sessions s') (ss_ID sn, p) = Some session1" by (simp add: m)
qed (simp add: assms)

lemma send_own_chunks:
  assumes items: "lists_items app items" and r: "rq_Session r = sn"
  shows "send_chunks app r p n session xs s = Some (s', xs') \<Longrightarrow> serving app items c sn session s \<Longrightarrow> registered p sn s \<Longrightarrow> calm c p s \<Longrightarrow>
    map_of (sd_sessions s) (ss_ID sn, p) = Some session \<or> (0 < n \<and> \<not> st_done session) \<Longrightarrow>
    \<exists>session'. serving app items c sn session' s' \<and> registered p sn s' \<and> calm c p s' \<and>
      map_of (sd_sessions s') (ss_ID sn, p) = Some session' \<and> sd_requests s' = sd_requests s \<and>
      (st_done session' \<or> length (rest_items app items session') + n \<le> length (rest_items app items session))"
proof (induction n arbitrary: session xs s)
  case (Suc n)
  show ?case
  proof (cases "st_done session")
    case False
    obtain resp session1 where ch: "next_chunk app r session = (resp, session1)" by (cases "next_chunk app r session")
    note st = next_chunk_items [OF items False ch]
    define s1 where "s1 = s\<lparr>sd_sessions := AList.update (ss_ID sn, p) session1 (sd_sessions s)\<rparr>"
    define m where "m = pl_TotalMemSize app (rs_Payload resp)"
    obtain s2 xs2 s4 xs4 where w: "waitPendingResponsesBelowLimit xs s1 = Some (s2, xs2)"
      "enqueue_response (st_senderI session1) (st_conn session1, resp, m) xs2 (s2\<lparr>sd_pendingResponsesSize := sd_pendingResponsesSize s2 + m\<rparr>) = Some (s4, xs4)"
      "send_chunks app r p n session1 xs4 s4 = Some (s', xs')"
      using Suc(2) False ch by (auto simp: s1_def m_def Let_def r split: option.splits prod.splits)
    have s1: "serving app items c sn session s1" "registered p sn s1" "calm c p s1" "map_of (sd_sessions s1) (ss_ID sn, p) = Some session1"
      using Suc(3-5) store_own [OF s1_def] by simp_all
    have "p \<notin> set (wk_tasks (sd_unregistered s1))" using s1(3) by (simp add: calm_def)
    then have k2: "kept c p s1 (s2\<lparr>sd_pendingResponsesSize := sd_pendingResponsesSize s2 + m\<rparr>)"
      using wait_kept [OF w(1)] kept_trans kept_simple(1) by blast
    then have "\<not> sd_quit (s2\<lparr>sd_pendingResponsesSize := sd_pendingResponsesSize s2 + m\<rparr>)"
      using kept_calm [OF k2 s1(3)] by (simp add: calm_def)
    from enqueue_response_add [OF w(2) this] obtain s3 where
      k3: "kept c p (s2\<lparr>sd_pendingResponsesSize := sd_pendingResponsesSize s2 + m\<rparr>) s3"
      and s4: "s4 = add_task (st_senderI session1) (st_conn session1, resp, m) s3" by blast
    have k: "kept c p s1 s3" using k2 k3 kept_trans by blast
    have s3: "serving app items c sn session s3" "registered p sn s3" "calm c p s3" "map_of (sd_sessions s3) (ss_ID sn, p) = Some session1"
      using kept_serving [OF k s1(1)] kept_registered [OF k s1(2)] kept_calm [OF k s1(3)] k s1(4) by (auto simp: kept_def)
    have new: "issued (st_senderI session) c s4 = issued (st_senderI session) c s3 @ [resp]" "only (st_senderI session) c s4"
      using s3(1) add_own_task [of "st_senderI session" s3 c resp m] st(7,8) s4 by (auto simp: serving_def)
    have "well_ended (st_done session1) (issued (st_senderI session) c s4)"
      using s3(1) False st(2) new(1) well_ended_snoc by (auto simp: serving_def)
    then have "serving app items c sn session1 s4"
      using s3(1) st new s4 r by (simp add: serving_def)
    moreover have "registered p sn s4" "calm c p s4" "map_of (sd_sessions s4) (ss_ID sn, p) = Some session1" "sd_requests s4 = sd_requests s"
      using s3(2-4) kept_requests [OF k] by (simp_all add: s4 registered_def calm_def s1_def)
    moreover have "s' = s4" if "st_done session1" using w(3) that by (cases n) auto
    moreover have "length (rest_items app items session1) < length (rest_items app items session)" if "\<not> st_done session1"
      using st(1-3) that by auto
    ultimately show ?thesis using Suc(1) [OF w(3)] by (cases "st_done session1") (blast, force)
  qed (use Suc in auto)
qed auto

section \<open>The stream\<close>

definition fresh :: "nat \<Rightarrow> string \<Rightarrow> ('l, 'i) BaseSeeder \<Rightarrow> bool" where
  "fresh c p s \<longleftrightarrow> sd_peerSessions s p = [] \<and> (\<forall>k. map_of (sd_sessions s) (k, p) = None) \<and>
    (\<forall>i. only i c s \<and> issued i c s = [])"

definition request_ok :: "nat \<Rightarrow> string \<Rightarrow> 'l stream_Session \<Rightarrow> 'l Request \<times> Peer \<Rightarrow> bool" where
  "request_ok c p sn op \<longleftrightarrow>
    (if pe_ID (snd op) = p then pe_conn (snd op) = c \<and> rq_Session (fst op) = sn \<and> rq_MaxChunks (fst op) \<noteq> 0 else pe_conn (snd op) \<noteq> c)"

definition ongoing :: "('l, 'i) seeder_App \<Rightarrow> ('l \<times> 'i) list \<Rightarrow> nat \<Rightarrow> string \<Rightarrow> 'l stream_Session \<Rightarrow> ('l, 'i) BaseSeeder \<Rightarrow> bool" where
  "ongoing app items c p sn s \<longleftrightarrow> fresh c p s \<or>
    (\<exists>session. serving app items c sn session s \<and> registered p sn s \<and> map_of (sd_sessions s) (ss_ID sn, p) = Some session)"

definition streaming :: "('l, 'i) seeder_App \<Rightarrow> ('l \<times> 'i) list \<Rightarrow> nat \<Rightarrow> string \<Rightarrow> 'l stream_Session \<Rightarrow> ('l, 'i) BaseSeeder \<Rightarrow> bool" where
  "streaming app items c p sn s \<longleftrightarrow> calm c p s \<and> (\<forall>op \<in> set (wk_tasks (sd_requests s)). request_ok c p sn op) \<and> ongoing app items c p sn s"

lemma kept_ongoing:
  assumes "kept c p s s'" "ongoing app items c p sn s"
  shows "ongoing app items c p sn s'"
proof (cases "fresh c p s")
  case True
  then have "fresh c p s'" using assms(1) by (simp add: kept_def fresh_def)
  then show ?thesis by (simp add: ongoing_def)
next
  case False
  then obtain session where "serving app items c sn session s" "registered p sn s" "map_of (sd_sessions s) (ss_ID sn, p) = Some session"
    using assms(2) by (auto simp: ongoing_def)
  moreover have "map_of (sd_sessions s') (ss_ID sn, p) = map_of (sd_sessions s) (ss_ID sn, p)" using assms(1) by (simp add: kept_def)
  ultimately show ?thesis using kept_serving [OF assms(1)] kept_registered [OF assms(1)] unfolding ongoing_def by metis
qed

lemma kept_streaming: "kept c p s s' \<Longrightarrow> streaming app items c p sn s \<Longrightarrow> streaming app items c p sn s'"
  using kept_calm kept_ongoing kept_requests unfolding streaming_def by metis

lemma new_session_serving:
  assumes "fresh c p s" "calm c p s" "new_session r peer [] s = Some (session, s')" "pe_ID peer = p" "pe_conn peer = c" "rq_Session r = sn"
  shows "serving app items c sn session s'" "registered p sn s'" "calm c p s'" "\<not> st_done session" "sd_requests s' = sd_requests s"
    "rest_items app items session = map snd (item_range app items (ss_Start sn) (ss_Stop sn))"
proof -
  let ?threads = "of_nat (sc_SenderThreads (sd_cfg s)) :: u32"
  have nz: "?threads \<noteq> 0" and session: "session = \<lparr>st_origSelector = ss_Start sn, st_next = ss_Start sn, st_stop = ss_Stop sn, st_done = False,
      st_senderI = unat (sd_sessionsCounter s mod ?threads), st_conn = c\<rparr>"
    and s': "s' = s\<lparr>sd_peerSessions := (sd_peerSessions s)(p := [ss_ID sn]), sd_sessionsCounter := sd_sessionsCounter s + 1\<rparr>"
    using assms(3-6) by (auto simp: new_session_def Let_def split: if_splits)
  have len: "length (sd_senders s) = sc_SenderThreads (sd_cfg s)" "sc_SenderThreads (sd_cfg s) < 2 ^ 32" using assms(2) by (simp_all add: calm_def)
  then have "unat ?threads = length (sd_senders s)" by (simp add: unat_of_nat take_bit_nat_eq_self)
  moreover have "0 < unat ?threads" using nz by (simp add: unat_gt_0)
  ultimately have "unat (sd_sessionsCounter s) mod unat ?threads < length (sd_senders s)" using mod_less_divisor by metis
  then have "st_senderI session < length (sd_senders s)" unfolding session by (simp only: sessionState.simps unat_mod)
  moreover have "issued i c s' = issued i c s" "only i c s' = only i c s" "sd_senders s' = sd_senders s" for i
    by (simp_all add: s' issued_def only_def queued_def)
  then have "issued i c s' = []" "only i c s'" "sd_senders s' = sd_senders s" for i
    using assms(1) by (simp_all add: fresh_def)
  ultimately show "serving app items c sn session s'"
    by (simp add: serving_def session well_ended_def rest_items_def)
  show "registered p sn s'" using assms(1) by (simp add: registered_def s' fresh_def)
  show "calm c p s'" using assms(2) by (simp add: calm_def s' foreign_def)
qed (use assms in \<open>auto simp: new_session_def Let_def rest_items_def split: if_splits\<close>)

lemma own_request:
  assumes "handle_request app (r, peer) xs s = Some (s', xs')" "lists_items app items" "calm c p s" "ongoing app items c p sn s"
    "request_ok c p sn (r, peer)" "pe_ID peer = p"
  shows "calm c p s'" "ongoing app items c p sn s'" "sd_requests s' = sd_requests s"
    "length (item_range app items (ss_Start sn) (ss_Stop sn)) < unat (rq_MaxChunks r) \<Longrightarrow>
      suffix [(c, TooManyGlobalSessions)] (sd_misbehaviours s') \<or>
      (\<exists>session. serving app items c sn session s' \<and> st_done session)"
proof -
  obtain s1 xs1 where w: "waitPendingResponsesBelowLimit xs s = Some (s1, xs1)"
    using assms(1) by (auto simp: handle_request_def split: option.splits)
  have k: "kept c p s s1" using wait_kept [OF w] assms(3) by (simp add: calm_def)
  have o: "calm c p s1" "ongoing app items c p sn s1" "sd_requests s1 = sd_requests s"
    using kept_calm [OF k assms(3)] kept_ongoing [OF k assms(4)] kept_requests [OF k] .
  have r: "pe_conn peer = c" "rq_Session r = sn" "rq_MaxChunks r \<noteq> 0" using assms(5,6) by (simp_all add: request_ok_def)
  have compare: "lo_Compare app x x = 0" for x using assms(2) by (simp add: lists_items_def locator_ok_def)
  have n: "0 < unat (rq_MaxChunks r)" using r(3) by (simp add: unat_gt_0)
  have pr: "prune_oldest p s1 = (sd_peerSessions s1 p, s1)"
    using o(2) by (auto simp: prune_oldest_def ongoing_def fresh_def registered_def)
  let ?goal = "calm c p s' \<and> ongoing app items c p sn s' \<and> sd_requests s' = sd_requests s \<and>
    (length (item_range app items (ss_Start sn) (ss_Stop sn)) < unat (rq_MaxChunks r) \<longrightarrow>
      suffix [(c, TooManyGlobalSessions)] (sd_misbehaviours s') \<or> (\<exists>session. serving app items c sn session s' \<and> st_done session))"
  have served: ?goal if sv: "serve app r peer session xs1 s2 = Some (s', xs')" "serving app items c sn session s2" "registered p sn s2" "calm c p s2"
    "map_of (sd_sessions s2) (ss_ID sn, p) = Some session \<or> \<not> st_done session" "sd_requests s2 = sd_requests s" for session s2
  proof -
    have "send_chunks app r p (unat (rq_MaxChunks r)) session xs1 s2 = Some (s', xs')"
      using sv(1,2) r compare assms(6) by (simp add: serve_def serving_def)
    from send_own_chunks [OF assms(2) r(2) this sv(2-4)] obtain session' where s': "serving app items c sn session' s'" "registered p sn s'" "calm c p s'"
      "map_of (sd_sessions s') (ss_ID sn, p) = Some session'" "sd_requests s' = sd_requests s2"
      "st_done session' \<or> length (rest_items app items session') + unat (rq_MaxChunks r) \<le> length (rest_items app items session)"
      using sv(5) n by blast
    have "length (rest_items app items session) \<le> length (item_range app items (ss_Start sn) (ss_Stop sn))"
      using sv(2) unfolding serving_def by (metis le_add2 length_append length_map)
    then have "st_done session'" if "length (item_range app items (ss_Start sn) (ss_Stop sn)) < unat (rq_MaxChunks r)"
      using s'(6) that by linarith
    then show ?thesis using s' sv(6) unfolding ongoing_def by auto
  qed
  have ?goal
  proof (cases "map_of (sd_sessions s1) (ss_ID sn, p)")
    case (Some session)
    then have "serving app items c sn session s1" "registered p sn s1" using o(2) by (auto simp: ongoing_def fresh_def)
    then show ?thesis using served [of session s1] Some o assms(1) w pr r(2) assms(6) by (simp add: handle_request_def)
  next
    case None
    then have fr: "fresh c p s1" using o(2) by (auto simp: ongoing_def)
    consider (full) "s' = misbehaviour peer TooManyGlobalSessions s1"
      | (new) session s3 where "new_session r peer [] s1 = Some (session, s3)" "serve app r peer session xs1 s3 = Some (s', xs')"
      using assms(1,6) w pr None r(2) fr by (auto simp: handle_request_def fresh_def split: if_splits option.splits)
    then show ?thesis
    proof cases
      case full
      then have k': "kept c p s1 s'" by simp
      have "suffix [(c, TooManyGlobalSessions)] (sd_misbehaviours s')" using full r(1) by (simp add: misbehaviour_def suffix_def)
      then show ?thesis using kept_calm [OF k' o(1)] kept_ongoing [OF k' o(2)] kept_requests [OF k'] o(3) by simp
    next
      case (new session s3)
      show ?thesis
        using served [OF new(2)] new_session_serving [OF fr o(1) new(1) assms(6) r(1,2)] o(3) by simp
    qed
  qed
  then show "calm c p s'" "ongoing app items c p sn s'" "sd_requests s' = sd_requests s"
    "length (item_range app items (ss_Start sn) (ss_Stop sn)) < unat (rq_MaxChunks r) \<Longrightarrow>
      suffix [(c, TooManyGlobalSessions)] (sd_misbehaviours s') \<or> (\<exists>session. serving app items c sn session s' \<and> st_done session)" by blast+
qed

section \<open>Runs\<close>

text \<open>A request arrives, a peer leaves, or a round of the reader or of a sender.\<close>

datatype 'l action = Received bool Peer "'l Request" | Leaves bool string | Round round

definition seeder_step :: "('l, 'i) seeder_App \<Rightarrow> 'l action \<Rightarrow> ('l, 'i) BaseSeeder \<Rightarrow> ('l, 'i) BaseSeeder option" where
  "seeder_step app a s =
    (case a of
       Received prefer_quit peer r \<Rightarrow> map_option (\<lambda>(_, _, s1). s1) (NotifyRequestReceived prefer_quit peer r s)
     | Leaves prefer_quit peer \<Rightarrow> map_option snd (Seeder_UnregisterPeer prefer_quit peer s)
     | Round rd \<Rightarrow> reader_round app rd s)"

fun seeder_run :: "('l, 'i) seeder_App \<Rightarrow> 'l action list \<Rightarrow> ('l, 'i) BaseSeeder \<Rightarrow> ('l, 'i) BaseSeeder option" where
  "seeder_run app [] s = Some s"
| "seeder_run app (a # as) s = (case seeder_step app a s of None \<Rightarrow> None | Some s1 \<Rightarrow> seeder_run app as s1)"

text \<open>
  Peer \<open>p\<close> stays, uses one connection and one session, and asks for at least one chunk at a time; the other peers use other
  connections.
\<close>

definition action_ok :: "nat \<Rightarrow> string \<Rightarrow> 'l stream_Session \<Rightarrow> 'l action \<Rightarrow> bool" where
  "action_ok c p sn a \<longleftrightarrow>
    (case a of Received _ peer r \<Rightarrow> request_ok c p sn (r, peer) | Leaves _ q \<Rightarrow> q \<noteq> p | Round _ \<Rightarrow> True)"

lemma requests_frame [simp]:
  "calm c p (s\<lparr>sd_requests := x\<rparr>) = calm c p s" "ongoing app items c p sn (s\<lparr>sd_requests := x\<rparr>) = ongoing app items c p sn s"
  by (simp_all add: calm_def foreign_def ongoing_def fresh_def serving_def registered_def issued_def only_def queued_def)

lemma unregistered_frame [simp]:
  "foreign c p (s\<lparr>sd_unregistered := x\<rparr>) = foreign c p s" "ongoing app items c p sn (s\<lparr>sd_unregistered := x\<rparr>) = ongoing app items c p sn s"
  by (simp_all add: foreign_def ongoing_def fresh_def serving_def registered_def issued_def only_def queued_def)

lemma take_request:
  "streaming app items c p sn s \<Longrightarrow> wk_tasks (sd_requests s) = op # rest \<Longrightarrow>
    streaming app items c p sn (s\<lparr>sd_requests := (sd_requests s)\<lparr>wk_tasks := rest\<rparr>\<rparr>) \<and> request_ok c p sn op"
  by (simp add: streaming_def)

lemma round_streaming:
  assumes "lists_items app items" "streaming app items c p sn s" "reader_round app rd s = Some s'"
  shows "streaming app items c p sn s'"
proof (cases rd)
  case (Sender i)
  then have "s' = sender_turn i s" using assms(3) by (simp add: reader_round_def)
  then show ?thesis using kept_streaming [OF sender_turn_kept assms(2)] by simp
next
  case Unregister
  then have "take_unregistered s = Some s'" using assms(3) by (simp add: reader_round_def)
  moreover have "p \<notin> set (wk_tasks (sd_unregistered s))" using assms(2) by (simp add: streaming_def calm_def)
  ultimately have "kept c p s s'" by (rule take_unregistered_kept)
  then show ?thesis using assms(2) kept_streaming by blast
next
  case (Serve xs)
  then obtain r peer rest xs' where q: "wk_tasks (sd_requests s) = (r, peer) # rest"
    "handle_request app (r, peer) xs (s\<lparr>sd_requests := (sd_requests s)\<lparr>wk_tasks := rest\<rparr>\<rparr>) = Some (s', xs')"
    using assms(3) by (auto simp: reader_round_def split: list.splits)
  let ?s = "s\<lparr>sd_requests := (sd_requests s)\<lparr>wk_tasks := rest\<rparr>\<rparr>"
  have st: "streaming app items c p sn ?s" and ok: "request_ok c p sn (r, peer)" using take_request [OF assms(2) q(1)] by auto
  show ?thesis
  proof (cases "pe_ID peer = p")
    case True
    then show ?thesis using own_request(1-3) [OF q(2) assms(1) _ _ ok] st by (simp add: streaming_def)
  next
    case False
    then have "kept c p ?s s'"
      using st ok by (intro handle_request_foreign [OF q(2) assms(1)]) (auto simp: streaming_def calm_def request_ok_def)
    then show ?thesis using st kept_streaming by blast
  qed
qed

lemma step_streaming:
  assumes "lists_items app items" "streaming app items c p sn s" "action_ok c p sn a" "seeder_step app a s = Some s'"
  shows "streaming app items c p sn s'"
proof (cases a)
  case (Received pq peer r)
  then have "s' = s \<or> (\<exists>ch. s' = s\<lparr>sd_requests := ch\<rparr> \<and> set (wk_tasks ch) \<subseteq> insert (sanitize (sd_cfg s) r, peer) (set (wk_tasks (sd_requests s))))"
    using assms(4) by (auto simp: seeder_step_def NotifyRequestReceived_def workers_Enqueue_def split: option.splits if_splits bool.splits)
  moreover have "request_ok c p sn (sanitize (sd_cfg s) r, peer)"
    using assms(3) Received by (simp add: action_ok_def request_ok_def sanitize_def split: if_splits)
  ultimately show ?thesis using assms(2) by (auto simp: streaming_def)
next
  case (Leaves pq q)
  then have "s' = s \<or> (\<exists>ch. s' = s\<lparr>sd_unregistered := ch\<rparr> \<and> set (wk_tasks ch) \<subseteq> insert q (set (wk_tasks (sd_unregistered s))))"
    using assms(4) by (auto simp: seeder_step_def Seeder_UnregisterPeer_def workers_Enqueue_def split: option.splits if_splits bool.splits)
  then show ?thesis using assms(2,3) Leaves by (auto simp: streaming_def action_ok_def calm_def)
next
  case (Round rd)
  then show ?thesis using assms round_streaming by (simp add: seeder_step_def)
qed

lemma run_streaming:
  "lists_items app items \<Longrightarrow> \<forall>a \<in> set as. action_ok c p sn a \<Longrightarrow> seeder_run app as s = Some s' \<Longrightarrow>
    streaming app items c p sn s \<Longrightarrow> streaming app items c p sn s'"
proof (induction as arbitrary: s)
  case (Cons a as)
  then obtain s1 where "seeder_step app a s = Some s1" "seeder_run app as s1 = Some s'" by (auto split: option.splits)
  then show ?case using Cons step_streaming by (metis list.set_intros)
qed simp

lemma New_streaming: "sc_SenderThreads cfg < 2 ^ 32 \<Longrightarrow> streaming app items c p sn (Seeder_New cfg)"
  by (simp add: streaming_def calm_def foreign_def ongoing_def fresh_def Seeder_New_def only_def issued_def queued_def)

section \<open>A sample application\<close>

definition sample_items :: "(nat \<times> nat) list" where
  "sample_items = [(1, 10), (2, 20), (3, 30)]"

definition sample_app :: "(nat, nat) seeder_App" where
  "sample_app = \<lparr>lo_Compare = (\<lambda>x y. int x - int y), lo_Inc = Suc, pl_TotalSize = (\<lambda>xs. of_nat (length xs)),
    pl_TotalMemSize = (\<lambda>xs. int (length xs)),
    ForEachItem = (\<lambda>start type onKey onAppended v.
      visit onKey onAppended (filter (\<lambda>a. 0 \<le> int (fst a) - int start) sample_items) [] v)\<rparr>"

definition sample_config :: seeder_Config where
  "sample_config = \<lparr>sc_SenderThreads = 1, sc_MaxSenderTasks = 10, sc_MaxPendingResponsesSize = 100, sc_MaxResponsePayloadNum = 10,
    sc_MaxResponsePayloadSize = 10, sc_MaxResponseChunks = 10, sc_MaxGlobalSessions = 0\<rparr>"

definition sample_session :: "nat stream_Session" where
  "sample_session = \<lparr>ss_ID = 5, ss_Start = 1, ss_Stop = 4\<rparr>"

definition sample_request :: "nat Request" where
  "sample_request = \<lparr>rq_Session = sample_session, rq_Type = 0, rq_MaxPayloadNum = 2, rq_MaxPayloadSize = 10, rq_MaxChunks = 4\<rparr>"

definition sample_peer :: Peer where
  "sample_peer = \<lparr>pe_ID = ''peer'', pe_conn = 7\<rparr>"

lemma sample_lists_items: "lists_items sample_app sample_items"
  by (auto simp: lists_items_def locator_ok_def sample_app_def sample_items_def)

lemma sample_range: "item_range sample_app sample_items (ss_Start sample_session) (ss_Stop sample_session) = sample_items"
  by (simp add: item_range_def sample_app_def sample_items_def sample_session_def)

lemmas send_chunks_numeral = send_chunks.simps(2) [of _ _ _ "pred_numeral k", folded numeral_eq_Suc] for k

lemmas seeder_run_simps = send_chunks_numeral word_le_nat_alt seeder_step_def NotifyRequestReceived_def workers_Enqueue_def sanitize_def Seeder_New_def reader_round_def
  handle_request_def prune_oldest_def new_session_def maxGlobalSessions_def serve_def next_chunk_def on_key_def on_appended_def
  sender_turn_def worker_turn_def Let_def sample_app_def sample_items_def sample_config_def sample_session_def sample_request_def sample_peer_def

section \<open>Properties\<close>

definition sent_to :: "nat \<Rightarrow> ('l, 'i) BaseSeeder \<Rightarrow> 'i Response list" where
  "sent_to c s = map snd (filter (\<lambda>t. fst t = c) (sd_sent s))"

text \<open>
  C24: a stream is complete and in order. In every run of the seeder from its start, with any other peers that request and
  leave, a peer that stays with one session is sent, over all its requests, an initial part of the items between the
  start and the stop of the session, each once and in order; a response marked as done is the last one, and with it all
  of the items have been sent.
\<close>

theorem stream_in_order:
  assumes "lists_items app items" and "\<forall>a \<in> set as. action_ok c p sn a" and "sc_SenderThreads cfg < 2 ^ 32"
    and "seeder_run app as (Seeder_New cfg) = Some s"
  shows "prefix (concat (map rs_Payload (sent_to c s))) (map snd (item_range app items (ss_Start sn) (ss_Stop sn))) \<and>
    (\<forall>r \<in> set (sent_to c s). rs_SessionID r = ss_ID sn) \<and>
    ((\<exists>r \<in> set (sent_to c s). rs_Done r) \<longrightarrow>
      rs_Done (last (sent_to c s)) \<and> concat (map rs_Payload (sent_to c s)) = map snd (item_range app items (ss_Start sn) (ss_Stop sn)))"
proof -
  have "ongoing app items c p sn s"
    using run_streaming [OF assms(1,2,4) New_streaming [OF assms(3)]] by (simp add: streaming_def)
  then consider (fresh) "fresh c p s" | (session) session where "serving app items c sn session s" by (auto simp: ongoing_def)
  then show ?thesis
  proof cases
    case fresh
    then have "sent_to c s = []" by (auto simp: fresh_def issued_def sent_to_def)
    then show ?thesis by simp
  next
    case (session session)
    let ?rs = "issued (st_senderI session) c s" and ?all = "map snd (item_range app items (ss_Start sn) (ss_Stop sn))"
    let ?q = "map (fst \<circ> snd) (queued (st_senderI session) c s)"
    have rs: "?rs = sent_to c s @ ?q" by (simp add: issued_def sent_to_def)
    have all: "concat (map rs_Payload (sent_to c s)) @ concat (map rs_Payload ?q) @ rest_items app items session = ?all"
      and ended: "well_ended (st_done session) ?rs" using session rs by (simp_all add: serving_def)
    have "?q = [] \<and> st_done session \<and> rs_Done (last (sent_to c s))" if r: "r \<in> set (sent_to c s)" "rs_Done r" for r
    proof -
      have "r \<notin> set (butlast ?rs)" using ended r(2) by (auto simp: well_ended_def)
      then have q: "?q = []" using r(1) unfolding rs by (auto simp: butlast_append split: if_splits)
      then have "r = last (sent_to c s)" using \<open>r \<notin> set (butlast ?rs)\<close> r(1) unfolding rs
        by (cases "sent_to c s" rule: rev_cases) auto
      moreover have "sent_to c s \<noteq> []" using r(1) by auto
      ultimately show ?thesis using q r(2) ended rs by (auto simp: well_ended_def)
    qed
    then have fin: "rs_Done (last (sent_to c s)) \<and> concat (map rs_Payload (sent_to c s)) = ?all"
      if "r \<in> set (sent_to c s)" "rs_Done r" for r
      using that all by (auto simp: rest_items_def)
    have "prefix (concat (map rs_Payload (sent_to c s))) ?all" using all unfolding prefix_def by metis
    moreover have "\<forall>r \<in> set (sent_to c s). rs_SessionID r = ss_ID sn" using session unfolding serving_def rs by simp
    ultimately show ?thesis using fin by blast
  qed
qed

theorem stream_in_order_witness:
  "\<exists>s. seeder_run sample_app [Received False sample_peer sample_request, Round (Serve []), Round (Sender 0), Round (Sender 0)]
      (Seeder_New sample_config) = Some s \<and>
    map rs_Payload (sent_to 7 s) = [[10, 20], [30]] \<and> concat (map rs_Payload (sent_to 7 s)) = map snd sample_items"
proof -
  let ?as = "[Received False sample_peer sample_request, Round (Serve []), Round (Sender 0), Round (Sender 0)]"
  have ev: "case seeder_run sample_app ?as (Seeder_New sample_config) of
      None \<Rightarrow> False | Some s \<Rightarrow> map (\<lambda>r. (rs_Payload r, rs_Done r)) (sent_to 7 s) = [([10, 20], False), ([30], True)]"
    by (simp add: seeder_run_simps sent_to_def)
  then obtain s where run: "seeder_run sample_app ?as (Seeder_New sample_config) = Some s"
    and sent: "map (\<lambda>r. (rs_Payload r, rs_Done r)) (sent_to 7 s) = [([10, 20], False), ([30], True)]"
    by (cases "seeder_run sample_app ?as (Seeder_New sample_config)") auto
  have ok: "\<forall>a \<in> set ?as. action_ok 7 ''peer'' sample_session a" "sc_SenderThreads sample_config < 2 ^ 32"
    by (simp_all add: action_ok_def request_ok_def sample_peer_def sample_request_def sample_config_def)
  have p: "map rs_Payload (sent_to 7 s) = [[10, 20], [30]]" and d: "\<exists>r \<in> set (sent_to 7 s). rs_Done r" using sent by auto
  have "concat (map rs_Payload (sent_to 7 s)) = map snd sample_items"
    using stream_in_order [OF sample_lists_items ok run, unfolded sample_range] d by blast
  with p run show ?thesis by (intro exI [of _ s] conjI)
qed



text \<open>
  The oldest of three sessions of a peer is dropped at every request, also if the request continues a session. A peer with
  three sessions that asks for more of the oldest one gets its first item again.
\<close>

definition one_item :: "u32 \<Rightarrow> nat Request" where
  "one_item i = sample_request\<lparr>rq_Session := sample_session\<lparr>ss_ID := i\<rparr>, rq_MaxPayloadNum := 1, rq_MaxChunks := 1\<rparr>"

lemma oldest_session_restarts:
  "case seeder_run sample_app
      (concat (map (\<lambda>i. [Received False sample_peer (one_item i), Round (Serve []), Round (Sender 0)]) [1, 2, 3, 1])) (Seeder_New sample_config) of
     None \<Rightarrow> False
   | Some s \<Rightarrow> map (\<lambda>r. (rs_SessionID r, rs_Payload r)) (sent_to 7 s) = [(1, [10]), (2, [10]), (3, [10]), (1, [10])]"
  by (simp add: seeder_run_simps sent_to_def one_item_def)

end
