(* ===== verification/Stream_Leecher.thy ===== *)
theory Stream_Leecher
  imports Dag_Processor
begin

text \<open>
  The downloading side of the streaming protocol: the leecher of one peer's session
  (\<^verbatim>\<open>basestreamleecher/basepeerleecher\<close>), which keeps a window of requested chunks, and the leecher that chooses the peers of
  the sessions (\<^verbatim>\<open>basestreamleecher\<close>). The application is a state that its callbacks read and change.
\<close>

section \<open>The leecher of a session\<close>

record EpochDownloaderConfig =
  dc_DefaultChunkItemsNum :: u32
  dc_DefaultChunkItemsSize :: u64
  dc_ParallelChunksDownload :: nat

record ('a, 'id) EpochDownloaderCallbacks =
  dl_IsProcessed :: "'a \<Rightarrow> 'id \<Rightarrow> bool"
  dl_Suspend :: "'a \<Rightarrow> bool"
  dl_Done :: "'a \<Rightarrow> bool"

text \<open>The calls of \<^verbatim>\<open>RequestChunks\<close> are kept in a list; \<^verbatim>\<open>quit\<close> is closed exactly when \<^verbatim>\<open>done\<close> is set.\<close>

record 'id BasePeerLeecher =
  pl_cfg :: EpochDownloaderConfig
  pl_totalRequested :: int
  pl_totalProcessed :: int
  pl_processingChunks :: "'id list"
  pl_notifyReceivedChunk :: "'id Workers"
  pl_done :: bool
  pl_requests :: "(u32 \<times> u64 \<times> u32) list"

definition PeerLeecher_New :: "EpochDownloaderConfig \<Rightarrow> 'id BasePeerLeecher" where
  "PeerLeecher_New cfg =
    \<lparr>pl_cfg = cfg, pl_totalRequested = 0, pl_totalProcessed = 0, pl_processingChunks = [],
     pl_notifyReceivedChunk = \<lparr>wk_capacity = dc_ParallelChunksDownload cfg * 2, wk_tasks = []\<rparr>, pl_done = False, pl_requests = []\<rparr>"

definition PeerLeecher_Terminate :: "'id BasePeerLeecher \<Rightarrow> 'id BasePeerLeecher" where
  "PeerLeecher_Terminate d = d\<lparr>pl_done := True\<rparr>"

definition Stopped :: "'id BasePeerLeecher \<Rightarrow> bool" where
  "Stopped d = pl_done d"

text \<open>The boolean result says whether the chunk was passed on; otherwise the leecher has terminated.\<close>

definition NotifyChunkReceived :: "bool \<Rightarrow> 'id \<Rightarrow> 'id BasePeerLeecher \<Rightarrow> (bool \<times> 'id BasePeerLeecher) option" where
  "NotifyChunkReceived prefer_quit i d =
    map_option (\<lambda>(ok, ch). (ok, d\<lparr>pl_notifyReceivedChunk := ch\<rparr>)) (workers_Enqueue (pl_done d) prefer_quit i (pl_notifyReceivedChunk d))"

fun sweep :: "('id \<Rightarrow> bool) \<Rightarrow> 'id list \<Rightarrow> int \<Rightarrow> 'id list \<times> int" where
  "sweep isProcessed [] totalProcessed = ([], totalProcessed)"
| "sweep isProcessed (op # ops) totalProcessed =
    (if isProcessed op then sweep isProcessed ops (totalProcessed + 1)
     else case sweep isProcessed ops totalProcessed of (notProcessed, n) \<Rightarrow> (op # notProcessed, n))"

definition sweepProcessedChunks :: "('a, 'id) EpochDownloaderCallbacks \<Rightarrow> 'a \<Rightarrow> 'id BasePeerLeecher \<Rightarrow> 'id BasePeerLeecher" where
  "sweepProcessedChunks cb app d =
    (case sweep (dl_IsProcessed cb app) (pl_processingChunks d) (pl_totalProcessed d) of
       (notProcessed, n) \<Rightarrow> d\<lparr>pl_processingChunks := notProcessed, pl_totalProcessed := n\<rparr>)"

definition tryToSync :: "('a, 'id) EpochDownloaderCallbacks \<Rightarrow> 'a \<Rightarrow> 'id BasePeerLeecher \<Rightarrow> 'id BasePeerLeecher" where
  "tryToSync cb app d =
    (if dl_Suspend cb app then d
     else if pl_totalRequested d < pl_totalProcessed d + int (dc_ParallelChunksDownload (pl_cfg d)) then
       let requestsToSend = pl_totalProcessed d + int (dc_ParallelChunksDownload (pl_cfg d)) - pl_totalRequested d in
       d\<lparr>pl_totalRequested := pl_totalRequested d + requestsToSend,
         pl_requests := pl_requests d @
           [(dc_DefaultChunkItemsNum (pl_cfg d), dc_DefaultChunkItemsSize (pl_cfg d), of_int requestsToSend)]\<rparr>
     else d)"

definition PeerLeecher_routine :: "('a, 'id) EpochDownloaderCallbacks \<Rightarrow> 'a \<Rightarrow> 'id BasePeerLeecher \<Rightarrow> 'id BasePeerLeecher" where
  "PeerLeecher_routine cb app d =
    (if dl_Done cb app then PeerLeecher_Terminate d else tryToSync cb app (sweepProcessedChunks cb app d))"

text \<open>One case of the loop: a chunk is received, or the ticker ticks. The application has its state of that moment.\<close>

datatype leecher_event = ChunkReceived | Tick

definition leecher_round :: "('a, 'id) EpochDownloaderCallbacks \<Rightarrow> leecher_event \<times> 'a \<Rightarrow> 'id BasePeerLeecher \<Rightarrow> 'id BasePeerLeecher option" where
  "leecher_round cb ev d =
    (case ev of
       (Tick, app) \<Rightarrow> Some (PeerLeecher_routine cb app d)
     | (ChunkReceived, app) \<Rightarrow>
         (case wk_tasks (pl_notifyReceivedChunk d) of
            [] \<Rightarrow> None
          | op # rest \<Rightarrow>
              let d1 = d\<lparr>pl_notifyReceivedChunk := (pl_notifyReceivedChunk d)\<lparr>wk_tasks := rest\<rparr>\<rparr> in
              Some (if pl_done d1 then PeerLeecher_Terminate d1
                else if length (pl_processingChunks d1) < dc_ParallelChunksDownload (pl_cfg d1) * 2
                then PeerLeecher_routine cb app (d1\<lparr>pl_processingChunks := pl_processingChunks d1 @ [op]\<rparr>)
                else d1)))"

section \<open>The choice of a peer\<close>

text \<open>The callbacks work on the known peers and the state of the application.\<close>

record 'a leecher_Callbacks =
  lc_SelectSessionPeerCandidates :: "string set \<Rightarrow> 'a \<Rightarrow> string list"
  lc_ShouldTerminateSession :: "'a \<Rightarrow> bool"
  lc_StartSession :: "string list \<Rightarrow> 'a \<Rightarrow> 'a"
  lc_TerminateSession :: "'a \<Rightarrow> 'a"
  lc_OngoingSession :: "'a \<Rightarrow> bool"
  lc_OngoingSessionPeer :: "'a \<Rightarrow> string"

record 'a BaseLeecher =
  bl_callback :: "'a leecher_Callbacks"
  bl_app :: 'a
  bl_Peers :: "string set"
  bl_Terminated :: bool

definition Leecher_New :: "'a leecher_Callbacks \<Rightarrow> 'a \<Rightarrow> 'a BaseLeecher" where
  "Leecher_New callback app = \<lparr>bl_callback = callback, bl_app = app, bl_Peers = {}, bl_Terminated = False\<rparr>"

definition Leecher_Routine :: "'a BaseLeecher \<Rightarrow> 'a BaseLeecher" where
  "Leecher_Routine d =
    (if bl_Terminated d then d
     else
       let cb = bl_callback d;
           app1 = (if lc_OngoingSession cb (bl_app d) \<and> lc_ShouldTerminateSession cb (bl_app d) then lc_TerminateSession cb (bl_app d) else bl_app d) in
       if \<not> lc_OngoingSession cb app1 then
         let candidates = lc_SelectSessionPeerCandidates cb (bl_Peers d) app1 in
         d\<lparr>bl_app := (if candidates \<noteq> [] then lc_StartSession cb candidates app1 else app1)\<rparr>
       else d\<lparr>bl_app := app1\<rparr>)"

definition Leecher_RegisterPeer :: "string \<Rightarrow> 'a BaseLeecher \<Rightarrow> 'a BaseLeecher" where
  "Leecher_RegisterPeer peer d = (if bl_Terminated d then d else d\<lparr>bl_Peers := insert peer (bl_Peers d)\<rparr>)"

definition Leecher_PeersNum :: "'a BaseLeecher \<Rightarrow> int" where
  "Leecher_PeersNum d = int (card (bl_Peers d))"

definition Leecher_UnregisterPeer :: "string \<Rightarrow> 'a BaseLeecher \<Rightarrow> 'a BaseLeecher" where
  "Leecher_UnregisterPeer peer d =
    (let d1 = (if lc_OngoingSessionPeer (bl_callback d) (bl_app d) = peer
               then Leecher_Routine (d\<lparr>bl_app := lc_TerminateSession (bl_callback d) (bl_app d)\<rparr>) else d)
     in d1\<lparr>bl_Peers := bl_Peers d1 - {peer}\<rparr>)"

definition Leecher_Terminate :: "'a BaseLeecher \<Rightarrow> 'a BaseLeecher" where
  "Leecher_Terminate d = d\<lparr>bl_Terminated := True, bl_app := lc_TerminateSession (bl_callback d) (bl_app d)\<rparr>"

section \<open>The window of requested chunks\<close>

definition window_ok :: "'id BasePeerLeecher \<Rightarrow> bool" where
  "window_ok d \<longleftrightarrow> pl_totalRequested d \<le> pl_totalProcessed d + int (dc_ParallelChunksDownload (pl_cfg d)) \<and>
    (\<Sum>(_, _, n) \<leftarrow> pl_requests d. n) = of_int (pl_totalRequested d) \<and>
    length (pl_processingChunks d) \<le> dc_ParallelChunksDownload (pl_cfg d) * 2"

lemma sweep_filter: "sweep f ops n = (filter (\<lambda>op. \<not> f op) ops, n + int (length (filter f ops)))"
  by (induction ops arbitrary: n) auto

lemma sweepProcessedChunks_ok:
  assumes "window_ok d"
  shows "window_ok (sweepProcessedChunks cb app d)" "pl_cfg (sweepProcessedChunks cb app d) = pl_cfg d"
    "pl_processingChunks (sweepProcessedChunks cb app d) = filter (\<lambda>i. \<not> dl_IsProcessed cb app i) (pl_processingChunks d)"
  using assms by (auto simp: sweepProcessedChunks_def sweep_filter window_ok_def intro: order.trans [OF length_filter_le])

lemma tryToSync_ok:
  assumes "window_ok d"
  shows "window_ok (tryToSync cb app d)" "pl_cfg (tryToSync cb app d) = pl_cfg d"
    "\<not> dl_Suspend cb app \<Longrightarrow> pl_totalRequested (tryToSync cb app d) = pl_totalProcessed d + int (dc_ParallelChunksDownload (pl_cfg d))"
  using assms by (auto simp: tryToSync_def window_ok_def Let_def)

lemma routine_ok:
  assumes "window_ok d"
  shows "window_ok (PeerLeecher_routine cb app d)" "pl_cfg (PeerLeecher_routine cb app d) = pl_cfg d"
  using assms sweepProcessedChunks_ok [OF assms, of cb app] tryToSync_ok [of "sweepProcessedChunks cb app d" cb app]
  by (simp_all add: PeerLeecher_routine_def PeerLeecher_Terminate_def window_ok_def)

lemma round_ok:
  assumes "window_ok d" "leecher_round cb ev d = Some d'"
  shows "window_ok d'"
proof -
  obtain e app where ev: "ev = (e, app)" by (cases ev)
  show ?thesis
  proof (cases e)
    case Tick
    then show ?thesis using assms ev routine_ok(1) by (auto simp: leecher_round_def)
  next
    case ChunkReceived
    then obtain op rest where q: "wk_tasks (pl_notifyReceivedChunk d) = op # rest"
      using assms(2) ev by (auto simp: leecher_round_def split: list.splits)
    let ?d = "d\<lparr>pl_notifyReceivedChunk := (pl_notifyReceivedChunk d)\<lparr>wk_tasks := rest\<rparr>\<rparr>"
    have ok: "window_ok ?d" "window_ok (PeerLeecher_Terminate ?d)" using assms(1) by (simp_all add: window_ok_def PeerLeecher_Terminate_def)
    have "window_ok (PeerLeecher_routine cb app (?d\<lparr>pl_processingChunks := pl_processingChunks ?d @ [op]\<rparr>))"
      if "length (pl_processingChunks ?d) < dc_ParallelChunksDownload (pl_cfg ?d) * 2"
      using ok(1) that by (intro routine_ok(1)) (simp add: window_ok_def)
    then show ?thesis
      using assms(2) ev ChunkReceived q ok by (auto simp: leecher_round_def Let_def split: if_splits)
  qed
qed

fun leecher_run :: "('a, 'id) EpochDownloaderCallbacks \<Rightarrow> ((leecher_event \<times> 'a) + 'id) list \<Rightarrow> 'id BasePeerLeecher \<Rightarrow> 'id BasePeerLeecher option" where
  "leecher_run cb [] d = Some d"
| "leecher_run cb (Inl ev # evs) d = (case leecher_round cb ev d of None \<Rightarrow> None | Some d1 \<Rightarrow> leecher_run cb evs d1)"
| "leecher_run cb (Inr i # evs) d = (case NotifyChunkReceived False i d of None \<Rightarrow> None | Some (_, d1) \<Rightarrow> leecher_run cb evs d1)"

lemma run_window: "leecher_run cb evs d0 = Some d \<Longrightarrow> window_ok d0 \<Longrightarrow> window_ok d"
proof (induction cb evs d0 rule: leecher_run.induct)
  case (2 cb ev evs d0)
  then obtain d1 where d1: "leecher_round cb ev d0 = Some d1" "leecher_run cb evs d1 = Some d" by (auto split: option.splits)
  then show ?case using 2(1) [OF d1] round_ok [OF 2(3) d1(1)] by blast
next
  case (3 cb i evs d0)
  then show ?case by (auto simp: NotifyChunkReceived_def window_ok_def split: option.splits)
qed simp

text \<open>
  In every run the leecher has requested at most \<^verbatim>\<open>ParallelChunksDownload\<close> chunks more than were processed, as many
  as it has counted (in 32 bits), and keeps at most twice as many unprocessed ones. A tick while it is neither done nor suspended
  forgets exactly the processed chunks and fills the window up.
\<close>

theorem leecher_window:
  assumes "leecher_run cb evs (PeerLeecher_New cfg) = Some d"
  shows "window_ok d"
    "\<not> dl_Done cb app \<Longrightarrow> \<not> dl_Suspend cb app \<Longrightarrow> leecher_round cb (Tick, app) d = Some d' \<Longrightarrow>
      pl_processingChunks d' = filter (\<lambda>i. \<not> dl_IsProcessed cb app i) (pl_processingChunks d) \<and>
      pl_totalRequested d' = pl_totalProcessed d' + int (dc_ParallelChunksDownload (pl_cfg d'))"
proof -
  show ok: "window_ok d" using run_window [OF assms] by (simp add: PeerLeecher_New_def window_ok_def)
  let ?s = "sweepProcessedChunks cb app d"
  have "pl_processingChunks (tryToSync cb app ?s) = pl_processingChunks ?s" "pl_totalProcessed (tryToSync cb app ?s) = pl_totalProcessed ?s"
    by (simp_all add: tryToSync_def Let_def)
  then show "pl_processingChunks d' = filter (\<lambda>i. \<not> dl_IsProcessed cb app i) (pl_processingChunks d) \<and>
      pl_totalRequested d' = pl_totalProcessed d' + int (dc_ParallelChunksDownload (pl_cfg d'))"
    if "\<not> dl_Done cb app" "\<not> dl_Suspend cb app" "leecher_round cb (Tick, app) d = Some d'"
    using that sweepProcessedChunks_ok [OF ok, of cb app] tryToSync_ok [of ?s cb app] by (auto simp: leecher_round_def PeerLeecher_routine_def)
qed

section \<open>A removed peer\<close>

text \<open>
  Removing the peer of the ongoing session selects the next peer before the removed one is forgotten, so an application that
  takes any known peer starts its next session with the removed peer.
\<close>

definition first_peer_callbacks :: "string option leecher_Callbacks" where
  "first_peer_callbacks = \<lparr>lc_SelectSessionPeerCandidates = (\<lambda>peers _. if ''a'' \<in> peers then [''a''] else []), lc_ShouldTerminateSession = (\<lambda>_. False),
    lc_StartSession = (\<lambda>candidates _. Some (hd candidates)), lc_TerminateSession = (\<lambda>_. None), lc_OngoingSession = (\<lambda>s. s \<noteq> None),
    lc_OngoingSessionPeer = (\<lambda>s. case s of None \<Rightarrow> [] | Some p \<Rightarrow> p)\<rparr>"

lemma removed_peer_chosen:
  "let d = Leecher_UnregisterPeer ''a'' (Leecher_Routine (Leecher_RegisterPeer ''a'' (Leecher_New first_peer_callbacks None)))
   in bl_Peers d = {} \<and> bl_app d = Some ''a''"
  by (simp add: Leecher_UnregisterPeer_def Leecher_Routine_def Leecher_RegisterPeer_def Leecher_New_def first_peer_callbacks_def Let_def)

end
