(* ===== verification/Spec2Isabelle.thy ===== *)
theory Spec2Isabelle
  imports Event_Check Vec_Index Buffered_Node Table Synced_Pool_Correct Quorum_Indexer_Correct Doublesign Scaling
    Dag_Processor_Properties Stream_Seeder_Properties Stream_Leecher
begin

text \<open>
  A verification development of lachesis-base, the Go library of the Lachesis aBFT consensus.

  \<^bold>\<open>The program.\<close> Validators exchange events; an event names its parents, so that events form a graph. The gossip layer
  accepts events of peers under a semaphore (\<^verbatim>\<open>gossip/dagprocessor\<close>), checks them (\<^verbatim>\<open>eventcheck\<close>), and keeps them in a
  buffer until their parents are there (\<^verbatim>\<open>gossip/dagordering\<close>); whole ranges of items are streamed between peers
  (\<^verbatim>\<open>gossip/basestream\<close>). A complete event goes to the consensus (\<^verbatim>\<open>abft\<close>): the vector engine (\<^verbatim>\<open>vecengine\<close>, \<^verbatim>\<open>vecfc\<close>)
  indexes what it observes, the orderer computes its frame and stores it as a root, an election (\<^verbatim>\<open>abft/election\<close>) decides
  the Atropos of each frame from the forkless causes among roots, and the events that an Atropos observes are confirmed
  and applied as a block. A node that emits events chooses their parents (\<^verbatim>\<open>emitter/ancestor\<close>) and waits when another
  instance of it may run (\<^verbatim>\<open>emitter/doublesign\<close>). Everything is stored in key-value stores (\<^verbatim>\<open>kvdb\<close>) whose writes are collected
  and flushed together.

  \<^bold>\<open>Theories and sources.\<close>
  \<^item> \<^verbatim>\<open>Prelude\<close>: machine integers, panics, generic facts. \<^verbatim>\<open>Outcome\<close>: operations that fail or do not return.
  \<^item> \<^verbatim>\<open>Bytes\<close>: \<^verbatim>\<open>common/bigendian\<close>, \<^verbatim>\<open>common/littleendian\<close>, \<^verbatim>\<open>inter/idx\<close>, \<^verbatim>\<open>hash\<close>. \<^verbatim>\<open>Dag\<close>: \<^verbatim>\<open>inter/dag\<close>.
    \<^verbatim>\<open>Event_Check\<close>: \<^verbatim>\<open>eventcheck\<close>.
  \<^item> \<^verbatim>\<open>Quorum_System\<close> (contract), \<^verbatim>\<open>Pos\<close>: \<^verbatim>\<open>inter/pos\<close>, the validator group, its builders and the weight counter.
  \<^item> \<^verbatim>\<open>Wlru\<close>: \<^verbatim>\<open>utils/simplewlru\<close>, \<^verbatim>\<open>utils/wlru\<close>, and the contract of a read cache.
  \<^item> \<^verbatim>\<open>Vectors\<close>, \<^verbatim>\<open>Graph_Walk\<close>, \<^verbatim>\<open>Vec_Engine\<close>: \<^verbatim>\<open>vecfc/vector*.go\<close>, \<^verbatim>\<open>vecengine\<close>, \<^verbatim>\<open>vecfc/forkless_cause.go\<close>; \<^verbatim>\<open>Dag_Graph\<close> is the
    abstract level; \<^verbatim>\<open>Vec_Branches\<close>, \<^verbatim>\<open>Vec_Highest\<close>, \<^verbatim>\<open>Vec_Lowest\<close>, \<^verbatim>\<open>Vec_Correct\<close>, \<^verbatim>\<open>Vec_Properties\<close> the refinement; \<^verbatim>\<open>Vec_Index\<close> the
    caches of \<^verbatim>\<open>vecfc/index.go\<close> and \<^verbatim>\<open>store_vectors.go\<close>.
  \<^item> \<^verbatim>\<open>Voting\<close> (contract), \<^verbatim>\<open>Election\<close>, \<^verbatim>\<open>Election_Correct\<close>: \<^verbatim>\<open>abft/election\<close>.
  \<^item> \<^verbatim>\<open>Abft_Store\<close>: \<^verbatim>\<open>abft/store*.go\<close>. \<^verbatim>\<open>Orderer\<close>: \<^verbatim>\<open>abft/orderer.go\<close>, \<^verbatim>\<open>event_processing.go\<close>, \<^verbatim>\<open>frame_decide.go\<close>,
    \<^verbatim>\<open>bootstrap.go\<close>; its correctness in \<^verbatim>\<open>Orderer_Frames\<close>, \<^verbatim>\<open>Dag_Frames\<close>, \<^verbatim>\<open>Orderer_Run\<close>, \<^verbatim>\<open>Orderer_Correct\<close>.
  \<^item> \<^verbatim>\<open>Lachesis\<close>: \<^verbatim>\<open>abft/lachesis.go\<close>, \<^verbatim>\<open>traversal.go\<close>, \<^verbatim>\<open>indexed_lachesis.go\<close>, \<^verbatim>\<open>lachesis\<close>; \<^verbatim>\<open>Lachesis_Correct\<close> interprets the
    interface of the orderer; \<^verbatim>\<open>Consensus\<close>, \<^verbatim>\<open>Consensus_Properties\<close>: whole nodes; \<^verbatim>\<open>Buffered_Node\<close>: nodes behind buffers.
  \<^item> \<^verbatim>\<open>Event_Buffer\<close>, \<^verbatim>\<open>Event_Buffer_Correct\<close>, \<^verbatim>\<open>Event_Buffer_Properties\<close>: \<^verbatim>\<open>gossip/dagordering\<close>. \<^verbatim>\<open>Data_Semaphore\<close>:
    \<^verbatim>\<open>utils/datasemaphore\<close>. \<^verbatim>\<open>Dag_Processor\<close> and its two companions: \<^verbatim>\<open>gossip/dagprocessor\<close>, \<^verbatim>\<open>utils/workers\<close>.
  \<^item> \<^verbatim>\<open>Stream_Seeder\<close> and its two companions: \<^verbatim>\<open>gossip/basestream/basestreamseeder\<close>. \<^verbatim>\<open>Stream_Leecher\<close>:
    \<^verbatim>\<open>gossip/basestream/basestreamleecher\<close>.
  \<^item> \<^verbatim>\<open>Quorum_Indexer\<close>, \<^verbatim>\<open>Quorum_Indexer_Correct\<close>: \<^verbatim>\<open>emitter/ancestor\<close>, \<^verbatim>\<open>utils/wmedian\<close>. \<^verbatim>\<open>Doublesign\<close>: \<^verbatim>\<open>emitter/doublesign\<close>.
    \<^verbatim>\<open>Scaling\<close>: \<^verbatim>\<open>utils/piecefunc\<close>, \<^verbatim>\<open>utils/cachescale\<close>.
  \<^item> \<^verbatim>\<open>Kvdb\<close> (interfaces and contracts), \<^verbatim>\<open>Flushable\<close>, \<^verbatim>\<open>Flushable_Tree\<close>, \<^verbatim>\<open>Flushable_Iterator\<close>, \<^verbatim>\<open>Flushable_Correct\<close>,
    \<^verbatim>\<open>Flushable_Properties\<close>, \<^verbatim>\<open>Memorydb\<close>, \<^verbatim>\<open>Table\<close>, \<^verbatim>\<open>Synced_Pool\<close>, \<^verbatim>\<open>Synced_Pool_Correct\<close>: \<^verbatim>\<open>kvdb\<close>, \<^verbatim>\<open>kvdb/flushable\<close>,
    \<^verbatim>\<open>kvdb/devnulldb\<close>, \<^verbatim>\<open>kvdb/memorydb\<close>, \<^verbatim>\<open>kvdb/table\<close>.

  \<^bold>\<open>How the code is translated.\<close> A definition has the name of the Go function, with a prefix for its type where names repeat. A
  structure is a record, a \<^verbatim>\<open>uint32\<close> or \<^verbatim>\<open>uint64\<close> a word that wraps, a byte slice that may be nil an optional list. A method that
  changes its receiver returns the new one. Errors and panics are values. Where the order of iteration over a Go map, the case that
  a \<^verbatim>\<open>select\<close> takes, or the steps of other goroutines matter, they are arguments and the theorems hold for all of them. Callbacks
  of the application are functions on its state. Packages from elsewhere (the red-black tree, \<^verbatim>\<open>sort.Slice\<close>, RLP, the trimming of leading zeroes) are
  parameters with what their documentation promises.

  \<^bold>\<open>What is shown.\<close>
  \<^item> Validators: building a group is independent of map order, quorums intersect outside any third, counters detect quorums.
  \<^item> Vector engine: adding checked events never fails and ends, forkless cause and the merged vector are those of the graph, also
    through the caches and after dropped changes; a fork never has two forkless causes.
  \<^item> Election: agreement, absence of the error results, and decisions that reach every node.
  \<^item> Orderer and consensus: processing the next event ends without error, frames are decided in order, blocks confirm each event
    once and name exactly the cheaters, and nodes with any orders of arrival apply the same Atropoi, also behind buffers.
  \<^item> Gossip: events are processed once and parents first, whatever is pushed is released or buffered, the semaphore is balanced
    over whole tasks, ordered tasks keep their order, streams are complete and in order, the window of a leecher is bounded.
  \<^item> Emitter: medians of a quorum and best parents; the exact wait before emitting.
  \<^item> Stores: flushable stores and tables are maps, flushing moves writes unseen, and a failed flush of a pool is noticed.

  \<^bold>\<open>Recursion and fuel.\<close> Loops that may run forever are partial functions with the value \<^const>\<open>None\<close>, and the theorems show that they
  return. The recursion of \<^verbatim>\<open>pushEvent\<close> takes its depth as an argument: two more than the number of buffered events is enough,
  because each level connects another one of them. Bounds in the hypotheses (fewer than \<open>2 ^ 32\<close> events, sizes below \<open>2 ^ 64\<close>, buffer limits
  below the fixed capacity 2147483647 of the list) keep counters of the code from wrapping.

  \<^bold>\<open>Not modelled.\<close> The stores over the third-party packages leveldb and pebble with their files (\<^verbatim>\<open>kvdb/leveldb\<close>, \<^verbatim>\<open>kvdb/pebble\<close>): a
  store with the contract of \<^verbatim>\<open>Kvdb\<close> stands for them. Thin wrappers and producers of stores (\<^verbatim>\<open>batched\<close>, \<^verbatim>\<open>fallible\<close>, \<^verbatim>\<open>nokeyiserr\<close>,
  \<^verbatim>\<open>readonlystore\<close>, \<^verbatim>\<open>skiperrors\<close>, \<^verbatim>\<open>skipkeys\<close>, \<^verbatim>\<open>synced\<close>, \<^verbatim>\<open>cachedproducer\<close>, \<^verbatim>\<open>flaggedproducer\<close>, \<^verbatim>\<open>multidb\<close>, the memory producer) and
  the reflection of \<^verbatim>\<open>kvdb/table/reflect.go\<close>. The fetcher of announced items (\<^verbatim>\<open>gossip/itemsfetcher\<close>), which consists of timers and random choices. The
  priority queue \<^verbatim>\<open>common/prque\<close>, which nothing uses. Test helpers (\<^verbatim>\<open>inter/dag/tdag\<close>), text output and names for logs, random strategies,
  floating-point scaling, configuration defaults, and the start of goroutines, tickers and locks: operations that hold a lock are
  atomic. The partly modelled components leave out constructors and configuration of the vector index and of the store, and the text
  forms of hashes.
\<close>

end
